(* ===== verification/Prelude.thy ===== *)
theory Prelude
  imports Main "HOL-Library.Word" "HOL-Library.Multiset"
begin

unbundle bit_operations_syntax

text \<open>
  Shared vocabulary of the development: the machine integer types of the C and C++ sources, byte
  memories, decimal rendering as done by the printf family, and the strict-weak-order interface that
  every comparator handed to the standard sorting algorithms has to satisfy.
\<close>

section \<open>Machine types\<close>

type_synonym u8 = "8 word"
type_synonym u16 = "16 word"
type_synonym u32 = "32 word"
type_synonym u64 = "64 word"

text \<open>A flat byte-addressed memory, as seen by code that works on raw pointers.\<close>

type_synonym memory = "u64 \<Rightarrow> u8"

abbreviation INT_MAX :: int where
  "INT_MAX \<equiv> 2147483647"

section \<open>Collections of facts\<close>

named_theorems bounds_simps \<open>length and range facts of rendered numbers and buffers\<close>
named_theorems invar_intros \<open>preservation of component invariants\<close>

section \<open>Words\<close>

lemma unat_lt_64: "unat (x :: u64) < 18446744073709551616"
  using unsigned_less [of x] by simp

lemma unat_lt_32: "unat (x :: u32) < 4294967296"
  using unsigned_less [of x] by simp

lemma unat_lt_8: "unat (x :: u8) < 256"
  using unsigned_less [of x] by simp

lemma unat_plus_no_wrap:
  "unat (x :: 'a::len word) + unat y < 2 ^ LENGTH('a) \<Longrightarrow> unat (x + y) = unat x + unat y"
  by (simp add: unat_word_ariths)

lemma unat_minus_le:
  "y \<le> (x :: 'a::len word) \<Longrightarrow> unat (x - y) = unat x - unat y"
  by (rule unat_sub)

lemma unat_of_nat_small: "n < 2 ^ LENGTH('a) \<Longrightarrow> unat (word_of_nat n :: 'a::len word) = n"
  by (simp add: unsigned_of_nat take_bit_nat_eq_self)

lemma unat_add_64: "unat (x + y :: u64) =
    (if unat x + unat y < 18446744073709551616 then unat x + unat y else unat x + unat y - 18446744073709551616)"
  using unat_lt_64 [of x] unat_lt_64 [of y] by (simp add: unat_word_ariths mod_if)

lemma bit_below: "bit (x :: 'a::len word) n \<Longrightarrow> unat x < 2 ^ k \<Longrightarrow> n < k"
proof (rule ccontr)
  assume a: "bit x n" "unat x < 2 ^ k" "\<not> n < k"
  then have "take_bit k (unat x) = unat x" by (simp add: take_bit_nat_eq_self)
  moreover have "bit (unat x) n" using a(1) by (simp add: bit_unsigned_iff bit_imp_le_length)
  ultimately show False using a(3) by (metis bit_take_bit_iff)
qed

lemma word_of_nat_inj:
  "i < 2 ^ LENGTH('a) \<Longrightarrow> j < 2 ^ LENGTH('a) \<Longrightarrow>
     (word_of_nat i = (word_of_nat j :: 'a::len word)) = (i = j)"
  by (simp add: word_of_nat_eq_iff take_bit_nat_eq_self)

section \<open>Lists and maps\<close>

lemma set_butlast_update:
  "i < length xs \<Longrightarrow> set (butlast (xs[i := last xs])) \<subseteq> set xs"
  by (cases xs rule: rev_cases)
     (auto simp: butlast_list_update list_update_append dest: set_update_subset_insert [THEN subsetD] split: if_splits)

lemma map_list_update_swap_last:
  "i < length xs \<Longrightarrow> mset (butlast (xs[i := last xs])) = mset xs - {#xs ! i#}"
proof (cases xs rule: rev_cases)
  case (snoc ys y)
  assume "i < length xs"
  then show ?thesis using snoc
    by (cases "i = length ys") (auto simp: butlast_list_update list_update_append mset_update nth_append)
qed simp

lemma length_dropWhile_less: "xs \<noteq> [] \<Longrightarrow> P (hd xs) \<Longrightarrow> length (dropWhile P xs) < length xs"
  by (cases xs) (auto simp: le_imp_less_Suc length_dropWhile_le)

lemma takeWhile_all: "\<forall>x \<in> set xs. P x \<Longrightarrow> takeWhile P (xs @ y # ys) = xs @ takeWhile P (y # ys)"
  by (induction xs) auto

lemma dropWhile_all: "\<forall>x \<in> set xs. P x \<Longrightarrow> dropWhile P (xs @ ys) = dropWhile P ys"
  by (induction xs) auto

section \<open>Decimal rendering\<close>

definition digit_char :: "nat \<Rightarrow> char" where
  "digit_char d = char_of (48 + d)"

fun dec_digits :: "nat \<Rightarrow> string" where
  "dec_digits n = (if n < 10 then [digit_char n] else dec_digits (n div 10) @ [digit_char (n mod 10)])"

declare dec_digits.simps [simp del]

text \<open>What \<open>%ld\<close> prints for a 64-bit argument: the two's complement value.\<close>

definition show_ld :: "u64 \<Rightarrow> string" where
  "show_ld x = (if sint x < 0 then CHR ''-'' # dec_digits (nat (- sint x)) else dec_digits (nat (sint x)))"

text \<open>What \<open>%d\<close> prints for a 32-bit argument.\<close>

definition show_d :: "u32 \<Rightarrow> string" where
  "show_d x = (if sint x < 0 then CHR ''-'' # dec_digits (nat (- sint x)) else dec_digits (nat (sint x)))"

lemma dec_digits_nonempty [simp]: "dec_digits n \<noteq> []"
  by (subst dec_digits.simps) simp

lemma length_dec_digits: "n < 10 ^ k \<Longrightarrow> 0 < k \<Longrightarrow> length (dec_digits n) \<le> k"
proof (induction n arbitrary: k rule: dec_digits.induct)
  case (1 n)
  show ?case
  proof (cases "n < 10")
    case True
    with "1.prems" show ?thesis by (subst dec_digits.simps) simp
  next
    case False
    with "1.prems" have "1 < k" by (cases "k = 1") auto
    then obtain j where k: "k = Suc j" and j: "0 < j" by (cases k) auto
    from "1.prems" k have "n div 10 < 10 ^ j" by (simp add: less_mult_imp_div_less mult.commute)
    with "1.IH" False j have "length (dec_digits (n div 10)) \<le> j" by blast
    with False k show ?thesis by (subst dec_digits.simps) simp
  qed
qed

lemma length_dec_digits_ge: "10 ^ k \<le> n \<Longrightarrow> k < length (dec_digits n)"
proof (induction k arbitrary: n)
  case (Suc k)
  then have "10 ^ k \<le> n div 10" by (simp add: less_eq_div_iff_mult_less_eq mult.commute)
  with Suc.IH have "k < length (dec_digits (n div 10))" by blast
  moreover have "\<not> n < 10" using Suc.prems by (metis le_trans not_less one_le_numeral one_le_power power_Suc mult_le_mono2 mult.right_neutral)
  ultimately show ?case by (subst dec_digits.simps) simp
qed simp

lemma dec_digits_chars: "c \<in> set (dec_digits n) \<Longrightarrow> 48 \<le> (of_char c :: nat) \<and> (of_char c :: nat) \<le> 57"
proof (induction n rule: dec_digits.induct)
  case (1 n)
  have d: "48 \<le> (of_char (digit_char k) :: nat) \<and> (of_char (digit_char k) :: nat) \<le> 57" if "k < 10" for k
    using that by (simp add: digit_char_def of_char_of)
  show ?case
  proof (cases "n < 10")
    case True
    with "1.prems" d show ?thesis by (subst (asm) dec_digits.simps) auto
  next
    case False
    from "1.prems" False have "c \<in> set (dec_digits (n div 10)) \<or> c = digit_char (n mod 10)"
      by (subst (asm) dec_digits.simps) auto
    with "1.IH" False d [of "n mod 10"] show ?thesis by auto
  qed
qed

lemma length_show_ld [bounds_simps]: "length (show_ld x) \<le> 20"
proof -
  have lo: "- (2 ^ 63) \<le> sint x" and hi: "sint x < 2 ^ 63"
    using sint_range_size [of x] by (simp_all add: word_size)
  from lo have "nat (- sint x) < 10 ^ 19" by (simp add: nat_less_iff)
  then have "length (dec_digits (nat (- sint x))) \<le> 19" by (rule length_dec_digits) simp
  moreover from hi have "nat (sint x) < 10 ^ 19" by (auto simp: nat_less_iff)
  then have "length (dec_digits (nat (sint x))) \<le> 19" by (rule length_dec_digits) simp
  ultimately show ?thesis by (simp add: show_ld_def)
qed

lemma length_show_d [bounds_simps]: "length (show_d x) \<le> 11"
proof -
  have lo: "- (2 ^ 31) \<le> sint x" and hi: "sint x < 2 ^ 31"
    using sint_range_size [of x] by (simp_all add: word_size)
  from lo have "nat (- sint x) < 10 ^ 10" by (simp add: nat_less_iff)
  then have "length (dec_digits (nat (- sint x))) \<le> 10" by (rule length_dec_digits) simp
  moreover from hi have "nat (sint x) < 10 ^ 10" by (auto simp: nat_less_iff)
  then have "length (dec_digits (nat (sint x))) \<le> 10" by (rule length_dec_digits) simp
  ultimately show ?thesis by (simp add: show_d_def)
qed

section \<open>Reading numbers\<close>

definition is_ws :: "char \<Rightarrow> bool" where
  "is_ws c \<longleftrightarrow> c = CHR '' '' \<or> (9 \<le> (of_char c :: nat) \<and> (of_char c :: nat) \<le> 13)"

text \<open>A C string ends at the first NUL of the characters handed on.\<close>

definition c_str :: "string \<Rightarrow> string" where
  "c_str s = takeWhile (\<lambda>c. c \<noteq> CHR 0x00) s"

definition is_dec_digit :: "char \<Rightarrow> bool" where
  "is_dec_digit c \<longleftrightarrow> 48 \<le> (of_char c :: nat) \<and> (of_char c :: nat) \<le> 57"

fun dec_value :: "nat \<Rightarrow> string \<Rightarrow> nat" where
  "dec_value acc [] = acc"
| "dec_value acc (c # cs) = (if is_dec_digit c then dec_value (10 * acc + (of_char c - 48)) cs else acc)"

lemma is_dec_digit_dec_digits: "c \<in> set (dec_digits n) \<Longrightarrow> is_dec_digit c"
  using dec_digits_chars [of c n] by (simp add: is_dec_digit_def)

lemma dec_value_append:
  "\<forall>c \<in> set xs. is_dec_digit c \<Longrightarrow> dec_value acc (xs @ ys) = dec_value (dec_value acc xs) ys"
  by (induction xs arbitrary: acc) auto

lemma dec_value_dec_digits: "dec_value 0 (dec_digits n) = n"
proof (induction n rule: dec_digits.induct)
  case (1 n)
  have d: "is_dec_digit (digit_char k)" "of_char (digit_char k) - 48 = k" if "k < 10" for k :: nat
    using that by (simp_all add: digit_char_def is_dec_digit_def of_char_of)
  show ?case
  proof (cases "n < 10")
    case True
    then show ?thesis by (subst dec_digits.simps) (simp add: d)
  next
    case False
    then show ?thesis using 1 d [of "n mod 10"]
      by (subst dec_digits.simps) (simp add: dec_value_append is_dec_digit_dec_digits)
  qed
qed

section \<open>Comparators and sorting\<close>

text \<open>
  \<open>std::sort\<close> and \<open>std::stable_sort\<close> are used with comparators written in the sources. The model
  sorts by stable insertion; it is one of the results \<open>std::sort\<close> may give and the result
  \<open>std::stable_sort\<close> gives. The library requires the comparator to be a strict weak order, which is
  the interface below.
\<close>

fun std_insert :: "('a \<Rightarrow> 'a \<Rightarrow> bool) \<Rightarrow> 'a \<Rightarrow> 'a list \<Rightarrow> 'a list" where
  "std_insert lt x [] = [x]"
| "std_insert lt x (y # ys) = (if lt y x then y # std_insert lt x ys else x # y # ys)"

fun std_sort :: "('a \<Rightarrow> 'a \<Rightarrow> bool) \<Rightarrow> 'a list \<Rightarrow> 'a list" where
  "std_sort lt [] = []"
| "std_sort lt (x # xs) = std_insert lt x (std_sort lt xs)"

lemma mset_std_insert [simp]: "mset (std_insert lt x xs) = add_mset x (mset xs)"
  by (induction xs) auto

lemma mset_std_sort [simp]: "mset (std_sort lt xs) = mset xs"
  by (induction xs) auto

lemma set_std_sort [simp]: "set (std_sort lt xs) = set xs"
  using mset_std_sort [of lt xs] by (metis set_mset_mset)

lemma length_std_sort [simp]: "length (std_sort lt xs) = length xs"
  using mset_std_sort [of lt xs] by (metis size_mset)

locale strict_weak_order =
  fixes lt :: "'a \<Rightarrow> 'a \<Rightarrow> bool"
  assumes irrefl: "\<not> lt x x"
    and trans: "lt x y \<Longrightarrow> lt y z \<Longrightarrow> lt x z"
    and incomp_trans: "\<not> lt x y \<Longrightarrow> \<not> lt y z \<Longrightarrow> \<not> lt x z"
begin

lemma asym: "lt x y \<Longrightarrow> \<not> lt y x"
  using irrefl trans by blast

lemma sorted_std_insert:
  "sorted_wrt (\<lambda>a b. \<not> lt b a) xs \<Longrightarrow> sorted_wrt (\<lambda>a b. \<not> lt b a) (std_insert lt x xs)"
proof (induction xs)
  case (Cons y ys)
  have mem: "set (std_insert lt x ys) = insert x (set ys)"
    using mset_std_insert [of lt x ys] by (metis set_mset_add_mset_insert set_mset_mset)
  from Cons show ?case
    by (auto simp: mem dest: asym incomp_trans)
qed simp

lemma sorted_std_sort: "sorted_wrt (\<lambda>a b. \<not> lt b a) (std_sort lt xs)"
  by (induction xs) (auto intro: sorted_std_insert)

text \<open>Equivalent elements keep their order: the sort is stable.\<close>

lemma filter_std_insert:
  "sorted_wrt (\<lambda>a b. \<not> lt b a) xs \<Longrightarrow>
   filter (\<lambda>y. \<not> lt y k \<and> \<not> lt k y) (std_insert lt x xs) =
   filter (\<lambda>y. \<not> lt y k \<and> \<not> lt k y) (x # xs)"
proof (induction xs)
  case (Cons y ys)
  show ?case
  proof (cases "lt y x")
    case True
    then have "\<not> ((\<not> lt y k \<and> \<not> lt k y) \<and> (\<not> lt x k \<and> \<not> lt k x))"
      using incomp_trans by blast
    with Cons True show ?thesis by auto
  qed simp
qed simp

lemma std_sort_stable:
  "filter (\<lambda>y. \<not> lt y k \<and> \<not> lt k y) (std_sort lt xs) =
   filter (\<lambda>y. \<not> lt y k \<and> \<not> lt k y) xs"
  by (induction xs) (auto simp: filter_std_insert sorted_std_sort)

end

end
