(* ===== verification/Shard.thy ===== *)
theory Shard
  imports Prelude
begin

unbundle bit_operations_syntax

text \<open>
  The sharding helpers of the distributed store (\<open>distributed-store/common/common.{h,cc}\<close>): shards as
  closed key intervals over 32-bit keys, their size, splitting, ordering and overlap classification,
  and the key and value tokenisers. \<open>assert\<close>, \<open>throw\<close> and \<open>std::stoi\<close> failures are values of
  \<open>shard_error\<close>.
\<close>

section \<open>Data\<close>

record shard =
  lower :: u32
  upper :: u32

datatype OverlapStatus = NO_OVERLAP | OVERLAP_START | OVERLAP_END | COMPLETELY_CONTAINS | COMPLETELY_CONTAINED

datatype shard_error = AssertionFailed | BadOverlapCase | InvalidArgument | OutOfRange

definition MIN_KEY :: u32 where
  "MIN_KEY = 0"

definition MAX_KEY :: u32 where
  "MAX_KEY = 1000"

definition shard_eq :: "shard \<Rightarrow> shard \<Rightarrow> bool" where
  "shard_eq s rhs \<longleftrightarrow> lower s = lower rhs \<and> upper s = upper rhs"

section \<open>Operations\<close>

text \<open>The interval arithmetic is done on \<open>unsigned int\<close> and only then widened to \<open>size_t\<close>.\<close>

definition shard_size :: "shard \<Rightarrow> u64" where
  "shard_size s = ucast (upper s - lower s + 1)"

definition split_shard :: "shard \<Rightarrow> shard_error + shard \<times> shard" where
  "split_shard s =
     (if lower s < upper s then
        (let midpoint = lower s + (upper s - lower s) div 2
         in Inr (\<lparr>lower = lower s, upper = midpoint\<rparr>, \<lparr>lower = midpoint + 1, upper = upper s\<rparr>))
      else Inl AssertionFailed)"

definition lower_less :: "shard \<Rightarrow> shard \<Rightarrow> bool" where
  "lower_less a b \<longleftrightarrow> lower a < lower b"

definition size_less :: "shard \<Rightarrow> shard \<Rightarrow> bool" where
  "size_less a b \<longleftrightarrow> shard_size a < shard_size b"

definition size_greater :: "shard \<Rightarrow> shard \<Rightarrow> bool" where
  "size_greater a b \<longleftrightarrow> shard_size b < shard_size a"

definition sortAscendingInterval :: "shard list \<Rightarrow> shard list" where
  "sortAscendingInterval shards = std_sort lower_less shards"

definition sortAscendingSize :: "shard list \<Rightarrow> shard list" where
  "sortAscendingSize shards = std_sort size_less shards"

definition sortDescendingSize :: "shard list \<Rightarrow> shard list" where
  "sortDescendingSize shards = std_sort size_greater shards"

text \<open>
  The loop adds \<open>size(vec)\<close>, the argument vector, and not \<open>size(s)\<close>: argument-dependent lookup
  finds \<open>std::size\<close>, the number of elements.
\<close>

definition shardRangeSize :: "shard list \<Rightarrow> u64" where
  "shardRangeSize vec = fold (\<lambda>s tot. tot + word_of_nat (length vec)) vec 0"

definition get_overlap :: "shard \<Rightarrow> shard \<Rightarrow> shard_error + OverlapStatus" where
  "get_overlap a b =
     (if upper a < lower b \<or> upper b < lower a then Inr NO_OVERLAP
      else if lower b \<le> lower a \<and> upper a \<le> upper b then Inr COMPLETELY_CONTAINED
      else if lower a < lower b \<and> upper a > upper b then Inr COMPLETELY_CONTAINS
      else if lower a \<ge> lower b \<and> upper a > upper b then Inr OVERLAP_START
      else if lower a < lower b \<and> upper a \<le> upper b then Inr OVERLAP_END
      else Inl BadOverlapCase)"

section \<open>Tokenising\<close>


text \<open>
  \<open>std::sregex_token_iterator\<close> with submatch \<open>-1\<close> over \<open>\s+\<close>: the pieces between the matches; the
  piece after the last match is produced only when it is not empty.
\<close>

function split_ws :: "string \<Rightarrow> string list" where
  "split_ws s =
     (let tok = takeWhile (\<lambda>c. \<not> is_ws c) s; rest = dropWhile (\<lambda>c. \<not> is_ws c) s
      in if rest = [] then [tok]
         else let rest' = dropWhile is_ws rest
              in if rest' = [] then [tok] else tok # split_ws rest')"
  by pat_completeness auto
termination
proof (relation "measure length", goal_cases)
  case (2 s tok rest rest')
  then have "is_ws (hd rest)" using hd_dropWhile [of "\<lambda>c. \<not> is_ws c" s] by simp
  with 2 have "length rest' < length rest" by (simp add: length_dropWhile_less)
  also have "length rest \<le> length s" using 2 by (simp add: length_dropWhile_le)
  finally show ?case by simp
qed simp

declare split_ws.simps [simp del]

text \<open>\<open>strtok_r\<close> in a loop: skip delimiters, stop at the end, take up to the next delimiter.\<close>

function strtok_all :: "char set \<Rightarrow> string \<Rightarrow> string list" where
  "strtok_all delim s =
     (let s1 = dropWhile (\<lambda>c. c \<in> delim) s
      in if s1 = [] then []
         else takeWhile (\<lambda>c. c \<notin> delim) s1 # strtok_all delim (dropWhile (\<lambda>c. c \<notin> delim) s1))"
  by pat_completeness auto
termination
proof (relation "measure (\<lambda>(delim, s). length s)", goal_cases)
  case (2 delim s s1)
  then have "hd s1 \<notin> delim" using hd_dropWhile [of "\<lambda>c. c \<in> delim" s] by simp
  with 2 have "length (dropWhile (\<lambda>c. c \<notin> delim) s1) < length s1" by (simp add: length_dropWhile_less)
  also have "length s1 \<le> length s" using 2 by (simp add: length_dropWhile_le)
  finally show ?case by simp
qed simp

declare strtok_all.simps [simp del]

definition parse_value :: "string \<Rightarrow> string \<Rightarrow> string list" where
  "parse_value val delim = strtok_all (set (c_str delim)) (c_str val)"

text \<open>\<open>std::stoi\<close>: leading white space, an optional sign, decimal digits, range of \<open>int\<close>.\<close>

definition stoi :: "string \<Rightarrow> shard_error + int" where
  "stoi s =
     (let s1 = dropWhile is_ws s;
          neg = (s1 \<noteq> [] \<and> hd s1 = CHR ''-'');
          s2 = (if s1 \<noteq> [] \<and> (hd s1 = CHR ''-'' \<or> hd s1 = CHR ''+'') then tl s1 else s1);
          v = (if neg then - int (dec_value 0 s2) else int (dec_value 0 s2))
      in if s2 = [] \<or> \<not> is_dec_digit (hd s2) then Inl InvalidArgument
         else if v < - 2147483648 \<or> v > INT_MAX then Inl OutOfRange
         else Inr v)"

definition extractID :: "string \<Rightarrow> shard_error + int" where
  "extractID key =
     (let tokens = strtok_all {CHR ''_''} (c_str key)
      in if length tokens > 1 then stoi (tokens ! 1) else Inl AssertionFailed)"

section \<open>Intervals\<close>

abbreviation keys :: "shard \<Rightarrow> u32 set" where
  "keys s \<equiv> {lower s .. upper s}"

interpretation lower_less: strict_weak_order lower_less
  by unfold_locales (auto simp: lower_less_def)

interpretation size_less: strict_weak_order size_less
  by unfold_locales (auto simp: size_less_def)

interpretation size_greater: strict_weak_order size_greater
  by unfold_locales (auto simp: size_greater_def)

text \<open>
  C18. Classification of overlaps: \<open>get_overlap\<close> never reaches its \<open>throw\<close>, and for well-formed
  shards its answer says exactly how the two key sets are related: disjoint, contained (equality
  included), properly containing on both sides, or overlapping at one end only.
\<close>

theorem get_overlap_classifies:
  assumes "lower a \<le> upper a" and "lower b \<le> upper b"
  shows "get_overlap a b =
    Inr (if keys a \<inter> keys b = {} then NO_OVERLAP
         else if keys a \<subseteq> keys b then COMPLETELY_CONTAINED
         else if lower a \<notin> keys b \<and> upper a \<notin> keys b then COMPLETELY_CONTAINS
         else if lower a \<in> keys b then OVERLAP_START
         else OVERLAP_END)"
proof -
  have "keys a \<inter> keys b = {} \<longleftrightarrow> upper a < lower b \<or> upper b < lower a"
    using assms by (auto simp: not_less)
  moreover have "keys a \<subseteq> keys b \<longleftrightarrow> lower b \<le> lower a \<and> upper a \<le> upper b"
    using assms by auto
  ultimately show ?thesis using assms by (auto simp: get_overlap_def not_less not_le)
qed

theorem get_overlap_classifies_witness:
  "get_overlap \<lparr>lower = 0, upper = 500\<rparr> \<lparr>lower = 250, upper = 1000\<rparr> = Inr OVERLAP_END"
proof -
  have h: "lower \<lparr>lower = 0, upper = 500\<rparr> \<le> upper \<lparr>lower = 0, upper = 500\<rparr>"
    "lower \<lparr>lower = 250, upper = 1000\<rparr> \<le> upper \<lparr>lower = 250, upper = 1000\<rparr>" by simp_all
  have i: "keys \<lparr>lower = 0, upper = 500\<rparr> \<inter> keys \<lparr>lower = 250, upper = 1000\<rparr> \<noteq> {}" by auto
  show ?thesis using get_overlap_classifies [OF h] i by simp
qed

lemma midpoint_facts:
  assumes "lower s < upper s"
  defines "m \<equiv> lower s + (upper s - lower s) div 2"
  shows "unat m = unat (lower s) + (unat (upper s) - unat (lower s)) div 2"
    and "lower s \<le> m" and "m < upper s" and "unat (m + 1) = unat m + 1"
proof -
  let ?l = "unat (lower s)" and ?u = "unat (upper s)"
  have lu: "?l < ?u" using assms by (simp add: word_less_nat_alt)
  have d: "unat ((upper s - lower s) div 2) = (?u - ?l) div 2"
    using assms by (simp add: unat_div unat_minus_le order_less_imp_le)
  show m: "unat m = ?l + (?u - ?l) div 2"
  proof -
    have "?l + (?u - ?l) div 2 < 4294967296" using lu unat_lt_32 [of "upper s"] by arith
    then show ?thesis unfolding m_def by (subst unat_plus_no_wrap) (simp_all add: d)
  qed
  show "lower s \<le> m" and lt: "m < upper s"
    using m lu by (simp_all add: word_le_nat_alt word_less_nat_alt)
  show "unat (m + 1) = unat m + 1"
    using lt unat_lt_32 [of "upper s"] by (subst unat_plus_no_wrap) (auto simp: word_less_nat_alt)
qed

lemma unat_shard_size:
  "unat (upper s - lower s) < 4294967295 \<Longrightarrow> unat (shard_size s) = unat (upper s - lower s) + 1"
  unfolding shard_size_def
  by (subst unsigned_ucast_eq, subst unat_plus_no_wrap) (simp_all add: take_bit_nat_eq_self)

text \<open>
  C19. Splitting a shard of at least two keys partitions its key set into two non-empty halves whose
  sizes are equal or differ by the one extra key of the first half.
\<close>

theorem split_shard_partitions:
  assumes "lower s < upper s"
  shows "\<exists>a b. split_shard s = Inr (a, b) \<and> lower a \<le> upper a \<and> lower b \<le> upper b \<and>
    keys a \<union> keys b = keys s \<and> keys a \<inter> keys b = {} \<and>
    (shard_size a = shard_size b \<or> shard_size a = shard_size b + 1)"
proof -
  define m where "m = lower s + (upper s - lower s) div 2"
  note mf = midpoint_facts [OF assms, folded m_def]
  let ?a = "\<lparr>lower = lower s, upper = m\<rparr>" and ?b = "\<lparr>lower = m + 1, upper = upper s\<rparr>"
  have split: "split_shard s = Inr (?a, ?b)" using assms by (simp add: split_shard_def Let_def m_def)
  have ivl: "x \<le> m \<longleftrightarrow> x < m + 1" for x
    using mf(4) by (auto simp: word_le_nat_alt word_less_nat_alt)
  have mle: "m + 1 \<le> upper s" using mf(3,4) by (simp add: word_le_nat_alt word_less_nat_alt)
  have "x \<in> keys ?a \<union> keys ?b \<longleftrightarrow> x \<in> keys s" for x
    using mf(2,3) mle ivl [of x] by (cases "x \<le> m") (auto simp: not_less)
  then have "keys ?a \<union> keys ?b = keys s" by blast
  moreover have "keys ?a \<inter> keys ?b = {}" using ivl by (auto simp: not_less)
  moreover have "shard_size ?a = shard_size ?b \<or> shard_size ?a = shard_size ?b + 1"
  proof -
    have d: "unat (m - lower s) = (unat (upper s) - unat (lower s)) div 2"
      and e: "unat (upper s - (m + 1)) = unat (upper s) - unat m - 1"
      using mf mle by (simp_all add: unat_minus_le)
    have sa: "unat (shard_size ?a) = unat (m - lower s) + 1"
      using unat_shard_size [of ?a] d unat_lt_32 [of "upper s"] by simp
    have sb: "unat (shard_size ?b) = unat (upper s - (m + 1)) + 1"
      using unat_shard_size [of ?b] e mf(3) unat_lt_32 [of "upper s"] by (simp add: word_less_nat_alt)
    have "unat (m - lower s) = unat (upper s - (m + 1)) \<or> unat (m - lower s) = unat (upper s - (m + 1)) + 1"
      using d e mf(1,3) unfolding word_less_nat_alt by linarith
    then have "unat (shard_size ?a) = unat (shard_size ?b) \<or> unat (shard_size ?a) = unat (shard_size ?b) + 1"
      using sa sb by auto
    moreover have "unat (shard_size ?b + 1) = unat (shard_size ?b) + 1"
      using sb unat_lt_32 [of "upper s - (m + 1)"] by (subst unat_plus_no_wrap) simp_all
    ultimately show ?thesis by (metis word_unat_eq_iff)
  qed
  ultimately show ?thesis using split mf(2) mle by force
qed

theorem split_shard_partitions_witness:
  "\<exists>a b. split_shard \<lparr>lower = MIN_KEY, upper = MAX_KEY\<rparr> = Inr (a, b) \<and> keys a \<inter> keys b = {}"
  using split_shard_partitions [of "\<lparr>lower = MIN_KEY, upper = MAX_KEY\<rparr>"]
  by (auto simp: MIN_KEY_def MAX_KEY_def)

text \<open>
  \<open>shardRangeSize\<close> does not return the number of keys in the shards: it returns the square of the
  number of shards, whatever the shards are.
\<close>

theorem shardRangeSize_is_square:
  "shardRangeSize vec = word_of_nat (length vec * length vec)"
proof -
  have "fold (\<lambda>s tot. tot + k) xs acc = acc + word_of_nat (length xs) * (k :: u64)" for k acc and xs :: "shard list"
    by (induction xs arbitrary: acc) (auto simp: algebra_simps)
  then show ?thesis by (simp add: shardRangeSize_def)
qed

section \<open>Tokens\<close>

lemma strtok_all_cases:
  "dropWhile (\<lambda>c. c \<in> delim) s = [] \<Longrightarrow> strtok_all delim s = []"
  "dropWhile (\<lambda>c. c \<in> delim) s = c # cs \<Longrightarrow>
     strtok_all delim s = (c # takeWhile (\<lambda>c. c \<notin> delim) cs) # strtok_all delim (dropWhile (\<lambda>c. c \<notin> delim) cs)"
   apply (subst strtok_all.simps, simp)
  apply (subst strtok_all.simps, simp)
  using hd_dropWhile [of "\<lambda>c. c \<in> delim" s] by auto

lemma filter_dropWhile_in: "filter (\<lambda>c. c \<notin> D) (dropWhile (\<lambda>c. c \<in> D) s) = filter (\<lambda>c. c \<notin> D) s"
  by (induction s) auto

lemma filter_takeWhile_dropWhile:
  "filter (\<lambda>c. c \<notin> D) s = takeWhile (\<lambda>c. c \<notin> D) s @ filter (\<lambda>c. c \<notin> D) (dropWhile (\<lambda>c. c \<notin> D) s)"
  by (induction s) auto

lemma strtok_all_tokens:
  "(\<forall>t \<in> set (strtok_all D s). t \<noteq> [] \<and> set t \<inter> D = {}) \<and> concat (strtok_all D s) = filter (\<lambda>c. c \<notin> D) s"
proof (induction D s rule: strtok_all.induct)
  case (1 D s)
  show ?case
  proof (cases "dropWhile (\<lambda>c. c \<in> D) s")
    case Nil
    then show ?thesis using filter_dropWhile_in [of D s] by (simp add: strtok_all_cases)
  next
    case (Cons c cs)
    then have c: "c \<notin> D" using hd_dropWhile [of "\<lambda>c. c \<in> D" s] by simp
    have IH: "(\<forall>t \<in> set (strtok_all D (dropWhile (\<lambda>c. c \<notin> D) cs)). t \<noteq> [] \<and> set t \<inter> D = {}) \<and>
      concat (strtok_all D (dropWhile (\<lambda>c. c \<notin> D) cs)) = filter (\<lambda>c. c \<notin> D) (dropWhile (\<lambda>c. c \<notin> D) cs)"
      using "1.IH" [OF refl] Cons c by simp
    have "filter (\<lambda>c. c \<notin> D) s = c # filter (\<lambda>c. c \<notin> D) cs"
      using filter_dropWhile_in [of D s] Cons c by simp
    then show ?thesis using IH c filter_takeWhile_dropWhile [of D cs]
      by (auto simp: strtok_all_cases(2) [OF Cons] dest: set_takeWhileD)
  qed
qed

text \<open>
  \<open>parse_value\<close> returns exactly the maximal delimiter-free pieces of the value: no token is empty,
  none contains a delimiter, and together they are the value with its delimiters removed.
\<close>

theorem parse_value_tokens:
  "(\<forall>t \<in> set (parse_value val delim). t \<noteq> [] \<and> set t \<inter> set (c_str delim) = {}) \<and>
   concat (parse_value val delim) = filter (\<lambda>c. c \<notin> set (c_str delim)) (c_str val)"
  unfolding parse_value_def by (rule strtok_all_tokens)

theorem parse_value_tokens_witness:
  "concat (parse_value '',,a,b,,,cd,,'' '','') = ''abcd''"
  using parse_value_tokens [of "'',,a,b,,,cd,,''" "'',''"] by (simp add: c_str_def)

section \<open>Key identifiers\<close>

lemma stoi_dec_digits: "int n \<le> INT_MAX \<Longrightarrow> stoi (dec_digits n) = Inr (int n)"
proof -
  assume n: "int n \<le> INT_MAX"
  obtain c cs where ds: "dec_digits n = c # cs" by (cases "dec_digits n") auto
  then have dig: "is_dec_digit c" using is_dec_digit_dec_digits [of c n] by simp
  then have "\<not> is_ws c" "c \<noteq> CHR ''-''" "c \<noteq> CHR ''+''" by (auto simp: is_dec_digit_def is_ws_def)
  then show ?thesis using n dec_value_dec_digits [of n] dig by (simp add: stoi_def ds Let_def)
qed

text \<open>
  Keys of the form \<open>name_id\<close> (any further \<open>_\<close>-separated parts allowed) round-trip: the identifier
  extracted is the number that was printed into the key.
\<close>

theorem extractID_roundtrip:
  assumes "name \<noteq> []" and "CHR ''_'' \<notin> set name" and "CHR 0x00 \<notin> set name"
    and "int n \<le> INT_MAX"
  shows "extractID (name @ ''_'' @ dec_digits n) = Inr (int n)"
proof -
  have nul: "c \<noteq> CHR 0x00" and us: "c \<noteq> CHR ''_''" if "c \<in> set (dec_digits n)" for c
    using dec_digits_chars [OF that] by auto
  have cs: "c_str (name @ ''_'' @ dec_digits n) = name @ ''_'' @ dec_digits n"
    unfolding c_str_def using assms(3) nul by (intro takeWhile_eq_all_conv [THEN iffD2]) auto
  obtain c cs' where nm: "name = c # cs'" using assms(1) by (cases name) auto
  have tw: "takeWhile (\<lambda>x. x \<notin> {CHR ''_''}) (cs' @ ''_'' @ dec_digits n) = cs'"
    and dw: "dropWhile (\<lambda>x. x \<notin> {CHR ''_''}) (cs' @ ''_'' @ dec_digits n) = ''_'' @ dec_digits n"
    using assms(2) nm by (simp_all add: takeWhile_append dropWhile_append)
  obtain d ds where dd: "dec_digits n = d # ds" by (cases "dec_digits n") auto
  have td: "takeWhile (\<lambda>x. x \<notin> {CHR ''_''}) ds = ds"
    using us dd by (intro takeWhile_eq_all_conv [THEN iffD2]) auto
  have "dropWhile (\<lambda>x. x \<in> {CHR ''_''}) (name @ ''_'' @ dec_digits n) = c # cs' @ ''_'' @ dec_digits n"
    using assms(2) nm by auto
  note first = strtok_all_cases(2) [OF this, unfolded tw dw]
  have "dropWhile (\<lambda>x. x \<in> {CHR ''_''}) (''_'' @ dec_digits n) = d # ds"
    using us dd by auto
  note second = strtok_all_cases(2) [OF this, unfolded td]
  have "strtok_all {CHR ''_''} (name @ ''_'' @ dec_digits n) = name # dec_digits n # strtok_all {CHR ''_''} (dropWhile (\<lambda>c. c \<notin> {CHR ''_''}) ds)"
    unfolding first second by (simp add: nm dd)
  then show ?thesis using stoi_dec_digits [OF assms(4)] by (simp only: extractID_def cs Let_def) simp
qed

theorem extractID_roundtrip_witness:
  "extractID (''user'' @ ''_'' @ dec_digits 42) = Inr 42"
  using extractID_roundtrip [of "''user''" 42] by simp

end
