(* ===== verification/Dmalloc.thy ===== *)
theory Dmalloc
  imports Prelude
begin

unbundle bit_operations_syntax

text \<open>
  The base allocator under the debugging allocator (\<open>dmalloc/basealloc.cc\<close>) and the debugging
  allocator's entry points (\<open>dmalloc/dmalloc.cc\<close>). The allocator never hands freed blocks back to the C
  library before exit: freed blocks wait in \<open>frees\<close> and are reused at random.

  The C library's \<open>malloc\<close> is the environment: an operation takes the pointer \<open>mp\<close> that \<open>malloc\<close> returns
  if the operation calls it (each does so at most once). Pointers given to the C library's \<open>free\<close> are
  logged in \<open>libc_freed\<close>.
\<close>

section \<open>State\<close>

record base_state =
  allocs :: "u64 \<rightharpoonup> u64"
  frees :: "(u64 \<times> u64) list"
  disabled :: int
  alloc_x :: u64
  atexit_installed :: bool
  libc_freed :: "u64 list"

definition base_init :: base_state where
  "base_init = \<lparr>allocs = Map.empty, frees = [], disabled = 0, alloc_x = 8973443640547502487,
     atexit_installed = False, libc_freed = []\<rparr>"

section \<open>Operations\<close>

definition alloc_random :: "base_state \<Rightarrow> u32 \<times> base_state" where
  "alloc_random st =
     (let x = alloc_x st * 6364136223846793005 + 1
      in (ucast (drop_bit 32 x), st\<lparr>alloc_x := x\<rparr>))"

text \<open>
  The reuse loop, \<open>ntries\<close> counting up to 10 and to \<open>frees.size()\<close>: a randomly chosen freed block that is
  large enough moves to \<open>allocs\<close> and its slot is filled with the last freed block. The result is the
  reused pointer, or 0.
\<close>

function reuse_loop :: "u64 \<Rightarrow> nat \<Rightarrow> base_state \<Rightarrow> u64 \<times> base_state" where
  "reuse_loop sz ntries st =
     (if ntries < 10 \<and> ntries < length (frees st) then
        (let (r, st1) = alloc_random st;
             i = unat r mod length (frees st1);
             f = frees st1 ! i
         in if sz \<le> snd f then
              (fst f,
               st1\<lparr>allocs := (if allocs st1 (fst f) = None then (allocs st1)(fst f \<mapsto> snd f) else allocs st1),
                   frees := butlast ((frees st1)[i := last (frees st1)])\<rparr>)
            else reuse_loop sz (Suc ntries) st1)
      else (0, st))"
  by pat_completeness auto
termination
  by (relation "measure (\<lambda>(sz, ntries, st). 10 - ntries)") auto

declare reuse_loop.simps [simp del]

text \<open>Second component: whether the C library's \<open>malloc\<close> was asked for memory.\<close>

definition base_malloc :: "u64 \<Rightarrow> u64 \<Rightarrow> base_state \<Rightarrow> u64 \<times> bool \<times> base_state" where
  "base_malloc mp sz st =
     (if disabled st \<noteq> 0 then (mp, True, st)
      else
        let st1 = st\<lparr>disabled := disabled st + 1, atexit_installed := True\<rparr>;
            (r, st2) = alloc_random st1;
            (ptr, st3) = (if r mod 4 \<noteq> 0 then reuse_loop sz 0 st2 else (0, st2));
            asked = (ptr = 0);
            ptr = (if asked then mp else ptr);
            st4 = (if ptr \<noteq> 0 then st3\<lparr>allocs := (allocs st3)(ptr \<mapsto> sz)\<rparr> else st3)
        in (ptr, asked, st4\<lparr>disabled := disabled st4 - 1\<rparr>))"

definition base_free :: "u64 \<Rightarrow> base_state \<Rightarrow> base_state" where
  "base_free ptr st =
     (if disabled st \<noteq> 0 \<or> ptr = 0 then st\<lparr>libc_freed := libc_freed st @ [ptr]\<rparr>
      else
        let st1 = st\<lparr>disabled := disabled st + 1\<rparr>;
            st2 = (case allocs st1 ptr of
                     Some sz \<Rightarrow> st1\<lparr>frees := frees st1 @ [(ptr, sz)], allocs := (allocs st1)(ptr := None)\<rparr>
                   | None \<Rightarrow> st1)
        in st2\<lparr>disabled := disabled st2 - 1\<rparr>)"

definition base_allocator_disable :: "bool \<Rightarrow> base_state \<Rightarrow> base_state" where
  "base_allocator_disable d st = st\<lparr>disabled := (if d then 1 else 0)\<rparr>"

definition base_allocator_atexit :: "base_state \<Rightarrow> base_state" where
  "base_allocator_atexit st = fold (\<lambda>(p, _) s. s\<lparr>libc_freed := libc_freed s @ [p]\<rparr>) (frees st) st"

section \<open>The debugging allocator\<close>

definition dmalloc :: "u64 \<Rightarrow> u64 \<Rightarrow> base_state \<Rightarrow> u64 \<times> bool \<times> base_state" where
  "dmalloc mp sz st = base_malloc mp sz st"

definition dfree :: "u64 \<Rightarrow> base_state \<Rightarrow> base_state" where
  "dfree ptr st = base_free ptr st"

text \<open>\<open>memset(ptr, 0, n)\<close> on the heap bytes.\<close>

definition zero_bytes :: "u64 \<Rightarrow> u64 \<Rightarrow> memory \<Rightarrow> memory" where
  "zero_bytes ptr n m = (\<lambda>a. if a - ptr < n then 0 else m a)"

definition dcalloc :: "u64 \<Rightarrow> u64 \<Rightarrow> u64 \<Rightarrow> base_state \<Rightarrow> memory \<Rightarrow> u64 \<times> base_state \<times> memory" where
  "dcalloc mp nmemb sz st m =
     (let (ptr, _, st') = dmalloc mp (nmemb * sz) st
      in (ptr, st', if ptr \<noteq> 0 then zero_bytes ptr (nmemb * sz) m else m))"

record dmalloc_stats =
  nactive :: u64
  active_size :: u64
  ntotal :: u64
  total_size :: u64
  nfail :: u64
  fail_size :: u64
  heap_min :: u64
  heap_max :: u64

text \<open>\<open>memset(stats, 255, sizeof(dmalloc_stats))\<close>: every byte of every field is 255.\<close>

definition get_statistics :: dmalloc_stats where
  "get_statistics =
     (let v = 0xFFFFFFFFFFFFFFFF
      in \<lparr>nactive = v, active_size = v, ntotal = v, total_size = v, nfail = v, fail_size = v,
          heap_min = v, heap_max = v\<rparr>)"

section \<open>The allocator's invariant\<close>

text \<open>
  A block is either active or freed, never both, no block is listed twice, none is the null pointer,
  and the size recorded for a block never exceeds the \<open>cap\<close> bytes the C library gave for it.
\<close>

definition blocks_ok :: "(u64 \<Rightarrow> nat) \<Rightarrow> base_state \<Rightarrow> bool" where
  "blocks_ok cap st \<longleftrightarrow>
     distinct (map fst (frees st)) \<and>
     dom (allocs st) \<inter> fst ` set (frees st) = {} \<and>
     0 \<notin> dom (allocs st) \<and> 0 \<notin> fst ` set (frees st) \<and>
     (\<forall>p s. allocs st p = Some s \<longrightarrow> unat s \<le> cap p) \<and>
     (\<forall>(p, s) \<in> set (frees st). unat s \<le> cap p)"

text \<open>A pointer the allocator has never handed out, or still holds no block at.\<close>

definition fresh :: "u64 \<Rightarrow> base_state \<Rightarrow> bool" where
  "fresh p st \<longleftrightarrow> p \<notin> dom (allocs st) \<and> p \<notin> fst ` set (frees st)"

lemma alloc_random_frame [simp]:
  "alloc_random st = (r, st') \<Longrightarrow> allocs st' = allocs st \<and> frees st' = frees st \<and>
     disabled st' = disabled st \<and> libc_freed st' = libc_freed st \<and> atexit_installed st' = atexit_installed st"
  by (auto simp: alloc_random_def Let_def)

lemma blocks_ok_cong:
  "allocs st' = allocs st \<Longrightarrow> frees st' = frees st \<Longrightarrow> blocks_ok cap st' = blocks_ok cap st"
  by (simp add: blocks_ok_def)

text \<open>Taking the block at index \<open>i\<close> out of \<open>frees\<close> by overwriting it with the last one.\<close>

definition take_block :: "nat \<Rightarrow> base_state \<Rightarrow> base_state" where
  "take_block i st =
     st\<lparr>allocs := (allocs st)(fst (frees st ! i) \<mapsto> snd (frees st ! i)),
        frees := butlast ((frees st)[i := last (frees st)])\<rparr>"

lemma distinct_swap_last:
  assumes "i < length xs" and "distinct (map fst xs)"
  shows "distinct (map fst (butlast (xs[i := last xs])))"
    and "fst ` set (butlast (xs[i := last xs])) = fst ` set xs - {fst (xs ! i)}"
proof -
  let ?ys = "butlast (xs[i := last xs])"
  have m: "mset ?ys = mset xs - {#xs ! i#}" by (rule map_list_update_swap_last [OF assms(1)])
  have in': "xs ! i \<in># mset xs" using assms(1) by simp
  then have ins: "mset xs = add_mset (xs ! i) (mset ?ys)" by (simp add: m)
  then have "image_mset fst (mset xs) = add_mset (fst (xs ! i)) (image_mset fst (mset ?ys))" by simp
  then have mm: "mset (map fst xs) = mset (fst (xs ! i) # map fst ?ys)" by simp
  then have d: "distinct (fst (xs ! i) # map fst ?ys)"
    using assms(2) by (metis mset_eq_imp_distinct_iff)
  then show "distinct (map fst ?ys)" by simp
  have "set (map fst xs) = set (fst (xs ! i) # map fst ?ys)" using mm by (metis set_mset_mset)
  then show "fst ` set ?ys = fst ` set xs - {fst (xs ! i)}" using d by auto
qed

lemma take_block_ok:
  assumes ok: "blocks_ok cap st" and i: "i < length (frees st)"
  shows "blocks_ok cap (take_block i st)" and "fst (frees st ! i) \<notin> dom (allocs st)"
    and "fst (frees st ! i) \<noteq> 0" and "unat (snd (frees st ! i)) \<le> cap (fst (frees st ! i))"
proof -
  have mem: "frees st ! i \<in> set (frees st)" using i by simp
  have dist: "distinct (map fst (frees st))" using ok by (simp add: blocks_ok_def)
  note sw = distinct_swap_last [OF i dist]
  have sub: "set (butlast ((frees st)[i := last (frees st)])) \<subseteq> set (frees st)"
    by (rule set_butlast_update [OF i])
  show notin: "fst (frees st ! i) \<notin> dom (allocs st)" and nz: "fst (frees st ! i) \<noteq> 0"
    using ok mem by (auto simp: blocks_ok_def)
  show capi: "unat (snd (frees st ! i)) \<le> cap (fst (frees st ! i))"
    using ok mem by (auto simp: blocks_ok_def)
  show "blocks_ok cap (take_block i st)"
    using ok sw sub notin nz capi unfolding blocks_ok_def take_block_def
    by (auto simp: dom_def)
qed

lemma reuse_loop_result:
  assumes "reuse_loop sz n st = (p, st')" and "0 \<notin> fst ` set (frees st)" and "\<forall>q \<in> fst ` set (frees st). allocs st q = None"
  shows "(p = 0 \<and> allocs st' = allocs st \<and> frees st' = frees st \<and> disabled st' = disabled st) \<or>
    (\<exists>i x. i < length (frees st) \<and> p = fst (frees st ! i) \<and> sz \<le> snd (frees st ! i) \<and>
       st' = take_block i (st\<lparr>alloc_x := x\<rparr>))"
  using assms
proof (induction sz n st arbitrary: p st' rule: reuse_loop.induct)
  case (1 sz n st)
  define x where "x = alloc_x st * 6364136223846793005 + 1"
  define st1 where "st1 = st\<lparr>alloc_x := x\<rparr>"
  define i where "i = unat (ucast (drop_bit 32 x) :: u32) mod length (frees st)"
  have ar: "alloc_random st = (ucast (drop_bit 32 x), st1)"
    by (simp add: alloc_random_def Let_def x_def st1_def)
  show ?case
  proof (cases "n < 10 \<and> n < length (frees st)")
    case False
    with "1.prems"(1) show ?thesis by (subst (asm) reuse_loop.simps) auto
  next
    case True
    then have "0 < length (frees st)" by linarith
    then have i: "i < length (frees st)" unfolding i_def by (rule mod_less_divisor)
    have none: "allocs st (fst (frees st ! i)) = None" using i "1.prems"(3) by auto
    show ?thesis
    proof (cases "sz \<le> snd (frees st ! i)")
      case big: True
      have "(p, st') = (fst (frees st ! i), take_block i st1)"
        using "1.prems"(1) True big none
        by (subst (asm) reuse_loop.simps) (auto simp: ar Let_def i_def st1_def take_block_def)
      with i big show ?thesis unfolding st1_def by blast
    next
      case small: False
      have rl: "reuse_loop sz (Suc n) st1 = (p, st')"
        using "1.prems"(1) True small
        by (subst (asm) reuse_loop.simps) (simp add: ar Let_def i_def st1_def)
      have "(p = 0 \<and> allocs st' = allocs st1 \<and> frees st' = frees st1 \<and> disabled st' = disabled st1) \<or>
        (\<exists>i x. i < length (frees st1) \<and> p = fst (frees st1 ! i) \<and> sz \<le> snd (frees st1 ! i) \<and>
           st' = take_block i (st1\<lparr>alloc_x := x\<rparr>))"
        by (rule "1.IH" [OF True ar [symmetric] refl refl refl _ rl])
           (use small "1.prems"(2,3) in \<open>auto simp: st1_def i_def\<close>)
      then show ?thesis by (auto simp: st1_def)
    qed
  qed
qed

text \<open>The bytes the C library provides when it is asked for \<open>sz ? sz : 1\<close>.\<close>

definition cap_after :: "(u64 \<Rightarrow> nat) \<Rightarrow> bool \<Rightarrow> u64 \<Rightarrow> u64 \<Rightarrow> u64 \<Rightarrow> nat" where
  "cap_after cap asked mp sz = (if asked then cap(mp := max 1 (unat sz)) else cap)"

lemma blocks_ok_new_block:
  assumes "blocks_ok cap st" and "fresh mp st" and "mp \<noteq> 0"
  shows "blocks_ok (cap(mp := max 1 (unat sz))) (st\<lparr>allocs := (allocs st)(mp \<mapsto> sz)\<rparr>)"
proof -
  have ne: "p \<noteq> mp" if "(p, s) \<in> set (frees st)" for p s
    using that assms(2) by (force simp: fresh_def)
  show ?thesis using assms ne unfolding blocks_ok_def fresh_def by auto
qed

lemma blocks_ok_resize:
  assumes "blocks_ok cap st" and "p \<in> dom (allocs st)" and "unat sz \<le> cap p"
  shows "blocks_ok cap (st\<lparr>allocs := (allocs st)(p \<mapsto> sz)\<rparr>)"
  using assms unfolding blocks_ok_def by (auto simp: dom_def)

lemma base_malloc_cases:
  assumes ok: "blocks_ok cap st" and dis: "disabled st = 0" and bm: "base_malloc mp sz st = (p, asked, st')"
  shows "(asked \<and> p = mp \<and> frees st' = frees st \<and> disabled st' = 0 \<and>
          allocs st' = (if mp = 0 then allocs st else (allocs st)(mp \<mapsto> sz))) \<or>
    (\<not> asked \<and> (\<exists>i x. i < length (frees st) \<and> p = fst (frees st ! i) \<and> sz \<le> snd (frees st ! i) \<and> disabled st' = 0 \<and>
       (let st1 = take_block i (st\<lparr>alloc_x := x\<rparr>)
        in frees st' = frees st1 \<and> allocs st' = (allocs st1)(p \<mapsto> sz))))"
proof -
  define s1 where "s1 = st\<lparr>disabled := disabled st + 1, atexit_installed := True\<rparr>"
  obtain r s2 where ar: "alloc_random s1 = (r, s2)" by fastforce
  note fr = alloc_random_frame [OF ar]
  have pre: "0 \<notin> fst ` set (frees s2)" "\<forall>q \<in> fst ` set (frees s2). allocs s2 q = None"
    using ok fr by (auto simp: blocks_ok_def s1_def)
  obtain q s3 where q: "(if r mod 4 \<noteq> 0 then reuse_loop sz 0 s2 else (0, s2)) = (q, s3)" by fastforce
  have out: "(q = 0 \<and> allocs s3 = allocs s2 \<and> frees s3 = frees s2 \<and> disabled s3 = disabled s2) \<or>
    (\<exists>i x. i < length (frees s2) \<and> q = fst (frees s2 ! i) \<and> sz \<le> snd (frees s2 ! i) \<and>
       s3 = take_block i (s2\<lparr>alloc_x := x\<rparr>))"
    using q reuse_loop_result [OF _ pre] by (auto split: if_splits)
  have res: "(p, asked, st') = (let ptr = (if q = 0 then mp else q);
      s4 = (if ptr \<noteq> 0 then s3\<lparr>allocs := (allocs s3)(ptr \<mapsto> sz)\<rparr> else s3)
      in (ptr, q = 0, s4\<lparr>disabled := disabled s4 - 1\<rparr>))"
  proof -
    have "st\<lparr>disabled := 1, atexit_installed := True\<rparr> = s1" by (simp add: s1_def dis)
    with bm dis q ar show ?thesis by (auto simp: base_malloc_def Let_def)
  qed
  from out show ?thesis
  proof
    assume "q = 0 \<and> allocs s3 = allocs s2 \<and> frees s3 = frees s2 \<and> disabled s3 = disabled s2"
    with res fr dis show ?thesis by (auto simp: Let_def s1_def)
  next
    assume "\<exists>i x. i < length (frees s2) \<and> q = fst (frees s2 ! i) \<and> sz \<le> snd (frees s2 ! i) \<and>
       s3 = take_block i (s2\<lparr>alloc_x := x\<rparr>)"
    then obtain i x where i: "i < length (frees s2)" "q = fst (frees s2 ! i)" "sz \<le> snd (frees s2 ! i)"
      and s3: "s3 = take_block i (s2\<lparr>alloc_x := x\<rparr>)" by blast
    have "q \<noteq> 0" using pre(1) i by (metis image_eqI nth_mem)
    with res fr dis i s3 have "\<not> asked \<and> p = fst (frees st ! i) \<and> disabled st' = 0 \<and>
      frees st' = frees (take_block i (st\<lparr>alloc_x := x\<rparr>)) \<and>
      allocs st' = (allocs (take_block i (st\<lparr>alloc_x := x\<rparr>)))(p \<mapsto> sz)"
      by (auto simp: Let_def s1_def take_block_def)
    with i fr show ?thesis by (auto simp: Let_def s1_def)
  qed
qed

lemma base_malloc_reused:
  assumes ok: "blocks_ok cap st" and i: "i < length (frees st)" and sz: "sz \<le> snd (frees st ! i)"
    and st': "frees st' = frees (take_block i (st\<lparr>alloc_x := x\<rparr>))"
      "allocs st' = (allocs (take_block i (st\<lparr>alloc_x := x\<rparr>)))(fst (frees st ! i) \<mapsto> sz)"
  shows "blocks_ok cap st'" and "unat sz \<le> cap (fst (frees st ! i))"
    and "allocs st (fst (frees st ! i)) = None" and "fst (frees st ! i) \<noteq> 0"
    and "allocs st' = (allocs st)(fst (frees st ! i) \<mapsto> sz)"
proof -
  let ?s = "st\<lparr>alloc_x := x\<rparr>" and ?p = "fst (frees st ! i)"
  have oks: "blocks_ok cap ?s" using ok by (simp add: blocks_ok_cong [of ?s st])
  note tb = take_block_ok [OF oks, of i, simplified, OF i]
  show le: "unat sz \<le> cap ?p" using tb(4) sz by (auto simp: word_le_nat_alt)
  show "allocs st ?p = None" and "?p \<noteq> 0" using tb by auto
  have "blocks_ok cap ((take_block i ?s)\<lparr>allocs := (allocs (take_block i ?s))(?p \<mapsto> sz)\<rparr>)"
    by (rule blocks_ok_resize [OF tb(1) _ le]) (simp add: take_block_def)
  then show "blocks_ok cap st'" using st' by (simp add: blocks_ok_def)
  show "allocs st' = (allocs st)(?p \<mapsto> sz)" using st' by (simp add: take_block_def)
qed

lemma base_malloc_blocks_ok:
  assumes ok: "blocks_ok cap st" and dis: "disabled st = 0" and fr: "fresh mp st"
    and bm: "base_malloc mp sz st = (p, asked, st')"
  shows "blocks_ok (cap_after cap (asked \<and> mp \<noteq> 0) mp sz) st'"
  using base_malloc_cases [OF ok dis bm]
proof
  assume a: "asked \<and> p = mp \<and> frees st' = frees st \<and> disabled st' = 0 \<and>
          allocs st' = (if mp = 0 then allocs st else (allocs st)(mp \<mapsto> sz))"
  show ?thesis
  proof (cases "mp = 0")
    case True
    then show ?thesis using a ok by (simp add: cap_after_def blocks_ok_cong [of st' st])
  next
    case False
    then show ?thesis using a blocks_ok_new_block [OF ok fr False, of sz]
      by (simp add: cap_after_def blocks_ok_def)
  qed
qed (use base_malloc_reused(1) [OF ok] in \<open>auto simp: cap_after_def Let_def\<close>)

lemma base_malloc_result:
  assumes ok: "blocks_ok cap st" and dis: "disabled st = 0" and fr: "fresh mp st"
    and bm: "base_malloc mp sz st = (p, asked, st')"
  shows "(p \<noteq> 0 \<longrightarrow> allocs st p = None \<and> allocs st' = (allocs st)(p \<mapsto> sz) \<and>
       unat sz \<le> cap_after cap (asked \<and> mp \<noteq> 0) mp sz p) \<and>
    (p = 0 \<longrightarrow> mp = 0 \<and> allocs st' = allocs st \<and> frees st' = frees st)"
  using base_malloc_cases [OF ok dis bm]
proof (elim disjE)
  assume "asked \<and> p = mp \<and> frees st' = frees st \<and> disabled st' = 0 \<and>
          allocs st' = (if mp = 0 then allocs st else (allocs st)(mp \<mapsto> sz))"
  then show "(p \<noteq> 0 \<longrightarrow> allocs st p = None \<and> allocs st' = (allocs st)(p \<mapsto> sz) \<and>
       unat sz \<le> cap_after cap (asked \<and> mp \<noteq> 0) mp sz p) \<and>
    (p = 0 \<longrightarrow> mp = 0 \<and> allocs st' = allocs st \<and> frees st' = frees st)"
    using fr by (auto simp: cap_after_def fresh_def)
next
  assume "\<not> asked \<and> (\<exists>i x. i < length (frees st) \<and> p = fst (frees st ! i) \<and> sz \<le> snd (frees st ! i) \<and> disabled st' = 0 \<and>
       (let st1 = take_block i (st\<lparr>alloc_x := x\<rparr>)
        in frees st' = frees st1 \<and> allocs st' = (allocs st1)(p \<mapsto> sz)))"
  then obtain i x where na: "\<not> asked" and i: "i < length (frees st)" and p: "p = fst (frees st ! i)"
    and sz: "sz \<le> snd (frees st ! i)"
    and st': "frees st' = frees (take_block i (st\<lparr>alloc_x := x\<rparr>))"
      "allocs st' = (allocs (take_block i (st\<lparr>alloc_x := x\<rparr>)))(fst (frees st ! i) \<mapsto> sz)"
    by (auto simp: Let_def)
  note r = base_malloc_reused(2-5) [OF ok i sz st', folded p]
  then show "(p \<noteq> 0 \<longrightarrow> allocs st p = None \<and> allocs st' = (allocs st)(p \<mapsto> sz) \<and>
       unat sz \<le> cap_after cap (asked \<and> mp \<noteq> 0) mp sz p) \<and>
    (p = 0 \<longrightarrow> mp = 0 \<and> allocs st' = allocs st \<and> frees st' = frees st)"
    using na by (simp add: cap_after_def)
qed

text \<open>
  The memory behind the blocks: \<open>cap p\<close> bytes from \<open>p\<close>, for every block held, active or freed. Blocks are not empty, end within
  the address space and do not overlap. \<open>malloc_fresh\<close> is what the C library promises of the pointer it returns: it is
  null, or \<open>sz ? sz : 1\<close> bytes from it overlap no memory it gave out before.
\<close>

definition held :: "base_state \<Rightarrow> u64 set" where
  "held st = dom (allocs st) \<union> fst ` set (frees st)"

definition area :: "u64 \<Rightarrow> nat \<Rightarrow> nat set" where
  "area p n = {unat p ..< unat p + n}"

definition held_apart :: "(u64 \<Rightarrow> nat) \<Rightarrow> base_state \<Rightarrow> bool" where
  "held_apart cap st \<longleftrightarrow>
     (\<forall>p \<in> held st. 0 < cap p \<and> unat p + cap p \<le> 2 ^ 64) \<and>
     (\<forall>p \<in> held st. \<forall>q \<in> held st. p \<noteq> q \<longrightarrow> area p (cap p) \<inter> area q (cap q) = {})"

definition malloc_fresh :: "(u64 \<Rightarrow> nat) \<Rightarrow> u64 \<Rightarrow> u64 \<Rightarrow> base_state \<Rightarrow> bool" where
  "malloc_fresh cap mp sz st \<longleftrightarrow>
     mp = 0 \<or> unat mp + max 1 (unat sz) \<le> 2 ^ 64 \<and> (\<forall>q \<in> held st. area mp (max 1 (unat sz)) \<inter> area q (cap q) = {})"

lemma malloc_fresh_start:
  assumes "malloc_fresh cap mp sz st" and "held_apart cap st" and "blocks_ok cap st"
  shows "fresh mp st"
proof (cases "mp = 0")
  case False
  have "mp \<notin> held st"
  proof
    assume h: "mp \<in> held st"
    then have "0 < cap mp" using assms(2) by (simp add: held_apart_def)
    then have "unat mp \<in> area mp (max 1 (unat sz)) \<inter> area mp (cap mp)" by (simp add: area_def)
    with h False assms(1) show False by (auto simp: malloc_fresh_def)
  qed
  then show ?thesis by (simp add: fresh_def held_def)
qed (use assms(3) in \<open>simp add: fresh_def blocks_ok_def\<close>)

lemma held_apart_mono: "held_apart cap st \<Longrightarrow> held st' \<subseteq> held st \<Longrightarrow> held_apart cap st'"
  unfolding held_apart_def by blast

lemma held_apart_add:
  assumes "held_apart cap st" and "malloc_fresh cap mp sz st" and "mp \<noteq> 0" and "held st' \<subseteq> insert mp (held st)" and "mp \<notin> held st"
  shows "held_apart (cap(mp := max 1 (unat sz))) st'"
proof -
  let ?cap = "cap(mp := max 1 (unat sz))"
  have old: "?cap q = cap q" if "q \<in> held st" for q using that assms(5) by auto
  have "held_apart ?cap st" using assms(1) old unfolding held_apart_def by simp
  moreover have "unat mp + ?cap mp \<le> 2 ^ 64" "0 < ?cap mp" "\<forall>q \<in> held st. area mp (?cap mp) \<inter> area q (?cap q) = {}"
    using assms(2,3) old by (auto simp: malloc_fresh_def)
  ultimately have h: "held_apart ?cap st" "unat mp + ?cap mp \<le> 2 ^ 64" "0 < ?cap mp"
    "\<And>q. q \<in> held st \<Longrightarrow> area mp (?cap mp) \<inter> area q (?cap q) = {}" by blast+
  have s: "p = mp \<or> p \<in> held st" if "p \<in> held st'" for p using that assms(4) by blast
  show ?thesis unfolding held_apart_def
  proof (intro conjI ballI impI)
    fix p assume p: "p \<in> held st'"
    show "0 < ?cap p" "unat p + ?cap p \<le> 2 ^ 64" using s [OF p] h(1-3) unfolding held_apart_def by metis+
    fix q assume q: "q \<in> held st'" and "p \<noteq> q"
    then show "area p (?cap p) \<inter> area q (?cap q) = {}"
      using s [OF p] s [OF q] h(4) [of p] h(4) [of q] h(1) unfolding held_apart_def by (metis Int_commute)
  qed
qed

lemma swapped_frees: "i < length (frees st) \<Longrightarrow> held (take_block i st) \<subseteq> held st"
  using set_butlast_update [of i "frees st"] by (auto simp: held_def take_block_def)

lemma base_malloc_apart:
  assumes ok: "blocks_ok cap st" and ap: "held_apart cap st" and dis: "disabled st = 0" and fr: "malloc_fresh cap mp sz st"
    and bm: "base_malloc mp sz st = (p, asked, st')"
  shows "held_apart (cap_after cap (asked \<and> mp \<noteq> 0) mp sz) st'"
  using base_malloc_cases [OF ok dis bm]
proof
  assume a: "asked \<and> p = mp \<and> frees st' = frees st \<and> disabled st' = 0 \<and>
          allocs st' = (if mp = 0 then allocs st else (allocs st)(mp \<mapsto> sz))"
  show ?thesis
  proof (cases "mp = 0")
    case True
    then show ?thesis using a ap held_apart_mono [of cap st st'] by (simp add: cap_after_def held_def)
  next
    case False
    have "mp \<notin> held st" using malloc_fresh_start [OF fr ap ok] by (simp add: fresh_def held_def)
    then show ?thesis using a False held_apart_add [OF ap fr False, of st'] by (auto simp: cap_after_def held_def)
  qed
next
  assume "\<not> asked \<and> (\<exists>i x. i < length (frees st) \<and> p = fst (frees st ! i) \<and> sz \<le> snd (frees st ! i) \<and> disabled st' = 0 \<and>
       (let st1 = take_block i (st\<lparr>alloc_x := x\<rparr>)
        in frees st' = frees st1 \<and> allocs st' = (allocs st1)(p \<mapsto> sz)))"
  then obtain i x where na: "\<not> asked" and i: "i < length (frees st)" and p: "p = fst (frees st ! i)"
    and st': "frees st' = frees (take_block i (st\<lparr>alloc_x := x\<rparr>))" "allocs st' = (allocs (take_block i (st\<lparr>alloc_x := x\<rparr>)))(p \<mapsto> sz)"
    by (auto simp: Let_def)
  have "held (st\<lparr>alloc_x := x\<rparr>) = held st" by (simp add: held_def)
  then have "held (take_block i (st\<lparr>alloc_x := x\<rparr>)) \<subseteq> held st" using swapped_frees [of i "st\<lparr>alloc_x := x\<rparr>"] i by simp
  moreover have "p \<in> held st" using i p by (auto simp: held_def)
  ultimately have "held st' \<subseteq> held st" using st' by (auto simp: held_def)
  then show ?thesis using held_apart_mono [OF ap] na by (simp add: cap_after_def)
qed

text \<open>
  C11. Allocation is sound. If the C library's \<open>malloc\<close> keeps its promise, \<open>base_malloc\<close> keeps the invariants of the block
  tables and of the memory behind them, whether it reuses a freed block or asks for a new one. A block it returns was not active,
  has room for the request, and its bytes are bytes of no other block that is active then; every other active
  block stays as it was. It fails (null) only when the C library does, and then changes no block.
\<close>

theorem base_malloc_sound:
  assumes ok: "blocks_ok cap st" and ap: "held_apart cap st" and dis: "disabled st = 0" and fr: "malloc_fresh cap mp sz st"
    and bm: "base_malloc mp sz st = (p, asked, st')"
  shows "blocks_ok (cap_after cap (asked \<and> mp \<noteq> 0) mp sz) st' \<and> held_apart (cap_after cap (asked \<and> mp \<noteq> 0) mp sz) st' \<and>
    (p \<noteq> 0 \<longrightarrow> allocs st p = None \<and> allocs st' = (allocs st)(p \<mapsto> sz) \<and>
       unat sz \<le> cap_after cap (asked \<and> mp \<noteq> 0) mp sz p \<and>
       (\<forall>q s. q \<noteq> p \<longrightarrow> allocs st' q = Some s \<longrightarrow> area p (unat sz) \<inter> area q (unat s) = {})) \<and>
    (p = 0 \<longrightarrow> mp = 0 \<and> allocs st' = allocs st \<and> frees st' = frees st)"
proof -
  let ?cap = "cap_after cap (asked \<and> mp \<noteq> 0) mp sz"
  note start = malloc_fresh_start [OF fr ap ok]
  note r = base_malloc_blocks_ok [OF ok dis start bm] base_malloc_apart [OF ok ap dis fr bm] base_malloc_result [OF ok dis start bm]
  have "area p (unat sz) \<inter> area q (unat s) = {}" if p: "p \<noteq> 0" and q: "q \<noteq> p" "allocs st' q = Some s" for q s
  proof -
    have "allocs st' p = Some sz" using r(3) p by simp
    then have "p \<in> held st'" "q \<in> held st'" "unat sz \<le> ?cap p" "unat s \<le> ?cap q" using q r(1) by (auto simp: held_def blocks_ok_def)
    with r(2) q(1) have "area p (?cap p) \<inter> area q (?cap q) = {}" unfolding held_apart_def by metis
    moreover have "area p (unat sz) \<subseteq> area p (?cap p)" "area q (unat s) \<subseteq> area q (?cap q)"
      using \<open>unat sz \<le> ?cap p\<close> \<open>unat s \<le> ?cap q\<close> by (auto simp: area_def)
    ultimately show ?thesis by blast
  qed
  with r show ?thesis by blast
qed

theorem base_malloc_sound_witness:
  "\<exists>st'. base_malloc 8192 100 (base_init\<lparr>allocs := [4096 \<mapsto> 100]\<rparr>) = (8192, True, st') \<and> allocs st' = [4096 \<mapsto> 100, 8192 \<mapsto> 100] \<and>
     area 8192 100 \<inter> area 4096 100 = {}"
proof -
  let ?st = "base_init\<lparr>allocs := [4096 \<mapsto> 100]\<rparr>"
  obtain p asked st' where bm: "base_malloc 8192 100 ?st = (p, asked, st')" by (metis prod_cases3)
  have "held ?st = {4096}" by (simp add: held_def base_init_def)
  then have "held_apart (\<lambda>_. 100) ?st" "malloc_fresh (\<lambda>_. 100) 8192 100 ?st"
    by (simp_all only: held_apart_def malloc_fresh_def area_def) (simp_all add: max_def)
  moreover have "blocks_ok (\<lambda>_. 100) ?st" "disabled ?st = 0" by (simp_all add: blocks_ok_def base_init_def)
  ultimately have h: "blocks_ok (\<lambda>_. 100) ?st" "held_apart (\<lambda>_. 100) ?st" "disabled ?st = 0" "malloc_fresh (\<lambda>_. 100) 8192 100 ?st" by blast+
  note th = base_malloc_sound [OF h bm]
  have "frees ?st = []" by (simp add: base_init_def)
  then have pa: "p = 8192" "asked" using base_malloc_cases [OF h(1,3) bm] by simp_all
  moreover have "allocs st' = [4096 \<mapsto> 100, 8192 \<mapsto> 100]" using conjunct1 [OF conjunct2 [OF conjunct2 [OF th]]] pa by (simp add: base_init_def)
  moreover have "area 8192 (unat (100 :: u64)) \<inter> area 4096 (unat (100 :: u64)) = {}"
  proof -
    from conjunct1 [OF conjunct2 [OF conjunct2 [OF th]]] pa(1)
    have "\<forall>q s. q \<noteq> 8192 \<longrightarrow> allocs st' q = Some s \<longrightarrow> area 8192 (unat (100 :: u64)) \<inter> area q (unat s) = {}" by simp
    from this [rule_format, of 4096 100] \<open>allocs st' = [4096 \<mapsto> 100, 8192 \<mapsto> 100]\<close> show ?thesis by simp
  qed
  ultimately show ?thesis using bm by simp
qed

text \<open>Releasing a block moves its memory from the active to the freed blocks; the memory held stays the same.\<close>

lemma base_free_apart: "held_apart cap st \<Longrightarrow> disabled st = 0 \<Longrightarrow> p \<noteq> 0 \<Longrightarrow> held_apart cap (base_free p st)"
  by (erule held_apart_mono) (auto simp: held_def base_free_def Let_def split: option.splits)

lemma base_free_active:
  "disabled st = 0 \<Longrightarrow> p \<noteq> 0 \<Longrightarrow> allocs st p = Some s \<Longrightarrow>
     base_free p st = st\<lparr>frees := frees st @ [(p, s)], allocs := (allocs st)(p := None)\<rparr>"
  by (simp add: base_free_def Let_def)

lemma base_free_inactive: "disabled st = 0 \<Longrightarrow> p \<noteq> 0 \<Longrightarrow> allocs st p = None \<Longrightarrow> base_free p st = st"
  by (simp add: base_free_def Let_def)

lemma base_free_blocks_ok:
  assumes "blocks_ok cap st" and "disabled st = 0" and "p \<noteq> 0"
  shows "blocks_ok cap (base_free p st)"
proof (cases "allocs st p")
  case (Some s)
  with assms show ?thesis by (auto simp: base_free_active blocks_ok_def dom_def)
qed (use assms in \<open>simp add: base_free_inactive\<close>)

text \<open>
  Releasing: an active block moves to the freed blocks with its recorded size, every other
  pointer (never allocated, or freed before) is silently ignored, so a double free changes nothing,
  and the block invariant is kept.
\<close>

theorem base_free_sound:
  assumes ok: "blocks_ok cap st" and dis: "disabled st = 0" and p: "p \<noteq> 0"
  shows "blocks_ok cap (base_free p st) \<and> allocs (base_free p st) = (allocs st)(p := None) \<and>
    frees (base_free p st) = frees st @ (case allocs st p of Some s \<Rightarrow> [(p, s)] | None \<Rightarrow> []) \<and>
    base_free p (base_free p st) = base_free p st"
proof (cases "allocs st p")
  case None
  then have "(allocs st)(p := None) = allocs st" by auto
  with None assms show ?thesis by (simp add: base_free_inactive)
next
  case (Some s)
  have "base_free p (base_free p st) = base_free p st"
    by (rule base_free_inactive) (simp_all add: base_free_active [OF dis p Some] dis p)
  with Some base_free_blocks_ok [OF assms] show ?thesis by (simp add: base_free_active [OF dis p Some])
qed

theorem base_free_sound_witness:
  "frees (base_free 4096 (base_init\<lparr>allocs := [4096 \<mapsto> 100]\<rparr>)) = [(4096, 100)]"
proof -
  have h: "blocks_ok (\<lambda>_. 100) (base_init\<lparr>allocs := [4096 \<mapsto> 100]\<rparr>)" "disabled (base_init\<lparr>allocs := [4096 \<mapsto> 100]\<rparr>) = 0"
    by (simp_all add: blocks_ok_def base_init_def)
  show ?thesis using base_free_sound [OF h, of 4096] by (simp add: base_init_def)
qed

section \<open>Runs of the allocator\<close>

inductive base_reach :: "(u64 \<Rightarrow> nat) \<Rightarrow> base_state \<Rightarrow> bool" where
  start: "base_reach (\<lambda>_. 0) base_init"
| malloc: "base_reach cap st \<Longrightarrow> fresh mp st \<Longrightarrow> base_malloc mp sz st = (p, asked, st') \<Longrightarrow>
     base_reach (cap_after cap (asked \<and> mp \<noteq> 0) mp sz) st'"
| free: "base_reach cap st \<Longrightarrow> p \<noteq> 0 \<Longrightarrow> base_reach cap (base_free p st)"

lemma base_malloc_enabled: "disabled st = 0 \<Longrightarrow> blocks_ok cap st \<Longrightarrow> disabled (snd (snd (base_malloc mp sz st))) = 0"
  by (cases "base_malloc mp sz st") (use base_malloc_cases in fastforce)

lemma base_free_enabled: "disabled st = 0 \<Longrightarrow> p \<noteq> 0 \<Longrightarrow> disabled (base_free p st) = 0"
  by (auto simp: base_free_def Let_def split: option.splits)

text \<open>
  C12. In every state reached from program start by allocations (with fresh C library pointers) and
  releases, no block is both active and free, no block is listed twice, and every recorded size fits
  the memory behind the block.
\<close>

theorem base_reach_blocks_ok:
  assumes "base_reach cap st"
  shows "blocks_ok cap st \<and> disabled st = 0"
  using assms
proof (induction rule: base_reach.induct)
  case start
  show ?case by (simp add: blocks_ok_def base_init_def)
next
  case (malloc cap st mp sz p asked st')
  then show ?case using base_malloc_enabled [of st cap mp sz] base_malloc_blocks_ok [of cap st mp sz p asked st']
    by auto
next
  case (free cap st p)
  then show ?case using base_free_enabled base_free_blocks_ok by blast
qed

theorem base_reach_blocks_ok_witness:
  "blocks_ok (cap_after (\<lambda>_. 0) (fst (snd (base_malloc 4096 100 base_init)) \<and> (4096 :: u64) \<noteq> 0) 4096 100)
     (base_free 4096 (snd (snd (base_malloc 4096 100 base_init))))"
proof -
  have "fresh 4096 base_init" by (simp add: fresh_def base_init_def)
  from base_reach.malloc [OF base_reach.start this, of 100]
  have "base_reach (cap_after (\<lambda>_. 0) (fst (snd (base_malloc 4096 100 base_init)) \<and> (4096 :: u64) \<noteq> 0) 4096 100)
      (snd (snd (base_malloc 4096 100 base_init)))" by (metis prod.collapse)
  from base_reach_blocks_ok [OF base_reach.free [OF this, of 4096]] show ?thesis by simp
qed

text \<open>The runs in which the C library keeps its promise: the memory of the blocks stays apart.\<close>

inductive base_run :: "(u64 \<Rightarrow> nat) \<Rightarrow> base_state \<Rightarrow> bool" where
  start: "base_run (\<lambda>_. 0) base_init"
| malloc: "base_run cap st \<Longrightarrow> malloc_fresh cap mp sz st \<Longrightarrow> base_malloc mp sz st = (p, asked, st') \<Longrightarrow>
     base_run (cap_after cap (asked \<and> mp \<noteq> 0) mp sz) st'"
| free: "base_run cap st \<Longrightarrow> p \<noteq> 0 \<Longrightarrow> base_run cap (base_free p st)"

lemma base_run_apart: "base_run cap st \<Longrightarrow> blocks_ok cap st \<and> disabled st = 0 \<and> held_apart cap st"
proof (induction rule: base_run.induct)
  case start
  show ?case by (simp add: blocks_ok_def held_apart_def held_def base_init_def)
next
  case (malloc cap st mp sz p asked st')
  then show ?case
    using base_malloc_enabled [of st cap mp sz] base_malloc_blocks_ok [of cap st mp sz p asked st'] base_malloc_apart [of cap st mp sz p asked st']
      malloc_fresh_start [of cap mp sz st] by auto
next
  case (free cap st p)
  then show ?case using base_free_enabled base_free_blocks_ok base_free_apart by blast
qed

text \<open>
  \<open>dcalloc\<close> does not detect overflow of \<open>nmemb * sz\<close>: asked for \<open>2 ^ 64\<close> bytes it returns a block
  that is recorded with size 0.
\<close>

theorem dcalloc_overflow_undetected:
  "\<exists>st' m'. dcalloc 4096 0x8000000000000000 2 base_init m = (4096, st', m') \<and> allocs st' 4096 = Some 0"
proof -
  obtain p asked st' where bm: "base_malloc 4096 0 base_init = (p, asked, st')" by (metis prod_cases3)
  have "blocks_ok (\<lambda>_. 0) base_init" "disabled base_init = 0" by (simp_all add: blocks_ok_def base_init_def)
  from base_malloc_cases [OF this bm] have "p = 4096" "allocs st' = [4096 \<mapsto> 0]" by (auto simp: base_init_def)
  moreover have "0x8000000000000000 * 2 = (0 :: u64)" by code_simp
  ultimately show ?thesis using bm by (simp only: dcalloc_def dmalloc_def) simp
qed

end
