(* ===== verification/VunmoServer.thy ===== *)
theory VunmoServer
  imports Prelude
begin

unbundle bit_operations_syntax

text \<open>
  The payment server of \<open>vunmo/vunmo-server.{hh,cc}\<close> with the message types of \<open>vunmo/common.hh\<close>: the
  request handlers, sending responses and notifications, accepting and reconnecting clients, reading
  requests and shutting down.

  Every operation appends what it does to the outside to the server's \<open>trace\<close>: mutex operations, system
  calls and log lines, in program order. Results of system calls come from the environment as
  arguments. \<open>sprintf\<close> into a message buffer that is too small is the error \<open>BufferOverflow\<close>, a failed
  \<open>assert\<close> is \<open>AssertFailed\<close>.
\<close>

section \<open>Messages\<close>

definition RESP_STR_LEN :: nat where
  "RESP_STR_LEN = 100"

text \<open>The type of a request comes off the wire unchecked: \<open>OTHER_REQUEST\<close> is any value outside the enum.\<close>

datatype request_type = BALANCE | DEPOSIT | WITHDRAWAL | PAYMENT | CHARGE | OTHER_REQUEST u32

record request =
  req_type :: request_type
  origin_client_id :: u64
  target_client_id :: u64
  req_amount :: u64

datatype notification_type = PAYMENT_NOTIFICATION | CHARGE_REQUEST_NOTIFICATION

record notification =
  notif_type :: notification_type
  notif_origin :: u64
  notif_amount :: u64
  notif_message :: string

record response =
  resp_amount :: u64
  success :: int
  resp_message :: string

datatype hello_type = REQUESTS_HELLO | NOTIFICATIONS_HELLO | OTHER_HELLO u32

record client_hello =
  hello_client_id :: u64
  hello_kind :: hello_type

text \<open>Sizes of the structs on the wire (x86-64 layout, trailing padding included).\<close>

definition sizeof_request :: int where "sizeof_request = 32"
definition sizeof_response :: int where "sizeof_response = 112"
definition sizeof_notification :: int where "sizeof_notification = 128"
definition sizeof_hello :: int where "sizeof_hello = 16"

section \<open>Server state\<close>

definition ECLINOTFOUND :: int where "ECLINOTFOUND = 1"
definition ETARNOTFOUND :: int where "ETARNOTFOUND = 2"
definition ESELFACTION :: int where "ESELFACTION = 3"

datatype vunmo_error = BufferOverflow | AssertFailed

datatype mutex = MConns | MAccounts | MClient u64 | MAccount u64

datatype event =
    Lock mutex | Unlock mutex | TryLock mutex bool
  | WriteResponse int response | WriteNotification int notification
  | ReadHello int | ReadRequest int | Poll "int list"
  | Close int | Log string

record client_conn =
  conn_id :: u64
  request_fd :: int
  notification_fd :: int
  is_connected :: bool

record account =
  account_id :: u64
  balance :: u64

record server =
  client_conns :: "u64 \<rightharpoonup> client_conn"
  accounts :: "u64 \<rightharpoonup> account"
  incomplete_conns :: "u64 \<rightharpoonup> client_conn"
  trace :: "event list"

definition emit :: "event list \<Rightarrow> server \<Rightarrow> server" where
  "emit es s = s\<lparr>trace := trace s @ es\<rparr>"

definition sprintf_msg :: "string \<Rightarrow> vunmo_error + string" where
  "sprintf_msg s = (if length s < RESP_STR_LEN then Inr s else Inl BufferOverflow)"

abbreviation nl :: string where
  "nl \<equiv> [CHR 0x0A]"

section \<open>Request handlers\<close>

definition handle_balance :: "request \<Rightarrow> account \<Rightarrow> response \<Rightarrow> vunmo_error + int \<times> response" where
  "handle_balance req acc resp =
     (if origin_client_id req = account_id acc then
        (case sprintf_msg (''[BALANCE] Current BALANCE is '' @ show_ld (balance acc) @ ''.'' @ nl) of
           Inl e \<Rightarrow> Inl e
         | Inr msg \<Rightarrow> Inr (0, resp\<lparr>resp_amount := balance acc, success := 1, resp_message := msg\<rparr>))
      else Inl AssertFailed)"

definition handle_deposit :: "request \<Rightarrow> account \<Rightarrow> response \<Rightarrow> vunmo_error + int \<times> account \<times> response" where
  "handle_deposit req acc resp =
     (let acc' = acc\<lparr>balance := balance acc + req_amount req\<rparr>
      in case sprintf_msg (''[DEPOSIT] Deposited '' @ show_ld (req_amount req) @ ''. Balance is now '' @
                show_ld (balance acc') @ ''.'' @ nl) of
           Inl e \<Rightarrow> Inl e
         | Inr msg \<Rightarrow> Inr (0, acc', resp\<lparr>resp_amount := balance acc', success := 1, resp_message := msg\<rparr>))"

definition handle_withdraw :: "request \<Rightarrow> account \<Rightarrow> response \<Rightarrow> vunmo_error + int \<times> account \<times> response" where
  "handle_withdraw req acc resp =
     (if req_amount req > balance acc then
        (case sprintf_msg (''[WITHDRAW] Failed to WITHDRAWAL '' @ show_ld (req_amount req) @ '' from BALANCE of '' @
                show_ld (balance acc) @ ''.'' @ nl) of
           Inl e \<Rightarrow> Inl e
         | Inr msg \<Rightarrow> Inr (- 1, acc, resp\<lparr>resp_amount := balance acc, success := 0, resp_message := msg\<rparr>))
      else
        let acc' = acc\<lparr>balance := balance acc - req_amount req\<rparr>
        in case sprintf_msg (''[WITHDRAW] Withdrew '' @ show_ld (req_amount req) @ ''. Balance is now '' @
                  show_ld (balance acc') @ ''.'' @ nl) of
             Inl e \<Rightarrow> Inl e
           | Inr msg \<Rightarrow> Inr (0, acc', resp\<lparr>resp_amount := balance acc', success := 1, resp_message := msg\<rparr>))"

definition handle_pay :: "request \<Rightarrow> account \<Rightarrow> account \<Rightarrow> response \<Rightarrow> notification \<Rightarrow>
    vunmo_error + int \<times> account \<times> account \<times> response \<times> notification" where
  "handle_pay req first second resp notif =
     (if balance first < req_amount req then
        (case sprintf_msg (''[PAY] Insufficient BALANCE ('' @ show_ld (balance first) @ '') to PAYMENT '' @
                show_ld (req_amount req) @ '' to client '' @ show_ld (target_client_id req) @ ''.'' @ nl) of
           Inl e \<Rightarrow> Inl e
         | Inr msg \<Rightarrow> Inr (- 1, first, second,
             resp\<lparr>resp_amount := balance first, success := 0, resp_message := msg\<rparr>, notif))
      else
        let first' = first\<lparr>balance := balance first - req_amount req\<rparr>;
            second' = second\<lparr>balance := balance second + req_amount req\<rparr>
        in case sprintf_msg (''[PAY] Payed '' @ show_ld (req_amount req) @ '' to client '' @
                  show_ld (target_client_id req) @ ''. Balance now '' @ show_ld (balance first') @ ''.'' @ nl) of
             Inl e \<Rightarrow> Inl e
           | Inr msg \<Rightarrow>
               (case sprintf_msg (''[PAY] Client '' @ show_ld (account_id first') @ '' paid you '' @
                       show_ld (req_amount req) @ ''. Balance now '' @ show_ld (balance second') @ ''.'' @ nl) of
                  Inl e \<Rightarrow> Inl e
                | Inr nmsg \<Rightarrow> Inr (0, first', second',
                    resp\<lparr>resp_amount := balance first', success := 1, resp_message := msg\<rparr>,
                    notif\<lparr>notif_type := PAYMENT_NOTIFICATION, notif_origin := account_id first',
                          notif_amount := req_amount req, notif_message := nmsg\<rparr>)))"

definition handle_charge :: "request \<Rightarrow> account \<Rightarrow> account \<Rightarrow> response \<Rightarrow> notification \<Rightarrow>
    vunmo_error + int \<times> response \<times> notification" where
  "handle_charge req first second resp notif =
     (case sprintf_msg (''[CHARGE] Requested '' @ show_ld (req_amount req) @ '' from client '' @
             show_ld (account_id second) @ ''.'' @ nl) of
        Inl e \<Rightarrow> Inl e
      | Inr msg \<Rightarrow>
          (case sprintf_msg (''[CHARGE] Client '' @ show_ld (account_id first) @ '' is requesting '' @
                  show_ld (req_amount req) @ ''.'' @ nl) of
             Inl e \<Rightarrow> Inl e
           | Inr nmsg \<Rightarrow> Inr (0, resp\<lparr>resp_amount := balance first, success := 1, resp_message := msg\<rparr>,
               notif\<lparr>notif_type := CHARGE_REQUEST_NOTIFICATION, notif_origin := account_id first,
                     notif_amount := req_amount req, notif_message := nmsg\<rparr>)))"

text \<open>The numeric value of the enum, as printed by \<open>%d\<close>.\<close>

fun request_type_code :: "request_type \<Rightarrow> u32" where
  "request_type_code BALANCE = 0"
| "request_type_code DEPOSIT = 1"
| "request_type_code WITHDRAWAL = 2"
| "request_type_code PAYMENT = 3"
| "request_type_code CHARGE = 4"
| "request_type_code (OTHER_REQUEST n) = n"

definition handle_unknown_request :: "request \<Rightarrow> response \<Rightarrow> vunmo_error + int \<times> response" where
  "handle_unknown_request req resp =
     (case sprintf_msg (''[ERROR] Unknown request type '' @ show_d (request_type_code (req_type req)) @ ''.'' @ nl) of
        Inl e \<Rightarrow> Inl e
      | Inr msg \<Rightarrow> Inr (0, resp\<lparr>resp_amount := 0, success := 0, resp_message := msg\<rparr>))"

definition print_request :: "request \<Rightarrow> string" where
  "print_request req =
     (case req_type req of
        BALANCE \<Rightarrow> ''[BALANCE] Client '' @ show_ld (origin_client_id req) @ nl
      | DEPOSIT \<Rightarrow> ''[DEPOSIT] Client '' @ show_ld (origin_client_id req) @ '' $'' @ show_ld (req_amount req) @ nl
      | WITHDRAWAL \<Rightarrow> ''[WITHDRAWAL] Client '' @ show_ld (origin_client_id req) @ '' $'' @ show_ld (req_amount req) @ nl
      | PAYMENT \<Rightarrow> ''[PAYMENT] Client '' @ show_ld (origin_client_id req) @ '' $'' @ show_ld (req_amount req) @
          '' to target '' @ show_ld (target_client_id req) @ nl
      | CHARGE \<Rightarrow> ''[CHARGE] Client '' @ show_ld (origin_client_id req) @ '' $'' @ show_ld (req_amount req) @
          '' to target '' @ show_ld (target_client_id req) @ nl
      | OTHER_REQUEST _ \<Rightarrow> [])"

section \<open>Sending\<close>

definition disconnected_log :: "u64 \<Rightarrow> event" where
  "disconnected_log cid = Log (''Client '' @ show_ld cid @ '' has been disconnected.'' @ nl)"

text \<open>\<open>wr fd\<close> is the number of bytes \<open>write\<close> reports for a write to \<open>fd\<close>.\<close>

definition send_response :: "(int \<Rightarrow> int) \<Rightarrow> u64 \<Rightarrow> response \<Rightarrow> server \<Rightarrow> int \<times> server" where
  "send_response wr cid resp s =
     (let s = emit [Lock MConns] s
      in case client_conns s cid of
           None \<Rightarrow> (- ECLINOTFOUND, emit [Unlock MConns] s)
         | Some c \<Rightarrow>
             let s = emit [Lock (MClient cid), Unlock MConns, WriteResponse (request_fd c) resp] s;
                 s = (if wr (request_fd c) < sizeof_response then
                        emit [Close (request_fd c), Close (notification_fd c), disconnected_log cid]
                          (s\<lparr>client_conns := (client_conns s)(cid \<mapsto> c\<lparr>is_connected := False\<rparr>)\<rparr>)
                      else s)
             in (0, emit [Unlock (MClient cid)] s))"

definition send_notification :: "(int \<Rightarrow> int) \<Rightarrow> u64 \<Rightarrow> notification \<Rightarrow> server \<Rightarrow> int \<times> server" where
  "send_notification wr cid n s =
     (let s = emit [Lock MConns] s
      in case client_conns s cid of
           None \<Rightarrow> (- ECLINOTFOUND, emit [Unlock MConns] s)
         | Some c \<Rightarrow>
             let s = emit [Lock (MClient cid), Unlock MConns] s;
                 s = (if is_connected c then
                        let s = emit [WriteNotification (notification_fd c) n] s
                        in if wr (notification_fd c) < sizeof_notification then
                             emit [Close (request_fd c), Close (notification_fd c), disconnected_log cid]
                               (s\<lparr>client_conns := (client_conns s)(cid \<mapsto> c\<lparr>is_connected := False\<rparr>)\<rparr>)
                           else s
                      else s)
             in (0, emit [Unlock (MClient cid)] s))"

text \<open>The lookup helper as the repository has it: it finds no client and locks nothing.\<close>

definition get_account :: "u64 \<Rightarrow> server \<Rightarrow> int \<times> account option \<times> server" where
  "get_account cid s = (- ECLINOTFOUND, None, s)"

definition handle_missing_clients :: "(int \<Rightarrow> int) \<Rightarrow> int \<Rightarrow> request \<Rightarrow> response \<Rightarrow> server \<Rightarrow> vunmo_error + server" where
  "handle_missing_clients wr err req resp0 s =
     (if err = - ECLINOTFOUND then Inr s
      else if err = - ETARNOTFOUND \<or> err = - ESELFACTION then
        (case sprintf_msg (if err = - ETARNOTFOUND
                 then ''[ERROR]: target client '' @ show_ld (target_client_id req) @ '' not found.'' @ nl
                 else ''[ERROR]: target cannot be self ['' @ show_ld (target_client_id req) @ ''].'' @ nl) of
           Inl e \<Rightarrow> Inl e
         | Inr msg \<Rightarrow>
             (case get_account (origin_client_id req) s of
                (r, Some acc, s1) \<Rightarrow>
                  if r < 0 then Inr s1
                  else let (_, s2) = send_response wr (account_id acc) (resp0\<lparr>success := 0, resp_message := msg\<rparr>) s1
                       in Inr (emit [Unlock (MAccount (account_id acc))] s2)
              | (r, None, s1) \<Rightarrow> Inr s1))
      else Inr s)"

section \<open>Accepting clients\<close>

text \<open>
  What one turn of the accept loop sees: whether the server was stopped before and after \<open>accept\<close>, the
  new descriptor, and the bytes read as a hello.
\<close>

record accept_env =
  stopped_before :: bool
  accepted_fd :: int
  stopped_after :: bool
  hello_bytes :: int
  hello :: client_hello

definition new_client_conn :: "u64 \<Rightarrow> client_conn" where
  "new_client_conn cid = \<lparr>conn_id = cid, request_fd = - 1, notification_fd = - 1, is_connected = False\<rparr>"

text \<open>
  The loop; an exhausted environment list is an \<open>accept\<close> that blocks (\<open>None\<close>). The inner option is the
  returned client (\<open>nullptr\<close> when the server stops).
\<close>

fun accept_client :: "accept_env list \<Rightarrow> server \<Rightarrow> (client_conn option \<times> server) option" where
  "accept_client [] s = None"
| "accept_client (e # es) s =
     (if stopped_before e then Some (None, s)
      else if accepted_fd e < 0 \<or> stopped_after e then Some (None, s)
      else
        let s = emit [ReadHello (accepted_fd e)] s
        in if hello_bytes e < sizeof_hello then accept_client es (emit [Log (''Failed to read client hello.'' @ nl)] s)
           else
             let cid = hello_client_id (hello e);
                 c = (case incomplete_conns s cid of None \<Rightarrow> new_client_conn cid | Some c \<Rightarrow> c);
                 s = s\<lparr>incomplete_conns := (incomplete_conns s)(cid \<mapsto> c)\<rparr>
             in case hello_kind (hello e) of
                  OTHER_HELLO k \<Rightarrow> accept_client es (emit [Log (''Bad hello of type '' @ show_d k @ ''.'' @ nl)] s)
                | k \<Rightarrow>
                    let c = (if k = REQUESTS_HELLO then c\<lparr>request_fd := accepted_fd e\<rparr>
                             else c\<lparr>notification_fd := accepted_fd e\<rparr>);
                        s = s\<lparr>incomplete_conns := (incomplete_conns s)(cid \<mapsto> c)\<rparr>
                    in if request_fd c \<noteq> - 1 \<and> notification_fd c \<noteq> - 1
                       then Some (Some c, s\<lparr>incomplete_conns := (incomplete_conns s)(cid := None)\<rparr>)
                       else accept_client es s)"

text \<open>\<open>existing\<close> is the entry of \<open>client_conns\<close> for the same client.\<close>

definition handle_reconnecting_client :: "client_conn \<Rightarrow> client_conn \<Rightarrow> server \<Rightarrow> server" where
  "handle_reconnecting_client new_client existing s =
     (let m = MClient (conn_id existing);
          s = emit [Lock m] s;
          s = (if is_connected existing then
                 emit [Close (request_fd new_client), Close (notification_fd new_client),
                       Log (''Client '' @ show_ld (conn_id new_client) @ '' tried to connect but is already connected.'' @ nl)] s
               else
                 emit [Log (''Client '' @ show_ld (conn_id new_client) @ '' has reconnected.'' @ nl)]
                   (s\<lparr>client_conns := (client_conns s)(conn_id existing \<mapsto>
                        existing\<lparr>request_fd := request_fd new_client, notification_fd := notification_fd new_client,
                                 is_connected := True\<rparr>)\<rparr>))
      in emit [Unlock m] s)"

section \<open>Reading requests\<close>

text \<open>\<open>rd\<close>: the bytes \<open>read\<close> reports and the request it delivers.\<close>

definition read_request :: "int \<times> request \<Rightarrow> client_conn \<Rightarrow> client_conn \<times> request option \<times> event list" where
  "read_request rd c =
     (if fst rd < sizeof_request then
        (c\<lparr>is_connected := False\<rparr>, None,
         [ReadRequest (request_fd c), Close (request_fd c), Close (notification_fd c), disconnected_log (conn_id c)])
      else (c, Some (snd rd), [ReadRequest (request_fd c)]))"

text \<open>
  The environment of \<open>fetch_requests\<close>: the iteration order of the hash map, the outcomes of the two
  rounds of \<open>try_lock\<close>, the result of \<open>poll\<close>, which descriptors are readable, and what \<open>read\<close> delivers.
\<close>

record fetch_env =
  map_order :: "u64 list"
  try1 :: "u64 \<Rightarrow> bool"
  try2 :: "u64 \<Rightarrow> bool"
  poll_result :: int
  pollin :: "u64 \<Rightarrow> bool"
  read_result :: "u64 \<Rightarrow> int \<times> request"

fun collect_available :: "(u64 \<Rightarrow> bool) \<Rightarrow> u64 list \<Rightarrow> server \<Rightarrow> u64 list \<times> server" where
  "collect_available tlk [] s = ([], s)"
| "collect_available tlk (cid # cids) s =
     (case client_conns s cid of
        None \<Rightarrow> collect_available tlk cids s
      | Some c \<Rightarrow>
          if tlk cid then
            if is_connected c then
              let (avail, s') = collect_available tlk cids (emit [TryLock (MClient cid) True] s)
              in (cid # avail, s')
            else collect_available tlk cids (emit [TryLock (MClient cid) True, Unlock (MClient cid)] s)
          else collect_available tlk cids (emit [TryLock (MClient cid) False] s))"

fun read_available :: "fetch_env \<Rightarrow> u64 list \<Rightarrow> server \<Rightarrow> request list \<times> server" where
  "read_available e [] s = ([], s)"
| "read_available e (cid # cids) s =
     (case client_conns s cid of
        None \<Rightarrow> read_available e cids s
      | Some c \<Rightarrow>
          if try2 e cid then
            let (c', r, evs) = read_request (read_result e cid) c;
                s1 = emit ([TryLock (MClient cid) True] @ evs @ [Unlock (MClient cid)])
                       (s\<lparr>client_conns := (client_conns s)(cid \<mapsto> c')\<rparr>);
                (reqs, s2) = read_available e cids s1
            in ((case r of Some req \<Rightarrow> [req] | None \<Rightarrow> []) @ reqs, s2)
          else read_available e cids (emit [TryLock (MClient cid) False] s))"

definition fetch_requests :: "fetch_env \<Rightarrow> server \<Rightarrow> request list \<times> server" where
  "fetch_requests e s =
     (let (avail, s1) = collect_available (try1 e) (map_order e) (emit [Lock MConns] s)
      in if avail = [] then ([], emit [Unlock MConns] s1)
         else
           let fds = map (\<lambda>cid. request_fd (the (client_conns s1 cid))) avail;
               s2 = emit (map (\<lambda>cid. Unlock (MClient cid)) avail @ [Unlock MConns, Poll fds]) s1
           in if poll_result e \<le> 0 then ([], s2)
              else read_available e (filter (pollin e) avail) s2)"

section \<open>Shutdown\<close>

text \<open>
  The part of \<open>stop\<close> the repository has: closing the connected clients and collecting the balances,
  in the iteration orders \<open>corder\<close> and \<open>aorder\<close> of the two maps. \<open>insert\<close> keeps the first entry of a key.
\<close>

fun close_conns :: "u64 list \<Rightarrow> server \<Rightarrow> server" where
  "close_conns [] s = s"
| "close_conns (cid # cids) s =
     (case client_conns s cid of
        Some c \<Rightarrow> close_conns cids
          (if is_connected c then emit [Close (request_fd c), Close (notification_fd c)] s else s)
      | None \<Rightarrow> close_conns cids s)"

fun final_balances :: "u64 list \<Rightarrow> (u64 \<rightharpoonup> account) \<Rightarrow> (u64 \<rightharpoonup> u64) \<Rightarrow> (u64 \<rightharpoonup> u64)" where
  "final_balances [] accs acc = acc"
| "final_balances (k # ks) accs acc =
     (case accs k of
        Some a \<Rightarrow> final_balances ks accs
          (if acc (account_id a) = None then acc(account_id a \<mapsto> balance a) else acc)
      | None \<Rightarrow> final_balances ks accs acc)"

definition stop :: "u64 list \<Rightarrow> u64 list \<Rightarrow> server \<Rightarrow> (u64 \<rightharpoonup> u64) \<times> server" where
  "stop corder aorder s =
     (let s = emit [Log (''closing and deleting all connections...'' @ nl), Lock MConns] s;
          s = close_conns corder s;
          s = emit [Unlock MConns, Lock MAccounts, Log (''deleting accounts...'' @ nl)] s
      in (final_balances aorder (accounts s) Map.empty, emit [Unlock MAccounts] s))"

section \<open>Message buffers\<close>

lemma sprintf_msg_fits [simp]: "length s < 100 \<Longrightarrow> sprintf_msg s = Inr s"
  by (simp add: sprintf_msg_def RESP_STR_LEN_def)

lemma length_show_ld_le:
  "length (show_ld x) \<le> 20" "length (show_ld x) + length (show_ld y) \<le> 40"
  "length (show_ld x) + (length (show_ld y) + length (show_ld z)) \<le> 60"
  using length_show_ld [of x] length_show_ld [of y] length_show_ld [of z] by simp_all

lemma accepted_payment_fits: "req_amount req \<le> balance first \<Longrightarrow> \<exists>r. handle_pay req first second resp notif = Inr r"
  using length_show_ld_le(3) [of "req_amount req" "target_client_id req" "balance first - req_amount req"]
    length_show_ld_le(3) [of "account_id first" "req_amount req" "balance second + req_amount req"]
  by (simp add: handle_pay_def Let_def not_less [symmetric])

text \<open>
  No handler overruns the 100-byte message buffers, whatever the 64-bit amounts, balances and
  identifiers are, except for a refused payment: balance, deposit, withdrawal (both branches), charge,
  unknown request and an accepted payment always produce their messages.
\<close>

theorem handlers_fit_buffers:
  "(\<exists>r. handle_deposit req acc resp = Inr r) \<and> (\<exists>r. handle_withdraw req acc resp = Inr r) \<and>
   (\<exists>r. handle_charge req first second resp notif = Inr r) \<and> (\<exists>r. handle_unknown_request req resp = Inr r) \<and>
   (origin_client_id req = account_id acc \<longrightarrow> (\<exists>r. handle_balance req acc resp = Inr r)) \<and>
   (req_amount req \<le> balance first \<longrightarrow> (\<exists>r. handle_pay req first second resp notif = Inr r))"
proof (intro conjI impI)
  show "\<exists>r. handle_deposit req acc resp = Inr r"
    using length_show_ld_le(2) [of "req_amount req" "balance acc + req_amount req"]
    by (simp add: handle_deposit_def Let_def)
  show "\<exists>r. handle_withdraw req acc resp = Inr r"
    using length_show_ld_le(2) [of "req_amount req" "balance acc"] length_show_ld_le(2) [of "req_amount req" "balance acc - req_amount req"]
    by (simp add: handle_withdraw_def Let_def)
  show "\<exists>r. handle_charge req first second resp notif = Inr r"
    using length_show_ld_le(2) [of "req_amount req" "account_id second"] length_show_ld_le(2) [of "account_id first" "req_amount req"]
    by (simp add: handle_charge_def Let_def)
  show "\<exists>r. handle_unknown_request req resp = Inr r"
    using length_show_d [of "request_type_code (req_type req)"] by (simp add: handle_unknown_request_def)
  show "\<exists>r. handle_balance req acc resp = Inr r" if "origin_client_id req = account_id acc"
    using that length_show_ld_le(1) [of "balance acc"] by (simp add: handle_balance_def)
  show "\<exists>r. handle_pay req first second resp notif = Inr r" if "req_amount req \<le> balance first"
    by (rule accepted_payment_fits [OF that])
qed

text \<open>A sample request and accounts for concrete instances.\<close>

definition sample_request :: request where
  "sample_request = \<lparr>req_type = PAYMENT, origin_client_id = 1, target_client_id = 2, req_amount = 30\<rparr>"

definition sample_response :: response where
  "sample_response = \<lparr>resp_amount = 0, success = 0, resp_message = []\<rparr>"

definition sample_notification :: notification where
  "sample_notification = \<lparr>notif_type = PAYMENT_NOTIFICATION, notif_origin = 0, notif_amount = 0, notif_message = []\<rparr>"

theorem handlers_fit_buffers_witness:
  "\<exists>r. handle_pay sample_request \<lparr>account_id = 1, balance = 100\<rparr> \<lparr>account_id = 2, balance = 5\<rparr> sample_response sample_notification = Inr r"
  using handlers_fit_buffers [of sample_request "\<lparr>account_id = 1, balance = 100\<rparr>" sample_response
    "\<lparr>account_id = 1, balance = 100\<rparr>" "\<lparr>account_id = 2, balance = 5\<rparr>" sample_notification]
  by (simp add: sample_request_def)

text \<open>
  C5. A refused payment overruns the response buffer exactly when the balance, the amount and the
  target identifier print to 46 or more characters in total.
\<close>

theorem handle_pay_overflow:
  assumes "balance first < req_amount req"
  shows "handle_pay req first second resp notif = Inl BufferOverflow \<longleftrightarrow>
    46 \<le> length (show_ld (balance first)) + length (show_ld (req_amount req)) + length (show_ld (target_client_id req))"
  using assms by (auto simp: handle_pay_def sprintf_msg_def RESP_STR_LEN_def)

theorem handle_pay_overflow_witness:
  "handle_pay \<lparr>req_type = PAYMENT, origin_client_id = 1, target_client_id = 0x8000000000000002, req_amount = 0x8000000000000001\<rparr>
     \<lparr>account_id = 1, balance = 0x8000000000000000\<rparr> \<lparr>account_id = 0x8000000000000002, balance = 0\<rparr>
     sample_response sample_notification = Inl BufferOverflow"
proof -
  let ?req = "\<lparr>req_type = PAYMENT, origin_client_id = 1, target_client_id = 0x8000000000000002, req_amount = 0x8000000000000001\<rparr>"
  let ?acc = "\<lparr>account_id = 1, balance = 0x8000000000000000\<rparr>"
  have h: "balance ?acc < req_amount ?req" by simp
  have long: "19 \<le> length (show_ld x)" if "10 ^ 18 \<le> - sint x" for x
    using that length_dec_digits_ge [of 18 "nat (- sint x)"] by (auto simp: show_ld_def le_nat_iff)
  have "19 \<le> length (show_ld 0x8000000000000000)" "19 \<le> length (show_ld 0x8000000000000001)"
    "19 \<le> length (show_ld 0x8000000000000002)" by (rule long, simp)+
  then show ?thesis using handle_pay_overflow [OF h] by simp
qed

section \<open>Money\<close>

lemma handle_pay_cases:
  "balance first < req_amount req \<Longrightarrow> handle_pay req first second resp notif = Inr (r, f', s', resp', n') \<Longrightarrow>
     r = - 1 \<and> f' = first \<and> s' = second \<and> n' = notif \<and> success resp' = 0 \<and> resp_amount resp' = balance first"
  "\<not> balance first < req_amount req \<Longrightarrow> handle_pay req first second resp notif = Inr (r, f', s', resp', n') \<Longrightarrow>
     r = 0 \<and> f' = first\<lparr>balance := balance first - req_amount req\<rparr> \<and>
     s' = second\<lparr>balance := balance second + req_amount req\<rparr> \<and>
     success resp' = 1 \<and> resp_amount resp' = balance f' \<and>
     notif_type n' = PAYMENT_NOTIFICATION \<and> notif_origin n' = account_id first \<and> notif_amount n' = req_amount req"
  by (auto simp: handle_pay_def Let_def split: sum.splits)

text \<open>
  C1. What a payment does, for all balances and amounts. It succeeds exactly when the payer can afford it; then the payer's
  balance falls by the amount, the payee's rises by it modulo \<open>2 ^ 64\<close>, and the payee is notified. The credit is not checked:
  the sum of the two balances is conserved exactly when the payee's new balance fits 64 bits. A refused payment
  changes neither account nor the notification, and only a refused payment can overrun its message buffer.
\<close>

theorem handle_pay_conserves:
  "case handle_pay req first second resp notif of
     Inl e \<Rightarrow> e = BufferOverflow \<and> balance first < req_amount req
   | Inr (r, first', second', resp', notif') \<Rightarrow>
       account_id first' = account_id first \<and> account_id second' = account_id second \<and> resp_amount resp' = balance first' \<and>
       (if req_amount req \<le> balance first
        then r = 0 \<and> success resp' = 1 \<and> unat (balance first') = unat (balance first) - unat (req_amount req) \<and>
          unat (balance second') = (unat (balance second) + unat (req_amount req)) mod 2 ^ 64 \<and>
          (unat (balance first') + unat (balance second') = unat (balance first) + unat (balance second) \<longleftrightarrow>
             unat (balance second) + unat (req_amount req) < 2 ^ 64) \<and>
          notif_type notif' = PAYMENT_NOTIFICATION \<and> notif_amount notif' = req_amount req \<and> notif_origin notif' = account_id first
        else r = - 1 \<and> success resp' = 0 \<and> first' = first \<and> second' = second \<and> notif' = notif)"
proof (cases "handle_pay req first second resp notif")
  case (Inl e)
  moreover have "e = BufferOverflow" using Inl by (auto simp: handle_pay_def sprintf_msg_def Let_def split: if_splits)
  moreover have "balance first < req_amount req" using Inl accepted_payment_fits [of req first second resp notif] by (auto simp: not_less [symmetric])
  ultimately show ?thesis by simp
next
  case (Inr v)
  obtain r first' second' resp' notif' where v: "v = (r, first', second', resp', notif')" by (metis prod_cases5)
  note pay = Inr [unfolded v]
  show ?thesis
  proof (cases "req_amount req \<le> balance first")
    case True
    then have le: "unat (req_amount req) \<le> unat (balance first)" by (simp add: word_le_nat_alt)
    have wrap: "unat (balance second + req_amount req) = (unat (balance second) + unat (req_amount req)) mod 2 ^ 64"
      by (simp add: unat_word_ariths)
    have sum: "x - y + (z + y) mod 2 ^ 64 = x + z \<longleftrightarrow> z + y < 2 ^ 64" if "y \<le> x" for x y z :: nat
    proof
      assume "x - y + (z + y) mod 2 ^ 64 = x + z"
      then have "(z + y) mod 2 ^ 64 = z + y" using that by linarith
      then show "z + y < 2 ^ 64" by (metis mod_less_divisor zero_less_numeral zero_less_power)
    qed (use that in simp)
    from True have "\<not> balance first < req_amount req" by simp
    from handle_pay_cases(2) [OF this pay] show ?thesis
      unfolding pay using True sum [OF le, of "unat (balance second)"] by (simp add: unat_minus_le [OF True] wrap)
  next
    case False
    then have "balance first < req_amount req" by simp
    with False handle_pay_cases(1) [OF this pay] show ?thesis by (simp add: pay)
  qed
qed

theorem handle_pay_conserves_witness:
  "\<exists>resp' notif'. handle_pay sample_request \<lparr>account_id = 1, balance = 100\<rparr> \<lparr>account_id = 2, balance = - 20\<rparr> sample_response sample_notification
     = Inr (0, \<lparr>account_id = 1, balance = 70\<rparr>, \<lparr>account_id = 2, balance = 10\<rparr>, resp', notif')"
proof -
  let ?p = "handle_pay sample_request \<lparr>account_id = 1, balance = 100\<rparr> \<lparr>account_id = 2, balance = - 20\<rparr> sample_response sample_notification"
  note th = handle_pay_conserves [where req = sample_request and first = "\<lparr>account_id = 1, balance = 100\<rparr>" and
    second = "\<lparr>account_id = 2, balance = - 20\<rparr>" and resp = sample_response and notif = sample_notification]
  obtain r f g resp' notif' where p: "?p = Inr (r, f, g, resp', notif')"
    using th by (cases ?p) (auto simp: sample_request_def)
  have u: "unat (- 20 :: u64) = 18446744073709551596" by simp
  from th have "r = 0 \<and> account_id f = 1 \<and> account_id g = 2 \<and> unat (balance f) = 70 \<and> unat (balance g) = 10"
    unfolding p by (simp add: sample_request_def u)
  then have "r = 0 \<and> f = \<lparr>account_id = 1, balance = 70\<rparr> \<and> g = \<lparr>account_id = 2, balance = 10\<rparr>"
    by (cases f; cases g) (auto simp: word_unat_eq_iff)
  with p show ?thesis by blast
qed

text \<open>
  Withdrawals never overdraw: the balance after a withdrawal is the balance before minus the
  amount when that is covered, and unchanged (with an error response) when it is not; the response
  always carries the resulting balance.
\<close>

theorem handle_withdraw_no_overdraft:
  assumes "handle_withdraw req acc resp = Inr (r, acc', resp')"
  shows "account_id acc' = account_id acc \<and> resp_amount resp' = balance acc' \<and>
    (if unat (req_amount req) \<le> unat (balance acc)
     then r = 0 \<and> success resp' = 1 \<and> unat (balance acc') = unat (balance acc) - unat (req_amount req)
     else r = - 1 \<and> success resp' = 0 \<and> acc' = acc)"
  using assms by (auto simp: handle_withdraw_def Let_def word_less_nat_alt unat_minus_le word_le_nat_alt split: if_splits sum.splits)

theorem handle_withdraw_no_overdraft_witness:
  "\<exists>resp'. handle_withdraw sample_request \<lparr>account_id = 1, balance = 20\<rparr> sample_response = Inr (- 1, \<lparr>account_id = 1, balance = 20\<rparr>, resp')
     \<and> success resp' = 0"
proof -
  have "length (show_ld 30) \<le> 20" "length (show_ld 20) \<le> 20" by (rule length_show_ld)+
  then obtain resp' where p: "handle_withdraw sample_request \<lparr>account_id = 1, balance = 20\<rparr> sample_response
      = Inr (- 1, \<lparr>account_id = 1, balance = 20\<rparr>, resp')"
    by (simp add: handle_withdraw_def sample_request_def)
  from handle_withdraw_no_overdraft [OF p] p show ?thesis by (auto simp: sample_request_def)
qed

section \<open>Lock discipline\<close>

text \<open>
  Replaying a trace against the set of held mutexes: locking a held mutex (self-deadlock) and
  unlocking one that is not held are failures.
\<close>

fun lock_run :: "mutex set \<Rightarrow> event list \<Rightarrow> mutex set option" where
  "lock_run H [] = Some H"
| "lock_run H (Lock m # es) = (if m \<in> H then None else lock_run (insert m H) es)"
| "lock_run H (TryLock m True # es) = (if m \<in> H then None else lock_run (insert m H) es)"
| "lock_run H (Unlock m # es) = (if m \<in> H then lock_run (H - {m}) es else None)"
| "lock_run H (_ # es) = lock_run H es"

lemma lock_run_append:
  "lock_run H (xs @ ys) = (case lock_run H xs of None \<Rightarrow> None | Some H' \<Rightarrow> lock_run H' ys)"
  by (induction H xs rule: lock_run.induct) auto

lemma trace_emit [simp]: "trace (emit es s) = trace s @ es"
  and client_conns_emit [simp]: "client_conns (emit es s) = client_conns s"
  and accounts_emit [simp]: "accounts (emit es s) = accounts s"
  and incomplete_conns_emit [simp]: "incomplete_conns (emit es s) = incomplete_conns s"
  by (simp_all add: emit_def)

locale lock_balanced =
  fixes op :: "server \<Rightarrow> 'r \<times> server" and pre :: "server \<Rightarrow> bool"
  assumes balanced: "pre s \<Longrightarrow> \<exists>es. trace (snd (op s)) = trace s @ es \<and> lock_run {} es = Some {}"
begin

lemma keeps_unlocked: "pre s \<Longrightarrow> lock_run {} (trace s) = Some {} \<Longrightarrow> lock_run {} (trace (snd (op s))) = Some {}"
  using balanced [of s] by (auto simp: lock_run_append)

end

interpretation send_response: lock_balanced "send_response wr cid resp" "\<lambda>_. True" for wr cid resp
  by unfold_locales (auto simp: send_response_def Let_def disconnected_log_def split: option.splits)

interpretation send_notification: lock_balanced "send_notification wr cid n" "\<lambda>_. True" for wr cid n
  by unfold_locales (auto simp: send_notification_def Let_def disconnected_log_def split: option.splits)

interpretation reconnect: lock_balanced "\<lambda>s. ((), handle_reconnecting_client new_client existing s)" "\<lambda>_. True" for new_client existing
  by unfold_locales (auto simp: handle_reconnecting_client_def Let_def)

lemma collect_available_locks:
  assumes "collect_available tlk cids s = (avail, s')" and "distinct cids" and "H \<inter> MClient ` set cids = {}"
  shows "client_conns s' = client_conns s \<and> set avail \<subseteq> set cids \<and> distinct avail \<and>
    (\<forall>cid \<in> set avail. tlk cid \<and> (\<exists>c. client_conns s cid = Some c \<and> is_connected c)) \<and>
    (\<exists>es. trace s' = trace s @ es \<and> lock_run H es = Some (H \<union> MClient ` set avail))"
  using assms
proof (induction tlk cids s arbitrary: avail s' H rule: collect_available.induct)
  case (1 tlk s)
  then show ?case by simp
next
  case (2 tlk cid cids s)
  have H: "H \<inter> MClient ` set cids = {}" "MClient cid \<notin> H" "cid \<notin> set cids" "distinct cids"
    using "2.prems" by auto
  show ?case
  proof (cases "client_conns s cid")
    case None
    with "2.prems"(1) have "collect_available tlk cids s = (avail, s')" by simp
    from "2.IH"(1) [OF None this H(4,1)] show ?thesis by auto
  next
    case (Some c)
    consider (held) "tlk cid" "is_connected c" | (gone) "tlk cid" "\<not> is_connected c" | (busy) "\<not> tlk cid" by blast
    then show ?thesis
    proof cases
      case held
      obtain av s1 where rec: "collect_available tlk cids (emit [TryLock (MClient cid) True] s) = (av, s1)" by fastforce
      with "2.prems"(1) Some held have av: "avail = cid # av" "s' = s1" by auto
      have "insert (MClient cid) H \<inter> MClient ` set cids = {}" using H by auto
      from "2.IH"(2) [OF Some held rec H(4) this] Some held H av show ?thesis by auto
    next
      case gone
      with "2.prems"(1) Some
      have "collect_available tlk cids (emit [TryLock (MClient cid) True, Unlock (MClient cid)] s) = (avail, s')" by simp
      from "2.IH"(3) [OF Some gone this H(4,1)] H show ?thesis by auto
    next
      case busy
      with "2.prems"(1) Some
      have "collect_available tlk cids (emit [TryLock (MClient cid) False] s) = (avail, s')" by simp
      from "2.IH"(4) [OF Some busy this H(4,1)] show ?thesis by auto
    qed
  qed
qed

lemma read_available_step:
  "client_conns s cid = Some c \<Longrightarrow> try2 e cid \<Longrightarrow>
   read_available e (cid # cids) s =
     (let (c', r, evs) = read_request (read_result e cid) c;
          (reqs, s2) = read_available e cids (emit ([TryLock (MClient cid) True] @ evs @ [Unlock (MClient cid)])
                         (s\<lparr>client_conns := (client_conns s)(cid \<mapsto> c')\<rparr>))
      in ((case r of Some req \<Rightarrow> [req] | None \<Rightarrow> []) @ reqs, s2))"
  by (simp add: Let_def)

lemma read_request_locks:
  "lock_run {} (TryLock (MClient cid) True # snd (snd (read_request rd c)) @ [Unlock (MClient cid)]) = Some {}"
  by (simp add: read_request_def disconnected_log_def)

lemma read_available_locks:
  "\<exists>es. trace (snd (read_available e cids s)) = trace s @ es \<and> lock_run {} es = Some {}"
proof (induction cids arbitrary: s)
  case (Cons cid cids)
  show ?case
  proof (cases "client_conns s cid")
    case None
    with Cons show ?thesis by simp
  next
    case (Some c)
    show ?thesis
    proof (cases "try2 e cid")
      case False
      from Cons [of "emit [TryLock (MClient cid) False] s"] Some False show ?thesis by fastforce
    next
      case True
      obtain c' r evs where rr: "read_request (read_result e cid) c = (c', r, evs)" by (metis prod_cases3)
      let ?s1 = "emit ([TryLock (MClient cid) True] @ evs @ [Unlock (MClient cid)]) (s\<lparr>client_conns := (client_conns s)(cid \<mapsto> c')\<rparr>)"
      from Cons [of ?s1] obtain es where es: "trace (snd (read_available e cids ?s1)) = trace ?s1 @ es" "lock_run {} es = Some {}"
        by blast
      have "lock_run {} (TryLock (MClient cid) True # evs @ [Unlock (MClient cid)]) = Some {}"
        using read_request_locks [of cid "read_result e cid" c] rr by simp
      then have "lock_run {} ((TryLock (MClient cid) True # evs @ [Unlock (MClient cid)]) @ es) = Some {}"
        using es(2) by (subst lock_run_append) simp
      with es(1) show ?thesis unfolding read_available_step [OF Some True] rr
        by (auto simp: Let_def split: prod.splits)
    qed
  qed
qed simp

lemma lock_run_unlock_all:
  "distinct cids \<Longrightarrow> MConns \<notin> MClient ` set cids \<Longrightarrow>
   lock_run (insert MConns (MClient ` set cids)) (map (\<lambda>cid. Unlock (MClient cid)) cids @ es) = lock_run {MConns} es"
proof (induction cids)
  case (Cons c cs)
  then have "insert MConns (MClient ` set (c # cs)) - {MClient c} = insert MConns (MClient ` set cs)" by auto
  with Cons show ?case by simp
qed simp

interpretation fetch: lock_balanced "fetch_requests e" "\<lambda>_. distinct (map_order e)" for e
proof (unfold_locales, goal_cases)
  case (1 s)
  obtain avail s1 where ca: "collect_available (try1 e) (map_order e) (emit [Lock MConns] s) = (avail, s1)" by fastforce
  have "{MConns} \<inter> MClient ` set (map_order e) = {}" by auto
  note cl = collect_available_locks [OF ca 1 this]
  then obtain es where es: "trace s1 = trace s @ Lock MConns # es" "lock_run {MConns} es = Some (insert MConns (MClient ` set avail))"
    by auto
  show ?case
  proof (cases "avail = []")
    case True
    with es ca show ?thesis
      by (intro exI [of _ "Lock MConns # es @ [Unlock MConns]"]) (simp add: fetch_requests_def lock_run_append)
  next
    case False
    define s2 where "s2 = emit (map (\<lambda>cid. Unlock (MClient cid)) avail @
      [Unlock MConns, Poll (map (\<lambda>cid. request_fd (the (client_conns s1 cid))) avail)]) s1"
    have "lock_run {} (Lock MConns # es @ map (\<lambda>cid. Unlock (MClient cid)) avail @
        [Unlock MConns, Poll (map (\<lambda>cid. request_fd (the (client_conns s1 cid))) avail)]) = Some {}"
      using cl es(2) lock_run_unlock_all [of avail] by (simp add: lock_run_append image_iff)
    then obtain es2 where es2: "trace s2 = trace s @ es2" "lock_run {} es2 = Some {}"
      using es(1) by (auto simp: s2_def)
    obtain es3 where "trace (snd (read_available e (filter (pollin e) avail) s2)) = trace s2 @ es3" "lock_run {} es3 = Some {}"
      using read_available_locks by blast
    with es2 ca False show ?thesis
      by (auto simp: fetch_requests_def Let_def s2_def [symmetric] lock_run_append)
  qed
qed

lemma close_conns_trace:
  "client_conns (close_conns cids s) = client_conns s \<and> accounts (close_conns cids s) = accounts s \<and>
   (\<exists>es. trace (close_conns cids s) = trace s @ es \<and> lock_run H es = Some H)"
proof (induction cids arbitrary: s)
  case (Cons cid cids)
  then show ?case by (auto split: option.splits) (metis (no_types, lifting) append_assoc append_Cons append_Nil
    accounts_emit client_conns_emit lock_run.simps trace_emit)
qed simp

interpretation stop: lock_balanced "stop corder aorder" "\<lambda>_. True" for corder aorder
proof (unfold_locales, goal_cases)
  case (1 s)
  let ?s0 = "emit [Log (''closing and deleting all connections...'' @ nl), Lock MConns] s"
  obtain es where "trace (close_conns corder ?s0) = trace ?s0 @ es" "lock_run {MConns} es = Some {MConns}"
    using close_conns_trace [of corder ?s0 "{MConns}"] by blast
  then show ?case
    by (intro exI [of _ "Log (''closing and deleting all connections...'' @ nl) # Lock MConns # es @
      [Unlock MConns, Lock MAccounts, Log (''deleting accounts...'' @ nl), Unlock MAccounts]"])
       (simp add: stop_def Let_def lock_run_append)
qed


lemma read_available_from:
  "req \<in> set (fst (read_available e cids s)) \<Longrightarrow>
     \<exists>cid \<in> set cids. read_result e cid = (fst (read_result e cid), req) \<and> sizeof_request \<le> fst (read_result e cid)"
proof (induction cids arbitrary: s)
  case (Cons cid cids)
  show ?case
  proof (cases "client_conns s cid")
    case None
    with Cons show ?thesis by auto
  next
    case (Some c)
    show ?thesis
    proof (cases "try2 e cid")
      case False
      with Some Cons.prems Cons.IH [of "emit [TryLock (MClient cid) False] s"] show ?thesis by auto
    next
      case True
      obtain c' r evs where rr: "read_request (read_result e cid) c = (c', r, evs)" by (metis prod_cases3)
      then have r: "r = Some x \<Longrightarrow> snd (read_result e cid) = x \<and> sizeof_request \<le> fst (read_result e cid)" for x
        by (auto simp: read_request_def split: if_splits)
      let ?s1 = "emit ([TryLock (MClient cid) True] @ evs @ [Unlock (MClient cid)]) (s\<lparr>client_conns := (client_conns s)(cid \<mapsto> c')\<rparr>)"
      from Cons.prems have "r = Some req \<or> req \<in> set (fst (read_available e cids ?s1))"
        unfolding read_available_step [OF Some True] rr by (auto simp: Let_def split: prod.splits option.splits)
      with r [of req] Cons.IH [of ?s1] show ?thesis by (metis list.set_intros prod.collapse)
    qed
  qed
qed simp

text \<open>
  C2. Fetching requests follows the lock discipline: whatever the outcomes of \<open>try_lock\<close>, \<open>poll\<close> and
  \<open>read\<close> are, and in whatever order the clients are visited, no mutex is locked twice by the thread,
  none is unlocked that is not held, and all are released at the end; and every request it returns was
  read in full from a readable client that was connected when the call began.
\<close>

theorem fetch_requests_disciplined:
  assumes "distinct (map_order e)" and "lock_run {} (trace s) = Some {}"
  shows "lock_run {} (trace (snd (fetch_requests e s))) = Some {} \<and>
    (\<forall>req \<in> set (fst (fetch_requests e s)). \<exists>cid c. cid \<in> set (map_order e) \<and> client_conns s cid = Some c \<and>
       is_connected c \<and> pollin e cid \<and> read_result e cid = (fst (read_result e cid), req) \<and>
       sizeof_request \<le> fst (read_result e cid))"
proof (intro conjI ballI)
  show "lock_run {} (trace (snd (fetch_requests e s))) = Some {}"
    by (rule fetch.keeps_unlocked [OF assms])
next
  fix req assume req: "req \<in> set (fst (fetch_requests e s))"
  obtain avail s1 where ca: "collect_available (try1 e) (map_order e) (emit [Lock MConns] s) = (avail, s1)" by fastforce
  have cl: "set avail \<subseteq> set (map_order e)" "\<forall>cid \<in> set avail. \<exists>c. client_conns s cid = Some c \<and> is_connected c"
    using collect_available_locks [OF ca assms(1), of "{}"] by auto
  from req ca have "\<exists>s2. req \<in> set (fst (read_available e (filter (pollin e) avail) s2))"
    by (auto simp: fetch_requests_def Let_def split: if_splits)
  then obtain cid where "cid \<in> set avail" "pollin e cid" "read_result e cid = (fst (read_result e cid), req)"
    "sizeof_request \<le> fst (read_result e cid)" using read_available_from by fastforce
  with cl show "\<exists>cid c. cid \<in> set (map_order e) \<and> client_conns s cid = Some c \<and> is_connected c \<and> pollin e cid \<and>
    read_result e cid = (fst (read_result e cid), req) \<and> sizeof_request \<le> fst (read_result e cid)" by blast
qed

definition sample_server :: server where
  "sample_server = \<lparr>client_conns = [1 \<mapsto> \<lparr>conn_id = 1, request_fd = 5, notification_fd = 6, is_connected = True\<rparr>,
      2 \<mapsto> \<lparr>conn_id = 2, request_fd = 7, notification_fd = 8, is_connected = False\<rparr>],
    accounts = [1 \<mapsto> \<lparr>account_id = 1, balance = 100\<rparr>, 2 \<mapsto> \<lparr>account_id = 2, balance = 5\<rparr>],
    incomplete_conns = [3 \<mapsto> \<lparr>conn_id = 3, request_fd = 9, notification_fd = - 1, is_connected = False\<rparr>], trace = []\<rparr>"

definition sample_fetch_env :: fetch_env where
  "sample_fetch_env = \<lparr>map_order = [2, 1], try1 = \<lambda>_. True, try2 = \<lambda>_. True, poll_result = 1, pollin = \<lambda>_. True,
    read_result = \<lambda>_. (32, sample_request)\<rparr>"

theorem fetch_requests_disciplined_witness:
  "fst (fetch_requests sample_fetch_env sample_server) = [sample_request] \<and>
   lock_run {} (trace (snd (fetch_requests sample_fetch_env sample_server))) = Some {}"
proof -
  have "distinct (map_order sample_fetch_env)" "lock_run {} (trace sample_server) = Some {}"
    by (simp_all add: sample_fetch_env_def sample_server_def)
  note fetch_requests_disciplined [OF this]
  moreover have "fst (fetch_requests sample_fetch_env sample_server) = [sample_request]"
    by (simp add: fetch_requests_def sample_fetch_env_def sample_server_def emit_def read_request_def sizeof_request_def)
  ultimately show ?thesis by blast
qed

section \<open>Accepting and losing clients\<close>

text \<open>Half-open connections: filed under their own id, at most one descriptor known.\<close>

definition incomplete_ok :: "server \<Rightarrow> bool" where
  "incomplete_ok s = (\<forall>cid c. incomplete_conns s cid = Some c \<longrightarrow>
     conn_id c = cid \<and> \<not> is_connected c \<and> (request_fd c = - 1 \<or> notification_fd c = - 1))"

lemma incomplete_ok_emit [simp]: "incomplete_ok (emit es s) = incomplete_ok s"
  by (simp add: incomplete_ok_def)

definition half_open :: "u64 \<Rightarrow> server \<Rightarrow> client_conn" where
  "half_open cid s = (case incomplete_conns s cid of None \<Rightarrow> new_client_conn cid | Some c \<Rightarrow> c)"

lemma half_open_ok: "incomplete_ok s \<Longrightarrow> conn_id (half_open cid s) = cid \<and> \<not> is_connected (half_open cid s) \<and>
   (request_fd (half_open cid s) = - 1 \<or> notification_fd (half_open cid s) = - 1)"
  by (auto simp: half_open_def incomplete_ok_def new_client_conn_def split: option.splits)


text \<open>
  What a client has told the server, apart from the loop: \<open>e\<close> is a complete hello of kind \<open>k\<close> from \<open>cid\<close>, and the socket of the last
  such hello among \<open>es\<close> (\<open>fd\<close> when there is none).
\<close>

definition says_hello :: "hello_type \<Rightarrow> u64 \<Rightarrow> accept_env \<Rightarrow> bool" where
  "says_hello k cid e = (sizeof_hello \<le> hello_bytes e \<and> hello_client_id (hello e) = cid \<and> hello_kind (hello e) = k)"

definition hello_fd :: "hello_type \<Rightarrow> u64 \<Rightarrow> accept_env list \<Rightarrow> int \<Rightarrow> int" where
  "hello_fd k cid es fd = last (fd # map accepted_fd (filter (says_hello k cid) es))"

lemma hello_fd_Cons: "hello_fd k cid (e # es) fd = hello_fd k cid es (hello_fd k cid [e] fd)"
  by (simp add: hello_fd_def)

lemma hello_fd_one: "hello_fd k cid [e] fd = (if says_hello k cid e then accepted_fd e else fd)"
  by (simp add: hello_fd_def)

text \<open>The sockets the server knows of a client that is not connected yet.\<close>

definition heard_from :: "u64 \<Rightarrow> server \<Rightarrow> int \<times> int" where
  "heard_from cid s = (request_fd (half_open cid s), notification_fd (half_open cid s))"

definition heard_more :: "u64 \<Rightarrow> accept_env list \<Rightarrow> int \<times> int \<Rightarrow> int \<times> int" where
  "heard_more cid es p = (hello_fd REQUESTS_HELLO cid es (fst p), hello_fd NOTIFICATIONS_HELLO cid es (snd p))"

lemma heard_more_Cons: "heard_more cid (e # es) p = heard_more cid es (heard_more cid [e] p)"
  by (simp add: heard_more_def hello_fd_Cons [of _ _ e es])

lemma half_open_emit [simp]: "half_open cid (emit es s) = half_open cid s"
  by (simp add: half_open_def)

lemma accept_client_turn:
  assumes "accept_client (e # es) s = Some (Some c, s')" and ok: "incomplete_ok s"
  shows "(\<exists>s1. accept_client es s1 = Some (Some c, s') \<and> incomplete_ok s1 \<and> client_conns s1 = client_conns s \<and> accounts s1 = accounts s \<and>
      (\<forall>d. heard_from d s1 = heard_more d [e] (heard_from d s))) \<or>
    (incomplete_ok s' \<and> client_conns s' = client_conns s \<and> accounts s' = accounts s \<and> request_fd c \<noteq> - 1 \<and> notification_fd c \<noteq> - 1 \<and>
     \<not> is_connected c \<and> incomplete_conns s' (conn_id c) = None \<and>
     (says_hello REQUESTS_HELLO (conn_id c) e \<or> says_hello NOTIFICATIONS_HELLO (conn_id c) e) \<and>
     (request_fd c, notification_fd c) = heard_more (conn_id c) [e] (heard_from (conn_id c) s) \<and>
     (\<forall>d. d \<noteq> conn_id c \<longrightarrow> heard_from d s' = heard_more d [e] (heard_from d s)))"
proof -
  let ?cid = "hello_client_id (hello e)"
  let ?s = "emit [ReadHello (accepted_fd e)] s"
  let ?c = "half_open ?cid s"
  let ?c' = "if hello_kind (hello e) = REQUESTS_HELLO then ?c\<lparr>request_fd := accepted_fd e\<rparr> else ?c\<lparr>notification_fd := accepted_fd e\<rparr>"
  let ?upd = "\<lambda>x. ?s\<lparr>incomplete_conns := (incomplete_conns s)(?cid := x)\<rparr>"
  note h = half_open_ok [OF ok, of ?cid]
  have ok': "incomplete_ok (?upd x)"
    if "case x of None \<Rightarrow> True | Some c \<Rightarrow> conn_id c = ?cid \<and> \<not> is_connected c \<and> (request_fd c = - 1 \<or> notification_fd c = - 1)" for x
    using ok that by (auto simp: incomplete_ok_def split: option.splits)
  have other: "heard_from d (?upd x) = heard_from d s \<and> heard_more d [e] p = p" if "d \<noteq> ?cid" for d x p
    using that by (simp add: heard_from_def half_open_def heard_more_def hello_fd_one says_hello_def)
  have same: "heard_from ?cid (?upd (Some x)) = (request_fd x, notification_fd x)" for x
    by (simp add: heard_from_def half_open_def)
  consider (short) "hello_bytes e < sizeof_hello" "accept_client es (emit [Log (''Failed to read client hello.'' @ nl)] ?s) = Some (Some c, s')"
    | (bad) k where "hello_kind (hello e) = OTHER_HELLO k"
        "accept_client es (emit [Log (''Bad hello of type '' @ show_d k @ ''.'' @ nl)] (?upd (Some ?c))) = Some (Some c, s')"
    | (ready) "sizeof_hello \<le> hello_bytes e" "hello_kind (hello e) = REQUESTS_HELLO \<or> hello_kind (hello e) = NOTIFICATIONS_HELLO"
        "request_fd ?c' \<noteq> - 1" "notification_fd ?c' \<noteq> - 1" "c = ?c'" "s' = ?upd None"
    | (half) "sizeof_hello \<le> hello_bytes e" "hello_kind (hello e) = REQUESTS_HELLO \<or> hello_kind (hello e) = NOTIFICATIONS_HELLO"
        "request_fd ?c' = - 1 \<or> notification_fd ?c' = - 1" "accept_client es (?upd (Some ?c')) = Some (Some c, s')"
    using assms(1) by (auto simp: Let_def half_open_def [symmetric] not_less split: if_splits hello_type.splits)
  then show ?thesis
  proof cases
    case short
    have "heard_from d (emit ev ?s) = heard_more d [e] (heard_from d s)" for d ev
      using short(1) by (simp add: heard_from_def heard_more_def hello_fd_one says_hello_def)
    then show ?thesis using short(2) ok by (intro disjI1 exI conjI) (assumption, simp_all)
  next
    case bad
    have "heard_from d (emit ev (?upd (Some ?c))) = heard_more d [e] (heard_from d s)" for d ev
      using bad(1) other [of d "Some ?c" "heard_from d s"] same [of ?c]
      by (cases "d = ?cid") (simp_all add: heard_from_def heard_more_def hello_fd_one says_hello_def)
    then show ?thesis using bad(2) ok' [of "Some ?c"] h by (intro disjI1 exI conjI) (assumption, simp_all)
  next
    case ready
    have id: "conn_id c = ?cid" "\<not> is_connected c" using ready(5) h by auto
    have "(request_fd c, notification_fd c) = heard_more ?cid [e] (heard_from ?cid s)"
      using ready(1,2,5) by (auto simp: heard_from_def heard_more_def hello_fd_one says_hello_def)
    moreover have "incomplete_ok s'" using ok' [of None] ready(6) by simp
    moreover have "says_hello REQUESTS_HELLO ?cid e \<or> says_hello NOTIFICATIONS_HELLO ?cid e" using ready(1,2) by (auto simp: says_hello_def)
    moreover have "\<forall>d. d \<noteq> ?cid \<longrightarrow> heard_from d s' = heard_more d [e] (heard_from d s)" using other ready(6) by simp
    moreover have "request_fd c \<noteq> - 1" "notification_fd c \<noteq> - 1" using ready(3-5) by simp_all
    moreover have "client_conns s' = client_conns s" "accounts s' = accounts s" "incomplete_conns s' ?cid = None" using ready(6) by simp_all
    ultimately show ?thesis unfolding id(1) using id(2) by (intro disjI2) simp
  next
    case half
    have "incomplete_ok (?upd (Some ?c'))" using ok' [of "Some ?c'"] half(3) h by (simp split: if_splits)
    moreover have "heard_from d (?upd (Some ?c')) = heard_more d [e] (heard_from d s)" for d
      using half(1,2) other [of d "Some ?c'" "heard_from d s"] same [of ?c']
      by (cases "d = ?cid") (auto simp: heard_from_def heard_more_def hello_fd_one says_hello_def)
    ultimately show ?thesis using half(4) by (intro disjI1 exI conjI) (assumption, simp_all)
  qed
qed

text \<open>
  C3. The accept loop hands out a client exactly with the sockets its hellos announced. The client returned at the
  \<open>n\<close>-th connection has just said hello; its request socket is that of its last complete requests hello among the
  connections accepted so far (or the one known before), its notification socket that of its last notifications
  hello, and both exist; it is not marked connected and no longer half open. For every other client exactly the sockets of
  its hellos are remembered; short hellos, hellos of other kinds and hellos of other clients count for nothing. Established
  clients and accounts are untouched.
\<close>

theorem accept_client_complete:
  assumes "accept_client es s = Some (Some c, s')" and "incomplete_ok s"
  shows "\<exists>n < length es.
    (says_hello REQUESTS_HELLO (conn_id c) (es ! n) \<or> says_hello NOTIFICATIONS_HELLO (conn_id c) (es ! n)) \<and>
    request_fd c = hello_fd REQUESTS_HELLO (conn_id c) (take (Suc n) es) (request_fd (half_open (conn_id c) s)) \<and>
    notification_fd c = hello_fd NOTIFICATIONS_HELLO (conn_id c) (take (Suc n) es) (notification_fd (half_open (conn_id c) s)) \<and>
    request_fd c \<noteq> - 1 \<and> notification_fd c \<noteq> - 1 \<and> \<not> is_connected c \<and> incomplete_conns s' (conn_id c) = None \<and>
    (\<forall>d. d \<noteq> conn_id c \<longrightarrow>
       request_fd (half_open d s') = hello_fd REQUESTS_HELLO d (take (Suc n) es) (request_fd (half_open d s)) \<and>
       notification_fd (half_open d s') = hello_fd NOTIFICATIONS_HELLO d (take (Suc n) es) (notification_fd (half_open d s))) \<and>
    incomplete_ok s' \<and> client_conns s' = client_conns s \<and> accounts s' = accounts s"
proof -
  have "\<exists>n < length es. (says_hello REQUESTS_HELLO (conn_id c) (es ! n) \<or> says_hello NOTIFICATIONS_HELLO (conn_id c) (es ! n)) \<and>
      (request_fd c, notification_fd c) = heard_more (conn_id c) (take (Suc n) es) (heard_from (conn_id c) s) \<and>
      request_fd c \<noteq> - 1 \<and> notification_fd c \<noteq> - 1 \<and> \<not> is_connected c \<and> incomplete_conns s' (conn_id c) = None \<and>
      (\<forall>d. d \<noteq> conn_id c \<longrightarrow> heard_from d s' = heard_more d (take (Suc n) es) (heard_from d s)) \<and>
      incomplete_ok s' \<and> client_conns s' = client_conns s \<and> accounts s' = accounts s"
    using assms
  proof (induction es arbitrary: s)
    case (Cons e es)
    from accept_client_turn [OF Cons.prems] show ?case
    proof (rule disjE, elim exE conjE)
      fix s1
      assume t: "accept_client es s1 = Some (Some c, s')" "incomplete_ok s1" "client_conns s1 = client_conns s" "accounts s1 = accounts s"
        and h: "\<forall>d. heard_from d s1 = heard_more d [e] (heard_from d s)"
      from Cons.IH [OF t(1,2)] obtain n where "n < length es"
        "says_hello REQUESTS_HELLO (conn_id c) (es ! n) \<or> says_hello NOTIFICATIONS_HELLO (conn_id c) (es ! n)"
        "(request_fd c, notification_fd c) = heard_more (conn_id c) (take (Suc n) es) (heard_from (conn_id c) s1)"
        "request_fd c \<noteq> - 1 \<and> notification_fd c \<noteq> - 1 \<and> \<not> is_connected c \<and> incomplete_conns s' (conn_id c) = None"
        "\<forall>d. d \<noteq> conn_id c \<longrightarrow> heard_from d s' = heard_more d (take (Suc n) es) (heard_from d s1)"
        "incomplete_ok s' \<and> client_conns s' = client_conns s1 \<and> accounts s' = accounts s1" by blast
      then show ?thesis using h t(3,4) by (intro exI [of _ "Suc n"]) (simp add: heard_more_Cons [of _ e "take (Suc n) es"])
    qed (rule exI [of _ 0], simp)
  qed simp
  then show ?thesis by (simp add: heard_from_def heard_more_def)
qed

definition hello_env :: "int \<Rightarrow> hello_type \<Rightarrow> u64 \<Rightarrow> accept_env" where
  "hello_env fd k cid = \<lparr>stopped_before = False, accepted_fd = fd, stopped_after = False, hello_bytes = 16,
     hello = \<lparr>hello_client_id = cid, hello_kind = k\<rparr>\<rparr>"

theorem accept_client_complete_witness:
  "\<exists>s'. accept_client [hello_env 11 REQUESTS_HELLO 4, hello_env 12 NOTIFICATIONS_HELLO 3] sample_server
     = Some (Some \<lparr>conn_id = 3, request_fd = 9, notification_fd = 12, is_connected = False\<rparr>, s') \<and>
     incomplete_conns s' 3 = None \<and> incomplete_ok s'"
proof -
  have ok: "incomplete_ok sample_server" by (simp add: incomplete_ok_def sample_server_def)
  obtain s' where s': "accept_client [hello_env 11 REQUESTS_HELLO 4, hello_env 12 NOTIFICATIONS_HELLO 3] sample_server
     = Some (Some \<lparr>conn_id = 3, request_fd = 9, notification_fd = 12, is_connected = False\<rparr>, s')"
    by (simp add: hello_env_def sample_server_def emit_def sizeof_hello_def new_client_conn_def)
  from accept_client_complete [OF this ok] s' show ?thesis by auto
qed

definition is_close :: "event \<Rightarrow> bool" where
  "is_close ev = (case ev of Close _ \<Rightarrow> True | _ \<Rightarrow> False)"

text \<open>
  A response to a client that has already been disconnected is still written to its old request
  descriptor, and when that fails both descriptors are closed a second time; a notification to the same
  client touches no descriptor at all.
\<close>

theorem send_response_closes_again:
  assumes "client_conns s cid = Some c" and "\<not> is_connected c" and "wr (request_fd c) < sizeof_response"
  shows "filter is_close (trace (snd (send_response wr cid resp s))) =
      filter is_close (trace s) @ [Close (request_fd c), Close (notification_fd c)] \<and>
    trace (snd (send_notification wr cid n s)) =
      trace s @ [Lock MConns, Lock (MClient cid), Unlock MConns, Unlock (MClient cid)]"
  using assms by (simp add: send_response_def send_notification_def Let_def is_close_def disconnected_log_def)

theorem send_response_closes_again_witness:
  "filter is_close (trace (snd (send_response (\<lambda>_. - 1) 2 sample_response sample_server))) = [Close 7, Close 8]"
  using send_response_closes_again [of sample_server 2 "\<lparr>conn_id = 2, request_fd = 7, notification_fd = 8, is_connected = False\<rparr>"
    "\<lambda>_. - 1" sample_response sample_notification]
  by (simp add: sample_server_def sizeof_response_def)

section \<open>Final balances\<close>

lemma final_balances_lookup:
  assumes "\<And>k a. accs k = Some a \<Longrightarrow> account_id a = k" and "\<And>k b. acc k = Some b \<Longrightarrow> map_option balance (accs k) = Some b"
  shows "final_balances ks accs acc k = (if k \<in> set ks \<or> acc k \<noteq> None then map_option balance (accs k) else None)"
  using assms(2)
proof (induction ks arbitrary: acc)
  case (Cons x ks)
  show ?case
  proof (cases "accs x")
    case None
    with Cons show ?thesis by auto
  next
    case (Some a)
    let ?acc = "if acc (account_id a) = None then acc(account_id a \<mapsto> balance a) else acc"
    have id: "account_id a = x" using assms(1) Some by simp
    have "\<And>k b. ?acc k = Some b \<Longrightarrow> map_option balance (accs k) = Some b" using Cons.prems Some id by (auto split: if_splits)
    from Cons.IH [OF this] Some id Cons.prems show ?thesis by (auto split: if_splits)
  qed
next
  case Nil
  then show ?case by (cases "acc k") (auto simp del: map_option_eq_Some)
qed

definition fds_of :: "server \<Rightarrow> u64 \<Rightarrow> event list" where
  "fds_of s cid = (case client_conns s cid of
     Some c \<Rightarrow> if is_connected c then [Close (request_fd c), Close (notification_fd c)] else [] | None \<Rightarrow> [])"

lemma fds_of_emit: "fds_of (emit es s) = fds_of s"
  by (simp add: fds_of_def fun_eq_iff)

lemma close_conns_closes:
  "filter is_close (trace (close_conns cids s)) = filter is_close (trace s) @ concat (map (fds_of s) cids)"
proof (induction cids arbitrary: s)
  case (Cons cid cids)
  then show ?case by (auto simp: fds_of_emit fds_of_def [of _ cid] is_close_def split: option.splits)
qed simp

text \<open>
  C4. Shutting down reports exactly the balance of every account, independently of the order in which
  the hash map is walked, releases the mutexes it takes, and closes the two descriptors of precisely the
  connected clients, each once.
\<close>

theorem stop_reports_balances:
  assumes keyed: "\<forall>k a. accounts s k = Some a \<longrightarrow> account_id a = k" and order: "set aorder = dom (accounts s)"
  shows "fst (stop corder aorder s) = (\<lambda>k. map_option balance (accounts s k)) \<and>
    filter is_close (trace (snd (stop corder aorder s))) = filter is_close (trace s) @ concat (map (fds_of s) corder) \<and>
    (lock_run {} (trace s) = Some {} \<longrightarrow> lock_run {} (trace (snd (stop corder aorder s))) = Some {})"
proof (intro conjI impI)
  let ?s = "close_conns corder (emit [Log (''closing and deleting all connections...'' @ nl), Lock MConns] s)"
  have "accounts ?s = accounts s" using close_conns_trace [of corder] by simp
  moreover have "final_balances aorder (accounts s) Map.empty k = map_option balance (accounts s k)" for k
    using final_balances_lookup [of "accounts s" Map.empty aorder k] keyed order by (auto simp: domIff)
  ultimately show "fst (stop corder aorder s) = (\<lambda>k. map_option balance (accounts s k))" by (auto simp: stop_def Let_def)
next
  show "filter is_close (trace (snd (stop corder aorder s))) = filter is_close (trace s) @ concat (map (fds_of s) corder)"
    by (simp add: stop_def Let_def close_conns_closes fds_of_emit) (simp add: is_close_def)
next
  assume "lock_run {} (trace s) = Some {}"
  then show "lock_run {} (trace (snd (stop corder aorder s))) = Some {}" by (rule stop.keeps_unlocked [OF TrueI])
qed

theorem stop_reports_balances_witness:
  "fst (stop [1, 2] [2, 1] sample_server) = [1 \<mapsto> 100, 2 \<mapsto> 5] \<and>
   filter is_close (trace (snd (stop [1, 2] [2, 1] sample_server))) = [Close 5, Close 6]"
  using stop_reports_balances [of sample_server "[2, 1]" "[1, 2]"]
  by (auto simp: sample_server_def fds_of_def fun_eq_iff)

end
