(* ===== verification/VunmoClient.thy ===== *)
theory VunmoClient
  imports VunmoServer
begin

text \<open>
  The payment client: the class \<open>Client\<close> of \<open>vunmo/vunmo-client.{hh,cc}\<close>, the command interpreter of
  \<open>vunmo/client.cc\<close>, the sockets of \<open>vunmo/network_helpers.cc\<close> and the notification queue of
  \<open>vunmo/synchronized_queue.cc\<close>. As in the server, everything the client does to the outside goes to a trace; standard input is
  part of the state, and what the network answers is a parameter.
\<close>

section \<open>The notification queue\<close>

text \<open>The operations as the repository has them: bodies that are still to be written, so elements pushed are lost.\<close>

record sync_queue =
  queued :: "notification list"
  queue_stopped :: bool

definition queue_size :: "sync_queue \<Rightarrow> nat" where
  "queue_size q = length (queued q)"

definition queue_push :: "notification \<Rightarrow> sync_queue \<Rightarrow> sync_queue" where
  "queue_push n q = q"

definition queue_pop :: "sync_queue \<Rightarrow> bool \<times> sync_queue" where
  "queue_pop q = (False, q)"

definition queue_flush :: "sync_queue \<Rightarrow> notification list \<times> sync_queue" where
  "queue_flush q = ([], q)"

definition queue_stop :: "sync_queue \<Rightarrow> sync_queue" where
  "queue_stop q = q"

section \<open>The client\<close>

datatype client_event =
    SendRequest int request | ReceiveResponse int | SendHello int client_hello | ReadNotification int
  | CloseFd int | Print string | PrintError string

record client =
  client_id :: u64
  requests_fd :: int
  notifications_fd :: int
  notification_queue :: sync_queue
  is_stopped :: bool
  connected :: bool
  input :: string
  client_trace :: "client_event list"

definition act :: "client_event list \<Rightarrow> client \<Rightarrow> client" where
  "act es c = c\<lparr>client_trace := client_trace c @ es\<rparr>"

text \<open>The requests sent so far. The network's answer to a request may depend on all of them.\<close>

definition sent :: "client \<Rightarrow> request list" where
  "sent c = concat (map (\<lambda>e. case e of SendRequest fd r \<Rightarrow> [r] | _ \<Rightarrow> []) (client_trace c))"

text \<open>The bytes \<open>write\<close> reports, the bytes \<open>read\<close> reports and the response read.\<close>

type_synonym network = "request list \<Rightarrow> int \<times> int \<times> response"

definition make_request :: "network \<Rightarrow> request \<Rightarrow> client \<Rightarrow> int \<times> response option \<times> client" where
  "make_request net req c =
     (if \<not> connected c then (- 1, None, c)
      else
        let req = req\<lparr>origin_client_id := client_id c\<rparr>;
            c = act [SendRequest (requests_fd c) req] c
        in case net (sent c) of (bytes_written, bytes_read, resp) \<Rightarrow>
          if bytes_written < sizeof_request then (- 1, None, c\<lparr>connected := False\<rparr>)
          else
            let c = act [ReceiveResponse (requests_fd c)] c
            in if bytes_read < sizeof_response then (- 1, None, c\<lparr>connected := False\<rparr>) else (0, Some resp, c))"

text \<open>The request on the stack is not initialised: its other fields are whatever they were, \<open>req0\<close>.\<close>

definition get_balance :: "network \<Rightarrow> request \<Rightarrow> client \<Rightarrow> int \<times> response option \<times> client" where
  "get_balance net req0 = make_request net (req0\<lparr>req_type := BALANCE\<rparr>)"

definition deposit :: "network \<Rightarrow> request \<Rightarrow> u64 \<Rightarrow> client \<Rightarrow> int \<times> response option \<times> client" where
  "deposit net req0 amount = make_request net (req0\<lparr>req_type := DEPOSIT, req_amount := amount\<rparr>)"

definition withdraw :: "network \<Rightarrow> request \<Rightarrow> u64 \<Rightarrow> client \<Rightarrow> int \<times> response option \<times> client" where
  "withdraw net req0 amount = make_request net (req0\<lparr>req_type := WITHDRAWAL, req_amount := amount\<rparr>)"

definition pay :: "network \<Rightarrow> request \<Rightarrow> u64 \<Rightarrow> u64 \<Rightarrow> client \<Rightarrow> int \<times> response option \<times> client" where
  "pay net req0 target amount =
     make_request net (req0\<lparr>req_type := PAYMENT, req_amount := amount, target_client_id := target\<rparr>)"

definition charge :: "network \<Rightarrow> request \<Rightarrow> u64 \<Rightarrow> u64 \<Rightarrow> client \<Rightarrow> int \<times> response option \<times> client" where
  "charge net req0 target amount =
     make_request net (req0\<lparr>req_type := CHARGE, req_amount := amount, target_client_id := target\<rparr>)"

definition handle_charge_request :: "network \<Rightarrow> notification \<Rightarrow> bool \<Rightarrow> client \<Rightarrow> int \<times> client" where
  "handle_charge_request net n accept c =
     (if \<not> accept then (0, c)
      else case make_request net \<lparr>req_type = PAYMENT, origin_client_id = client_id c, target_client_id = notif_origin n,
                                   req_amount = notif_amount n\<rparr> c of (r, _, c) \<Rightarrow> (r, c))"

section \<open>Standard input\<close>

text \<open>\<open>fgets\<close> with room for \<open>k\<close> characters: up to the end of the line or \<open>k - 1\<close> characters; nothing at the end of the input.\<close>

definition fgets :: "nat \<Rightarrow> string \<Rightarrow> (string \<times> string) option" where
  "fgets k s =
     (if s = [] then None
      else let n = min (k - 1) (length (takeWhile (\<lambda>ch. ch \<noteq> CHR 0x0A) s) + 1) in Some (take n s, drop n s))"

definition getline :: "string \<Rightarrow> (string \<times> string) option" where
  "getline s =
     (if s = [] then None else let n = length (takeWhile (\<lambda>ch. ch \<noteq> CHR 0x0A) s) + 1 in Some (take n s, drop n s))"

lemma fgets_3: "fgets 3 s = Some (t, s') \<Longrightarrow> s = t @ s' \<and> length s' < length s"
  by (cases s) (auto simp: fgets_def Let_def simp del: append_take_drop_id intro: append_take_drop_id [symmetric])

lemma getline_shorter: "getline s = Some (t, s') \<Longrightarrow> length s' < length s"
  by (cases s) (auto simp: getline_def Let_def)

section \<open>Notifications\<close>

text \<open>The question is asked until the answer is \<open>y\<close> or \<open>n\<close>.\<close>

function ask_charge :: "client \<Rightarrow> bool option \<times> client" where
  "ask_charge c =
     (let c = act [Print '' - Do you accept this charge request? [y/n]: ''] c
      in case fgets 3 (input c) of
           None \<Rightarrow> (None, c)
         | Some (resp, rest) \<Rightarrow>
             let c = c\<lparr>input := rest\<rparr>
             in if resp = ''y'' @ nl then (Some True, c) else if resp = ''n'' @ nl then (Some False, c) else ask_charge c)"
  by pat_completeness auto

termination
  by (relation "measure (\<lambda>c. length (input c))") (auto simp: act_def dest: fgets_3)

declare ask_charge.simps [simp del]

definition print_charge_request :: "network \<Rightarrow> notification \<Rightarrow> client \<Rightarrow> int \<times> client" where
  "print_charge_request net n c =
     (case ask_charge c of (None, c) \<Rightarrow> (- 1, c) | (Some accepted, c) \<Rightarrow> handle_charge_request net n accepted c)"

definition get_notifications :: "client \<Rightarrow> notification list \<times> client" where
  "get_notifications c = (let (ns, q) = queue_flush (notification_queue c) in (ns, c\<lparr>notification_queue := q\<rparr>))"

definition show_lu :: "u64 \<Rightarrow> string" where
  "show_lu x = dec_digits (unat x)"

fun display_loop :: "network \<Rightarrow> nat \<Rightarrow> nat \<Rightarrow> notification list \<Rightarrow> client \<Rightarrow> client" where
  "display_loop net i k [] c = c"
| "display_loop net i k (n # ns) c =
     (let c = act [Print (''['' @ dec_digits (i + 1) @ ''/'' @ dec_digits k @ ''] '' @ notif_message n)] c;
          c = (if notif_type n = CHARGE_REQUEST_NOTIFICATION then
                 (case print_charge_request net n c of (r, c) \<Rightarrow>
                    if r < 0 then act [Print (''[ERROR] Unable to handle a charge request of '' @ show_lu (notif_amount n) @
                                              '' from '' @ show_lu (notif_origin n) @ ''.'' @ nl)] c
                    else c)
               else c)
      in display_loop net (i + 1) k ns c)"

definition display_notifications :: "network \<Rightarrow> client \<Rightarrow> int \<times> client" where
  "display_notifications net c = (case get_notifications c of (ns, c) \<Rightarrow> (0, display_loop net 0 (length ns) ns c))"

text \<open>The listener thread: the reads it completes before it sees that the client was stopped.\<close>

fun receive_notifications :: "(int \<times> notification) list \<Rightarrow> client \<Rightarrow> client" where
  "receive_notifications [] c = act [CloseFd (notifications_fd c)] c"
| "receive_notifications ((bytes_read, n) # rs) c =
     (let c = act [ReadNotification (notifications_fd c)] c
      in receive_notifications rs
           (if bytes_read < sizeof_notification then c else c\<lparr>notification_queue := queue_push n (notification_queue c)\<rparr>))"

section \<open>Connections\<close>

text \<open>Results of the system calls of one connection attempt; a failing \<open>getaddrinfo\<close> ends the program (\<open>None\<close>).\<close>

record dial =
  getaddrinfo_result :: int
  socket_result :: int
  connect_result :: int
  hello_written :: int

definition create_connection :: "dial \<Rightarrow> client \<Rightarrow> (int \<times> client) option" where
  "create_connection d c =
     (if getaddrinfo_result d \<noteq> 0 then None
      else let fd = socket_result d
           in if fd < 0 then Some (fd, c)
              else if connect_result d < 0 then Some (- 1, act [CloseFd fd] c)
              else Some (fd, c))"

definition send_hello :: "dial \<Rightarrow> u64 \<Rightarrow> hello_type \<Rightarrow> client \<Rightarrow> (int \<times> client) option" where
  "send_hello d cid kind c =
     (case create_connection d c of
        None \<Rightarrow> None
      | Some (fd, c) \<Rightarrow>
          if fd < 0 then Some (- 1, c)
          else
            let c = act [SendHello fd \<lparr>hello_client_id = cid, hello_kind = kind\<rparr>] c
            in if hello_written d < sizeof_hello then Some (- 1, c) else Some (fd, c))"

definition connect :: "dial \<Rightarrow> dial \<Rightarrow> client \<Rightarrow> (int \<times> client) option" where
  "connect d1 d2 c =
     (case send_hello d1 (client_id c) REQUESTS_HELLO c of
        None \<Rightarrow> None
      | Some (fd, c) \<Rightarrow>
          let c = c\<lparr>requests_fd := fd\<rparr>
          in if fd < 0 then Some (- 1, c)
             else (case send_hello d2 (client_id c) NOTIFICATIONS_HELLO c of
                     None \<Rightarrow> None
                   | Some (fd, c) \<Rightarrow>
                       let c = c\<lparr>notifications_fd := fd\<rparr>
                       in if fd < 0 then Some (- 1, c) else Some (0, c\<lparr>connected := True\<rparr>)))"

text \<open>Joining the listener waits until it has closed its descriptor.\<close>

definition disconnect :: "(int \<times> notification) list \<Rightarrow> client \<Rightarrow> int \<times> client" where
  "disconnect rs c =
     (let c = c\<lparr>is_stopped := True, connected := False\<rparr>;
          c = act [CloseFd (requests_fd c)] c;
          c = receive_notifications rs c;
          q = queue_stop (notification_queue c)
      in (0, c\<lparr>notification_queue := snd (queue_flush q)\<rparr>))"

text \<open>The listening socket of the server: the descriptor or \<open>-1\<close>, and the descriptors closed.\<close>

record listen_results =
  listen_socket :: int
  fcntl_result :: int
  setsockopt_result :: int
  bind_result :: int
  listen_result :: int

definition open_listen_socket :: "listen_results \<Rightarrow> int \<times> int list" where
  "open_listen_socket l =
     (let fd = listen_socket l
      in if fd < 0 then (- 1, [])
         else if fcntl_result l < 0 then (- 1, [fd])
         else if setsockopt_result l < 0 then (- 1, [fd])
         else if bind_result l < 0 then (- 1, [fd])
         else if listen_result l < 0 then (- 1, [fd])
         else (fd, []))"

section \<open>Commands\<close>

text \<open>\<open>sscanf\<close>: a blank in the format skips white space, another character has to match, \<open>%lu\<close> reads a number like \<open>strtoul\<close>.\<close>

definition scan_u64 :: "string \<Rightarrow> (u64 \<times> string) option" where
  "scan_u64 s =
     (let s1 = dropWhile is_ws s;
          neg = (s1 \<noteq> [] \<and> hd s1 = CHR ''-'');
          s2 = (if s1 \<noteq> [] \<and> (hd s1 = CHR ''-'' \<or> hd s1 = CHR ''+'') then tl s1 else s1);
          v = dec_value 0 s2
      in if s2 = [] \<or> \<not> is_dec_digit (hd s2) then None
         else Some (if v \<ge> 2 ^ 64 then - 1 else if neg then - word_of_nat v else word_of_nat v, dropWhile is_dec_digit s2))"

fun scan_literal :: "string \<Rightarrow> string \<Rightarrow> string option" where
  "scan_literal [] s = Some s"
| "scan_literal (f # fs) s =
     (if is_ws f then scan_literal fs (dropWhile is_ws s)
      else case s of [] \<Rightarrow> None | ch # s \<Rightarrow> if ch = f then scan_literal fs s else None)"

fun scan_numbers :: "nat \<Rightarrow> string \<Rightarrow> u64 list" where
  "scan_numbers 0 s = []"
| "scan_numbers (Suc k) s = (case scan_u64 s of None \<Rightarrow> [] | Some (v, s) \<Rightarrow> v # scan_numbers k s)"

text \<open>\<open>sscanf(s, f, ...)\<close> with \<open>k\<close> numbers after the text \<open>f\<close>: the numbers converted.\<close>

definition sscanf :: "string \<Rightarrow> nat \<Rightarrow> string \<Rightarrow> u64 list" where
  "sscanf f k s = (case scan_literal f s of None \<Rightarrow> [] | Some s \<Rightarrow> scan_numbers k s)"

definition zero_request :: request where
  "zero_request = \<lparr>req_type = BALANCE, origin_client_id = 0, target_client_id = 0, req_amount = 0\<rparr>"

definition parse_command :: "string \<Rightarrow> int \<times> request" where
  "parse_command command =
     (if command = [] then (1, zero_request)
      else if command = ''balance'' then (0, zero_request\<lparr>req_type := BALANCE\<rparr>)
      else case sscanf ''deposit '' 1 command of
        [amount] \<Rightarrow> (0, zero_request\<lparr>req_type := DEPOSIT, req_amount := amount\<rparr>)
      | _ \<Rightarrow> (case sscanf ''withdraw '' 1 command of
        [amount] \<Rightarrow> (0, zero_request\<lparr>req_type := WITHDRAWAL, req_amount := amount\<rparr>)
      | _ \<Rightarrow> (case sscanf ''pay '' 2 command of
        [target, amount] \<Rightarrow> (0, zero_request\<lparr>req_type := PAYMENT, req_amount := amount, target_client_id := target\<rparr>)
      | _ \<Rightarrow> (case sscanf ''charge '' 2 command of
        [target, amount] \<Rightarrow> (0, zero_request\<lparr>req_type := CHARGE, req_amount := amount, target_client_id := target\<rparr>)
      | _ \<Rightarrow> (- 1, zero_request)))))"

definition handle_command :: "network \<Rightarrow> string \<Rightarrow> client \<Rightarrow> int \<times> client" where
  "handle_command net command c =
     (case parse_command command of (err, req) \<Rightarrow>
        if err < 0 then (- 2, act [PrintError (''[ERROR] Invalid command: \"'' @ command @ ''\"'' @ nl)] c)
        else if err = 1 then (0, c)
        else (case make_request net req c of (err, resp, c) \<Rightarrow>
          if err < 0 then (err, c) else (0, act [Print (case resp of Some m \<Rightarrow> resp_message m | None \<Rightarrow> [])] c)))"

lemma ask_charge_input: "length (input (snd (ask_charge c))) \<le> length (input c)"
proof (induction c rule: ask_charge.induct)
  case (1 c)
  then show ?case
    by (subst ask_charge.simps) (fastforce simp: Let_def act_def dest: fgets_3 split: option.splits)
qed

text \<open>The line is handed on as a C string, its last character (the line end) replaced by the terminator.\<close>

definition command_of_line :: "string \<Rightarrow> string" where
  "command_of_line line = c_str (butlast line)"

section \<open>What operations leave alone\<close>

lemma make_request_input: "input (snd (snd (make_request net req c))) = input c"
  by (simp add: make_request_def act_def Let_def split: prod.split)

lemma handle_command_input: "input (snd (handle_command net command c)) = input c"
  using make_request_input [of net "snd (parse_command command)" c]
  by (auto simp: handle_command_def act_def split: prod.splits)

lemma handle_charge_request_input: "input (snd (handle_charge_request net n accept c)) = input c"
  by (simp add: handle_charge_request_def case_prod_beta make_request_input)

lemma print_charge_request_input: "length (input (snd (print_charge_request net n c))) \<le> length (input c)"
  using ask_charge_input [of c]
  by (auto simp: print_charge_request_def case_prod_beta handle_charge_request_input split: option.splits)

lemma display_loop_input: "length (input (display_loop net i k ns c)) \<le> length (input c)"
proof (induction ns arbitrary: i c)
  case (Cons n ns)
  have step: "length (input (if P then (case print_charge_request net n d of (r, c) \<Rightarrow> if r < 0 then act es c else c) else d))
      \<le> length (input d)" for P d es
    using print_charge_request_input [of net n d] by (auto simp: act_def split: prod.split)
  show ?case unfolding display_loop.simps Let_def
    by (rule order_trans [OF Cons], rule order_trans [OF step]) (simp add: act_def)
qed simp

lemma display_notifications_input: "length (input (snd (display_notifications net c))) \<le> length (input c)"
  by (auto simp: display_notifications_def get_notifications_def Let_def split: prod.splits intro: order_trans [OF display_loop_input])

section \<open>The command loop\<close>

function run_repl :: "network \<Rightarrow> client \<Rightarrow> client" where
  "run_repl net c =
     (let c = act [Print ''> ''] c
      in case getline (input c) of
           None \<Rightarrow> c
         | Some (line, rest) \<Rightarrow>
             (case handle_command net (command_of_line line) (c\<lparr>input := rest\<rparr>) of (err, c) \<Rightarrow>
                if err = - 1 then c
                else (case display_notifications net c of (err, c) \<Rightarrow> if err = - 1 then c else run_repl net c)))"
  by pat_completeness auto

termination
proof (relation "measure (\<lambda>(net, c). length (input c))", goal_cases)
  case (2 net c d lr line rest err c1 err' c2)
  have "length (input c2) \<le> length (input c1)" using display_notifications_input [of net c1] by (simp add: 2(6) [symmetric])
  moreover have "input c1 = rest" using handle_command_input [of net "command_of_line line" "d\<lparr>input := rest\<rparr>"] by (simp add: 2(4) [symmetric])
  moreover have "length rest < length (input d)" using getline_shorter [of "input d" line rest] by (simp add: 2(2) 2(3) [symmetric])
  moreover have "input d = input c" by (simp add: 2(1) act_def)
  ultimately show ?case by simp
qed simp

declare run_repl.simps [simp del]

section \<open>Requests sent\<close>

lemma sent_act [simp]: "sent (act es c) = sent c @ concat (map (\<lambda>e. case e of SendRequest fd r \<Rightarrow> [r] | _ \<Rightarrow> []) es)"
  by (simp add: sent_def act_def)

lemma act_fields [simp]: "client_id (act es c) = client_id c" "connected (act es c) = connected c" "input (act es c) = input c"
  by (simp_all add: act_def)

lemma sent_fields [simp]: "sent (c\<lparr>input := i\<rparr>) = sent c" "sent (c\<lparr>connected := b\<rparr>) = sent c" "sent (c\<lparr>notification_queue := q\<rparr>) = sent c"
  by (simp_all add: sent_def)

text \<open>A request as the server expects it from the client with this id.\<close>

definition own_request :: "u64 \<Rightarrow> request \<Rightarrow> bool" where
  "own_request cid r \<longleftrightarrow> origin_client_id r = cid \<and> req_type r \<in> {BALANCE, DEPOSIT, WITHDRAWAL, PAYMENT, CHARGE}"

text \<open>
  \<open>c'\<close> comes after \<open>c\<close>: the same client has sent further proper requests, and none if it was disconnected, which it then still is.
\<close>

definition follows :: "client \<Rightarrow> client \<Rightarrow> bool" where
  "follows c c' \<longleftrightarrow> client_id c' = client_id c \<and> (\<not> connected c \<longrightarrow> \<not> connected c' \<and> sent c' = sent c) \<and>
     (\<exists>rs. sent c' = sent c @ rs \<and> list_all (own_request (client_id c)) rs)"

lemma follows_refl: "follows c c"
  by (simp add: follows_def)

lemma follows_trans: "follows a b \<Longrightarrow> follows b c \<Longrightarrow> follows a c"
  unfolding follows_def by (elim conjE exE) auto

lemma follows_quiet: "client_id c' = client_id c \<Longrightarrow> connected c' = connected c \<Longrightarrow> sent c' = sent c \<Longrightarrow> follows c c'"
  by (simp add: follows_def)

lemma follows_print: "follows c d \<Longrightarrow> follows c (act [Print m] d)"
  by (erule follows_trans) (simp add: follows_quiet)

lemma make_request_follows:
  "req_type req \<in> {BALANCE, DEPOSIT, WITHDRAWAL, PAYMENT, CHARGE} \<Longrightarrow> follows c (snd (snd (make_request net req c)))"
  by (auto simp: make_request_def follows_def own_request_def Let_def split: prod.split)

lemma parse_command_type: "req_type (snd (parse_command command)) \<in> {BALANCE, DEPOSIT, WITHDRAWAL, PAYMENT, CHARGE}"
  by (auto simp: parse_command_def zero_request_def split: list.split)

lemma handle_command_follows: "follows c (snd (handle_command net command c))"
proof -
  have "follows c (snd (snd (make_request net (snd (parse_command command)) c)))" (is "follows c ?c")
    using parse_command_type by (rule make_request_follows)
  moreover have "follows ?c (act es ?c)" if "concat (map (\<lambda>e. case e of SendRequest fd r \<Rightarrow> [r] | _ \<Rightarrow> []) es) = []" for es
    using that by (simp add: follows_quiet)
  ultimately show ?thesis
    by (auto simp: handle_command_def follows_refl intro: follows_trans follows_quiet split: prod.split)
qed

lemma ask_charge_quiet: "follows c (snd (ask_charge c)) \<and> sent (snd (ask_charge c)) = sent c"
proof (induction c rule: ask_charge.induct)
  case (1 c)
  show ?case
  proof (cases "fgets 3 (input c)")
    case None
    then show ?thesis by (subst (1 2) ask_charge.simps) (simp add: Let_def follows_quiet)
  next
    case (Some a)
    obtain t rest where a: "a = (t, rest)" by (cases a)
    let ?c = "act [Print '' - Do you accept this charge request? [y/n]: ''] c\<lparr>input := rest\<rparr>"
    have q: "follows c ?c" "sent ?c = sent c" by (simp_all add: follows_quiet)
    have "follows ?c (snd (ask_charge ?c)) \<and> sent (snd (ask_charge ?c)) = sent ?c" if "t \<noteq> ''y'' @ nl" "t \<noteq> ''n'' @ nl"
      using 1 [OF refl _ a [symmetric] refl] that Some by simp
    with q show ?thesis using Some
      by (subst (1 2) ask_charge.simps) (auto simp: Let_def a intro: follows_trans)
  qed
qed

lemma print_charge_request_follows: "follows c (snd (print_charge_request net n c))"
proof -
  have "follows d (snd (handle_charge_request net n b d))" for b d
    by (simp add: handle_charge_request_def case_prod_beta follows_refl make_request_follows)
  then show ?thesis using ask_charge_quiet [of c]
    by (auto simp: print_charge_request_def split: prod.split option.split intro: follows_trans)
qed

lemma display_loop_follows: "follows c (display_loop net i k ns c)"
proof (induction ns arbitrary: i c)
  case (Cons n ns)
  have step: "follows d (if P then (case print_charge_request net n d of (r, c) \<Rightarrow> if r < 0 then act [Print m] c else c) else d)" for P d m
    using print_charge_request_follows [of d net n]
    by (auto simp: follows_refl intro: follows_print split: prod.split)
  show ?case unfolding display_loop.simps Let_def
    by (rule follows_trans [OF _ Cons], rule follows_trans [OF _ step]) (simp add: follows_quiet)
qed (simp add: follows_refl)

lemma display_notifications_follows: "follows c (snd (display_notifications net c))"
proof -
  have "follows c (c\<lparr>notification_queue := q\<rparr>)" for q by (simp add: follows_quiet)
  then show ?thesis
    by (auto simp: display_notifications_def get_notifications_def split: prod.split intro: follows_trans display_loop_follows)
qed

lemma run_repl_follows: "follows c (run_repl net c)"
proof (induction net c rule: run_repl.induct)
  case (1 net c)
  show ?case
  proof (cases "getline (input c)")
    case None
    then show ?thesis by (subst run_repl.simps) (simp add: Let_def follows_quiet)
  next
    case (Some a)
    obtain line rest where a: "a = (line, rest)" by (cases a)
    let ?c = "act [Print ''> ''] c\<lparr>input := rest\<rparr>"
    obtain err d where h: "handle_command net (command_of_line line) ?c = (err, d)" by (cases "handle_command net (command_of_line line) ?c")
    obtain err' e where n: "display_notifications net d = (err', e)" by (cases "display_notifications net d")
    have "follows c ?c" by (simp add: follows_quiet)
    moreover have "follows ?c d" using handle_command_follows [of ?c net "command_of_line line"] by (simp add: h)
    moreover have "follows d e" using display_notifications_follows [of d net] by (simp add: n)
    moreover have "follows e (run_repl net e)" if "err \<noteq> - 1" "err' \<noteq> - 1"
      using 1 [OF refl _ a [symmetric] h [symmetric] that(1) n [symmetric] that(2)] Some by simp
    ultimately show ?thesis using Some
      by (subst run_repl.simps) (auto simp: Let_def a h n intro: follows_trans)
  qed
qed

section \<open>Commands and requests\<close>

lemma is_ws_chars [simp]: "is_ws CHR '' ''" "\<not> is_ws CHR ''-''"
  "\<not> is_ws CHR ''a''" "\<not> is_ws CHR ''c''" "\<not> is_ws CHR ''d''" "\<not> is_ws CHR ''e''" "\<not> is_ws CHR ''g''" "\<not> is_ws CHR ''h''" "\<not> is_ws CHR ''i''"
  "\<not> is_ws CHR ''o''" "\<not> is_ws CHR ''p''" "\<not> is_ws CHR ''r''" "\<not> is_ws CHR ''s''" "\<not> is_ws CHR ''t''" "\<not> is_ws CHR ''w''" "\<not> is_ws CHR ''y''"
  by (simp_all add: is_ws_def)

lemma dropWhile_ws_digits [simp]: "dropWhile is_ws (dec_digits n @ rest) = dec_digits n @ rest"
proof (cases "dec_digits n")
  case (Cons ch ds)
  then have "is_dec_digit ch" using is_dec_digit_dec_digits [of ch n] by simp
  then have "\<not> is_ws ch" by (auto simp: is_dec_digit_def is_ws_def)
  with Cons show ?thesis by simp
qed simp

lemma scan_u64_digits:
  assumes "n < 2 ^ 64" and "rest = [] \<or> \<not> is_dec_digit (hd rest)"
  shows "scan_u64 (dec_digits n @ rest) = Some (word_of_nat n, rest)"
proof -
  obtain ch ds where d: "dec_digits n = ch # ds" by (cases "dec_digits n") auto
  have dig: "\<forall>ch \<in> set (dec_digits n). is_dec_digit ch" by (simp add: is_dec_digit_dec_digits)
  then have "is_dec_digit ch" by (simp add: d)
  then have "\<not> is_ws ch" "ch \<noteq> CHR ''-''" "ch \<noteq> CHR ''+''" by (auto simp: is_dec_digit_def is_ws_def)
  moreover have "dec_value acc rest = acc" for acc using assms(2) by (cases rest) auto
  then have "dec_value 0 (dec_digits n @ rest) = n" using dec_value_append [OF dig, of 0 rest] by (simp add: dec_value_dec_digits)
  moreover have "dropWhile is_dec_digit (dec_digits n @ rest) = rest"
    using dig assms(2) by (cases rest) (auto simp: dropWhile_append)
  ultimately show ?thesis using \<open>is_dec_digit ch\<close> assms(1) by (simp add: scan_u64_def d Let_def)
qed

lemma scan_u64_blank: "scan_u64 (CHR '' '' # s) = scan_u64 s"
  by (simp add: scan_u64_def)

lemma scan_two: "n < 2 ^ 64 \<Longrightarrow> m < 2 ^ 64 \<Longrightarrow>
    scan_numbers 2 (dec_digits n @ CHR '' '' # dec_digits m) = [word_of_nat n, word_of_nat m]"
  using scan_u64_digits [of n "CHR '' '' # dec_digits m"] scan_u64_digits [of m "[]"]
  by (simp add: numeral_2_eq_2 scan_u64_blank is_dec_digit_def)

text \<open>The command for a request, in the form of the client's help.\<close>

fun command_for :: "request_type \<Rightarrow> u64 \<Rightarrow> u64 \<Rightarrow> string" where
  "command_for BALANCE target amount = ''balance''"
| "command_for DEPOSIT target amount = ''deposit '' @ dec_digits (unat amount)"
| "command_for WITHDRAWAL target amount = ''withdraw '' @ dec_digits (unat amount)"
| "command_for PAYMENT target amount = ''pay '' @ dec_digits (unat target) @ '' '' @ dec_digits (unat amount)"
| "command_for CHARGE target amount = ''charge '' @ dec_digits (unat target) @ '' '' @ dec_digits (unat amount)"
| "command_for (OTHER_REQUEST k) target amount = []"

lemma unat_u64 [simp]: "unat (x :: u64) < 18446744073709551616"
  by (rule unat_lt_64)

text \<open>
  C8. Commands denote requests: the text of a command, with the numbers written in decimal, is parsed into exactly the request it
  names, with the full 64-bit amount and target.
\<close>

theorem parse_command_roundtrip:
  assumes "kind \<in> {BALANCE, DEPOSIT, WITHDRAWAL, PAYMENT, CHARGE}"
  shows "parse_command (command_for kind target amount) =
    (0, \<lparr>req_type = kind, origin_client_id = 0,
         target_client_id = (if kind = PAYMENT \<or> kind = CHARGE then target else 0),
         req_amount = (if kind = BALANCE then 0 else amount)\<rparr>)"
proof -
  have one: "scan_u64 (dec_digits (unat x)) = Some (x, [])" for x :: u64 using scan_u64_digits [of "unat x" "[]"] by simp
  have two: "scan_numbers 2 (dec_digits (unat x) @ CHR '' '' # dec_digits (unat y)) = [x, y]" for x y :: u64
    using scan_two [of "unat x" "unat y"] by simp
  have ws: "dropWhile is_ws (dec_digits n) = dec_digits n" for n using dropWhile_ws_digits [of n "[]"] by simp
  from assms show ?thesis
    by (auto simp: parse_command_def sscanf_def zero_request_def ws one two)
qed

theorem parse_command_roundtrip_witness:
  "parse_command ''pay 7 18446744073709551615'' =
    (0, \<lparr>req_type = PAYMENT, origin_client_id = 0, target_client_id = 7, req_amount = 18446744073709551615\<rparr>)"
  using parse_command_roundtrip [of PAYMENT 7 "18446744073709551615"] by (simp add: dec_digits.simps digit_char_def char_of_def bit_Suc_0_iff)

text \<open>A negative amount is read as the large number that is congruent to it.\<close>

lemma negative_deposit_accepted:
  "parse_command ''deposit -5'' = (0, zero_request\<lparr>req_type := DEPOSIT, req_amount := 18446744073709551611\<rparr>)"
  by (simp add: parse_command_def sscanf_def scan_u64_def is_dec_digit_def)

text \<open>At the end of the input without a line end the last character of the command is lost.\<close>

lemma last_line_truncated: "command_of_line ''balance'' = ''balanc''" "fst (parse_command ''balanc'') = - 1"
  by (simp_all add: command_of_line_def c_str_def parse_command_def sscanf_def)

section \<open>Failures, well-formed requests and charges\<close>

text \<open>
  C6. A request either completes or ends the connection: \<open>make_request\<close> succeeds exactly when the client is connected, the whole
  request was written and a whole response was read, and returns that response. Otherwise it returns \<open>-1\<close> without a response and
  leaves the client disconnected, and nothing the command loop does afterwards sends another request.
\<close>

theorem make_request_outcome:
  assumes "make_request net req c = (r, resp, c')"
    and "net (sent c @ [req\<lparr>origin_client_id := client_id c\<rparr>]) = (bytes_written, bytes_read, answer)"
  shows "if connected c \<and> sizeof_request \<le> bytes_written \<and> sizeof_response \<le> bytes_read
    then r = 0 \<and> resp = Some answer \<and> connected c' \<and> sent c' = sent c @ [req\<lparr>origin_client_id := client_id c\<rparr>]
    else r = - 1 \<and> resp = None \<and> \<not> connected c' \<and> (\<forall>net' cs. sent (run_repl net' (c'\<lparr>input := cs\<rparr>)) = sent c')"
proof -
  have stays: "sent (run_repl net' (c'\<lparr>input := cs\<rparr>)) = sent c'" if "\<not> connected c'" for net' cs
    using run_repl_follows [of "c'\<lparr>input := cs\<rparr>" net'] that by (simp add: follows_def)
  show ?thesis using assms stays by (auto simp: make_request_def Let_def split: if_splits)
qed

definition sample_client :: "string \<Rightarrow> client" where
  "sample_client cs = \<lparr>client_id = 7, requests_fd = 3, notifications_fd = 4, notification_queue = \<lparr>queued = [], queue_stopped = False\<rparr>,
     is_stopped = False, connected = True, input = cs, client_trace = []\<rparr>"

theorem make_request_outcome_witness:
  "\<exists>c'. make_request (\<lambda>rs. (32, 0, \<lparr>resp_amount = 0, success = 0, resp_message = []\<rparr>)) zero_request (sample_client []) = (- 1, None, c') \<and>
     sent (run_repl (\<lambda>rs. (32, 112, \<lparr>resp_amount = 0, success = 1, resp_message = []\<rparr>)) (c'\<lparr>input := ''balance'' @ nl\<rparr>)) = sent c'"
proof -
  let ?net = "\<lambda>rs :: request list. (32 :: int, 0 :: int, \<lparr>resp_amount = 0, success = 0, resp_message = []\<rparr>)"
  obtain r resp c' where m: "make_request ?net zero_request (sample_client []) = (r, resp, c')"
    by (cases "make_request ?net zero_request (sample_client [])")
  from make_request_outcome [OF m refl] have "r = - 1 \<and> resp = None \<and> (\<forall>net' cs. sent (run_repl net' (c'\<lparr>input := cs\<rparr>)) = sent c')"
    by (simp add: sizeof_response_def)
  with m show ?thesis by auto
qed

text \<open>
  C7. Whatever the user types, whatever notifications arrive and whatever the network answers, every request the client sends is
  one the server knows, carries the client's own id as its origin, and none is sent by a disconnected client.
\<close>

theorem requests_well_formed:
  "\<exists>rs. sent (run_repl net c) = sent c @ rs \<and> (\<not> connected c \<longrightarrow> rs = []) \<and>
     (\<forall>r \<in> set rs. origin_client_id r = client_id c \<and> req_type r \<in> {BALANCE, DEPOSIT, WITHDRAWAL, PAYMENT, CHARGE})"
  using run_repl_follows [of c net] by (auto simp: follows_def list_all_iff own_request_def)

lemma sample_client_id: "client_id (sample_client cs) = 7" "connected (sample_client cs)"
  by (simp_all add: sample_client_def)

lemma sent_sample [simp]: "sent (sample_client cs) = []"
  by (simp add: sent_def sample_client_def)

lemma run_repl_end: "input c = [] \<Longrightarrow> run_repl net c = act [Print ''> ''] c"
  by (subst run_repl.simps) (simp add: getline_def)

lemma display_nothing: "display_notifications net c = (0, c)"
  by (simp add: display_notifications_def get_notifications_def queue_flush_def)

lemma sample_line: "getline (''deposit 5'' @ nl) = Some (''deposit 5'' @ nl, [])" "command_of_line (''deposit 5'' @ nl) = ''deposit 5''"
  "parse_command ''deposit 5'' = (0, zero_request\<lparr>req_type := DEPOSIT, req_amount := 5\<rparr>)"
  by (simp_all add: getline_def command_of_line_def c_str_def parse_command_def sscanf_def scan_u64_def is_dec_digit_def is_ws_def)

lemma sample_command:
  "connected c \<Longrightarrow> client_id c = 7 \<Longrightarrow>
     \<exists>c'. handle_command (\<lambda>rs. (32, 112, resp)) ''deposit 5'' c = (0, c') \<and> input c' = input c \<and>
       sent c' = sent c @ [\<lparr>req_type = DEPOSIT, origin_client_id = 7, target_client_id = 0, req_amount = 5\<rparr>]"
  by (simp add: handle_command_def sample_line(3) make_request_def zero_request_def sizeof_request_def sizeof_response_def Let_def)

lemma sample_session:
  "sent (run_repl (\<lambda>rs. (32, 112, resp)) (sample_client (''deposit 5'' @ nl))) =
     [\<lparr>req_type = DEPOSIT, origin_client_id = 7, target_client_id = 0, req_amount = 5\<rparr>]"
proof -
  let ?c = "act [Print ''> ''] (sample_client (''deposit 5'' @ nl))\<lparr>input := []\<rparr>"
  obtain c' where c': "handle_command (\<lambda>rs. (32, 112, resp)) ''deposit 5'' ?c = (0, c')" "input c' = []"
    "sent c' = [\<lparr>req_type = DEPOSIT, origin_client_id = 7, target_client_id = 0, req_amount = 5\<rparr>]"
    using sample_command [of ?c resp] by (auto simp: sample_client_id)
  have "input (act [Print ''> ''] (sample_client (''deposit 5'' @ nl))) = ''deposit 5'' @ nl" by (simp add: sample_client_def)
  then show ?thesis
    by (subst run_repl.simps) (simp only: Let_def sample_line(1,2) option.case prod.case c' display_nothing, simp add: run_repl_end c')
qed

theorem requests_well_formed_witness:
  "list_all (own_request 7) (sent (run_repl (\<lambda>rs. (32, 112, \<lparr>resp_amount = 5, success = 1, resp_message = []\<rparr>)) (sample_client (''deposit 5'' @ nl))))"
  using requests_well_formed [of "\<lambda>rs. (32, 112, \<lparr>resp_amount = 5, success = 1, resp_message = []\<rparr>)" "sample_client (''deposit 5'' @ nl)"]
  unfolding sample_session by (auto simp: sample_client_id own_request_def)

lemma fgets_split: "fgets k s = Some (t, s') \<Longrightarrow> s = t @ s'"
  by (auto simp: fgets_def Let_def split: if_splits)

lemma ask_charge_typed:
  "case ask_charge c of (None, c') \<Rightarrow> input c' = [] | (Some b, c') \<Rightarrow> \<exists>typed. input c = typed @ (if b then ''y'' else ''n'') @ nl @ input c'"
proof (induction c rule: ask_charge.induct)
  case (1 c)
  show ?case
  proof (cases "fgets 3 (input c)")
    case None
    then show ?thesis by (subst ask_charge.simps) (auto simp: Let_def fgets_def split: if_splits)
  next
    case (Some a)
    obtain t rest where a: "a = (t, rest)" by (cases a)
    let ?c = "act [Print '' - Do you accept this charge request? [y/n]: ''] c\<lparr>input := rest\<rparr>"
    have i: "input c = t @ rest" using Some by (simp add: a fgets_split)
    have "case ask_charge ?c of (None, c') \<Rightarrow> input c' = []
      | (Some b, c') \<Rightarrow> \<exists>typed. input ?c = typed @ (if b then ''y'' else ''n'') @ nl @ input c'" if "t \<noteq> ''y'' @ nl" "t \<noteq> ''n'' @ nl"
      using 1 [OF refl _ a [symmetric] refl that] Some by simp
    with i Some show ?thesis
      by (subst ask_charge.simps) (auto simp: Let_def a split: prod.splits option.splits if_splits)
  qed
qed

text \<open>
  C9. A charge is paid only on consent: handling a charge notification sends at most one request, and only after the user's input
  contained the letter \<open>y\<close> right before a line end; that request is a payment of exactly the charged amount to the charging client.
\<close>

theorem charge_paid_on_consent:
  assumes "print_charge_request net n c = (r, c')" and "sent c' \<noteq> sent c"
  shows "sent c' = sent c @ [\<lparr>req_type = PAYMENT, origin_client_id = client_id c, target_client_id = notif_origin n, req_amount = notif_amount n\<rparr>] \<and>
    (\<exists>typed. input c = typed @ ''y'' @ nl @ input c')"
proof -
  obtain b d where a: "ask_charge c = (b, d)" by (cases "ask_charge c")
  have d: "sent d = sent c" "client_id d = client_id c" using ask_charge_quiet [of c] by (simp_all add: a follows_def)
  have "b = Some True" "connected d"
    using assms d by (auto simp: print_charge_request_def a handle_charge_request_def make_request_def split: option.splits if_splits)
  then show ?thesis using assms(1) d ask_charge_typed [of c]
    by (auto simp: print_charge_request_def a handle_charge_request_def make_request_def Let_def split: prod.splits if_splits)
qed

text \<open>The answers are two-character pieces of the line, so that \<open>nay\<close> is taken as consent.\<close>

lemma nay_is_consent: "fst (ask_charge (c\<lparr>input := ''nay'' @ nl\<rparr>)) = Some True"
proof -
  have f: "fgets 3 (''nay'' @ nl) = Some (''na'', ''y'' @ nl)" "fgets 3 (''y'' @ nl) = Some (''y'' @ nl, [])"
    by (simp_all add: fgets_def Let_def)
  have y: "fst (ask_charge (d\<lparr>input := ''y'' @ nl\<rparr>)) = Some True" for d
    by (subst ask_charge.simps) (simp add: f(2) [simplified] Let_def)
  show ?thesis
    by (subst ask_charge.simps) (simp add: f(1) [simplified] Let_def y [simplified])
qed

definition sample_charge :: notification where
  "sample_charge = \<lparr>notif_type = CHARGE_REQUEST_NOTIFICATION, notif_origin = 9, notif_amount = 25, notif_message = []\<rparr>"

theorem charge_paid_on_consent_witness:
  "\<exists>r c'. print_charge_request (\<lambda>rs. (32, 112, \<lparr>resp_amount = 5, success = 1, resp_message = []\<rparr>)) sample_charge (sample_client (''y'' @ nl)) = (r, c') \<and>
     sent c' = [\<lparr>req_type = PAYMENT, origin_client_id = 7, target_client_id = 9, req_amount = 25\<rparr>]"
proof -
  let ?net = "\<lambda>rs :: request list. (32 :: int, 112 :: int, \<lparr>resp_amount = 5, success = 1, resp_message = []\<rparr>)" and ?c = "sample_client (''y'' @ nl)"
  obtain r c' where p: "print_charge_request ?net sample_charge ?c = (r, c')" by (cases "print_charge_request ?net sample_charge ?c")
  have f: "fgets 3 (input ?c) = Some (''y'' @ nl, [])" by (simp add: fgets_def sample_client_def)
  have a: "ask_charge ?c = (Some True, act [Print '' - Do you accept this charge request? [y/n]: ''] ?c\<lparr>input := []\<rparr>)"
    by (subst ask_charge.simps) (simp only: Let_def act_fields f option.case prod.case if_True refl)
  have "sent c' \<noteq> sent ?c"
    using p unfolding print_charge_request_def a by (auto simp: handle_charge_request_def make_request_def sizeof_request_def sizeof_response_def
      sample_client_id Let_def)
  from charge_paid_on_consent [OF p this] p show ?thesis by (simp add: sample_client_id sample_charge_def)
qed

section \<open>Connecting to the server\<close>

text \<open>The hellos sent, and how the server's accept loop sees one that arrived in full on a descriptor.\<close>

definition hellos :: "client \<Rightarrow> client_hello list" where
  "hellos c = concat (map (\<lambda>e. case e of SendHello fd h \<Rightarrow> [h] | _ \<Rightarrow> []) (client_trace c))"

definition arrival :: "int \<Rightarrow> client_hello \<Rightarrow> accept_env" where
  "arrival fd h = \<lparr>stopped_before = False, accepted_fd = fd, stopped_after = False, hello_bytes = sizeof_hello, hello = h\<rparr>"

lemma send_hello_result:
  "send_hello d cid kind c = Some (r, c') \<Longrightarrow> r \<ge> 0 \<Longrightarrow>
     c' = act [SendHello r \<lparr>hello_client_id = cid, hello_kind = kind\<rparr>] c \<and> getaddrinfo_result d = 0 \<and> socket_result d = r \<and>
     connect_result d \<ge> 0 \<and> hello_written d \<ge> sizeof_hello"
  by (auto simp: send_hello_def create_connection_def Let_def split: if_splits option.splits)

lemma hellos_act [simp]: "hellos (act es c) = hellos c @ concat (map (\<lambda>e. case e of SendHello fd h \<Rightarrow> [h] | _ \<Rightarrow> []) es)"
  by (simp add: hellos_def act_def)

lemma hellos_fields [simp]: "hellos (c\<lparr>requests_fd := x\<rparr>) = hellos c" "hellos (c\<lparr>notifications_fd := x\<rparr>) = hellos c" "hellos (c\<lparr>connected := b\<rparr>) = hellos c"
  by (simp_all add: hellos_def)

lemma connect_hellos:
  assumes "connect d1 d2 c = Some (0, c')"
  shows "hellos c' = hellos c @ [\<lparr>hello_client_id = client_id c, hello_kind = REQUESTS_HELLO\<rparr>, \<lparr>hello_client_id = client_id c, hello_kind = NOTIFICATIONS_HELLO\<rparr>] \<and>
    connected c' \<and> requests_fd c' = socket_result d1 \<and> notifications_fd c' = socket_result d2"
proof -
  obtain r1 c1 where h1: "send_hello d1 (client_id c) REQUESTS_HELLO c = Some (r1, c1)" "r1 \<ge> 0"
    using assms by (auto simp: connect_def Let_def split: option.splits if_splits)
  from send_hello_result [OF this] have c1: "c1 = act [SendHello r1 \<lparr>hello_client_id = client_id c, hello_kind = REQUESTS_HELLO\<rparr>] c" "socket_result d1 = r1"
    by simp_all
  then have "client_id c1 = client_id c" by simp
  then obtain r2 c2 where h2: "send_hello d2 (client_id c) NOTIFICATIONS_HELLO (c1\<lparr>requests_fd := r1\<rparr>) = Some (r2, c2)" "r2 \<ge> 0"
    using assms h1 by (auto simp: connect_def Let_def split: option.splits if_splits)
  from send_hello_result [OF this] show ?thesis
    using assms h1 h2 c1 by (auto simp: connect_def act_def hellos_def)
qed

lemma accept_arrivals:
  assumes "incomplete_conns s cid = None" and "a1 \<ge> 0" and "a2 \<ge> 0"
  shows "\<exists>s'. accept_client [arrival a1 \<lparr>hello_client_id = cid, hello_kind = REQUESTS_HELLO\<rparr>,
                             arrival a2 \<lparr>hello_client_id = cid, hello_kind = NOTIFICATIONS_HELLO\<rparr>] s =
      Some (Some \<lparr>conn_id = cid, request_fd = a1, notification_fd = a2, is_connected = False\<rparr>, s') \<and>
    incomplete_conns s' = incomplete_conns s"
  using assms by (simp add: arrival_def Let_def new_client_conn_def emit_def) auto

text \<open>
  C10. Client and server agree on the handshake: when \<open>connect\<close> succeeds the client has sent exactly one request hello and one
  notification hello with its id, in that order, and a server's \<open>accept_client\<close> to which they arrive returns the connection of that
  client with its two descriptors, leaving no half-open connection behind.
\<close>

theorem connect_is_accepted:
  assumes "connect d1 d2 c = Some (0, c')" and "hellos c = []"
    and "incomplete_conns s (client_id c) = None" and "a1 \<ge> 0" and "a2 \<ge> 0"
  shows "\<exists>s'. accept_client (map2 arrival [a1, a2] (hellos c')) s =
      Some (Some \<lparr>conn_id = client_id c, request_fd = a1, notification_fd = a2, is_connected = False\<rparr>, s') \<and>
    incomplete_conns s' = incomplete_conns s \<and> connected c'"
  using connect_hellos [OF assms(1)] assms(2) accept_arrivals [OF assms(3-5)] by simp

theorem connect_is_accepted_witness:
  "\<exists>c' s'. connect \<lparr>getaddrinfo_result = 0, socket_result = 3, connect_result = 0, hello_written = 16\<rparr>
       \<lparr>getaddrinfo_result = 0, socket_result = 4, connect_result = 0, hello_written = 16\<rparr> (sample_client []) = Some (0, c') \<and>
     accept_client (map2 arrival [5, 6] (hellos c')) \<lparr>client_conns = Map.empty, accounts = Map.empty, incomplete_conns = Map.empty, trace = []\<rparr> =
       Some (Some \<lparr>conn_id = 7, request_fd = 5, notification_fd = 6, is_connected = False\<rparr>, s')"
proof -
  let ?d = "\<lambda>fd. \<lparr>getaddrinfo_result = 0, socket_result = fd, connect_result = 0, hello_written = 16\<rparr>"
  have "\<exists>c'. connect (?d 3) (?d 4) (sample_client []) = Some (0, c')"
    by (simp add: connect_def send_hello_def create_connection_def sizeof_hello_def Let_def)
  then obtain c' where c': "connect (?d 3) (?d 4) (sample_client []) = Some (0, c')" ..
  have "hellos (sample_client []) = []" by (simp add: sample_client_def hellos_def)
  from connect_is_accepted [OF c' this, of "\<lparr>client_conns = Map.empty, accounts = Map.empty, incomplete_conns = Map.empty, trace = []\<rparr>" 5 6] c'
  show ?thesis by (auto simp: sample_client_id)
qed

text \<open>A connection whose hello could not be written is not closed.\<close>

lemma send_hello_leaks:
  assumes "getaddrinfo_result d = 0" and "socket_result d \<ge> 0" and "connect_result d \<ge> 0" and "hello_written d < sizeof_hello"
  shows "send_hello d cid kind c = Some (- 1, act [SendHello (socket_result d) \<lparr>hello_client_id = cid, hello_kind = kind\<rparr>] c)"
  using assms by (simp add: send_hello_def create_connection_def Let_def)

text \<open>The listening socket is either returned open or closed again.\<close>

lemma open_listen_socket_closes:
  "open_listen_socket l = (r, closed) \<Longrightarrow>
     (if r \<ge> 0 then r = listen_socket l \<and> closed = [] else r = - 1 \<and> closed = (if listen_socket l < 0 then [] else [listen_socket l]))"
  by (auto simp: open_listen_socket_def Let_def split: if_splits)

end
