(* ===== verification/Arith.thy ===== *)
theory Arith
  imports Prelude
begin

unbundle bit_operations_syntax

text \<open>
  The arithmetic and character helpers of \<open>weensyos/lib.hh\<close> and the pseudo-random generator of
  \<open>weensyos/lib.cc\<close>. Templates over unsigned types are polymorphic in the word length. A shift by the
  full width and a signed overflow are undefined behaviour in the source and have no value here.
\<close>

section \<open>Minimum, maximum, rounding\<close>

definition min2 :: "'a::ord \<Rightarrow> 'a \<Rightarrow> 'a" where
  "min2 a b = (if a < b then a else b)"

definition min3 :: "'a::ord \<Rightarrow> 'a \<Rightarrow> 'a \<Rightarrow> 'a" where
  "min3 a b c = min2 (min2 a b) c"

definition max2 :: "'a::ord \<Rightarrow> 'a \<Rightarrow> 'a" where
  "max2 a b = (if b < a then a else b)"

definition max3 :: "'a::ord \<Rightarrow> 'a \<Rightarrow> 'a \<Rightarrow> 'a" where
  "max3 a b c = max2 (max2 a b) c"

text \<open>A \<open>multiple\<close> of zero divides by zero in the source; every statement below excludes it.\<close>

definition round_down :: "u64 \<Rightarrow> u32 \<Rightarrow> u64" where
  "round_down x multiple = x - (x mod ucast multiple)"

definition round_up :: "u64 \<Rightarrow> u32 \<Rightarrow> u64" where
  "round_up x multiple = round_down (x + ucast multiple - 1) multiple"

section \<open>Bit positions\<close>

fun bit_length :: "nat \<Rightarrow> nat" where
  "bit_length n = (if n = 0 then 0 else Suc (bit_length (n div 2)))"

declare bit_length.simps [simp del]

definition builtin_clz :: "'a::len word \<Rightarrow> nat" where
  "builtin_clz x = LENGTH('a) - bit_length (unat x)"

definition msb :: "'a::len word \<Rightarrow> nat" where
  "msb x = (if x \<noteq> 0 then LENGTH('a) - builtin_clz x else 0)"

fun ffs_nat :: "nat \<Rightarrow> nat" where
  "ffs_nat n = (if n = 0 then 0 else if odd n then 1 else Suc (ffs_nat (n div 2)))"

declare ffs_nat.simps [simp del]

definition lsb :: "'a::len word \<Rightarrow> nat" where
  "lsb x = ffs_nat (unat x)"

definition round_down_pow2 :: "'a::len word \<Rightarrow> 'a word" where
  "round_down_pow2 x = (if x \<noteq> 0 then push_bit (msb x - 1) 1 else 0)"

definition round_up_pow2 :: "'a::len word \<Rightarrow> 'a word option" where
  "round_up_pow2 x =
     (if x \<noteq> 0 then (if msb (x - 1) < LENGTH('a) then Some (push_bit (msb (x - 1)) 1) else None) else Some 0)"

section \<open>Character classes\<close>

text \<open>Arguments are C \<open>int\<close>s; \<open>unsigned(c)\<close> is the conversion to 32 bits.\<close>

definition isspace :: "int \<Rightarrow> bool" where
  "isspace c = ((c \<ge> 9 \<and> c \<le> 13) \<or> c = 32)"

definition isdigit :: "int \<Rightarrow> bool" where
  "isdigit c = ((word_of_int c :: u32) - 48 < 10)"

definition islower :: "int \<Rightarrow> bool" where
  "islower c = ((word_of_int c :: u32) - 97 < 26)"

definition isupper :: "int \<Rightarrow> bool" where
  "isupper c = ((word_of_int c :: u32) - 65 < 26)"

definition isalpha :: "int \<Rightarrow> bool" where
  "isalpha c = (((word_of_int c :: u32) OR 0x20) - 97 < 26)"

definition isalnum :: "int \<Rightarrow> bool" where
  "isalnum c = (isalpha c \<or> isdigit c)"

definition tolower :: "int \<Rightarrow> int" where
  "tolower c = (if isupper c then c + 97 - 65 else c)"

definition toupper :: "int \<Rightarrow> int" where
  "toupper c = (if islower c then c + 65 - 97 else c)"

section \<open>Pseudo-random numbers\<close>

definition RAND_MAX :: int where
  "RAND_MAX = 0x7FFFFFFF"

record rand_state =
  rand_seed_set :: bool
  rand_seed :: u64

definition srand :: "u32 \<Rightarrow> rand_state \<Rightarrow> rand_state" where
  "srand seed s = s\<lparr>rand_seed := push_bit 32 (ucast seed) OR ucast seed, rand_seed_set := True\<rparr>"

definition rand :: "rand_state \<Rightarrow> int \<times> rand_state" where
  "rand s =
     (let s = (if \<not> rand_seed_set s then srand 819234718 s else s);
          s = s\<lparr>rand_seed := rand_seed s * 6364136223846793005 + 1\<rparr>
      in (uint (drop_bit 32 (rand_seed s) AND word_of_int RAND_MAX), s))"

datatype rand_error = RandAssertFailed | SignedOverflow

text \<open>\<open>rand(min, max)\<close>: the differences are computed in \<open>int\<close>.\<close>

definition rand_range :: "int \<Rightarrow> int \<Rightarrow> rand_state \<Rightarrow> rand_error + int \<times> rand_state" where
  "rand_range mn mx s =
     (if \<not> mn \<le> mx then Inl RandAssertFailed
      else if mx - mn > INT_MAX then Inl SignedOverflow
      else if \<not> mx - mn \<le> RAND_MAX then Inl RandAssertFailed
      else let (r, s') = rand s
           in if mx - mn + 1 > INT_MAX then Inl SignedOverflow
              else Inr (sint (ucast ((word_of_int mn :: u64) +
                     (word_of_int r * word_of_int (mx - mn + 1)) div (word_of_int RAND_MAX + 1)) :: u32), s'))"

section \<open>Rounding to multiples\<close>

lemma unat_ucast_32_64 [simp]: "unat (ucast (x :: u32) :: u64) = unat x"
  by (simp add: unsigned_ucast_eq take_bit_nat_eq_self unsigned_less [THEN less_le_trans])

lemma ucast_32_64_eq_0 [simp]: "(ucast (x :: u32) :: u64) = 0 \<longleftrightarrow> x = 0"
  by (metis unat_ucast_32_64 unsigned_0 unat_eq_zero)

lemma unat_round_down: "unat (round_down x m) = unat m * (unat x div unat m)"
proof -
  have m: "unat (x mod ucast m) = unat x mod unat m" by (simp add: unat_mod)
  then have "x mod ucast m \<le> x" by (simp add: word_le_nat_alt)
  then show ?thesis
    unfolding round_down_def by (simp only: unat_minus_le m) (simp add: minus_mod_eq_mult_div)
qed

lemma unat_round_up:
  assumes "m \<noteq> 0" and "unat x + unat m - 1 < 2 ^ 64"
  shows "unat (round_up x m) = unat m * ((unat x + unat m - 1) div unat m)"
proof -
  have m: "0 < unat m" using assms(1) by (simp add: unat_gt_0)
  have "unat (x + (ucast m - 1)) = unat x + unat m - 1"
    using assms m by (subst unat_plus_no_wrap) (simp_all add: unat_minus_le word_le_nat_alt)
  then show ?thesis by (simp add: round_up_def unat_round_down algebra_simps)
qed

text \<open>
  Rounding to multiples: \<open>round_down\<close> gives the largest multiple not above \<open>x\<close>, and \<open>round_up\<close> gives
  the smallest multiple not below \<open>x\<close> as long as \<open>x + multiple - 1\<close> fits 64 bits.
\<close>

theorem round_to_multiple:
  assumes "m \<noteq> 0"
  shows "unat m dvd unat (round_down x m) \<and> unat (round_down x m) \<le> unat x \<and> unat x < unat (round_down x m) + unat m \<and>
    (unat x + unat m - 1 < 2 ^ 64 \<longrightarrow>
       unat m dvd unat (round_up x m) \<and> unat x \<le> unat (round_up x m) \<and> unat (round_up x m) < unat x + unat m)"
proof -
  have m: "0 < unat m" using assms by (simp add: unat_gt_0)
  have lo: "a \<le> unat m * ((a + unat m - 1) div unat m)" "unat m * ((a + unat m - 1) div unat m) < a + unat m" for a
    using mult_div_mod_eq [of "unat m" "a + unat m - 1"] mod_less_divisor [OF m, of "a + unat m - 1"] m
      by linarith+
  have "unat x < unat m * (unat x div unat m) + unat m"
    using mult_div_mod_eq [of "unat m" "unat x"] mod_less_divisor [OF m, of "unat x"] by linarith
  with assms lo [of "unat x"] show ?thesis
    by (auto simp: unat_round_down unat_round_up)
qed

theorem round_to_multiple_witness:
  "unat (round_up 4097 4096) < 4097 + 4096 \<and> 4097 \<le> unat (round_up 4097 4096) \<and> round_up 4097 4096 = 8192"
  using round_to_multiple [of 4096 4097] by (simp add: round_up_def round_down_def)

section \<open>Powers of two\<close>

lemma bit_length_bounds: "n \<noteq> 0 \<Longrightarrow> 2 ^ (bit_length n - 1) \<le> n \<and> n < 2 ^ bit_length n \<and> bit_length n \<noteq> 0"
proof (induction n rule: bit_length.induct)
  case (1 n)
  show ?case
  proof (cases "n div 2 = 0")
    case True
    with 1(2) have "n = 1" by auto
    then show ?thesis by (simp add: bit_length.simps)
  next
    case False
    let ?k = "bit_length (n div 2)"
    from 1(1) [OF 1(2) False] have ih: "2 ^ (?k - 1) \<le> n div 2" "n div 2 < 2 ^ ?k" "?k \<noteq> 0" by auto
    have "(2::nat) ^ ?k = 2 * 2 ^ (?k - 1)" using ih(3) by (metis power_eq_if)
    with ih have "2 ^ ?k \<le> n" "n < 2 * 2 ^ ?k" by linarith+
    then show ?thesis using 1(2) by (subst (1 2 3) bit_length.simps) simp
  qed
qed

lemma bit_length_le: "n < 2 ^ k \<Longrightarrow> bit_length n \<le> k"
proof (cases "n = 0")
  case False
  assume "n < 2 ^ k"
  with bit_length_bounds [OF False] have "2 ^ (bit_length n - 1) < (2::nat) ^ k" by linarith
  then have "bit_length n - 1 < k" by (simp add: power_strict_increasing_iff)
  then show ?thesis by linarith
qed (simp add: bit_length.simps)

lemma msb_bit_length: "msb (x :: 'a::len word) = bit_length (unat x)"
  using bit_length_le [of "unat x" "LENGTH('a)"] unsigned_less [of x]
  by (auto simp: msb_def builtin_clz_def bit_length.simps [of 0])

lemma unat_pow2 [simp]: "k < LENGTH('a) \<Longrightarrow> unat (2 ^ k :: 'a::len word) = 2 ^ k"
  by (simp only: push_bit_of_1 [symmetric] unsigned_push_bit_eq) (simp add: take_bit_nat_eq_self)

text \<open>
  Rounding to powers of two: \<open>round_down_pow2\<close> gives the largest power of two not above a non-zero
  \<open>x\<close>; \<open>round_up_pow2\<close> gives the smallest one not below it, and has no defined value (a shift by the full
  width) exactly when that power does not fit the type. Zero is mapped to zero by both.
\<close>

theorem round_pow2_spec:
  "round_down_pow2 (0 :: 'a::len word) = 0 \<and> round_up_pow2 (0 :: 'a word) = Some 0 \<and>
   (x \<noteq> 0 \<longrightarrow>
     (\<exists>k. unat (round_down_pow2 (x :: 'a word)) = 2 ^ k \<and> 2 ^ k \<le> unat x \<and> unat x < 2 ^ Suc k) \<and>
     (case round_up_pow2 x of
        Some r \<Rightarrow> \<exists>k. unat r = 2 ^ k \<and> unat x \<le> 2 ^ k \<and> 2 ^ k < 2 * unat x
      | None \<Rightarrow> 2 ^ (LENGTH('a) - 1) < unat x))"
proof (intro conjI impI)
  assume x: "x \<noteq> 0"
  then have ux: "unat x \<noteq> 0" by (simp add: unat_eq_zero)
  note b = bit_length_bounds [OF ux]
  have "bit_length (unat x) \<le> LENGTH('a)" by (rule bit_length_le) (rule unsigned_less)
  then have "bit_length (unat x) - Suc 0 < LENGTH('a)" using b by linarith
  then have "unat (round_down_pow2 x) = 2 ^ (bit_length (unat x) - 1)"
    using x b by (simp add: round_down_pow2_def msb_bit_length)
  with b show "\<exists>k. unat (round_down_pow2 x) = 2 ^ k \<and> 2 ^ k \<le> unat x \<and> unat x < 2 ^ Suc k"
    by (intro exI [of _ "bit_length (unat x) - 1"]) simp
  let ?k = "bit_length (unat x - 1)"
  have m: "msb (x - 1) = ?k" using x by (simp add: msb_bit_length unat_minus_one)
  have k: "unat x \<le> 2 ^ ?k" "2 ^ ?k < 2 * unat x"
  proof -
    show "unat x \<le> 2 ^ ?k"
      using bit_length_bounds [of "unat x - 1"] ux by (cases "unat x - 1 = 0") (auto simp: bit_length.simps [of 0])
    show "2 ^ ?k < 2 * unat x"
    proof (cases "unat x - 1 = 0")
      case True
      then show ?thesis using ux by (simp add: bit_length.simps [of 0])
    next
      case False
      then have "2 ^ (?k - 1) \<le> unat x - 1" "?k \<noteq> 0" using bit_length_bounds by auto
      moreover from this have "(2::nat) ^ ?k = 2 * 2 ^ (?k - 1)" by (metis power_eq_if)
      ultimately show ?thesis using ux by linarith
    qed
  qed
  show "case round_up_pow2 x of Some r \<Rightarrow> \<exists>k. unat r = 2 ^ k \<and> unat x \<le> 2 ^ k \<and> 2 ^ k < 2 * unat x
      | None \<Rightarrow> 2 ^ (LENGTH('a) - 1) < unat x"
  proof (cases "?k < LENGTH('a)")
    case True
    with k x m show ?thesis by (auto simp: round_up_pow2_def)
  next
    case False
    then have "(2::nat) ^ LENGTH('a) \<le> 2 ^ ?k" by simp
    moreover have "(2::nat) ^ LENGTH('a) = 2 * 2 ^ (LENGTH('a) - 1)" by (metis len_gt_0 power_eq_if less_numeral_extra(3))
    ultimately have "2 ^ (LENGTH('a) - 1) < unat x" using k(2) by linarith
    with False x m show ?thesis by (simp add: round_up_pow2_def)
  qed
qed (simp_all add: round_down_pow2_def round_up_pow2_def)

theorem round_pow2_spec_witness:
  "round_up_pow2 (0x1FABC :: u32) = Some 0x20000 \<and> round_up_pow2 (0x80000001 :: u32) = None \<and>
   (\<exists>k. unat (round_down_pow2 (0x1FABC :: u32)) = 2 ^ k \<and> 2 ^ k \<le> (0x1FABC :: nat))"
proof -
  have "round_up_pow2 (0x1FABC :: u32) = Some 0x20000" "round_up_pow2 (0x80000001 :: u32) = None"
    by (simp_all add: round_up_pow2_def msb_bit_length bit_length.simps)
  with round_pow2_spec [of "0x1FABC :: u32"] show ?thesis by auto
qed

text \<open>The static tests at the end of \<open>lib.cc\<close>.\<close>

lemma static_tests:
  "msb (0 :: u32) = 0" "msb (1 :: u32) = 1" "msb (2 :: u32) = 2" "msb (3 :: u32) = 2"
  "msb (0x1FABC :: u32) = 17" "msb (0x1FFFF :: u32) = 17"
  "round_down_pow2 (0 :: u32) = 0" "round_down_pow2 (1 :: u32) = 1" "round_down_pow2 (2 :: u32) = 2"
  "round_down_pow2 (3 :: u32) = 2" "round_down_pow2 (0x1FABC :: u32) = 0x10000"
  "round_up_pow2 (0 :: u32) = Some 0" "round_up_pow2 (1 :: u32) = Some 1" "round_up_pow2 (2 :: u32) = Some 2"
  "round_up_pow2 (3 :: u32) = Some 4" "round_up_pow2 (0x1FABC :: u32) = Some 0x20000"
  "round_up_pow2 (0x1FFFF :: u32) = Some 0x20000"
  by (simp_all add: round_down_pow2_def round_up_pow2_def msb_bit_length bit_length.simps)

section \<open>Characters and random numbers\<close>

lemma word_range_32:
  assumes "- 2147483648 \<le> c" "c \<le> INT_MAX" "0 \<le> lo" "lo < 128" "0 \<le> n" "n < 128"
  shows "((word_of_int c :: u32) - word_of_int lo < word_of_int n) = (lo \<le> c \<and> c < lo + n)"
proof -
  have "uint ((word_of_int c :: u32) - word_of_int lo) = (c - lo) mod 4294967296"
    by (simp add: uint_word_ariths uint_word_of_int) (metis mod_diff_eq)
  moreover have "(c - lo) mod 4294967296 = (if lo \<le> c then c - lo else c - lo + 4294967296)"
  proof (cases "lo \<le> c")
    case True
    then show ?thesis using assms by simp
  next
    case False
    then have "(c - lo + 4294967296) mod 4294967296 = c - lo + 4294967296" using assms by (intro mod_pos_pos_trivial) auto
    with False show ?thesis by simp
  qed
  moreover have "uint (word_of_int n :: u32) = n" using assms by (simp add: uint_word_of_int)
  ultimately show ?thesis using assms by (auto simp: word_less_def)
qed

lemma char_classes:
  assumes "- 2147483648 \<le> c" "c \<le> INT_MAX"
  shows "isdigit c = (48 \<le> c \<and> c \<le> 57)" "islower c = (97 \<le> c \<and> c \<le> 122)" "isupper c = (65 \<le> c \<and> c \<le> 90)"
  using word_range_32 [OF assms, of 48 10] word_range_32 [OF assms, of 97 26] word_range_32 [OF assms, of 65 26]
  by (auto simp: isdigit_def islower_def isupper_def)

lemma tolower_range: "0 \<le> c \<Longrightarrow> c < 256 \<Longrightarrow> tolower c = (if 65 \<le> c \<and> c \<le> 90 then c + 32 else c)"
  by (simp add: tolower_def char_classes)

lemma rand_bounds: "rand s = (r, s') \<Longrightarrow> 0 \<le> r \<and> r \<le> RAND_MAX"
proof -
  assume "rand s = (r, s')"
  then obtain w :: u64 where "r = uint (w AND word_of_int RAND_MAX)" by (auto simp: rand_def Let_def)
  moreover have "uint (w AND word_of_int RAND_MAX) \<le> uint (word_of_int RAND_MAX :: u64)"
    by (simp add: unsigned_and_eq AND_upper2)
  ultimately show ?thesis by (simp add: RAND_MAX_def)
qed


lemma sint_ucast_32:
  assumes "- 2147483648 \<le> a" and "a \<le> INT_MAX"
  shows "sint (ucast (word_of_int a :: u64) :: u32) = a"
proof -
  have "(ucast (word_of_int a :: u64) :: u32) = word_of_int a"
    by (simp add: unsigned_of_int word_of_int_eq_iff)
  then show ?thesis using assms by (simp add: signed_of_int signed_take_bit_int_eq_self)
qed

text \<open>
  \<open>rand(min, max)\<close> stays within its bounds, in every generator state: for \<open>max - min < RAND_MAX\<close> it
  returns a number between \<open>min\<close> and \<open>max\<close> inclusive. At \<open>max - min = RAND_MAX\<close>, which the source comment
  still allows, \<open>max - min + 1\<close> overflows \<open>int\<close>.
\<close>

theorem rand_range_bounds:
  assumes "- 2147483648 \<le> mn" and "mn \<le> mx" and "mx \<le> INT_MAX"
  shows "(mx - mn < RAND_MAX \<longrightarrow> (\<exists>v s'. rand_range mn mx s = Inr (v, s') \<and> mn \<le> v \<and> v \<le> mx)) \<and>
    (mx - mn = RAND_MAX \<longrightarrow> rand_range mn mx s = Inl SignedOverflow)"
proof (intro conjI impI)
  assume lt: "mx - mn < RAND_MAX"
  obtain r s' where r: "rand s = (r, s')" by fastforce
  note rb = rand_bounds [OF r]
  define n where "n = mx - mn + 1"
  have n: "1 \<le> n" "n \<le> 2147483647" using assms lt by (auto simp: n_def RAND_MAX_def)
  have prod: "0 \<le> r * n" "r * n < 2147483648 * n" using rb n by (auto simp: RAND_MAX_def)
  define q where "q = r * n div 2147483648"
  have q: "0 \<le> q" "q < n" using prod unfolding q_def by arith+
  have "r * n < 2147483648 * 2147483647" using prod(2) n(2) by linarith
  then have "uint (word_of_int r * word_of_int n :: u64) = r * n"
    using prod(1) by (simp only: wi_hom_mult uint_word_of_int) simp
  moreover have "uint (word_of_int RAND_MAX + 1 :: u64) = 2147483648" by (simp add: RAND_MAX_def)
  ultimately have "uint ((word_of_int r * word_of_int n :: u64) div (word_of_int RAND_MAX + 1)) = q"
    by (simp add: uint_div q_def)
  then have "(word_of_int r * word_of_int n :: u64) div (word_of_int RAND_MAX + 1) = word_of_int q"
    by (metis word_of_int_uint)
  moreover have "sint (ucast (word_of_int (mn + q) :: u64) :: u32) = mn + q"
    using assms q n by (intro sint_ucast_32) (auto simp: n_def)
  ultimately show "\<exists>v s'. rand_range mn mx s = Inr (v, s') \<and> mn \<le> v \<and> v \<le> mx"
    using assms lt r q by (simp add: rand_range_def RAND_MAX_def n_def)
next
  assume "mx - mn = RAND_MAX"
  with assms show "rand_range mn mx s = Inl SignedOverflow"
    by (simp add: rand_range_def RAND_MAX_def split: prod.splits)
qed

theorem rand_range_bounds_witness:
  "(\<exists>v s'. rand_range (- 3) 3 \<lparr>rand_seed_set = False, rand_seed = 0\<rparr> = Inr (v, s') \<and> - 3 \<le> v \<and> v \<le> 3) \<and>
   rand_range 0 0x7FFFFFFF \<lparr>rand_seed_set = False, rand_seed = 0\<rparr> = Inl SignedOverflow"
  using rand_range_bounds [of "- 3" 3 "\<lparr>rand_seed_set = False, rand_seed = 0\<rparr>"]
    rand_range_bounds [of 0 "0x7FFFFFFF" "\<lparr>rand_seed_set = False, rand_seed = 0\<rparr>"]
  by (simp add: RAND_MAX_def)

end
