(* ===== verification/CString.thy ===== *)
theory CString
  imports Arith
begin

unbundle bit_operations_syntax

text \<open>
  The C library subset of \<open>weensyos/lib.cc\<close> on a flat byte memory: copying, filling, comparing and
  scanning memory, NUL-terminated strings and number parsing. Loops bounded by a count recurse on it;
  loops that look for a terminator are partial (\<open>None\<close> when there is none). A null pointer result is \<open>0\<close>.
\<close>

section \<open>Memory blocks\<close>

fun copy_up :: "nat \<Rightarrow> u64 \<Rightarrow> u64 \<Rightarrow> memory \<Rightarrow> memory" where
  "copy_up 0 d s m = m"
| "copy_up (Suc n) d s m = copy_up n (d + 1) (s + 1) (m(d := m s))"

definition memcpy :: "u64 \<Rightarrow> u64 \<Rightarrow> u64 \<Rightarrow> memory \<Rightarrow> u64 \<times> memory" where
  "memcpy dst src n m = (dst, copy_up (unat n) dst src m)"

fun copy_down :: "nat \<Rightarrow> u64 \<Rightarrow> u64 \<Rightarrow> memory \<Rightarrow> memory" where
  "copy_down 0 d s m = m"
| "copy_down (Suc n) d s m = copy_down n (d - 1) (s - 1) (m(d - 1 := m (s - 1)))"

definition memmove :: "u64 \<Rightarrow> u64 \<Rightarrow> u64 \<Rightarrow> memory \<Rightarrow> u64 \<times> memory" where
  "memmove dst src n m =
     (if src < dst \<and> src + n > dst then (dst, copy_down (unat n) (dst + n) (src + n) m)
      else (dst, copy_up (unat n) dst src m))"

fun fill_up :: "nat \<Rightarrow> u64 \<Rightarrow> u8 \<Rightarrow> memory \<Rightarrow> memory" where
  "fill_up 0 p c m = m"
| "fill_up (Suc n) p c m = fill_up n (p + 1) c (m(p := c))"

definition memset :: "u64 \<Rightarrow> int \<Rightarrow> u64 \<Rightarrow> memory \<Rightarrow> u64 \<times> memory" where
  "memset v c n m = (v, fill_up (unat n) v (word_of_int c) m)"

text \<open>\<open>(a > b) - (a < b)\<close>.\<close>

definition sign_diff :: "u8 \<Rightarrow> u8 \<Rightarrow> int" where
  "sign_diff a b = (if a > b then 1 else 0) - (if a < b then 1 else 0)"

fun memcmp_loop :: "nat \<Rightarrow> u64 \<Rightarrow> u64 \<Rightarrow> memory \<Rightarrow> int" where
  "memcmp_loop 0 a b m = 0"
| "memcmp_loop (Suc n) a b m = (if m a \<noteq> m b then sign_diff (m a) (m b) else memcmp_loop n (a + 1) (b + 1) m)"

definition memcmp :: "u64 \<Rightarrow> u64 \<Rightarrow> u64 \<Rightarrow> memory \<Rightarrow> int" where
  "memcmp a b n m = memcmp_loop (unat n) a b m"

fun memchr_loop :: "nat \<Rightarrow> u64 \<Rightarrow> u8 \<Rightarrow> memory \<Rightarrow> u64" where
  "memchr_loop 0 s c m = 0"
| "memchr_loop (Suc n) s c m = (if m s = c then s else memchr_loop n (s + 1) c m)"

definition memchr :: "u64 \<Rightarrow> int \<Rightarrow> u64 \<Rightarrow> memory \<Rightarrow> u64" where
  "memchr s c n m = memchr_loop (unat n) s (word_of_int c) m"

section \<open>Strings\<close>

partial_function (option) strlen_loop :: "u64 \<Rightarrow> u64 \<Rightarrow> memory \<Rightarrow> u64 option" where
  "strlen_loop s n m = (if m s \<noteq> 0 then strlen_loop (s + 1) (n + 1) m else Some n)"

definition strlen :: "u64 \<Rightarrow> memory \<Rightarrow> u64 option" where
  "strlen s m = strlen_loop s 0 m"

fun strnlen_loop :: "nat \<Rightarrow> u64 \<Rightarrow> u64 \<Rightarrow> memory \<Rightarrow> u64" where
  "strnlen_loop 0 s n m = n"
| "strnlen_loop (Suc k) s n m = (if m s \<noteq> 0 then strnlen_loop k (s + 1) (n + 1) m else n)"

definition strnlen :: "u64 \<Rightarrow> u64 \<Rightarrow> memory \<Rightarrow> u64" where
  "strnlen s maxlen m = strnlen_loop (unat maxlen) s 0 m"

partial_function (option) strcpy_loop :: "u64 \<Rightarrow> u64 \<Rightarrow> memory \<Rightarrow> memory option" where
  "strcpy_loop d s m =
     (let m' = m(d := m s) in if m' d \<noteq> 0 then strcpy_loop (d + 1) (s + 1) m' else Some m')"

definition strcpy :: "u64 \<Rightarrow> u64 \<Rightarrow> memory \<Rightarrow> (u64 \<times> memory) option" where
  "strcpy dst src m = map_option (Pair dst) (strcpy_loop dst src m)"

partial_function (option) strcmp :: "u64 \<Rightarrow> u64 \<Rightarrow> memory \<Rightarrow> int option" where
  "strcmp a b m =
     (let ac = m a; bc = m b
      in if ac = 0 \<or> bc = 0 \<or> ac \<noteq> bc then Some (sign_diff ac bc) else strcmp (a + 1) (b + 1) m)"

partial_function (option) strncmp :: "u64 \<Rightarrow> u64 \<Rightarrow> u64 \<Rightarrow> memory \<Rightarrow> int option" where
  "strncmp a b n m =
     (let ac = (if n \<noteq> 0 then m a else 0); bc = (if n \<noteq> 0 then m b else 0)
      in if ac = 0 \<or> bc = 0 \<or> ac \<noteq> bc then Some (sign_diff ac bc) else strncmp (a + 1) (b + 1) (n - 1) m)"

definition tolower_byte :: "u8 \<Rightarrow> u8" where
  "tolower_byte c = word_of_int (tolower (uint c))"

partial_function (option) strcasecmp :: "u64 \<Rightarrow> u64 \<Rightarrow> memory \<Rightarrow> int option" where
  "strcasecmp a b m =
     (let ac = tolower_byte (m a); bc = tolower_byte (m b)
      in if ac = 0 \<or> bc = 0 \<or> ac \<noteq> bc then Some (sign_diff ac bc) else strcasecmp (a + 1) (b + 1) m)"

partial_function (option) strncasecmp :: "u64 \<Rightarrow> u64 \<Rightarrow> u64 \<Rightarrow> memory \<Rightarrow> int option" where
  "strncasecmp a b n m =
     (let ac = (if n \<noteq> 0 then tolower_byte (m a) else 0); bc = (if n \<noteq> 0 then tolower_byte (m b) else 0)
      in if ac = 0 \<or> bc = 0 \<or> ac \<noteq> bc then Some (sign_diff ac bc) else strncasecmp (a + 1) (b + 1) (n - 1) m)"

partial_function (option) strchr_loop :: "u64 \<Rightarrow> u8 \<Rightarrow> memory \<Rightarrow> u64 option" where
  "strchr_loop s c m = (if m s \<noteq> 0 \<and> m s \<noteq> c then strchr_loop (s + 1) c m else Some s)"

definition strchr :: "u64 \<Rightarrow> int \<Rightarrow> memory \<Rightarrow> u64 option" where
  "strchr s c m = map_option (\<lambda>s. if m s = word_of_int c then s else 0) (strchr_loop s (word_of_int c) m)"

section \<open>Numbers\<close>

text \<open>\<open>char\<close> is signed: characters are compared through \<open>sint\<close>.\<close>

partial_function (option) skip_space :: "u64 \<Rightarrow> memory \<Rightarrow> u64 option" where
  "skip_space s m = (if isspace (sint (m s)) then skip_space (s + 1) m else Some s)"

definition strtoul_digit :: "int \<Rightarrow> int \<Rightarrow> u32 option" where
  "strtoul_digit base c =
     (if c \<ge> 48 \<and> c < 48 + base then Some (word_of_int (c - 48))
      else if base > 10 \<and> c \<ge> 97 \<and> c < 97 + base - 10 then Some (word_of_int (c - 97 + 10))
      else if base > 10 \<and> c \<ge> 65 \<and> c < 65 + base - 10 then Some (word_of_int (c - 65 + 10))
      else None)"

partial_function (option) strtoul_loop :: "int \<Rightarrow> u64 \<Rightarrow> u64 \<Rightarrow> bool \<Rightarrow> memory \<Rightarrow> (u64 \<times> u64 \<times> bool) option" where
  "strtoul_loop base s x ovf m =
     (case strtoul_digit base (sint (m s)) of
        None \<Rightarrow> Some (s, x, ovf)
      | Some digit \<Rightarrow>
          if x > (- 1 - ucast digit) div word_of_int base then strtoul_loop base (s + 1) x True m
          else strtoul_loop base (s + 1) (x * word_of_int base + ucast digit) ovf m)"

text \<open>The result is the number and the final \<open>*endptr\<close>.\<close>

definition strtoul :: "u64 \<Rightarrow> int \<Rightarrow> memory \<Rightarrow> (u64 \<times> u64) option" where
  "strtoul s base m =
     (case skip_space s m of None \<Rightarrow> None
      | Some s \<Rightarrow>
          let negative = (m s = 45);
              s = (if negative \<or> m s = 43 then s + 1 else s);
              hex = (m s = 48 \<and> (m (s + 1) = 120 \<or> m (s + 1) = 88));
              (base, s) = (if base = 0 then
                             if hex then (16, s + 2) else if m s = 48 then (8, s) else (10, s)
                           else if base = 16 \<and> hex then (base, s + 2) else (base, s))
          in case strtoul_loop base s 0 False m of None \<Rightarrow> None
             | Some (e, x, ovf) \<Rightarrow>
                 let x = (if ovf then - 1 else x); x = (if negative then - x else x)
                 in Some (x, e))"

definition strtol :: "u64 \<Rightarrow> int \<Rightarrow> memory \<Rightarrow> (int \<times> u64) option" where
  "strtol s base m =
     (case skip_space s m of None \<Rightarrow> None
      | Some s \<Rightarrow>
          let negative = (m s = 45); s = (if negative then s + 1 else s)
          in case strtoul s base m of None \<Rightarrow> None
             | Some (u, e) \<Rightarrow>
                 let bound = push_bit 63 1 - (if negative then 0 else 1);
                     u = (if u > bound then bound else u);
                     u = (if negative then - u else u)
                 in Some (sint u, e))"

section \<open>Copying\<close>

lemma unat_step: "x \<noteq> 0 \<Longrightarrow> unat (x :: u64) = Suc (unat (x - 1))"
  by (simp add: unat_minus_one unat_gt_0)

lemma copy_up_eq:
  assumes "d = s \<or> n \<le> unat (d - s)" and "n < 2 ^ 64"
  shows "copy_up n d s m = (\<lambda>a. if unat (a - d) < n then m (s + (a - d)) else m a)"
  using assms
proof (induction n arbitrary: d s m)
  case (Suc n)
  have "d + 1 = s + 1 \<or> n \<le> unat ((d + 1) - (s + 1))" "n < 2 ^ 64" using Suc.prems by auto
  note ih = Suc.IH [OF this, of "m(d := m s)"]
  show ?case
  proof (rule ext)
    fix a
    show "copy_up (Suc n) d s m a = (if unat (a - d) < Suc n then m (s + (a - d)) else m a)"
    proof (cases "a = d")
      case True
      have "unat (a - (d + 1)) = 2 ^ 64 - 1" using True by (simp add: unsigned_minus_1_eq_mask mask_eq_exp_minus_1)
      with True Suc.prems(2) show ?thesis by (simp add: ih)
    next
      case False
      then have u: "unat (a - d) = Suc (unat (a - (d + 1)))" using unat_step [of "a - d"] by (simp add: algebra_simps)
      have "s + (a - d) = d \<Longrightarrow> unat (a - d) = unat (d - s)" by (metis add_diff_cancel_left')
      with Suc.prems(1) u have "s + (a - d) \<noteq> d \<or> d = s \<or> \<not> unat (a - (d + 1)) < n" by auto
      moreover have "s + 1 + (a - (d + 1)) = s + (a - d)" by simp
      ultimately show ?thesis using u False by (simp only: copy_up.simps ih) auto
    qed
  qed
qed simp

lemma fill_up_eq: "n < 2 ^ 64 \<Longrightarrow> fill_up n p c m = (\<lambda>a. if unat (a - p) < n then c else m a)"
proof (induction n arbitrary: p m)
  case (Suc n)
  show ?case
  proof (rule ext)
    fix a
    show "fill_up (Suc n) p c m a = (if unat (a - p) < Suc n then c else m a)"
    proof (cases "a = p")
      case True
      have "unat (a - (p + 1)) = 2 ^ 64 - 1" using True by (simp add: unsigned_minus_1_eq_mask mask_eq_exp_minus_1)
      with True Suc show ?thesis by simp
    next
      case False
      then have "unat (a - p) = Suc (unat (a - (p + 1)))" using unat_step [of "a - p"] by (simp add: algebra_simps)
      with False Suc show ?thesis by simp
    qed
  qed
qed simp

lemma no_wrapped_sum: "p + q = (w :: u64) \<Longrightarrow> unat p < n \<Longrightarrow> Suc n \<le> unat q \<Longrightarrow> unat w = n \<Longrightarrow> False"
  using unat_add_64 [of p q] unat_lt_64 [of q] by (auto split: if_splits)

lemma copy_down_eq:
  assumes "d = s \<or> n \<le> unat (s - d)" and "n < 2 ^ 64"
  shows "copy_down n d s m = (\<lambda>a. if unat (a - (d - word_of_nat n)) < n then m (s - word_of_nat n + (a - (d - word_of_nat n))) else m a)"
  using assms
proof (induction n arbitrary: d s m)
  case (Suc n)
  have "d - 1 = s - 1 \<or> n \<le> unat ((s - 1) - (d - 1))" "n < 2 ^ 64" using Suc.prems by auto
  note ih = Suc.IH [OF this, of "m(d - 1 := m (s - 1))"]
  let ?B = "d - word_of_nat (Suc n)" and ?S = "s - word_of_nat (Suc n)"
  have base: "d - 1 - word_of_nat n = ?B" "s - 1 - word_of_nat n = ?S" by simp_all
  show ?case
  proof (rule ext)
    fix a
    have top: "unat (a - ?B) = n \<longleftrightarrow> a = d - 1"
    proof -
      have "unat (word_of_nat n :: u64) = n" using Suc.prems(2) by (intro unat_of_nat_small) simp
      then have "unat (a - ?B) = n \<longleftrightarrow> a - ?B = word_of_nat n" by (metis word_nat_cases unsigned_word_eqI)
      then show ?thesis by (auto simp: algebra_simps)
    qed
    show "copy_down (Suc n) d s m a = (if unat (a - ?B) < Suc n then m (?S + (a - ?B)) else m a)"
    proof (cases "a = d - 1")
      case True
      then have "?S + (a - ?B) = s - 1" "unat (a - ?B) = n" using top by (simp_all add: algebra_simps)
      with True show ?thesis by (simp only: copy_down.simps ih base) simp
    next
      case False
      then have less: "unat (a - ?B) < n \<longleftrightarrow> unat (a - ?B) < Suc n" using top by auto
      have "?S + (a - ?B) \<noteq> d - 1 \<or> d = s \<or> \<not> unat (a - ?B) < n"
      proof (rule ccontr)
        assume c: "\<not> ?thesis"
        then have "a - ?B + (s - d) = word_of_nat n" by (simp add: algebra_simps)
        moreover have "unat (a - ?B) < n" "Suc n \<le> unat (s - d)" using c Suc.prems(1) by auto
        moreover have "unat (word_of_nat n :: u64) = n" using Suc.prems(2) by (intro unat_of_nat_small) simp
        ultimately show False by (rule no_wrapped_sum)
      qed
      with False less show ?thesis by (simp only: copy_down.simps ih base) auto
    qed
  qed
qed simp


lemma unat_diff_wrap: "unat (x - y :: u64) = (if unat y \<le> unat x then unat x - unat y else unat x + 2 ^ 64 - unat y)"
  using unat_add_64 [of "x - y" y] unat_lt_64 [of "x - y"] unat_lt_64 [of x] by (auto split: if_splits)

text \<open>
  \<open>memmove\<close> moves blocks correctly whether or not they overlap: as long as neither block reaches the
  end of the address space, every byte of the destination gets the byte the source had before the call,
  and no other byte changes. \<open>memcpy\<close> does the same for a destination that does not start inside the
  source.
\<close>

theorem memmove_correct:
  assumes "unat src + unat n < 2 ^ 64" and "unat dst + unat n < 2 ^ 64"
  shows "memmove dst src n m = (dst, \<lambda>a. if unat (a - dst) < unat n then m (src + (a - dst)) else m a) \<and>
    (dst \<le> src \<or> unat src + unat n \<le> unat dst \<longrightarrow>
       memcpy dst src n m = (dst, \<lambda>a. if unat (a - dst) < unat n then m (src + (a - dst)) else m a))"
proof -
  have lt: "unat n < 2 ^ 64" using unat_lt_64 [of n] by simp
  have sn: "unat (src + n) = unat src + unat n" using assms by (simp add: unat_add_64)
  have up: "dst = src \<or> unat n \<le> unat (dst - src)" if "dst \<le> src \<or> unat src + unat n \<le> unat dst"
    using that assms unat_lt_64 [of src] by (cases "dst = src") (auto simp: unat_diff_wrap word_le_nat_alt dest: unsigned_word_eqI)
  have down: "unat n \<le> unat ((src + n) - (dst + n))" if "src < dst"
    using that assms unat_lt_64 [of dst] by (simp add: unat_diff_wrap word_less_nat_alt)
  have d: "copy_down (unat n) (dst + n) (src + n) m = (\<lambda>a. if unat (a - dst) < unat n then m (src + (a - dst)) else m a)"
    if "src < dst" using copy_down_eq [of "dst + n" "src + n" "unat n" m] down [OF that] lt by (simp cong: if_cong)
  have u: "copy_up (unat n) dst src m = (\<lambda>a. if unat (a - dst) < unat n then m (src + (a - dst)) else m a)"
    if "dst \<le> src \<or> unat src + unat n \<le> unat dst" using copy_up_eq [OF up [OF that] lt] .
  have "\<not> (src < dst \<and> src + n > dst) \<Longrightarrow> dst \<le> src \<or> unat src + unat n \<le> unat dst"
    using sn by (auto simp: word_less_nat_alt word_le_nat_alt)
  with d u show ?thesis by (auto simp: memmove_def memcpy_def)
qed

theorem memmove_correct_witness:
  "snd (memmove 12 10 4 (\<lambda>a. ucast a)) 13 = 11 \<and> snd (memmove 12 10 4 (\<lambda>a. ucast a)) 16 = 16"
  using memmove_correct [of 10 4 12 "\<lambda>a. ucast a"] by simp

section \<open>Strings as byte lists\<close>

text \<open>A NUL-terminated string with bytes \<open>xs\<close> stands at \<open>a\<close>.\<close>

fun cstr :: "memory \<Rightarrow> u64 \<Rightarrow> u8 list \<Rightarrow> bool" where
  "cstr m a [] = (m a = 0)"
| "cstr m a (x # xs) = (m a = x \<and> x \<noteq> 0 \<and> cstr m (a + 1) xs)"

lemma strlen_loop_cstr: "cstr m a xs \<Longrightarrow> strlen_loop a n m = Some (n + word_of_nat (length xs))"
  by (induction xs arbitrary: a n) (auto simp: strlen_loop.simps [of a] strlen_loop.simps)

lemma strnlen_loop_cstr: "cstr m a xs \<Longrightarrow> strnlen_loop k a n m = n + word_of_nat (min k (length xs))"
proof (induction xs arbitrary: a n k)
  case Nil
  then show ?case by (cases k) auto
next
  case (Cons x xs)
  then show ?case by (cases k) auto
qed

definition lex_sign :: "u8 list \<Rightarrow> u8 list \<Rightarrow> int" where
  "lex_sign xs ys = (if xs = ys then 0 else if (xs, ys) \<in> lexord {(x, y). x < y} then - 1 else 1)"

lemma lex_sign_simps:
  "lex_sign [] [] = 0" "lex_sign (x # xs) [] = 1" "lex_sign [] (y # ys) = - 1"
  "lex_sign (x # xs) (y # ys) = (if x = y then lex_sign xs ys else sign_diff x y)"
  by (auto simp: lex_sign_def sign_diff_def lexord_cons_cons)

lemma sign_diff_0 [simp]: "x \<noteq> 0 \<Longrightarrow> sign_diff x 0 = 1" "x \<noteq> 0 \<Longrightarrow> sign_diff 0 x = - 1" "sign_diff x x = 0"
  by (auto simp: sign_diff_def word_gt_0)

lemma cstr_first: "cstr m a xs \<Longrightarrow> m a = (case xs of [] \<Rightarrow> 0 | x # _ \<Rightarrow> x)"
  by (cases xs) auto

lemma strcmp_cstr: "cstr m a xs \<Longrightarrow> cstr m b ys \<Longrightarrow> strcmp a b m = Some (lex_sign xs ys)"
proof (induction xs arbitrary: a b ys)
  case Nil
  then show ?case by (cases ys) (auto simp: strcmp.simps [of a] lex_sign_simps)
next
  case (Cons x xs)
  then show ?case by (cases ys) (auto simp: strcmp.simps [of a] lex_sign_simps)
qed


lemma tolower_byte_0 [simp]: "tolower_byte c = 0 \<longleftrightarrow> c = 0"
proof -
  have u: "0 \<le> uint c" "uint c < 256" using uint_lt2p [of c] by simp_all
  then have "0 \<le> tolower (uint c)" "tolower (uint c) < 256" "tolower (uint c) = 0 \<longleftrightarrow> uint c = 0"
    by (simp_all add: tolower_range)
  then have "word_of_int (tolower (uint c)) = (0 :: u8) \<longleftrightarrow> uint c = 0"
    by (cases "tolower (uint c) = 0") (auto simp: word_of_int_eq_0_iff dest: zdvd_imp_le)
  then show ?thesis by (simp add: tolower_byte_def uint_0_iff)
qed

lemma strcasecmp_cstr:
  "cstr m a xs \<Longrightarrow> cstr m b ys \<Longrightarrow> strcasecmp a b m = Some (lex_sign (map tolower_byte xs) (map tolower_byte ys))"
proof (induction xs arbitrary: a b ys)
  case Nil
  then show ?case by (cases ys) (auto simp: strcasecmp.simps [of a] lex_sign_simps tolower_byte_0 [THEN iffD2])
next
  case (Cons x xs)
  then show ?case by (cases ys) (auto simp: strcasecmp.simps [of a] lex_sign_simps tolower_byte_0 [THEN iffD2])
qed

lemma take_step: "n \<noteq> (0 :: u64) \<Longrightarrow> take (unat n) (x # xs) = x # take (unat (n - 1)) xs"
  by (simp add: unat_step [of n])

lemma strncmp_cstr:
  "cstr m a xs \<Longrightarrow> cstr m b ys \<Longrightarrow> strncmp a b n m = Some (lex_sign (take (unat n) xs) (take (unat n) ys))"
proof (induction xs arbitrary: a b ys n)
  case Nil
  then show ?case by (cases ys; cases "n = 0") (auto simp: strncmp.simps [of a] lex_sign_simps take_step)
next
  case (Cons x xs)
  then show ?case by (cases ys; cases "n = 0") (auto simp: strncmp.simps [of a] lex_sign_simps take_step)
qed

lemma strncasecmp_cstr:
  "cstr m a xs \<Longrightarrow> cstr m b ys \<Longrightarrow>
   strncasecmp a b n m = Some (lex_sign (map tolower_byte (take (unat n) xs)) (map tolower_byte (take (unat n) ys)))"
proof (induction xs arbitrary: a b ys n)
  case Nil
  then show ?case
    by (cases ys; cases "n = 0") (auto simp: strncasecmp.simps [of a] lex_sign_simps take_step tolower_byte_0 [THEN iffD2])
next
  case (Cons x xs)
  then show ?case
    by (cases ys; cases "n = 0") (auto simp: strncasecmp.simps [of a] lex_sign_simps take_step tolower_byte_0 [THEN iffD2])
qed

text \<open>
  The four string comparisons return on every pair of NUL-terminated strings, and the result is the
  sign of the lexicographic comparison of the unsigned bytes, of the lower-cased bytes, and of their
  first \<open>n\<close> bytes.
\<close>

theorem string_comparisons:
  assumes "cstr m a xs" and "cstr m b ys"
  shows "strcmp a b m = Some (lex_sign xs ys) \<and>
    strncmp a b n m = Some (lex_sign (take (unat n) xs) (take (unat n) ys)) \<and>
    strcasecmp a b m = Some (lex_sign (map tolower_byte xs) (map tolower_byte ys)) \<and>
    strncasecmp a b n m = Some (lex_sign (map tolower_byte (take (unat n) xs)) (map tolower_byte (take (unat n) ys)))"
  using strcmp_cstr [OF assms] strncmp_cstr [OF assms] strcasecmp_cstr [OF assms] strncasecmp_cstr [OF assms] by simp

definition sample_memory :: memory where
  "sample_memory = (\<lambda>_. 0)(100 := 0x41, 101 := 0x62, 200 := 0x61, 201 := 0x63)"

theorem string_comparisons_witness:
  "strcmp 100 200 sample_memory = Some (- 1) \<and> strncasecmp 100 200 1 sample_memory = Some 0"
proof -
  have "cstr sample_memory 100 [0x41, 0x62]" "cstr sample_memory 200 [0x61, 0x63]" by (simp_all add: sample_memory_def)
  from string_comparisons [OF this, of 1] show ?thesis
    by (simp add: lex_sign_simps sign_diff_def tolower_byte_def tolower_range)
qed

lemma strchr_loop_cstr:
  "cstr m a xs \<Longrightarrow> strchr_loop a c m = Some (a + word_of_nat (length (takeWhile (\<lambda>x. x \<noteq> c) xs)))"
proof (induction xs arbitrary: a)
  case Nil
  then show ?case by (simp add: strchr_loop.simps)
next
  case (Cons x xs)
  then show ?case by (simp add: strchr_loop.simps [of a])
qed

lemma strcpy_loop_cstr:
  assumes "cstr m s xs" and "length xs < 2 ^ 64" and "\<forall>i \<le> length xs. \<forall>j \<le> length xs. d + word_of_nat i \<noteq> s + word_of_nat j"
  shows "strcpy_loop d s m = Some (copy_up (Suc (length xs)) d s m)"
  using assms
proof (induction xs arbitrary: d s m)
  case Nil
  then show ?case by (auto simp: strcpy_loop.simps fun_eq_iff)
next
  case (Cons x xs)
  have keep: "cstr m p ys \<Longrightarrow> \<forall>j \<le> length ys. q \<noteq> p + word_of_nat j \<Longrightarrow> cstr (m(q := v)) p ys" for p q ys v
  proof (induction ys arbitrary: p)
    case (Cons y ys)
    have "\<forall>j \<le> length ys. q \<noteq> p + 1 + word_of_nat j"
    proof (intro allI impI)
      fix j assume "j \<le> length ys"
      with Cons.prems(2) have "q \<noteq> p + word_of_nat (Suc j)" by (metis Suc_le_mono length_Cons)
      then show "q \<noteq> p + 1 + word_of_nat j" by (simp add: algebra_simps)
    qed
    moreover have "q \<noteq> p" using Cons.prems(2) by (auto dest: spec [of _ 0])
    ultimately show ?case using Cons by simp
  qed auto
  have shift: "\<forall>i \<le> length xs. \<forall>j \<le> length xs. d + 1 + word_of_nat i \<noteq> s + 1 + word_of_nat j"
  proof (intro allI impI)
    fix i j assume "i \<le> length xs" "j \<le> length xs"
    with Cons.prems(3) have "d + word_of_nat (Suc i) \<noteq> s + word_of_nat (Suc j)" by simp
    then show "d + 1 + word_of_nat i \<noteq> s + 1 + word_of_nat j" by (simp add: algebra_simps)
  qed
  have "\<forall>j \<le> length xs. d \<noteq> s + 1 + word_of_nat j"
  proof (intro allI impI)
    fix j assume "j \<le> length xs"
    with Cons.prems(3) have "d + word_of_nat 0 \<noteq> s + word_of_nat (Suc j)" by (metis Suc_le_mono length_Cons le0)
    then show "d \<noteq> s + 1 + word_of_nat j" by (simp add: algebra_simps)
  qed
  then have "cstr (m(d := m s)) (s + 1) xs" using Cons.prems(1) by (intro keep) simp_all
  note ih = Cons.IH [OF this _ shift]
  have "strcpy_loop d s m = strcpy_loop (d + 1) (s + 1) (m(d := m s))"
    by (subst strcpy_loop.simps) (use Cons.prems(1) in simp)
  with ih Cons.prems(2) show ?case by (simp only: copy_up.simps length_Cons)
qed


lemma cstr_iff:
  "cstr m a xs \<longleftrightarrow> (\<forall>i < length xs. m (a + word_of_nat i) = xs ! i \<and> xs ! i \<noteq> 0) \<and> m (a + word_of_nat (length xs)) = 0"
proof (induction xs arbitrary: a)
  case (Cons x xs)
  have "(\<forall>i < length (x # xs). P i) \<longleftrightarrow> P 0 \<and> (\<forall>i < length xs. P (Suc i))" for P by (auto simp: All_less_Suc2)
  with Cons show ?case by (simp add: algebra_simps)
qed simp

lemma cstr_transport:
  assumes "cstr m s xs" and "\<forall>i \<le> length xs. m' (d + word_of_nat i) = m (s + word_of_nat i)"
  shows "cstr m' d xs"
  using assms by (auto simp: cstr_iff)

text \<open>
  String scans and copies on NUL-terminated strings: \<open>strlen\<close> returns the length, \<open>strnlen\<close> the length
  cut at its bound, \<open>strchr\<close> the address of the first occurrence of the character (the terminator
  counts) or null, and \<open>strcpy\<close> to a place that does not overlap its source leaves the same string
  there and changes nothing beyond its terminator.
\<close>

theorem string_scans:
  assumes s: "cstr m a xs" and len: "length xs < 2 ^ 64 - 1"
    and disj: "\<forall>i \<le> length xs. \<forall>j \<le> length xs. d + word_of_nat i \<noteq> a + word_of_nat j"
  shows "strlen a m = Some (word_of_nat (length xs)) \<and>
    strnlen a k m = word_of_nat (min (unat k) (length xs)) \<and>
    strchr a c m = Some (let i = length (takeWhile (\<lambda>x. x \<noteq> word_of_int c) xs)
                         in if i < length xs \<or> word_of_int c = (0 :: u8) then a + word_of_nat i else 0) \<and>
    (\<exists>m'. strcpy d a m = Some (d, m') \<and> cstr m' d xs \<and> (\<forall>p. length xs < unat (p - d) \<longrightarrow> m' p = m p))"
proof (intro conjI)
  show "strlen a m = Some (word_of_nat (length xs))" by (simp add: strlen_def strlen_loop_cstr [OF s])
  show "strnlen a k m = word_of_nat (min (unat k) (length xs))" by (simp add: strnlen_def strnlen_loop_cstr [OF s])
  let ?tw = "takeWhile (\<lambda>x. x \<noteq> word_of_int c) xs"
  have "m (a + word_of_nat (length ?tw)) = (if length ?tw < length xs then word_of_int c else 0)"
    using s nth_length_takeWhile [of "\<lambda>x. x \<noteq> word_of_int c" xs] length_takeWhile_le [of "\<lambda>x. x \<noteq> word_of_int c" xs]
    by (auto simp: cstr_iff le_less)
  then show "strchr a c m = Some (let i = length ?tw in if i < length xs \<or> word_of_int c = (0 :: u8) then a + word_of_nat i else 0)"
    by (auto simp: strchr_def strchr_loop_cstr [OF s] Let_def)
  have gap: "Suc (length xs) \<le> unat (d - a)"
  proof (rule ccontr)
    assume "\<not> ?thesis"
    then have "d + word_of_nat 0 \<noteq> a + word_of_nat (unat (d - a))" using disj by (metis le0 not_less_eq_eq)
    then show False by simp
  qed
  define m' where "m' = copy_up (Suc (length xs)) d a m"
  have m': "m' = (\<lambda>p. if unat (p - d) < Suc (length xs) then m (a + (p - d)) else m p)"
    unfolding m'_def using gap len by (intro copy_up_eq) auto
  have "strcpy d a m = Some (d, m')"
    using strcpy_loop_cstr [OF s _ disj] len by (simp add: strcpy_def m'_def)
  moreover have "cstr m' d xs"
  proof (rule cstr_transport [OF s], intro allI impI)
    fix i assume "i \<le> length xs"
    then have "unat (word_of_nat i :: u64) = i" using len by (intro unat_of_nat_small) simp
    with \<open>i \<le> length xs\<close> show "m' (d + word_of_nat i) = m (a + word_of_nat i)" by (simp add: m')
  qed
  ultimately show "\<exists>m'. strcpy d a m = Some (d, m') \<and> cstr m' d xs \<and> (\<forall>p. length xs < unat (p - d) \<longrightarrow> m' p = m p)"
    by (auto simp: m')
qed

lemma all_le_2: "(\<forall>i \<le> Suc (Suc 0). P i) \<longleftrightarrow> P 0 \<and> P 1 \<and> P 2"
  by (auto simp: numeral_2_eq_2 le_Suc_eq)

theorem string_scans_witness:
  "strlen 100 sample_memory = Some 2 \<and> strchr 100 0x62 sample_memory = Some 101 \<and>
   (\<exists>m'. strcpy 300 100 sample_memory = Some (300, m') \<and> cstr m' 300 [0x41, 0x62])"
proof -
  have s: "cstr sample_memory 100 [0x41, 0x62]" by (simp add: sample_memory_def)
  have d: "\<forall>i \<le> length [0x41, 0x62 :: u8]. \<forall>j \<le> length [0x41, 0x62 :: u8]. (300 :: u64) + word_of_nat i \<noteq> 100 + word_of_nat j"
    by (simp add: all_le_2)
  from string_scans [OF s _ d, of 0 "0x62"] show ?thesis by auto
qed

section \<open>Parsing numbers\<close>

definition digit_byte :: "nat \<Rightarrow> u8" where
  "digit_byte d = (if d < 10 then word_of_nat (48 + d) else word_of_nat (87 + d))"

definition horner :: "nat \<Rightarrow> nat \<Rightarrow> nat list \<Rightarrow> nat" where
  "horner base v ds = foldl (\<lambda>v d. v * base + d) v ds"

lemma horner_simps [simp]: "horner base v [] = v" "horner base v (d # ds) = horner base (v * base + d) ds"
  by (simp_all add: horner_def)

lemma horner_mono: "1 \<le> base \<Longrightarrow> v \<le> horner base v ds"
proof (induction ds arbitrary: v)
  case (Cons d ds)
  have "v \<le> v * base + d" using Cons.prems by (simp add: trans_le_add1)
  also have "\<dots> \<le> horner base (v * base + d) ds" by (rule Cons.IH [OF Cons.prems])
  finally show ?case by simp
qed simp

lemma sint_small_byte: "n < 128 \<Longrightarrow> sint (word_of_nat n :: u8) = int n"
proof -
  assume "n < 128"
  have "(word_of_nat n :: u8) = word_of_int (int n)" by simp
  then show ?thesis using \<open>n < 128\<close> by (simp only: signed_of_int) (simp add: signed_take_bit_int_eq_self)
qed

lemma sint_digit_byte: "d < 36 \<Longrightarrow> sint (digit_byte d) = (if d < 10 then 48 + int d else 87 + int d)"
  using sint_small_byte [of "48 + d"] sint_small_byte [of "87 + d"] by (simp only: digit_byte_def split: if_split) auto

lemma strtoul_digit_byte: "d < base \<Longrightarrow> base \<le> 36 \<Longrightarrow> strtoul_digit (int base) (sint (digit_byte d)) = Some (word_of_nat d)"
proof -
  assume d: "d < base" "base \<le> 36"
  then have "sint (digit_byte d) = (if d < 10 then 48 + int d else 87 + int d)" by (intro sint_digit_byte) simp
  with d show ?thesis by (simp add: strtoul_digit_def)
qed

lemma strtoul_digit_0: "0 \<le> b \<Longrightarrow> strtoul_digit b 0 = None"
  by (simp add: strtoul_digit_def)

lemma strtoul_overflow_test:
  assumes "d < base" "base \<le> 36"
  shows "x > (- 1 - ucast (word_of_nat d :: u32)) div word_of_int (int base) \<longleftrightarrow> 2 ^ 64 \<le> unat (x :: u64) * base + d"
    "unat x * base + d < 2 ^ 64 \<Longrightarrow> unat (x * word_of_int (int base) + ucast (word_of_nat d :: u32)) = unat x * base + d"
proof -
  have d: "unat (ucast (word_of_nat d :: u32) :: u64) = d" using assms by (simp add: unat_of_nat_small)
  have b: "unat (word_of_int (int base) :: u64) = base" using assms by (simp add: unat_of_nat_small)
  have m1: "unat (- 1 :: u64) = 2 ^ 64 - 1" by (simp add: unsigned_minus_1_eq_mask mask_eq_exp_minus_1)
  then have "unat (- 1 - ucast (word_of_nat d :: u32) :: u64) = 2 ^ 64 - 1 - d"
    using assms d by (simp add: unat_diff_wrap)
  then have q: "unat ((- 1 - ucast (word_of_nat d :: u32)) div word_of_int (int base) :: u64) = (2 ^ 64 - 1 - d) div base"
    using b by (simp only: unat_div)
  have "(2 ^ 64 - 1 - d) div base < unat x \<longleftrightarrow> 2 ^ 64 - 1 - d < unat x * base"
    using assms by (intro div_less_iff_less_mult) simp
  then show "x > (- 1 - ucast (word_of_nat d :: u32)) div word_of_int (int base) \<longleftrightarrow> 2 ^ 64 \<le> unat x * base + d"
    using assms by (simp only: word_less_nat_alt q) auto
  assume lt: "unat x * base + d < 2 ^ 64"
  then have "unat (x * word_of_int (int base)) = unat x * base" using b by (simp add: unat_word_ariths)
  with lt d show "unat (x * word_of_int (int base) + ucast (word_of_nat d :: u32)) = unat x * base + d"
    by (simp add: unat_add_64)
qed


lemma strtoul_loop_digits:
  assumes "2 \<le> base" "base \<le> 36" and "\<forall>d \<in> set ds. d < base" and "cstr m s (map digit_byte ds)"
  shows "\<exists>x' ovf'. strtoul_loop (int base) s x ovf m = Some (s + word_of_nat (length ds), x', ovf') \<and>
    (ovf' \<longleftrightarrow> ovf \<or> 2 ^ 64 \<le> horner base (unat x) ds) \<and> (\<not> ovf' \<longrightarrow> unat x' = horner base (unat x) ds)"
  using assms(3,4)
proof (induction ds arbitrary: s x ovf)
  case Nil
  then show ?case using unat_lt_64 [of x] by (simp add: strtoul_loop.simps [of _ s] strtoul_digit_0)
next
  case (Cons d ds)
  then have d: "d < base" "cstr m (s + 1) (map digit_byte ds)" "m s = digit_byte d" "\<forall>d \<in> set ds. d < base" by auto
  note dig = strtoul_digit_byte [OF d(1) assms(2)]
  note test = strtoul_overflow_test [OF d(1) assms(2), of x]
  let ?v = "unat x * base + d"
  have mono: "?v \<le> horner base ?v ds" using assms(1) by (intro horner_mono) simp
  have monox: "unat x \<le> horner base (unat x) (d # ds)" using assms(1) by (intro horner_mono) simp
  show ?case
  proof (cases "2 ^ 64 \<le> ?v")
    case True
    with d(3) dig test(1) have "strtoul_loop (int base) s x ovf m = strtoul_loop (int base) (s + 1) x True m"
      by (subst strtoul_loop.simps) simp
    with Cons.IH [OF d(4,2), of x True] True mono show ?thesis by (auto simp: algebra_simps)
  next
    case False
    let ?x = "x * word_of_int (int base) + ucast (word_of_nat d :: u32)"
    from False d(3) dig test(1) have "strtoul_loop (int base) s x ovf m = strtoul_loop (int base) (s + 1) ?x ovf m"
      by (subst strtoul_loop.simps) simp
    moreover have "unat ?x = ?v" using test(2) False by simp
    ultimately show ?thesis using Cons.IH [OF d(4,2), of ?x ovf] by (auto simp: algebra_simps)
  qed
qed

lemma strtoul_digits:
  assumes base: "2 \<le> base" "base \<le> 36" and ds: "\<forall>d \<in> set ds. d < base" and s: "cstr m a (map digit_byte ds)"
  shows "strtoul a (int base) m =
    Some (if horner base 0 ds < 2 ^ 64 then word_of_nat (horner base 0 ds) else - 1, a + word_of_nat (length ds))"
proof -
  have first: "m a = 0 \<or> (\<exists>d < 36. m a = digit_byte d)"
    using s ds base(2) by (cases ds) (auto dest: less_le_trans)
  note sd = sint_digit_byte
  have "\<not> isspace (sint (m a))" using first sd by (auto simp: isspace_def split: if_splits)
  then have skip: "skip_space a m = Some a" by (simp add: skip_space.simps [of a])
  have "sint (m a) \<noteq> sint (45 :: u8)" "sint (m a) \<noteq> sint (43 :: u8)" using first sd by (auto split: if_splits)
  then have sign: "m a \<noteq> 45" "m a \<noteq> 43" by auto
  have hex: "\<not> (base = 16 \<and> m a = 48 \<and> (m (a + 1) = 120 \<or> m (a + 1) = 88))"
  proof
    assume h: "base = 16 \<and> m a = 48 \<and> (m (a + 1) = 120 \<or> m (a + 1) = 88)"
    then obtain d ds' where "ds = d # ds'" using s by (cases ds) auto
    with s ds h have "m (a + 1) = 0 \<or> (\<exists>e < 16. m (a + 1) = digit_byte e)" by (cases ds') auto
    then have "sint (m (a + 1)) < 58 \<or> 97 \<le> sint (m (a + 1)) \<and> sint (m (a + 1)) < 103" using sd by (auto split: if_splits)
    with h show False by auto
  qed
  obtain x' ovf' where l: "strtoul_loop (int base) a 0 False m = Some (a + word_of_nat (length ds), x', ovf')"
    "ovf' \<longleftrightarrow> 2 ^ 64 \<le> horner base 0 ds" "\<not> ovf' \<Longrightarrow> unat x' = horner base 0 ds"
    using strtoul_loop_digits [OF base ds s, of 0 False] by auto
  have "horner base 0 ds < 2 ^ 64 \<Longrightarrow> x' = word_of_nat (horner base 0 ds)" using l(2,3)
    by (metis leD of_nat_unat ucast_id)
  with l hex base(1) skip sign show ?thesis by (auto simp: strtoul_def Let_def)
qed

text \<open>
  Parsing a number: in every base from 2 to 36, \<open>strtoul\<close> applied to the digits of a number returns
  that number and stops at the terminator, however many leading zeros there are; numbers that do not fit
  64 bits saturate at the maximum.
\<close>

theorem strtoul_parses:
  assumes base: "2 \<le> base" "base \<le> 36" and ds: "\<forall>d \<in> set ds. d < base" and s: "cstr m a (map digit_byte ds)"
  shows "strtoul a (int base) m =
    Some (if horner base 0 ds < 2 ^ 64 then word_of_nat (horner base 0 ds) else - 1, a + word_of_nat (length ds))"
  by (rule strtoul_digits [OF assms])

theorem strtoul_parses_witness:
  "strtoul 100 16 (\<lambda>a. if a = 100 then 0x66 else if a = 101 then 0x30 else 0) = Some (240, 102)"
proof -
  have "cstr (\<lambda>a. if a = 100 then 0x66 else if a = 101 then 0x30 else 0) 100 (map digit_byte [15, 0])"
    by (simp add: digit_byte_def)
  from strtoul_parses [OF _ _ _ this, of 16] show ?thesis by simp
qed

text \<open>
  \<open>strtol\<close> strips a sign and hands the rest to \<open>strtoul\<close>, which strips another: a doubled minus sign
  before any positive number below \<open>2 ^ 63\<close> yields the smallest \<open>long\<close>, where the C standard requires
  that nothing is converted.
\<close>

theorem strtol_double_minus:
  assumes "cstr m (a + 2) (map digit_byte ds)" and "\<forall>d \<in> set ds. d < 10" and "m a = 45" and "m (a + 1) = 45"
    and "0 < horner 10 0 ds" and "horner 10 0 ds < 2 ^ 63"
  shows "strtol a 10 m = Some (- (2 ^ 63), a + 2 + word_of_nat (length ds))"
proof -
  have sp: "\<not> isspace (sint (45 :: u8))" by (simp add: isspace_def)
  then have skip: "skip_space a m = Some a" "skip_space (a + 1) m = Some (a + 1)"
    using assms(3,4) by (simp_all add: skip_space.simps)
  obtain x' ovf' where l: "strtoul_loop 10 (a + 2) 0 False m = Some (a + 2 + word_of_nat (length ds), x', ovf')"
    "ovf' \<longleftrightarrow> 2 ^ 64 \<le> horner 10 0 ds" "\<not> ovf' \<Longrightarrow> unat x' = horner 10 0 ds"
    using strtoul_loop_digits [of 10 ds m "a + 2" 0 False] assms(1,2) by auto
  then have x': "\<not> ovf'" "0 < unat x'" "unat x' < 2 ^ 63" using assms(5,6) by auto
  then have "unat (- x') = 2 ^ 64 - unat x'" using unat_diff_wrap [of 0 x'] by simp
  then have "unat (push_bit 63 1 :: u64) < unat (- x')" using x' by simp
  then have big: "(push_bit 63 1 :: u64) < - x'" by (simp only: word_less_nat_alt)
  have "strtoul (a + 1) 10 m = Some (- x', a + 2 + word_of_nat (length ds))"
    using l x' skip(2) assms(4) by (simp add: strtoul_def Let_def add.assoc)
  moreover have "sint (- push_bit 63 1 :: u64) = - (2 ^ 63)" by simp
  ultimately show ?thesis using skip(1) assms(3) big by (simp add: strtol_def Let_def)
qed

theorem strtol_double_minus_witness:
  "strtol 100 10 (\<lambda>a. if a = 100 \<or> a = 101 then 0x2D else if a = 102 then 0x35 else 0) = Some (- (2 ^ 63), 103)"
  using strtol_double_minus [of "\<lambda>a. if a = 100 \<or> a = 101 then 0x2D else if a = 102 then 0x35 else 0" 100 "[5]"]
  by (simp add: digit_byte_def)

end
