(* ===== verification/Printf.thy ===== *)
theory Printf
  imports CString
begin

unbundle bit_operations_syntax

text \<open>
  The formatted printing of \<open>weensyos/lib.cc\<close>: \<open>fill_numbuf\<close>, the printer-independent \<open>vprintf\<close>, the string
  printer behind \<open>vsnprintf\<close>, and \<open>snprintf\<close>. A printer is its \<open>putc\<close>, a function on its state; formats are
  byte lists without their terminator; arguments are a list of tagged values. Undefined behaviour (a
  missing argument or one of another type, overflow of a width or precision, negating the smallest
  \<open>long\<close>, writing outside the number buffer, a string too long for an \<open>int\<close>) has no result.
\<close>

section \<open>Numbers\<close>

definition NUMBUFSIZ :: nat where
  "NUMBUFSIZ = 24"

definition upper_digits :: "u8 list" where
  "upper_digits = [48, 49, 50, 51, 52, 53, 54, 55, 56, 57, 65, 66, 67, 68, 69, 70]"

definition lower_digits :: "u8 list" where
  "lower_digits = [48, 49, 50, 51, 52, 53, 54, 55, 56, 57, 97, 98, 99, 100, 101, 102]"

fun fill_loop :: "u8 list \<Rightarrow> nat \<Rightarrow> nat \<Rightarrow> nat \<Rightarrow> u8 list \<Rightarrow> (nat \<times> u8 list) option" where
  "fill_loop digits base 0 v buf = None"
| "fill_loop digits base (Suc e) v buf =
     (let buf = buf[e := digits ! (v mod base)]; v = v div base
      in if v \<noteq> 0 then fill_loop digits base e v buf else Some (e, buf))"

text \<open>\<open>buf\<close> is the buffer, \<open>e\<close> the index of \<open>numbuf_end\<close> in it.\<close>

definition fill_numbuf :: "nat \<Rightarrow> u64 \<Rightarrow> int \<Rightarrow> u8 list \<Rightarrow> (nat \<times> u8 list) option" where
  "fill_numbuf e v base buf =
     (let digits = (if base < 0 then lower_digits else upper_digits); base = nat \<bar>base\<bar>
      in if e = 0 then None else fill_loop digits base (e - 1) (unat v) (buf[e - 1 := 0]))"

section \<open>Directives\<close>

datatype va_arg = AInt u32 | ALong u64 | APtr u64 | AStr "u8 list"

definition FLAG_ALT :: u32 where "FLAG_ALT = push_bit 0 1"
definition FLAG_ZERO :: u32 where "FLAG_ZERO = push_bit 1 1"
definition FLAG_LEFTJUSTIFY :: u32 where "FLAG_LEFTJUSTIFY = push_bit 2 1"
definition FLAG_SPACEPOSITIVE :: u32 where "FLAG_SPACEPOSITIVE = push_bit 3 1"
definition FLAG_PLUSPOSITIVE :: u32 where "FLAG_PLUSPOSITIVE = push_bit 4 1"
definition FLAG_NUMERIC :: u32 where "FLAG_NUMERIC = push_bit 5 1"
definition FLAG_SIGNED :: u32 where "FLAG_SIGNED = push_bit 6 1"
definition FLAG_NEGATIVE :: u32 where "FLAG_NEGATIVE = push_bit 7 1"
definition FLAG_ALT2 :: u32 where "FLAG_ALT2 = push_bit 8 1"

lemmas flag_defs = FLAG_ALT_def FLAG_ZERO_def FLAG_LEFTJUSTIFY_def FLAG_SPACEPOSITIVE_def FLAG_PLUSPOSITIVE_def
  FLAG_NUMERIC_def FLAG_SIGNED_def FLAG_NEGATIVE_def FLAG_ALT2_def

text \<open>\<open>"#0- +"\<close>\<close>

definition flag_chars :: "u8 list" where
  "flag_chars = [35, 48, 45, 32, 43]"

fun index_of :: "u8 \<Rightarrow> u8 list \<Rightarrow> nat option" where
  "index_of c [] = None"
| "index_of c (x # xs) = (if x = c then Some 0 else map_option Suc (index_of c xs))"

fun parse_flags :: "u32 \<Rightarrow> u8 list \<Rightarrow> u32 \<times> u8 list" where
  "parse_flags flags [] = (flags, [])"
| "parse_flags flags (c # fs) =
     (case index_of c flag_chars of
        Some i \<Rightarrow> parse_flags (flags OR push_bit i 1) fs
      | None \<Rightarrow> (flags, c # fs))"

abbreviation is_digit_char :: "u8 \<Rightarrow> bool" where
  "is_digit_char c \<equiv> 48 \<le> c \<and> c \<le> 57"

fun parse_number :: "int \<Rightarrow> u8 list \<Rightarrow> (int \<times> u8 list) option" where
  "parse_number n [] = Some (n, [])"
| "parse_number n (c # fs) =
     (if is_digit_char c then
        if 10 * n + uint c > INT_MAX then None else parse_number (10 * n + uint c - 48) fs
      else Some (n, c # fs))"

fun int_arg :: "va_arg list \<Rightarrow> (int \<times> va_arg list) option" where
  "int_arg (AInt w # args) = Some (sint w, args)"
| "int_arg _ = None"

definition parse_width :: "u8 list \<Rightarrow> va_arg list \<Rightarrow> (int \<times> u8 list \<times> va_arg list) option" where
  "parse_width fs args =
     (case fs of
        [] \<Rightarrow> Some (- 1, fs, args)
      | c # fs' \<Rightarrow>
          if 49 \<le> c \<and> c \<le> 57 then map_option (\<lambda>(w, fs). (w, fs, args)) (parse_number 0 fs)
          else if c = 42 then map_option (\<lambda>(w, args). (w, fs', args)) (int_arg args)
          else Some (- 1, fs, args))"

definition parse_precision :: "u8 list \<Rightarrow> va_arg list \<Rightarrow> (int \<times> u8 list \<times> va_arg list) option" where
  "parse_precision fs args =
     (case fs of
        [] \<Rightarrow> Some (- 1, fs, args)
      | c # fs \<Rightarrow>
          if c = 46 then
            map_option (\<lambda>(p, rest). (if p < 0 then 0 else p, rest))
              (case fs of
                 [] \<Rightarrow> Some (- 1, fs, args)
               | d # fs' \<Rightarrow>
                   if is_digit_char d then map_option (\<lambda>(p, fs). (p, fs, args)) (parse_number 0 fs)
                   else if d = 42 then map_option (\<lambda>(p, args). (p, fs', args)) (int_arg args)
                   else Some (- 1, fs, args))
          else Some (- 1, c # fs, args))"

definition parse_length :: "u8 list \<Rightarrow> bool \<times> u8 list" where
  "parse_length fs =
     (case fs of
        [] \<Rightarrow> (False, fs)
      | c # fs' \<Rightarrow>
          if c = 108 \<or> c = 116 \<or> c = 122 then (True, fs') else if c = 104 then (False, fs') else (False, fs))"

text \<open>What the conversion character yields: a number, text, or a new colour.\<close>

datatype conversion = CNum int u64 u32 | CText "u8 list" | CColor int

fun signed_arg :: "bool \<Rightarrow> va_arg list \<Rightarrow> (int \<times> va_arg list) option" where
  "signed_arg True (ALong w # args) = Some (sint w, args)"
| "signed_arg False (AInt w # args) = Some (sint w, args)"
| "signed_arg _ _ = None"

fun unsigned_arg :: "bool \<Rightarrow> va_arg list \<Rightarrow> (u64 \<times> va_arg list) option" where
  "unsigned_arg True (ALong w # args) = Some (w, args)"
| "unsigned_arg False (AInt w # args) = Some (ucast w, args)"
| "unsigned_arg _ _ = None"

definition convert :: "bool \<Rightarrow> u32 \<Rightarrow> u8 list \<Rightarrow> va_arg list \<Rightarrow> (conversion \<times> u8 list \<times> va_arg list) option" where
  "convert len flags fs args =
     (case fs of
        [] \<Rightarrow> Some (CText [37], [], args)
      | c # fs \<Rightarrow>
          if c = 100 \<or> c = 105 then
            (case signed_arg len args of
               None \<Rightarrow> None
             | Some (x, args) \<Rightarrow>
                 if x = - (2 ^ 63) then None
                 else Some (CNum 10 (word_of_int \<bar>x\<bar>)
                        (flags OR FLAG_NUMERIC OR FLAG_SIGNED OR (if x < 0 then FLAG_NEGATIVE else 0)), fs, args))
          else if c = 117 \<or> c = 120 \<or> c = 88 then
            map_option (\<lambda>(w, args). (CNum (if c = 117 then 10 else if c = 120 then - 16 else 16) w (flags OR FLAG_NUMERIC), fs, args))
              (unsigned_arg len args)
          else if c = 112 then
            (case args of
               APtr w # args \<Rightarrow> Some (CNum (- 16) w (flags OR FLAG_ALT OR FLAG_ALT2 OR FLAG_NUMERIC), fs, args)
             | _ \<Rightarrow> None)
          else if c = 115 then
            (case args of AStr xs # args \<Rightarrow> Some (CText (takeWhile (\<lambda>x. x \<noteq> 0) xs), fs, args) | _ \<Rightarrow> None)
          else if c = 67 then map_option (\<lambda>(col, args). (CColor col, fs, args)) (int_arg args)
          else if c = 99 then
            map_option (\<lambda>(x, args). (CText (takeWhile (\<lambda>x. x \<noteq> 0) [word_of_int x]), fs, args)) (int_arg args)
          else Some (CText [c], fs, args))"

definition prefix_of :: "u32 \<Rightarrow> int \<Rightarrow> u64 \<Rightarrow> u8 list" where
  "prefix_of flags base num =
     (if flags AND FLAG_NUMERIC \<noteq> 0 \<and> flags AND FLAG_SIGNED \<noteq> 0 then
        if flags AND FLAG_NEGATIVE \<noteq> 0 then [45]
        else if flags AND FLAG_PLUSPOSITIVE \<noteq> 0 then [43]
        else if flags AND FLAG_SPACEPOSITIVE \<noteq> 0 then [32] else []
      else if flags AND FLAG_NUMERIC \<noteq> 0 \<and> flags AND FLAG_ALT \<noteq> 0 \<and> (base = 16 \<or> base = - 16) \<and>
              (num \<noteq> 0 \<or> flags AND FLAG_ALT2 \<noteq> 0) then
        if base = - 16 then [48, 120] else [48, 88]
      else [])"

definition zeros_of :: "u32 \<Rightarrow> int \<Rightarrow> int \<Rightarrow> int \<Rightarrow> int \<Rightarrow> int" where
  "zeros_of flags width precision datalen prefixlen =
     (if flags AND FLAG_NUMERIC \<noteq> 0 \<and> precision \<ge> 0 then if precision > datalen then precision - datalen else 0
      else if flags AND FLAG_NUMERIC \<noteq> 0 \<and> flags AND FLAG_ZERO \<noteq> 0 \<and> flags AND FLAG_LEFTJUSTIFY = 0 \<and>
              datalen + prefixlen < width then width - datalen - prefixlen
      else 0)"

text \<open>Padding: \<open>width\<close> loses the printed length, in 32 bits, and what remains is padded left or right.\<close>

definition layout :: "u32 \<Rightarrow> int \<Rightarrow> int \<Rightarrow> u8 list \<Rightarrow> u8 list \<Rightarrow> u8 list" where
  "layout flags width precision pre body =
     (let datalen = (if precision \<ge> 0 \<and> flags AND FLAG_NUMERIC = 0 then min (int (length body)) precision else int (length body));
          zeros = zeros_of flags width precision datalen (int (length pre));
          width = sint (word_of_int (width - (datalen + zeros + int (length pre))) :: u32);
          pad = replicate (nat width) 32;
          left = (flags AND FLAG_LEFTJUSTIFY \<noteq> 0)
      in (if left then [] else pad) @ pre @ replicate (nat zeros) 48 @ take (nat datalen) body @ (if left then pad else []))"

text \<open>
  One directive after its percent sign: the bytes to print, the colour to print them in (and from
  then on), the rest of the format and of the arguments.
\<close>

definition directive :: "int \<Rightarrow> u8 list \<Rightarrow> va_arg list \<Rightarrow> (u8 list \<times> int \<times> u8 list \<times> va_arg list) option" where
  "directive color fs args =
     (let (flags, fs) = parse_flags 0 fs
      in case parse_width fs args of None \<Rightarrow> None
      | Some (width, fs, args) \<Rightarrow>
        (case parse_precision fs args of None \<Rightarrow> None
         | Some (precision, fs, args) \<Rightarrow>
             let (len, fs) = parse_length fs
             in case convert len flags fs args of
                  None \<Rightarrow> None
                | Some (CColor col, fs, args) \<Rightarrow> Some ([], col, fs, args)
                | Some (CText body, fs, args) \<Rightarrow>
                    if int (length body) > INT_MAX then None
                    else Some (layout flags width precision (prefix_of flags 10 0) body, color, fs, args)
                | Some (CNum base num flags, fs, args) \<Rightarrow>
                    (case fill_numbuf NUMBUFSIZ num base (replicate NUMBUFSIZ 0) of
                       None \<Rightarrow> None
                     | Some (p, buf) \<Rightarrow>
                         Some (layout flags width precision (prefix_of flags base num)
                                 (takeWhile (\<lambda>x. x \<noteq> 0) (drop p buf)), color, fs, args))))"

section \<open>Printing\<close>

definition put_all :: "(u8 \<Rightarrow> int \<Rightarrow> 's \<Rightarrow> 's) \<Rightarrow> int \<Rightarrow> u8 list \<Rightarrow> 's \<Rightarrow> 's" where
  "put_all putc color cs s = fold (\<lambda>c. putc c color) cs s"

lemma parse_flags_shorter: "length (snd (parse_flags f fs)) \<le> length fs"
  by (induction f fs rule: parse_flags.induct) (auto split: option.splits)

lemma parse_number_shorter: "parse_number n fs = Some (v, fs') \<Longrightarrow> length fs' \<le> length fs"
  by (induction n fs rule: parse_number.induct) (auto split: if_splits)

lemma parse_width_shorter: "parse_width fs args = Some (w, fs', args') \<Longrightarrow> length fs' \<le> length fs"
  by (auto simp: parse_width_def dest!: parse_number_shorter split: list.splits if_splits)

lemma parse_precision_shorter: "parse_precision fs args = Some (p, fs', args') \<Longrightarrow> length fs' \<le> length fs"
  by (auto simp: parse_precision_def dest!: parse_number_shorter split: list.splits if_splits)

lemma parse_length_shorter: "length (snd (parse_length fs)) \<le> length fs"
  by (auto simp: parse_length_def split: list.splits)

lemma convert_shorter: "convert len flags fs args = Some (cv, fs', args') \<Longrightarrow> length fs' \<le> length fs"
  by (auto simp: convert_def split: list.splits if_splits option.splits va_arg.splits)

lemma directive_shorter:
  assumes "directive color fs args = Some (out, col, rest, args')"
  shows "length rest \<le> length fs"
proof -
  obtain f fs1 where 1: "parse_flags 0 fs = (f, fs1)" by fastforce
  obtain w fs2 a2 where 2: "parse_width fs1 args = Some (w, fs2, a2)"
    using assms 1 by (auto simp: directive_def split: option.splits)
  obtain p fs3 a3 where 3: "parse_precision fs2 a2 = Some (p, fs3, a3)"
    using assms 1 2 by (auto simp: directive_def split: option.splits)
  obtain l fs4 where 4: "parse_length fs3 = (l, fs4)" by fastforce
  obtain cv a5 where 5: "convert l f fs4 a3 = Some (cv, rest, a5)"
    using assms 1 2 3 4 by (auto simp: directive_def split: option.splits conversion.splits if_splits)
  show ?thesis
    using parse_flags_shorter [of 0 fs] parse_width_shorter [OF 2] parse_precision_shorter [OF 3]
      parse_length_shorter [of fs3] convert_shorter [OF 5] 1 4 by simp
qed

function vprintf :: "(u8 \<Rightarrow> int \<Rightarrow> 's \<Rightarrow> 's) \<Rightarrow> int \<Rightarrow> u8 list \<Rightarrow> va_arg list \<Rightarrow> 's \<Rightarrow> 's option" where
  "vprintf putc color [] args s = Some s"
| "vprintf putc color (c # fs) args s =
     (if c \<noteq> 37 then vprintf putc color fs args (putc c color s)
      else case directive color fs args of
             None \<Rightarrow> None
           | Some (out, color', rest, args') \<Rightarrow> vprintf putc color' rest args' (put_all putc color' out s))"
  by pat_completeness auto

termination
  by (relation "measure (\<lambda>(_, _, fs, _, _). length fs)") (auto dest: directive_shorter)

text \<open>The string printer: where to write next, the end of the buffer, the number of characters put.\<close>

record string_printer =
  sp_s :: u64
  sp_end :: u64
  sp_n :: u64
  sp_mem :: memory

definition string_putc :: "u8 \<Rightarrow> int \<Rightarrow> string_printer \<Rightarrow> string_printer" where
  "string_putc c color sp =
     (let sp = (if sp_s sp < sp_end sp then sp\<lparr>sp_mem := (sp_mem sp)(sp_s sp := c), sp_s := sp_s sp + 1\<rparr> else sp)
      in sp\<lparr>sp_n := sp_n sp + 1\<rparr>)"

definition vsnprintf :: "u64 \<Rightarrow> u64 \<Rightarrow> u8 list \<Rightarrow> va_arg list \<Rightarrow> memory \<Rightarrow> (int \<times> memory) option" where
  "vsnprintf s sz fmt args m =
     (case vprintf string_putc 0 fmt args \<lparr>sp_s = s, sp_end = s + sz, sp_n = 0, sp_mem = m\<rparr> of
        None \<Rightarrow> None
      | Some sp \<Rightarrow>
          let m' = (if sz \<noteq> 0 \<and> sp_s sp < sp_end sp then (sp_mem sp)(sp_s sp := 0)
                    else if sz \<noteq> 0 then (sp_mem sp)(sp_end sp - 1 := 0)
                    else sp_mem sp)
          in Some (sint (sp_n sp), m'))"

text \<open>\<open>snprintf\<close> passes the count through an \<open>int\<close>.\<close>

definition snprintf :: "u64 \<Rightarrow> u64 \<Rightarrow> u8 list \<Rightarrow> va_arg list \<Rightarrow> memory \<Rightarrow> (int \<times> memory) option" where
  "snprintf s sz fmt args m =
     map_option (\<lambda>(n, m'). (sint (word_of_int n :: u32), m')) (vsnprintf s sz fmt args m)"

section \<open>Printers\<close>

text \<open>The output a format denotes, as characters with their colours, independently of any printer.\<close>

function formatted :: "int \<Rightarrow> u8 list \<Rightarrow> va_arg list \<Rightarrow> (u8 \<times> int) list option" where
  "formatted color [] args = Some []"
| "formatted color (c # fs) args =
     (if c \<noteq> 37 then map_option (Cons (c, color)) (formatted color fs args)
      else case directive color fs args of
             None \<Rightarrow> None
           | Some (out, color', rest, args') \<Rightarrow>
               map_option (append (map (\<lambda>c. (c, color')) out)) (formatted color' rest args'))"
  by pat_completeness auto

termination
  by (relation "measure (\<lambda>(_, fs, _). length fs)") (auto dest: directive_shorter)

definition put_log :: "(u8 \<Rightarrow> int \<Rightarrow> 's \<Rightarrow> 's) \<Rightarrow> (u8 \<times> int) list \<Rightarrow> 's \<Rightarrow> 's" where
  "put_log putc out s = fold (\<lambda>(c, color). putc c color) out s"

lemma put_log_simps [simp]:
  "put_log putc [] s = s" "put_log putc ((c, color) # out) s = put_log putc out (putc c color s)"
  "put_log putc (xs @ ys) s = put_log putc ys (put_log putc xs s)"
  "put_log putc (map (\<lambda>c. (c, color)) cs) s = put_all putc color cs s"
  by (simp_all add: put_log_def put_all_def fold_map comp_def)

text \<open>
  Printing is independent of the printer: for every \<open>putc\<close>, \<open>vprintf\<close> terminates and either has undefined behaviour for all
  printers or puts exactly the characters and colours the format denotes, in order.
\<close>

lemma vprintf_eq: "vprintf putc color fmt args s = map_option (\<lambda>out. put_log putc out s) (formatted color fmt args)"
proof (induction color fmt args arbitrary: s rule: formatted.induct)
  case (2 color c fs args)
  then show ?case
    by (cases "c = 37") (auto simp: option.map_comp comp_def split: option.splits prod.splits)
qed simp

locale printer =
  fixes putc :: "u8 \<Rightarrow> int \<Rightarrow> 's \<Rightarrow> 's" and invar :: "'s \<Rightarrow> bool"
  assumes putc_invar: "invar s \<Longrightarrow> invar (putc c color s)"
begin

lemma put_log_invar: "invar s \<Longrightarrow> invar (put_log putc out s)"
  by (induction out arbitrary: s) (auto simp: putc_invar)

lemma vprintf_invar: "vprintf putc color fmt args s = Some s' \<Longrightarrow> invar s \<Longrightarrow> invar s'"
  by (auto simp: vprintf_eq put_log_invar)

end


text \<open>The string printer only ever writes inside its buffer \<open>[base, e)\<close>.\<close>

definition string_invar :: "u64 \<Rightarrow> u64 \<Rightarrow> memory \<Rightarrow> string_printer \<Rightarrow> bool" where
  "string_invar base e m sp =
     (sp_end sp = e \<and> base \<le> sp_s sp \<and> sp_s sp \<le> e \<and> (\<forall>a. a < base \<or> e \<le> a \<longrightarrow> sp_mem sp a = m a))"

lemma word_Suc_le: "(x :: u64) < y \<Longrightarrow> unat (x + 1) = Suc (unat x)"
  using unat_lt_64 [of y] by (simp add: word_less_nat_alt unat_add_64)

interpretation string: printer string_putc "string_invar base e m" for base e m
proof
  fix sp c color
  assume inv: "string_invar base e m sp"
  show "string_invar base e m (string_putc c color sp)"
  proof (cases "sp_s sp < sp_end sp")
    case True
    with inv word_Suc_le [OF True] show ?thesis
      by (auto simp: string_invar_def string_putc_def word_less_nat_alt word_le_nat_alt)
  next
    case False
    with inv show ?thesis by (auto simp: string_invar_def string_putc_def)
  qed
qed

lemma string_put_log:
  assumes "sp_s sp \<le> sp_end sp"
  shows "put_log string_putc out sp =
    (let k = min (length out) (unat (sp_end sp - sp_s sp))
     in sp\<lparr>sp_s := sp_s sp + word_of_nat k, sp_n := sp_n sp + word_of_nat (length out),
          sp_mem := (\<lambda>a. if unat (a - sp_s sp) < k then fst (out ! unat (a - sp_s sp)) else sp_mem sp a)\<rparr>)"
  using assms
proof (induction out arbitrary: sp)
  case Nil
  then show ?case by simp
next
  case (Cons x out)
  obtain c col where x: "x = (c, col)" by fastforce
  show ?case
  proof (cases "sp_s sp < sp_end sp")
    case True
    let ?sp = "string_putc c col sp"
    have le: "sp_s ?sp \<le> sp_end ?sp" using True word_Suc_le [OF True]
      by (simp add: string_putc_def word_le_nat_alt word_less_nat_alt)
    have gap: "unat (sp_end sp - sp_s sp) = Suc (unat (sp_end sp - (sp_s sp + 1)))"
      using True unat_step [of "sp_end sp - sp_s sp"] by (auto simp: algebra_simps)
    have addr: "unat (a - sp_s sp) = (if a = sp_s sp then 0 else Suc (unat (a - (sp_s sp + 1))))" for a
      using unat_step [of "a - sp_s sp"] by (auto simp: algebra_simps)
    define k where "k = min (length out) (unat (sp_end sp - (sp_s sp + 1)))"
    have "unat (- 1 :: u64) = 2 ^ 64 - 1" by (simp add: unsigned_minus_1_eq_mask mask_eq_exp_minus_1)
    moreover have "k < 2 ^ 64 - 1" using gap unat_lt_64 [of "sp_end sp - sp_s sp"] by (simp add: k_def min_def)
    ultimately have first: "\<not> unat (sp_s sp - (sp_s sp + 1)) < k" by simp
    have k: "min (length (x # out)) (unat (sp_end sp - sp_s sp)) = Suc k" using gap by (simp add: k_def)
    have sp: "?sp = sp\<lparr>sp_mem := (sp_mem sp)(sp_s sp := c), sp_s := sp_s sp + 1, sp_n := sp_n sp + 1\<rparr>"
      using True by (simp add: string_putc_def)
    have mem: "(\<lambda>a. if unat (a - (sp_s sp + 1)) < k then fst (out ! unat (a - (sp_s sp + 1))) else ((sp_mem sp)(sp_s sp := c)) a) =
      (\<lambda>a. if unat (a - sp_s sp) < Suc k then fst ((x # out) ! unat (a - sp_s sp)) else sp_mem sp a)" (is "?l = ?r")
    proof (rule ext)
      fix a show "?l a = ?r a" using first x by (cases "a = sp_s sp") (simp_all add: addr)
    qed
    have "put_log string_putc (x # out) sp = put_log string_putc out ?sp" using x by simp
    also have "\<dots> = sp\<lparr>sp_s := sp_s sp + word_of_nat (Suc k), sp_n := sp_n sp + word_of_nat (length (x # out)), sp_mem := ?l\<rparr>"
      using Cons.IH [OF le] unfolding sp by (simp add: Let_def k_def [symmetric] add.assoc cong: if_cong)
    finally show ?thesis unfolding k mem Let_def .
  next
    case False
    let ?sp = "string_putc c col sp"
    have "sp_s ?sp \<le> sp_end ?sp" using Cons.prems by (simp add: string_putc_def False)
    from Cons.IH [OF this] Cons.prems False x show ?thesis by (simp add: string_putc_def Let_def)
  qed
qed


lemma vsnprintf_result:
  assumes fmt: "formatted 0 fmt args = Some out" and sz: "sz \<noteq> 0" and wrap: "unat s + unat sz < 2 ^ 64"
  shows "\<exists>m'. vsnprintf s sz fmt args m = Some (sint (word_of_nat (length out) :: u64), m') \<and>
    (let k = min (length out) (unat sz - 1)
     in (\<forall>i < k. m' (s + word_of_nat i) = fst (out ! i)) \<and> m' (s + word_of_nat k) = 0) \<and>
    (\<forall>a. unat sz \<le> unat (a - s) \<longrightarrow> m' a = m a)"
proof -
  let ?sp0 = "\<lparr>sp_s = s, sp_end = s + sz, sp_n = 0, sp_mem = m\<rparr>"
  let ?k = "min (length out) (unat sz)"
  have usz: "unat sz < 2 ^ 64" using unat_lt_64 [of sz] by simp
  have pos: "0 < unat sz" using sz by (simp add: unat_gt_0)
  have le: "sp_s ?sp0 \<le> sp_end ?sp0" using wrap by (simp add: word_le_nat_alt unat_add_64)
  define mem where "mem = (\<lambda>a. if unat (a - s) < ?k then fst (out ! unat (a - s)) else m a)"
  have sp: "vprintf string_putc 0 fmt args ?sp0 =
      Some \<lparr>sp_s = s + word_of_nat ?k, sp_end = s + sz, sp_n = word_of_nat (length out), sp_mem = mem\<rparr>"
    using string_put_log [OF le, of out] by (simp add: vprintf_eq fmt mem_def Let_def cong: if_cong)
  have uk: "unat (word_of_nat ?k :: u64) = ?k" using usz by (intro unat_of_nat_small) (simp add: min_def)
  have full: "s + word_of_nat ?k < s + sz \<longleftrightarrow> length out < unat sz"
    using wrap uk by (auto simp: word_less_nat_alt unat_add_64)
  define m' where "m' = (if length out < unat sz then mem(s + word_of_nat (length out) := 0) else mem(s + sz - 1 := 0))"
  have "vsnprintf s sz fmt args m = Some (sint (word_of_nat (length out) :: u64), m')"
    using sz full by (auto simp: vsnprintf_def sp m'_def Let_def min_absorb1)
  moreover have idx: "unat (word_of_nat i :: u64) = i" if "i \<le> unat sz" for i using that usz by (intro unat_of_nat_small) simp
  have end1: "s + sz - 1 = s + word_of_nat (unat sz - 1)" using pos by (simp add: of_nat_diff)
  have diff: "s + word_of_nat i = s + word_of_nat j \<longleftrightarrow> i = j" if "i \<le> unat sz" "j \<le> unat sz" for i j
    using idx [OF that(1)] idx [OF that(2)] by (metis add_left_cancel)
  have "(let k = min (length out) (unat sz - 1)
     in (\<forall>i < k. m' (s + word_of_nat i) = fst (out ! i)) \<and> m' (s + word_of_nat k) = 0)"
  proof (cases "length out < unat sz")
    case True
    then show ?thesis using diff idx by (auto simp: m'_def mem_def Let_def min_def)
  next
    case False
    have "word_of_nat i \<noteq> sz - 1" if "i < unat sz - Suc 0" for i
      using that idx [OF less_imp_le [OF less_le_trans [OF that diff_le_self]]] unat_minus_one [OF sz] by auto
    with False show ?thesis using diff idx pos by (auto simp: m'_def mem_def Let_def min_def end1)
  qed
  moreover have "m' a = m a" if a: "unat sz \<le> unat (a - s)" for a
  proof -
    have "a \<noteq> s + word_of_nat i" if "i < unat sz" for i using a that idx [of i] by auto
    moreover from this [of "unat sz - 1"] have "a \<noteq> s + sz - 1" unfolding end1 using pos by simp
    ultimately show ?thesis using a by (auto simp: m'_def mem_def min_def)
  qed
  ultimately show ?thesis by blast
qed

text \<open>
  C35. \<open>vsnprintf\<close> never leaves its buffer and always terminates it: for a buffer of \<open>sz > 0\<close> bytes it
  stores the longest prefix of the output that leaves room for a NUL, followed by the NUL; all bytes
  outside the buffer keep their value; and it returns the length the whole output would have had.
\<close>

theorem vsnprintf_spec:
  assumes fmt: "formatted 0 fmt args = Some out" and sz: "sz \<noteq> 0" and wrap: "unat s + unat sz < 2 ^ 64"
  shows "\<exists>m'. vsnprintf s sz fmt args m = Some (sint (word_of_nat (length out) :: u64), m') \<and>
    (let k = min (length out) (unat sz - 1)
     in (\<forall>i < k. m' (s + word_of_nat i) = fst (out ! i)) \<and> m' (s + word_of_nat k) = 0) \<and>
    (\<forall>a. unat sz \<le> unat (a - s) \<longrightarrow> m' a = m a)"
  by (rule vsnprintf_result [OF assms])

theorem vsnprintf_spec_witness:
  "\<exists>m'. vsnprintf 1000 3 [104, 101, 108, 108, 111] [] (\<lambda>_. 7) = Some (5, m') \<and> m' 1000 = 104 \<and> m' 1001 = 101 \<and> m' 1002 = 0 \<and> m' 1003 = 7"
proof -
  have "formatted 0 [104, 101, 108, 108, 111] [] = Some [(104, 0), (101, 0), (108, 0), (108, 0), (111, 0)]" by simp
  from vsnprintf_spec [OF this, of 3 1000 "\<lambda>_. 7"] obtain m' where
    m': "vsnprintf 1000 3 [104, 101, 108, 108, 111] [] (\<lambda>_. 7) = Some (5, m')"
      "\<forall>i < (2::nat). m' (1000 + word_of_nat i) = fst ([(104, 0 :: int), (101, 0), (108, 0), (108, 0), (111, 0)] ! i)"
      "m' 1002 = 0" "\<forall>a. 3 \<le> unat (a - 1000) \<longrightarrow> m' a = 7" by (auto simp: Let_def)
  from m'(2) have "m' 1000 = 104" "m' 1001 = 101" by (auto dest: spec [of _ 0] spec [of _ 1])
  with m' show ?thesis by auto
qed

section \<open>Numbers in full\<close>

text \<open>The digits of \<open>v\<close>, most significant first.\<close>

function digit_list :: "nat \<Rightarrow> nat \<Rightarrow> nat list" where
  "digit_list base v = (if base < 2 \<or> v < base then [v mod base] else digit_list base (v div base) @ [v mod base])"
  by pat_completeness auto

termination
  by (relation "measure snd") auto

declare digit_list.simps [simp del]

lemma digit_list_less: "2 \<le> base \<Longrightarrow> \<forall>d \<in> set (digit_list base v). d < base"
  by (induction base v rule: digit_list.induct) (subst digit_list.simps, auto)

lemma horner_append: "horner base v (xs @ ys) = horner base (horner base v xs) ys"
  by (simp add: horner_def)

lemma horner_digit_list: "2 \<le> base \<Longrightarrow> horner base 0 (digit_list base v) = v"
proof (induction base v rule: digit_list.induct)
  case (1 base v)
  then show ?case by (subst digit_list.simps) (auto simp: horner_append div_mult_mod_eq)
qed

lemma length_digit_list: "2 \<le> base \<Longrightarrow> v < base ^ Suc k \<Longrightarrow> length (digit_list base v) \<le> Suc k"
proof (induction k arbitrary: v)
  case 0
  then show ?case by (subst digit_list.simps) simp
next
  case (Suc k)
  have "v div base < base ^ Suc k" using Suc.prems by (intro less_mult_imp_div_less) (simp add: mult.commute)
  with Suc.IH [of "v div base"] Suc.prems show ?case by (subst digit_list.simps) simp
qed

lemma fill_loop_digits:
  assumes "2 \<le> base" and "length (digit_list base v) \<le> e" and "e \<le> length buf"
  shows "\<exists>buf'. fill_loop digits base e v buf = Some (e - length (digit_list base v), buf') \<and>
    drop (e - length (digit_list base v)) buf' = map (nth digits) (digit_list base v) @ drop e buf"
  using assms
proof (induction digits base e v buf rule: fill_loop.induct)
  case (1 digits base v buf)
  have "digit_list base v \<noteq> []" by (subst digit_list.simps) simp
  with 1 show ?case by simp
next
  case (2 digits base e v buf)
  let ?buf = "buf[e := digits ! (v mod base)]"
  have last: "drop e ?buf = digits ! (v mod base) # drop (Suc e) buf"
    using "2.prems"(3) by (metis Cons_nth_drop_Suc Suc_le_eq drop_update_cancel length_list_update lessI nth_list_update_eq)
  show ?case
  proof (cases "v div base = 0")
    case True
    then have dl: "digit_list base v = [v mod base]" using "2.prems"(1) by (subst digit_list.simps) (auto simp: div_eq_0_iff)
    with True last show ?thesis by (simp add: Let_def)
  next
    case False
    then have dl: "digit_list base v = digit_list base (v div base) @ [v mod base]"
      using "2.prems"(1) by (subst digit_list.simps) (auto simp: div_eq_0_iff)
    from "2.IH" [OF refl refl False] "2.prems" dl obtain buf' where
      b: "fill_loop digits base e (v div base) ?buf = Some (e - length (digit_list base (v div base)), buf')"
        "drop (e - length (digit_list base (v div base))) buf' = map (nth digits) (digit_list base (v div base)) @ drop e ?buf"
      by auto
    with False last dl show ?thesis by (simp add: Let_def)
  qed
qed

lemma numbuf_capacity: "(2::nat) ^ 64 \<le> 10 ^ 20" "(2::nat) ^ 64 \<le> 16 ^ 20"
  by simp_all

lemma digits_nonzero: "d < 16 \<Longrightarrow> upper_digits ! d \<noteq> 0" "d < 16 \<Longrightarrow> lower_digits ! d \<noteq> 0"
proof -
  have "\<forall>x \<in> set upper_digits. x \<noteq> 0" "\<forall>x \<in> set lower_digits. x \<noteq> 0"
    "length upper_digits = 16" "length lower_digits = 16" by (simp_all add: upper_digits_def lower_digits_def)
  then show "d < 16 \<Longrightarrow> upper_digits ! d \<noteq> 0" "d < 16 \<Longrightarrow> lower_digits ! d \<noteq> 0" by (metis nth_mem)+
qed

lemma fill_numbuf_digits:
  assumes "base = 10 \<or> base = 16 \<or> base = - 16"
  shows "\<exists>p buf. fill_numbuf NUMBUFSIZ v base (replicate NUMBUFSIZ 0) = Some (p, buf) \<and>
    takeWhile (\<lambda>x. x \<noteq> 0) (drop p buf) =
      map (nth (if base < 0 then lower_digits else upper_digits)) (digit_list (nat \<bar>base\<bar>) (unat v)) \<and>
    length (digit_list (nat \<bar>base\<bar>) (unat v)) \<le> 20"
proof -
  let ?b = "nat \<bar>base\<bar>" and ?ds = "digit_list (nat \<bar>base\<bar>) (unat v)"
  let ?digits = "if base < 0 then lower_digits else upper_digits"
  have b: "2 \<le> ?b" "?b \<le> 16" using assms by auto
  have "unat v < ?b ^ Suc 19" using assms unat_lt_64 [of v] numbuf_capacity by auto
  then have len: "length ?ds \<le> 20" using length_digit_list [OF b(1), of "unat v" 19] by simp
  let ?buf0 = "(replicate NUMBUFSIZ 0 :: u8 list)[NUMBUFSIZ - 1 := 0]"
  have "?buf0 = replicate NUMBUFSIZ 0" by (simp add: NUMBUFSIZ_def list_update_same_conv)
  then have d0: "drop 23 ?buf0 = [0]" by (simp add: NUMBUFSIZ_def)
  obtain buf where f: "fill_loop ?digits ?b 23 (unat v) ?buf0 = Some (23 - length ?ds, buf)"
    "drop (23 - length ?ds) buf = map (nth ?digits) ?ds @ [0]"
    using fill_loop_digits [OF b(1), of "unat v" 23 ?buf0 ?digits] len d0 by (auto simp: NUMBUFSIZ_def)
  have "\<forall>d \<in> set ?ds. d < 16" using digit_list_less [OF b(1), of "unat v"] b(2) by fastforce
  then have "\<forall>x \<in> set (map (nth ?digits) ?ds). x \<noteq> 0" using digits_nonzero by auto
  then have "takeWhile (\<lambda>x. x \<noteq> 0) (drop (23 - length ?ds) buf) = map (nth ?digits) ?ds"
    unfolding f(2) by (subst takeWhile_append2) auto
  with f(1) len show ?thesis by (intro exI) (simp add: fill_numbuf_def Let_def NUMBUFSIZ_def)
qed


text \<open>
  The 24-byte number buffer is large enough: for every 64-bit value and each of the bases the
  conversions use, \<open>fill_numbuf\<close> stays inside the buffer and leaves the digits of the value, without
  leading zeros, in the right letter case.
\<close>

theorem fill_numbuf_fits:
  assumes "base = 10 \<or> base = 16 \<or> base = - 16"
  shows "\<exists>p buf ds. fill_numbuf NUMBUFSIZ v base (replicate NUMBUFSIZ 0) = Some (p, buf) \<and>
    takeWhile (\<lambda>x. x \<noteq> 0) (drop p buf) = map (nth (if base < 0 then lower_digits else upper_digits)) ds \<and>
    (\<forall>d \<in> set ds. d < nat \<bar>base\<bar>) \<and> horner (nat \<bar>base\<bar>) 0 ds = unat v \<and> length ds \<le> 20"
proof -
  have "2 \<le> nat \<bar>base\<bar>" using assms by auto
  with fill_numbuf_digits [OF assms, of v] digit_list_less [of "nat \<bar>base\<bar>" "unat v"] horner_digit_list [of "nat \<bar>base\<bar>" "unat v"]
  show ?thesis by metis
qed

theorem fill_numbuf_fits_witness:
  "\<exists>p buf ds. fill_numbuf NUMBUFSIZ (- 1) (- 16) (replicate NUMBUFSIZ 0) = Some (p, buf) \<and>
    takeWhile (\<lambda>x. x \<noteq> 0) (drop p buf) = map (nth lower_digits) ds \<and> horner 16 0 ds = 2 ^ 64 - 1"
proof -
  have "unat (- 1 :: u64) = 2 ^ 64 - 1" by (simp add: unsigned_minus_1_eq_mask mask_eq_exp_minus_1)
  moreover have "nat \<bar>- 16 :: int\<bar> = 16" by simp
  ultimately show ?thesis using fill_numbuf_fits [of "- 16" "- 1"] by (simp del: abs_minus_cancel) metis
qed

lemma digit_bytes: "d < 10 \<Longrightarrow> upper_digits ! d = digit_byte d" "d < 16 \<Longrightarrow> lower_digits ! d = digit_byte d"
proof -
  have all: "\<forall>d \<in> set [0..<16]. lower_digits ! d = digit_byte d" "\<forall>d \<in> set [0..<10]. upper_digits ! d = digit_byte d"
    by (simp_all add: upt_conv_Cons lower_digits_def upper_digits_def digit_byte_def)
  then show "d < 10 \<Longrightarrow> upper_digits ! d = digit_byte d" "d < 16 \<Longrightarrow> lower_digits ! d = digit_byte d" by simp_all
qed

lemma layout_plain: "flags AND FLAG_LEFTJUSTIFY = 0 \<Longrightarrow> flags AND FLAG_ZERO = 0 \<Longrightarrow> length body < 2 ^ 30 \<Longrightarrow>
   layout flags (- 1) (- 1) [] body = body"
proof -
  assume a: "flags AND FLAG_LEFTJUSTIFY = 0" "flags AND FLAG_ZERO = 0" "length body < 2 ^ 30"
  have "sint (word_of_int (- 1 - int (length body)) :: u32) = - 1 - int (length body)"
    using a(3) by (simp only: signed_of_int) (simp add: signed_take_bit_int_eq_self)
  with a show ?thesis by (simp add: layout_def zeros_of_def Let_def)
qed

text \<open>\<open>%lu\<close> and \<open>%lx\<close>, without flags, print exactly the digits.\<close>

lemma formatted_unsigned:
  assumes "c = 117 \<and> base = 10 \<or> c = 120 \<and> base = 16"
  shows "formatted color [37, 108, c] [ALong v] = Some (map (\<lambda>c. (c, color)) (map digit_byte (digit_list base (unat v))))"
proof -
  define b :: int where "b = (if c = 117 then 10 else - 16)"
  have b: "b = 10 \<or> b = 16 \<or> b = - 16" "nat \<bar>b\<bar> = base" using assms by (auto simp: b_def)
  from fill_numbuf_digits [OF b(1), of v] obtain p buf where
    f: "fill_numbuf NUMBUFSIZ v b (replicate NUMBUFSIZ 0) = Some (p, buf)"
      "takeWhile (\<lambda>x. x \<noteq> 0) (drop p buf) = map (nth (if b < 0 then lower_digits else upper_digits)) (digit_list base (unat v))"
      "length (digit_list base (unat v)) \<le> 20" using b(2) by auto
  have "\<forall>d \<in> set (digit_list base (unat v)). d < base" using assms by (intro digit_list_less) auto
  then have body: "takeWhile (\<lambda>x. x \<noteq> 0) (drop p buf) = map digit_byte (digit_list base (unat v))"
    unfolding f(2) using assms digit_bytes by (intro map_cong refl) (auto simp: b_def)
  have "convert True 0 [c] [ALong v] = Some (CNum b v FLAG_NUMERIC, [], [])"
    using assms by (auto simp: convert_def b_def)
  moreover have "parse_width [108, c] [ALong v] = Some (- 1, [108, c], [ALong v])"
    "parse_precision [108, c] [ALong v] = Some (- 1, [108, c], [ALong v])" "parse_flags 0 [108, c] = (0, [108, c])"
    "parse_length [108, c] = (True, [c])"
    by (simp_all add: parse_width_def parse_precision_def parse_length_def flag_chars_def)
  moreover have "prefix_of FLAG_NUMERIC b v = []" by (simp add: prefix_of_def flag_defs)
  moreover have "layout FLAG_NUMERIC (- 1) (- 1) [] (map digit_byte (digit_list base (unat v))) = map digit_byte (digit_list base (unat v))"
    using f(3) by (intro layout_plain) (simp_all add: flag_defs)
  ultimately show ?thesis using f(1) body by (simp add: directive_def Let_def)
qed


lemma cstr_digits:
  assumes "\<forall>i < length ds. m (s + word_of_nat i) = digit_byte (ds ! i)" and "m (s + word_of_nat (length ds)) = 0"
    and "\<forall>d \<in> set ds. d < 36"
  shows "cstr m s (map digit_byte ds)"
proof -
  have "digit_byte d \<noteq> 0" if "d < 36" for d using sint_digit_byte [OF that] by (metis of_nat_0_le_iff add_nonneg_eq_0_iff sint_0 zero_le_numeral zero_neq_numeral)
  then show ?thesis using assms by (auto simp: cstr_iff)
qed

text \<open>
  C36. Printing and parsing round-trip: for every 64-bit value and every buffer of at least 21 bytes, \<open>snprintf\<close> with \<open>%lu\<close>
  (or \<open>%lx\<close>) returns the number of digits of the value in base 10 (or 16), through its \<open>int\<close>, and changes no byte
  outside the buffer; \<open>strtoul\<close> in that base then reads the value back from the buffer and ends right behind its digits.
\<close>

theorem print_parse_roundtrip:
  assumes "c = 117 \<and> base = 10 \<or> c = 120 \<and> base = 16" and "21 \<le> unat sz" and "unat s + unat sz < 2 ^ 64"
    and "n = length (digit_list base (unat v))"
  shows "\<exists>m'. snprintf s sz [37, 108, c] [ALong v] m = Some (int n, m') \<and> n \<le> 20 \<and>
    strtoul s (int base) m' = Some (v, s + word_of_nat n) \<and> (\<forall>a. unat sz \<le> unat (a - s) \<longrightarrow> m' a = m a)"
proof -
  let ?ds = "digit_list base (unat v)"
  have b: "2 \<le> base" "base \<le> 36" using assms(1) by auto
  have lt: "\<forall>d \<in> set ?ds. d < base" by (rule digit_list_less [OF b(1)])
  have "unat v < base ^ Suc 19" using assms(1) unat_lt_64 [of v] numbuf_capacity by auto
  then have len: "length ?ds \<le> 20" using length_digit_list [OF b(1), of "unat v" 19] by simp
  have sz: "sz \<noteq> 0" using assms(2) by auto
  let ?out = "map (\<lambda>c. (c, 0 :: int)) (map digit_byte ?ds)"
  have k: "min (length ?out) (unat sz - 1) = length ?ds" using len assms(2) by simp
  from vsnprintf_result [OF formatted_unsigned [OF assms(1)] sz assms(3), of v m] obtain m' where
    m': "vsnprintf s sz [37, 108, c] [ALong v] m = Some (sint (word_of_nat (length ?out) :: u64), m')"
      "\<forall>i < length ?ds. m' (s + word_of_nat i) = digit_byte (?ds ! i)" "m' (s + word_of_nat (length ?ds)) = 0"
      "\<forall>a. unat sz \<le> unat (a - s) \<longrightarrow> m' a = m a"
    unfolding k Let_def by auto
  have n: "int n \<le> 20" using len assms(4) by simp
  have "sint (word_of_int (int n) :: u64) = int n" using n by (simp only: signed_of_int) (simp add: signed_take_bit_int_eq_self)
  moreover have "sint (word_of_int (int n) :: u32) = int n" using n by (simp only: signed_of_int) (simp add: signed_take_bit_int_eq_self)
  ultimately have "snprintf s sz [37, 108, c] [ALong v] m = Some (int n, m')" using m'(1) assms(4) by (simp add: snprintf_def)
  moreover have "cstr m' s (map digit_byte ?ds)" using m'(2,3) lt b(2) by (intro cstr_digits) auto
  from strtoul_digits [OF b lt this] have "strtoul s (int base) m' = Some (v, s + word_of_nat n)"
    using horner_digit_list [OF b(1), of "unat v"] unat_lt_64 [of v] assms(4) by auto
  ultimately show ?thesis using m'(4) len assms(4) by blast
qed

theorem print_parse_roundtrip_witness:
  "\<exists>m'. snprintf 1000 21 [37, 108, 120] [ALong 0xBEE] (\<lambda>_. 0) = Some (3, m') \<and> strtoul 1000 16 m' = Some (0xBEE, 1003)"
proof -
  have "digit_list 16 11 = [11]" by (subst digit_list.simps) simp
  then have "digit_list 16 190 = [11, 14]" by (subst digit_list.simps) simp
  then have "digit_list 16 3054 = [11, 14, 14]" by (subst digit_list.simps) simp
  then have "3 = length (digit_list 16 (unat (0xBEE :: u64)))" by simp
  from print_parse_roundtrip [OF _ _ _ this, of 120 21 1000 "\<lambda>_. 0"] show ?thesis by auto
qed

end
