(* ===== verification/Format.thy ===== *)
theory Format
  imports Printf
begin

unbundle bit_operations_syntax

text \<open>
  What the integer conversions of \<open>weensyos/lib.cc\<close>'s \<open>vprintf\<close> print. The format is given by its parts (flag characters, width,
  precision, length, conversion), the text by the rules of the C library for them, with natural numbers and lists
  instead of flag bits, an \<open>int\<close> that counts down and a digit buffer; the lemmas take the stages of \<open>directive\<close> in
  their order, and the property joins them.
\<close>

section \<open>Formats and their meaning\<close>

definition decimal :: "nat \<Rightarrow> u8 list" where
  "decimal n = map digit_byte (digit_list 10 n)"

text \<open>Width 0 and precision \<open>None\<close> stand for none given.\<close>

definition format_text :: "u8 list \<Rightarrow> nat \<Rightarrow> nat option \<Rightarrow> bool \<Rightarrow> u8 \<Rightarrow> u8 list" where
  "format_text fls w prec long c =
     fls @ (if w = 0 then [] else decimal w) @ (case prec of None \<Rightarrow> [] | Some p \<Rightarrow> 46 # decimal p) @ (if long then [108] else []) @ [c]"

definition is_signed :: "u8 \<Rightarrow> bool" where
  "is_signed c = (c = 100 \<or> c = 105)"

text \<open>The value of an argument as the conversion character reads it; \<open>None\<close> for an argument of the wrong size.\<close>

fun int_value :: "bool \<Rightarrow> bool \<Rightarrow> va_arg \<Rightarrow> int option" where
  "int_value sg True (ALong w) = Some (if sg then sint w else uint w)"
| "int_value sg False (AInt w) = Some (if sg then sint w else uint w)"
| "int_value sg _ _ = None"

text \<open>A sign or a base prefix: \<open>-\<close>, else on request \<open>+\<close> or a space; \<open>0x\<close> or \<open>0X\<close> with \<open>#\<close> for a value other than 0.\<close>

definition sign_text :: "u8 list \<Rightarrow> u8 \<Rightarrow> int \<Rightarrow> u8 list" where
  "sign_text fls c x =
     (if is_signed c then if x < 0 then [45] else if 43 \<in> set fls then [43] else if 32 \<in> set fls then [32] else []
      else if (c = 120 \<or> c = 88) \<and> 35 \<in> set fls \<and> x \<noteq> 0 then [48, c] else [])"

text \<open>
  Zeros fill the digits up to the precision or, without one, with \<open>0\<close> and not \<open>-\<close>, up to the width; spaces fill the
  rest of the width, on the right with \<open>-\<close>, else on the left.
\<close>

definition number_text :: "u8 list \<Rightarrow> nat \<Rightarrow> nat option \<Rightarrow> u8 list \<Rightarrow> u8 list \<Rightarrow> u8 list" where
  "number_text fls w prec pre digits =
     (let zeros = (case prec of Some p \<Rightarrow> p - length digits
                   | None \<Rightarrow> if 48 \<in> set fls \<and> 45 \<notin> set fls then w - (length pre + length digits) else 0);
          number = pre @ replicate zeros 48 @ digits;
          pad = replicate (w - length number) 32
      in if 45 \<in> set fls then number @ pad else pad @ number)"

section \<open>Flags\<close>

lemma flag_bit: "(x :: u32) AND push_bit i 1 = 0 \<longleftrightarrow> \<not> bit x i"
  by (simp add: bit_iff_and_push_bit_not_eq_0)

lemma bit_flag: "bit (push_bit i (1 :: u32)) n \<longleftrightarrow> n = i \<and> i < 32"
  by (auto simp: bit_push_bit_iff bit_1_iff simp del: push_bit_of_1)

lemma index_of_Some: "index_of c xs = Some i \<Longrightarrow> i < length xs \<and> xs ! i = c"
  by (induction xs arbitrary: i) (auto split: if_splits)

lemma index_of_None: "index_of c xs = None \<longleftrightarrow> c \<notin> set xs"
  by (induction xs) auto

lemma parse_flags_bits:
  assumes "set fls \<subseteq> set flag_chars" and "\<forall>c rest'. rest = c # rest' \<longrightarrow> c \<notin> set flag_chars"
  shows "\<exists>f'. parse_flags f (fls @ rest) = (f', rest) \<and> (\<forall>i < 32. bit f' i \<longleftrightarrow> bit f i \<or> i < 5 \<and> flag_chars ! i \<in> set fls)"
  using assms
proof (induction fls arbitrary: f)
  case Nil
  then have "parse_flags f rest = (f, rest)" by (cases rest) (auto simp: index_of_None [THEN iffD2])
  then show ?case by simp
next
  case (Cons c fls)
  then obtain j where j: "index_of c flag_chars = Some j" using index_of_None [of c flag_chars] by auto
  have fl: "distinct flag_chars" "length flag_chars = 5" by (simp_all add: flag_chars_def)
  with index_of_Some [OF j] have jc: "j < 5" "flag_chars ! j = c" by auto
  from Cons.IH [of "f OR push_bit j 1"] Cons.prems obtain f' where
    f': "parse_flags (f OR push_bit j 1) (fls @ rest) = (f', rest)"
      "\<forall>i < 32. bit f' i \<longleftrightarrow> bit (f OR push_bit j 1) i \<or> i < 5 \<and> flag_chars ! i \<in> set fls" by auto
  have "i < 5 \<Longrightarrow> flag_chars ! i = c \<longleftrightarrow> i = j" for i using fl jc nth_eq_iff_index_eq [of flag_chars i j] by auto
  with f' jc show ?case by (auto simp: j bit_or_iff bit_flag simp del: push_bit_of_1)
qed

section \<open>Width, precision and length\<close>

lemma digit_byte_digit: "d < 10 \<Longrightarrow> is_digit_char (digit_byte d) \<and> uint (digit_byte d) = 48 + int d"
proof -
  assume d: "d < 10"
  then have "unat (digit_byte d) = 48 + d" by (simp add: digit_byte_def unsigned_of_nat take_bit_nat_eq_self del: of_nat_add)
  then show ?thesis using d by (simp add: word_le_nat_alt uint_nat)
qed

lemma parse_number_digits:
  assumes "\<forall>d \<in> set ds. d < 10" and "\<forall>c rest'. rest = c # rest' \<longrightarrow> \<not> is_digit_char c" and "int (horner 10 n ds) + 48 \<le> INT_MAX"
  shows "parse_number (int n) (map digit_byte ds @ rest) = Some (int (horner 10 n ds), rest)"
  using assms
proof (induction ds arbitrary: n)
  case Nil
  then show ?case by (cases rest) auto
next
  case (Cons d ds)
  have "n * 10 + d \<le> horner 10 (n * 10 + d) ds" by (rule horner_mono) simp
  then have "10 * int n + (48 + int d) \<le> INT_MAX" using Cons.prems(3) by simp
  moreover have e: "int (n * 10 + d) = 10 * int n + int d" by simp
  have "parse_number (int (n * 10 + d)) (map digit_byte ds @ rest) = Some (int (horner 10 (n * 10 + d) ds), rest)"
    using Cons.prems by (intro Cons.IH) auto
  moreover note this [unfolded e]
  ultimately show ?case using Cons.prems(1) digit_byte_digit [of d] by simp
qed

lemma digit_list_nonempty [simp]: "digit_list base v \<noteq> []"
  by (subst digit_list.simps) simp

lemma digit_list_hd: "2 \<le> base \<Longrightarrow> 0 < v \<Longrightarrow> hd (digit_list base v) \<noteq> 0"
proof (induction base v rule: digit_list.induct)
  case (1 base v)
  show ?case
  proof (cases "v < base")
    case True
    with 1 show ?thesis by (subst digit_list.simps) simp
  next
    case False
    then have "0 < v div base" using "1.prems"(1) by (simp add: div_greater_zero_iff)
    with 1 False show ?thesis by (subst digit_list.simps) simp
  qed
qed

lemma decimal_number:
  assumes "\<forall>c rest'. rest = c # rest' \<longrightarrow> \<not> is_digit_char c" and "int n + 48 \<le> INT_MAX"
  shows "parse_number 0 (decimal n @ rest) = Some (int n, rest)"
  using parse_number_digits [of "digit_list 10 n" rest 0] digit_list_less [of 10 n] assms
  by (simp add: decimal_def horner_digit_list)

lemma decimal_first: "\<exists>d ds. decimal n = digit_byte d # ds \<and> d < 10 \<and> (0 < n \<longrightarrow> 0 < d)"
proof -
  obtain d ds where ds: "digit_list 10 n = d # ds" by (cases "digit_list 10 n") auto
  with digit_list_less [of 10 n] digit_list_hd [of 10 n] show ?thesis by (auto simp: decimal_def)
qed

lemma parse_width_text:
  assumes "\<forall>c rest'. rest = c # rest' \<longrightarrow> \<not> is_digit_char c \<and> c \<noteq> 42" and "int w + 48 \<le> INT_MAX"
  shows "parse_width ((if w = 0 then [] else decimal w) @ rest) args = Some (if w = 0 then - 1 else int w, rest, args)"
proof (cases "w = 0")
  case True
  then show ?thesis using assms(1) by (auto simp: parse_width_def word_le_nat_alt split: list.split)
next
  case False
  obtain d ds where d: "decimal w = digit_byte d # ds" "d < 10" "0 < d" using decimal_first [of w] False by auto
  have "uint (digit_byte d) = 48 + int d" "is_digit_char (digit_byte d)" using digit_byte_digit [OF d(2)] by auto
  then have "49 \<le> digit_byte d \<and> digit_byte d \<le> 57" using d(3) by (simp add: word_le_def)
  moreover have "parse_number 0 (decimal w @ rest) = Some (int w, rest)" using assms by (intro decimal_number) auto
  ultimately show ?thesis using False d(1) by (simp add: parse_width_def)
qed

lemma parse_precision_text:
  assumes "\<forall>c rest'. rest = c # rest' \<longrightarrow> \<not> is_digit_char c \<and> c \<noteq> 46" and "\<forall>p. prec = Some p \<longrightarrow> int p + 48 \<le> INT_MAX"
  shows "parse_precision ((case prec of None \<Rightarrow> [] | Some p \<Rightarrow> 46 # decimal p) @ rest) args =
    Some (case prec of None \<Rightarrow> - 1 | Some p \<Rightarrow> int p, rest, args)"
proof (cases prec)
  case None
  then show ?thesis using assms(1) by (auto simp: parse_precision_def split: list.split)
next
  case (Some p)
  obtain d ds where d: "decimal p = digit_byte d # ds" "d < 10" using decimal_first [of p] by auto
  have "parse_number 0 (decimal p @ rest) = Some (int p, rest)" using assms Some by (intro decimal_number) auto
  with Some d digit_byte_digit [OF d(2)] show ?thesis by (simp add: parse_precision_def)
qed

section \<open>Conversion\<close>

text \<open>The directive's flag word has the five flag characters' bits and what the conversion added.\<close>

definition flags_of :: "u8 list \<Rightarrow> u32 \<Rightarrow> bool" where
  "flags_of fls f = (\<forall>i < 32. bit f i \<longleftrightarrow> i < 5 \<and> flag_chars ! i \<in> set fls)"

lemma flags_of_test:
  assumes "flags_of fls f"
  shows "f AND FLAG_ALT = 0 \<longleftrightarrow> 35 \<notin> set fls" "f AND FLAG_ZERO = 0 \<longleftrightarrow> 48 \<notin> set fls" "f AND FLAG_LEFTJUSTIFY = 0 \<longleftrightarrow> 45 \<notin> set fls"
    "f AND FLAG_SPACEPOSITIVE = 0 \<longleftrightarrow> 32 \<notin> set fls" "f AND FLAG_PLUSPOSITIVE = 0 \<longleftrightarrow> 43 \<notin> set fls"
    "f AND FLAG_NUMERIC = 0" "f AND FLAG_SIGNED = 0" "f AND FLAG_NEGATIVE = 0" "f AND FLAG_ALT2 = 0"
proof -
  note b = assms [unfolded flags_of_def, rule_format]
  show "f AND FLAG_ALT = 0 \<longleftrightarrow> 35 \<notin> set fls" "f AND FLAG_ZERO = 0 \<longleftrightarrow> 48 \<notin> set fls" "f AND FLAG_LEFTJUSTIFY = 0 \<longleftrightarrow> 45 \<notin> set fls"
    "f AND FLAG_SPACEPOSITIVE = 0 \<longleftrightarrow> 32 \<notin> set fls" "f AND FLAG_PLUSPOSITIVE = 0 \<longleftrightarrow> 43 \<notin> set fls"
    "f AND FLAG_NUMERIC = 0" "f AND FLAG_SIGNED = 0" "f AND FLAG_NEGATIVE = 0" "f AND FLAG_ALT2 = 0"
    unfolding flag_defs flag_bit using b [of 0] b [of 1] b [of 2] b [of 3] b [of 4] b [of 5] b [of 6] b [of 7] b [of 8]
    by (simp_all add: flag_chars_def)
qed

lemma flag_add:
  "(f OR g) AND x = 0 \<longleftrightarrow> f AND x = 0 \<and> g AND (x :: u32) = 0"
  by (simp add: bit.conj_disj_distrib2 or_eq_0_iff)

definition conv_base :: "u8 \<Rightarrow> int" where
  "conv_base c = (if c = 120 then - 16 else if c = 88 then 16 else 10)"

definition conv_flags :: "u8 \<Rightarrow> int \<Rightarrow> u32 \<Rightarrow> u32" where
  "conv_flags c x f = (f OR FLAG_NUMERIC) OR (if is_signed c then FLAG_SIGNED OR (if x < 0 then FLAG_NEGATIVE else 0) else 0)"

lemma convert_number:
  assumes "c \<in> {100, 105, 117, 120, 88}" and "int_value (is_signed c) long a = Some x" and "x \<noteq> - (2 ^ 63)"
  shows "convert long f (c # rest) (a # args) = Some (CNum (conv_base c) (word_of_int \<bar>x\<bar>) (conv_flags c x f), rest, args)"
proof -
  show ?thesis
  proof (cases "is_signed c")
    case True
    then have "signed_arg long (a # args) = Some (x, args)" using assms(2) by (cases long; cases a) simp_all
    with True assms(3) show ?thesis by (auto simp: convert_def is_signed_def conv_base_def conv_flags_def or.assoc)
  next
    case False
    then have "unsigned_arg long (a # args) = Some (word_of_int x, args)" and "0 \<le> x"
      using assms(2) by (cases long; cases a; auto simp: ucast_eq)+
    moreover have "c = 117 \<or> c = 120 \<or> c = 88" using False assms(1) by (auto simp: is_signed_def)
    ultimately show ?thesis using False by (auto simp: convert_def is_signed_def conv_base_def conv_flags_def)
  qed
qed

lemma conv_flags_test:
  assumes "flags_of fls f"
  shows "conv_flags c x f AND FLAG_ALT = 0 \<longleftrightarrow> 35 \<notin> set fls" "conv_flags c x f AND FLAG_ZERO = 0 \<longleftrightarrow> 48 \<notin> set fls"
    "conv_flags c x f AND FLAG_LEFTJUSTIFY = 0 \<longleftrightarrow> 45 \<notin> set fls"
    "conv_flags c x f AND FLAG_SPACEPOSITIVE = 0 \<longleftrightarrow> 32 \<notin> set fls" "conv_flags c x f AND FLAG_PLUSPOSITIVE = 0 \<longleftrightarrow> 43 \<notin> set fls"
    "conv_flags c x f AND FLAG_NUMERIC \<noteq> 0" "conv_flags c x f AND FLAG_SIGNED = 0 \<longleftrightarrow> \<not> is_signed c"
    "conv_flags c x f AND FLAG_NEGATIVE = 0 \<longleftrightarrow> \<not> (is_signed c \<and> x < 0)" "conv_flags c x f AND FLAG_ALT2 = 0"
  using flags_of_test [OF assms] by (simp_all add: conv_flags_def flag_add) (simp_all add: flag_defs)

lemma prefix_number:
  assumes "c \<in> {100, 105, 117, 120, 88}" and "flags_of fls f" and "\<bar>x\<bar> < 2 ^ 64"
  shows "prefix_of (conv_flags c x f) (conv_base c) (word_of_int \<bar>x\<bar>) = sign_text fls c x"
proof -
  have "uint (word_of_int \<bar>x\<bar> :: u64) = \<bar>x\<bar>" using assms(3) by (simp add: uint_word_of_int)
  then have "(word_of_int \<bar>x\<bar> :: u64) \<noteq> 0 \<longleftrightarrow> x \<noteq> 0" by (metis abs_eq_0 uint_0_iff)
  with assms(1) show ?thesis unfolding prefix_of_def sign_text_def conv_flags_test [OF assms(2)]
    by (auto simp: conv_flags_test [OF assms(2)] conv_base_def is_signed_def)
qed

lemma layout_number:
  assumes f: "flags_of fls f" and body: "length digits \<le> 20" "length pre \<le> 2"
    and w: "int w + 48 \<le> INT_MAX" and p: "\<forall>p. prec = Some p \<longrightarrow> int p + 48 \<le> INT_MAX"
  shows "layout (conv_flags c x f) (if w = 0 then - 1 else int w) (case prec of None \<Rightarrow> - 1 | Some p \<Rightarrow> int p) pre digits =
    number_text fls w prec pre digits"
proof -
  define zeros where "zeros = (case prec of Some p \<Rightarrow> p - length digits
      | None \<Rightarrow> if 48 \<in> set fls \<and> 45 \<notin> set fls then w - (length pre + length digits) else 0)"
  let ?w = "if w = 0 then - 1 else int w" and ?p = "case prec of None \<Rightarrow> - 1 | Some p \<Rightarrow> int p"
  have z: "zeros_of (conv_flags c x f) ?w ?p (int (length digits)) (int (length pre)) = int zeros"
    unfolding zeros_of_def zeros_def using conv_flags_test [OF f] by (cases prec) auto
  let ?r = "?w - (int (length digits) + int zeros + int (length pre))"
  have "int zeros \<le> INT_MAX - 48" using w p by (auto simp: zeros_def split: option.split)
  moreover have "int zeros + int (length digits) \<le> INT_MAX - 28" using calculation body(1) by simp
  ultimately have "- (2 ^ 31) \<le> ?r \<and> ?r < 2 ^ 31" using body w by auto
  then have "sint (word_of_int ?r :: u32) = ?r" by (simp only: signed_of_int) (simp add: signed_take_bit_int_eq_self)
  then have l: "layout (conv_flags c x f) ?w ?p pre digits =
      (if 45 \<in> set fls then [] else replicate (nat ?r) 32) @ pre @ replicate zeros 48 @ digits @ (if 45 \<in> set fls then replicate (nat ?r) 32 else [])"
    using conv_flags_test [OF f, of c x] z by (simp only: layout_def Let_def) auto
  have "nat ?r = w - length (pre @ replicate zeros 48 @ digits)" by auto
  then show ?thesis unfolding l number_text_def zeros_def [symmetric] by (simp add: Let_def)
qed

section \<open>The printed number\<close>

definition digit_char :: "u8 \<Rightarrow> nat \<Rightarrow> u8" where
  "digit_char c d = (if d < 10 then word_of_nat (48 + d) else if c = 88 then word_of_nat (55 + d) else word_of_nat (87 + d))"

definition number_base :: "u8 \<Rightarrow> nat" where
  "number_base c = (if c = 120 \<or> c = 88 then 16 else 10)"

lemma digit_tables: "d < 16 \<Longrightarrow> lower_digits ! d = digit_char 120 d" "d < 16 \<Longrightarrow> upper_digits ! d = digit_char 88 d"
  "d < 10 \<Longrightarrow> digit_char c d = digit_char c' d"
proof -
  have "\<forall>d \<in> set [0..<16]. lower_digits ! d = digit_char 120 d \<and> upper_digits ! d = digit_char 88 d"
    by (simp add: upt_conv_Cons lower_digits_def upper_digits_def digit_char_def)
  then show "d < 16 \<Longrightarrow> lower_digits ! d = digit_char 120 d" "d < 16 \<Longrightarrow> upper_digits ! d = digit_char 88 d" by simp_all
  show "d < 10 \<Longrightarrow> digit_char c d = digit_char c' d" by (simp add: digit_char_def)
qed

lemma digits_number:
  assumes "c \<in> {100, 105, 117, 120, 88}"
  shows "\<exists>p buf. fill_numbuf NUMBUFSIZ v (conv_base c) (replicate NUMBUFSIZ 0) = Some (p, buf) \<and>
    takeWhile (\<lambda>x. x \<noteq> 0) (drop p buf) = map (digit_char c) (digit_list (number_base c) (unat v)) \<and>
    length (digit_list (number_base c) (unat v)) \<le> 20"
proof -
  have b: "conv_base c = 10 \<or> conv_base c = 16 \<or> conv_base c = - 16" "nat \<bar>conv_base c\<bar> = number_base c"
    using assms by (auto simp: conv_base_def number_base_def)
  have "2 \<le> number_base c" by (simp add: number_base_def)
  from digit_list_less [OF this, of "unat v"]
  have "map (nth (if conv_base c < 0 then lower_digits else upper_digits)) (digit_list (number_base c) (unat v)) =
      map (digit_char c) (digit_list (number_base c) (unat v))"
  proof (intro map_cong refl)
    fix d assume "\<forall>d \<in> set (digit_list (number_base c) (unat v)). d < number_base c" "d \<in> set (digit_list (number_base c) (unat v))"
    then have "d < number_base c" by blast
    then show "(if conv_base c < 0 then lower_digits else upper_digits) ! d = digit_char c d"
      using assms digit_tables(1,2) [of d] digit_tables(3) [of d c 88] by (auto simp: conv_base_def number_base_def)
  qed
  with fill_numbuf_digits [OF b(1), of v] b(2) show ?thesis by auto
qed

lemma int_value_bound: "int_value sg long a = Some x \<Longrightarrow> \<bar>x\<bar> < 2 ^ 64"
proof (cases a)
  case (AInt w)
  then show "int_value sg long a = Some x \<Longrightarrow> ?thesis"
    using sint_ge [of w] sint_lt [of w] uint_lt2p [of w] uint_ge_0 [of w] by (cases long; cases sg) auto
next
  case (ALong w)
  then show "int_value sg long a = Some x \<Longrightarrow> ?thesis"
    using sint_ge [of w] sint_lt [of w] uint_lt2p [of w] uint_ge_0 [of w] by (cases long; cases sg) auto
qed simp_all

lemma directive_number:
  assumes fls: "set fls \<subseteq> set flag_chars" and c: "c \<in> {100, 105, 117, 120, 88}" and x: "int_value (is_signed c) long a = Some x" "x \<noteq> - (2 ^ 63)"
    and w: "int w + 48 \<le> INT_MAX" and p: "\<forall>p. prec = Some p \<longrightarrow> int p + 48 \<le> INT_MAX"
  shows "directive color (format_text fls w prec long c @ rest) (a # args) =
    Some (number_text fls w prec (sign_text fls c x) (map (digit_char c) (digit_list (number_base c) (nat \<bar>x\<bar>))), color, rest, args)"
proof -
  define R3 where "R3 = (if long then [108] else []) @ c # rest"
  define R2 where "R2 = (case prec of None \<Rightarrow> [] | Some p \<Rightarrow> 46 # decimal p) @ R3"
  define R1 where "R1 = (if w = 0 then [] else decimal w) @ R2"
  have h3: "\<exists>h t. R3 = h # t \<and> h \<in> {108, 100, 105, 117, 120, 88}" using c by (auto simp: R3_def)
  then have h2: "\<exists>h t. R2 = h # t \<and> h \<in> {46, 108, 100, 105, 117, 120, 88}" by (auto simp: R2_def split: option.split)
  have h1: "\<forall>h t. R1 = h # t \<longrightarrow> h \<notin> set flag_chars"
  proof (cases "w = 0")
    case True
    then show ?thesis using h2 by (auto simp: R1_def flag_chars_def)
  next
    case False
    obtain d ds where d: "decimal w = digit_byte d # ds" "d < 10" "0 < d" using decimal_first [of w] False by auto
    with digit_byte_digit [of d] have "48 < uint (digit_byte d)" by simp
    then have "digit_byte d \<notin> set flag_chars" by (auto simp: flag_chars_def)
    then show ?thesis using d False by (simp add: R1_def)
  qed
  have fmt: "format_text fls w prec long c @ rest = fls @ R1" by (simp add: format_text_def R1_def R2_def R3_def)
  obtain f where f: "parse_flags 0 (fls @ R1) = (f, R1)" "flags_of fls f"
    using parse_flags_bits [OF fls h1, of 0] by (auto simp: flags_of_def)
  have 1: "parse_width R1 (a # args) = Some (if w = 0 then - 1 else int w, R2, a # args)"
    unfolding R1_def using h2 w by (intro parse_width_text) auto
  have 2: "parse_precision R2 (a # args) = Some (case prec of None \<Rightarrow> - 1 | Some p \<Rightarrow> int p, R3, a # args)"
    unfolding R2_def using h3 p by (intro parse_precision_text) auto
  have 3: "parse_length R3 = (long, c # rest)" using c by (auto simp: R3_def parse_length_def)
  note b = int_value_bound [OF x(1)]
  have v: "unat (word_of_int \<bar>x\<bar> :: u64) = nat \<bar>x\<bar>" using b by (simp only: unat_eq_nat_uint uint_word_of_int) simp
  obtain q buf where n: "fill_numbuf NUMBUFSIZ (word_of_int \<bar>x\<bar>) (conv_base c) (replicate NUMBUFSIZ 0) = Some (q, buf)"
    "takeWhile (\<lambda>x. x \<noteq> 0) (drop q buf) = map (digit_char c) (digit_list (number_base c) (nat \<bar>x\<bar>))"
    "length (digit_list (number_base c) (nat \<bar>x\<bar>)) \<le> 20"
    using digits_number [OF c, of "word_of_int \<bar>x\<bar>"] unfolding v by blast
  have "length (sign_text fls c x) \<le> 2" by (simp add: sign_text_def)
  with layout_number [OF f(2) _ this w p, of "map (digit_char c) (digit_list (number_base c) (nat \<bar>x\<bar>))" c x] n(3)
  show ?thesis unfolding directive_def fmt
    by (simp add: f(1) 1 2 3 convert_number [OF c x] n(1,2) prefix_number [OF c f(2) b])
qed

text \<open>
  C34. What the integer conversions print. For every string of flag characters, width and precision (none, or a number small
  enough for the parser's \<open>int\<close>), length and conversion among \<open>d i u x X\<close>, and every argument of the right size (but for
  the smallest \<open>long\<close>, whose negation is undefined), \<open>vprintf\<close> consumes the directive and the argument and puts, in the
  current colour, exactly the number: its sign or base prefix, the zeros that fill the precision or the zero-padded
  width, the digits of its absolute value in base 10 or 16 in the right letter case without leading zeros, and the spaces that
  fill the width on the left or, with \<open>-\<close>, on the right. It then goes on with the rest of the format.
\<close>

theorem number_conversions:
  assumes "set fls \<subseteq> {35, 48, 45, 32, 43}" and "c \<in> {100, 105, 117, 120, 88}" and "int_value (is_signed c) long a = Some x" and "x \<noteq> - (2 ^ 63)"
    and "int w + 48 \<le> INT_MAX" and "\<forall>p. prec = Some p \<longrightarrow> int p + 48 \<le> INT_MAX"
    and "ds = digit_list (number_base c) (nat \<bar>x\<bar>)"
  shows "vprintf putc color (37 # format_text fls w prec long c @ rest) (a # args) s =
      vprintf putc color rest args (put_all putc color (number_text fls w prec (sign_text fls c x) (map (digit_char c) ds)) s) \<and>
    (\<forall>d \<in> set ds. d < number_base c) \<and> horner (number_base c) 0 ds = nat \<bar>x\<bar> \<and> (x \<noteq> 0 \<longrightarrow> hd ds \<noteq> 0)"
proof -
  have "set fls \<subseteq> set flag_chars" using assms(1) by (simp add: flag_chars_def)
  moreover have "2 \<le> number_base c" by (simp add: number_base_def)
  ultimately show ?thesis
    using directive_number [OF _ assms(2-6), where color = color and rest = rest and args = args] digit_list_less horner_digit_list digit_list_hd
    by (simp add: assms(7))
qed

text \<open>\<open>%+06d!\<close> prints 42 as \<open>+00042!\<close>.\<close>

theorem number_conversions_witness:
  "vprintf (\<lambda>c color s. s @ [c]) 7 [37, 43, 48, 54, 100, 33] [AInt 42] [] = Some [43, 48, 48, 48, 52, 50, 33]"
proof -
  have "digit_list 10 6 = [6]" by (subst digit_list.simps) simp
  then have "decimal 6 = [54]" by (simp add: decimal_def digit_byte_def)
  then have f: "37 # format_text [43, 48] 6 None False 100 @ [33] = [37, 43, 48, 54, 100, 33]" by (simp add: format_text_def)
  have "digit_list 10 4 = [4]" by (subst digit_list.simps) simp
  then have "digit_list 10 42 = [4, 2]" by (subst digit_list.simps) simp
  then have d: "digit_list (number_base 100) (nat \<bar>42\<bar>) = [4, 2]" by (simp add: number_base_def)
  have nt: "number_text [43, 48] 6 None (sign_text [43, 48] 100 42) (map (digit_char 100) [4, 2]) = [43, 48, 48, 48, 52, 50]"
    by (simp add: number_text_def sign_text_def is_signed_def digit_char_def numeral_3_eq_3)
  have "set [43, 48] \<subseteq> {35, 48, 45, 32, 43 :: u8}" "(100 :: u8) \<in> {100, 105, 117, 120, 88}"
      "int_value (is_signed 100) False (AInt 42) = Some 42" "(42 :: int) \<noteq> - (2 ^ 63)" "int 6 + 48 \<le> INT_MAX"
      "\<forall>p. None = Some p \<longrightarrow> int p + 48 \<le> INT_MAX"
    by (simp_all add: is_signed_def)
  from number_conversions [OF this refl, of "\<lambda>c color s. s @ [c]" 7 "[33]" "[]" "[]"]
  have "vprintf (\<lambda>c color s. s @ [c]) 7 [37, 43, 48, 54, 100, 33] [AInt 42] [] =
      vprintf (\<lambda>c color s. s @ [c]) 7 [33] [] (put_all (\<lambda>c color s. s @ [c]) 7 [43, 48, 48, 48, 52, 50] [])"
    unfolding f d nt by (rule conjunct1)
  then show ?thesis by (simp only: vprintf.simps) (simp add: put_all_def)
qed

end
