(* ===== verification/Console.thy ===== *)
theory Console
  imports Printf
begin

unbundle bit_operations_syntax

text \<open>
  The CGA console of \<open>weensyos/lib.cc\<close> (clearing, the console printer with its scrolling, \<open>console_puts\<close>
  and \<open>console_vprintf\<close>), the hardware cursor and the log and error printers of \<open>weensyos/k-hardware.cc\<close>.
  The console is an array of 2000 cells; \<open>fault\<close> records an access outside it. Port writes are logged.
\<close>

section \<open>State\<close>

definition CONSOLE_COLUMNS :: int where "CONSOLE_COLUMNS = 80"
definition CONSOLE_ROWS :: int where "CONSOLE_ROWS = 25"
definition COLOR_ERROR :: int where "COLOR_ERROR = 0xC000"

definition CPOS :: "int \<Rightarrow> int \<Rightarrow> int" where "CPOS row col = row * 80 + col"
definition CROW :: "int \<Rightarrow> int" where "CROW cpos = cpos div 80"
definition CCOL :: "int \<Rightarrow> int" where "CCOL cpos = cpos mod 80"

record console_state =
  console :: "u16 list"
  cursorpos :: int
  outb_log :: "(u16 \<times> u8) list"
  fault :: bool

record console_printer = console_state +
  cell :: int
  scrolls :: bool

definition outb :: "u16 \<Rightarrow> int \<Rightarrow> ('a console_state_scheme) \<Rightarrow> 'a console_state_scheme" where
  "outb port v s = s\<lparr>outb_log := outb_log s @ [(port, word_of_int v)]\<rparr>"

definition console_clear :: "console_state \<Rightarrow> console_state" where
  "console_clear s = s\<lparr>console := map (\<lambda>_. 32 OR 0x0700) (console s), cursorpos := 0\<rparr>"

definition console_show_cursor :: "int \<Rightarrow> ('a console_state_scheme) \<Rightarrow> 'a console_state_scheme" where
  "console_show_cursor cpos s =
     (let cpos = (if cpos < 0 \<or> cpos > CONSOLE_ROWS * CONSOLE_COLUMNS then 0 else cpos)
      in outb 0x3D5 (cpos mod 256) (outb 0x3D4 15 (outb 0x3D5 (cpos div 256) (outb 0x3D4 14 s))))"

section \<open>The console printer\<close>

definition mk_console_printer :: "int \<Rightarrow> bool \<Rightarrow> console_state \<Rightarrow> console_printer" where
  "mk_console_printer cpos scr s =
     (let p = \<lparr>console = console s, cursorpos = cursorpos s, outb_log = outb_log s, fault = fault s, cell = 0, scrolls = scr\<rparr>
      in if cpos < 0 then p\<lparr>cell := cursorpos s\<rparr>
         else if cpos \<le> CONSOLE_ROWS * CONSOLE_COLUMNS then p\<lparr>cell := cpos\<rparr> else p)"

text \<open>Only called with \<open>cell\<close> at or past the end, which is what its assertion demands.\<close>

definition cp_scroll :: "console_printer \<Rightarrow> console_printer" where
  "cp_scroll p =
     (if scrolls p then
        p\<lparr>console := drop (nat CONSOLE_COLUMNS) (console p) @ replicate (nat CONSOLE_COLUMNS) 0, cell := cell p - CONSOLE_COLUMNS\<rparr>
      else p\<lparr>cell := 0\<rparr>)"

function scroll_loop :: "console_printer \<Rightarrow> console_printer" where
  "scroll_loop p = (if cell p \<ge> CONSOLE_ROWS * CONSOLE_COLUMNS then scroll_loop (cp_scroll p) else p)"
  by pat_completeness auto

termination
  by (relation "measure (\<lambda>p. nat (cell p))") (auto simp: cp_scroll_def CONSOLE_ROWS_def CONSOLE_COLUMNS_def)

declare scroll_loop.simps [simp del]

definition put_cell :: "u16 \<Rightarrow> console_printer \<Rightarrow> console_printer" where
  "put_cell v p =
     (if 0 \<le> cell p \<and> cell p < CONSOLE_ROWS * CONSOLE_COLUMNS
      then p\<lparr>console := (console p)[nat (cell p) := v], cell := cell p + 1\<rparr>
      else p\<lparr>fault := True, cell := cell p + 1\<rparr>)"

fun put_cells :: "nat \<Rightarrow> u16 \<Rightarrow> console_printer \<Rightarrow> console_printer" where
  "put_cells 0 v p = p"
| "put_cells (Suc n) v p = put_cells n v (put_cell v p)"

text \<open>A newline fills the rest of the row: the loop runs \<open>pos\<close> from the column up to 80.\<close>

definition console_putc :: "u8 \<Rightarrow> int \<Rightarrow> console_printer \<Rightarrow> console_printer" where
  "console_putc c color p =
     (let p = scroll_loop p
      in if c = 10 then put_cells (nat (80 - cell p mod 80)) (32 OR word_of_int color) p
         else put_cell (ucast c OR word_of_int color) p)"

definition move_cursor :: "console_printer \<Rightarrow> console_printer" where
  "move_cursor p = console_show_cursor (cell p) (p\<lparr>cursorpos := cell p\<rparr>)"

definition finish_printer :: "int \<Rightarrow> console_printer \<Rightarrow> int \<times> console_state" where
  "finish_printer cpos p =
     (let p = (if cpos < 0 then move_cursor p else p)
      in (cell p, console_state.truncate p))"

definition console_puts :: "int \<Rightarrow> int \<Rightarrow> u8 list \<Rightarrow> console_state \<Rightarrow> int \<times> console_state" where
  "console_puts cpos color s st =
     finish_printer cpos (put_all console_putc color s (mk_console_printer cpos (cpos < 0) st))"

definition console_vprintf :: "int \<Rightarrow> int \<Rightarrow> u8 list \<Rightarrow> va_arg list \<Rightarrow> console_state \<Rightarrow> (int \<times> console_state) option" where
  "console_vprintf cpos color fmt args st =
     map_option (finish_printer cpos) (vprintf console_putc color fmt args (mk_console_printer cpos (cpos < 0) st))"

text \<open>The three overloads of \<open>console_printf\<close>.\<close>

definition console_printf :: "int \<Rightarrow> int \<Rightarrow> u8 list \<Rightarrow> va_arg list \<Rightarrow> console_state \<Rightarrow> (int \<times> console_state) option" where
  "console_printf cpos color fmt args st = console_vprintf cpos color fmt args st"

definition console_printf_color :: "int \<Rightarrow> u8 list \<Rightarrow> va_arg list \<Rightarrow> console_state \<Rightarrow> console_state option" where
  "console_printf_color color fmt args st = map_option snd (console_vprintf (- 1) color fmt args st)"

definition console_printf_plain :: "u8 list \<Rightarrow> va_arg list \<Rightarrow> console_state \<Rightarrow> console_state option" where
  "console_printf_plain fmt args st = map_option snd (console_vprintf (- 1) 0x700 fmt args st)"

section \<open>Log and error messages\<close>

text \<open>
  The parallel port: \<open>ready\<close> is the number of status reads until the port is not busy (the loop gives
  up after 12800). Reads have no effect on the state and are not logged.
\<close>

record log_printer =
  port_initialized :: bool
  port_log :: "(u16 \<times> u8) list"

definition parallel_port_putc :: "u8 \<Rightarrow> log_printer \<Rightarrow> log_printer" where
  "parallel_port_putc c p =
     (let p = (if \<not> port_initialized p then p\<lparr>port_log := port_log p @ [(0x37A, 0)], port_initialized := True\<rparr> else p)
      in p\<lparr>port_log := port_log p @ [(0x378, c), (0x37A, 0x08 OR 0x04 OR 0x01), (0x37A, 0x08 OR 0x04)]\<rparr>)"

definition log_putc :: "u8 \<Rightarrow> int \<Rightarrow> log_printer \<Rightarrow> log_printer" where
  "log_putc c color p = parallel_port_putc c p"

definition log_vprintf :: "u8 list \<Rightarrow> va_arg list \<Rightarrow> log_printer \<Rightarrow> log_printer option" where
  "log_vprintf fmt args p = vprintf log_putc 0 fmt args p"

definition log_printf :: "u8 list \<Rightarrow> va_arg list \<Rightarrow> log_printer \<Rightarrow> log_printer option" where
  "log_printf fmt args p = log_vprintf fmt args p"

definition error_vprintf :: "int \<Rightarrow> int \<Rightarrow> u8 list \<Rightarrow> va_arg list \<Rightarrow> log_printer \<times> console_state \<Rightarrow> (int \<times> log_printer \<times> console_state) option" where
  "error_vprintf cpos color fmt args st =
     (case log_vprintf fmt args (fst st) of
        None \<Rightarrow> None
      | Some l \<Rightarrow> map_option (\<lambda>(c, st'). (c, l, st')) (console_vprintf cpos color fmt args (snd st)))"

definition error_printf :: "int \<Rightarrow> int \<Rightarrow> u8 list \<Rightarrow> va_arg list \<Rightarrow> log_printer \<times> console_state \<Rightarrow> (int \<times> log_printer \<times> console_state) option" where
  "error_printf cpos color fmt args st = error_vprintf cpos color fmt args st"

definition error_printf_plain :: "u8 list \<Rightarrow> va_arg list \<Rightarrow> log_printer \<times> console_state \<Rightarrow> (log_printer \<times> console_state) option" where
  "error_printf_plain fmt args st = map_option snd (error_vprintf (- 1) COLOR_ERROR fmt args st)"

section \<open>Bounds\<close>

lemmas console_dims = CONSOLE_ROWS_def CONSOLE_COLUMNS_def

definition console_ok :: "'a console_state_scheme \<Rightarrow> bool" where
  "console_ok s = (length (console s) = 2000 \<and> 0 \<le> cursorpos s \<and> cursorpos s \<le> 2000 \<and> \<not> fault s)"

definition printer_ok :: "console_printer \<Rightarrow> bool" where
  "printer_ok p = (console_ok p \<and> 0 \<le> cell p \<and> cell p \<le> 2000)"

lemma scroll_loop_ok: "printer_ok p \<Longrightarrow> printer_ok (scroll_loop p) \<and> cell (scroll_loop p) < 2000"
proof (induction p rule: scroll_loop.induct)
  case (1 p)
  show ?case
  proof (cases "cell p \<ge> CONSOLE_ROWS * CONSOLE_COLUMNS")
    case True
    have "printer_ok (cp_scroll p)" using "1.prems" True
      by (auto simp: printer_ok_def console_ok_def cp_scroll_def console_dims)
    from "1.IH" [OF True this] True show ?thesis by (simp add: scroll_loop.simps [of p])
  next
    case False
    then show ?thesis using "1.prems" by (simp add: scroll_loop.simps [of p] console_dims)
  qed
qed

lemma put_cell_ok: "printer_ok p \<Longrightarrow> cell p < 2000 \<Longrightarrow> printer_ok (put_cell v p) \<and> cell (put_cell v p) = cell p + 1"
  by (auto simp: printer_ok_def console_ok_def put_cell_def console_dims)

lemma put_cells_ok: "printer_ok p \<Longrightarrow> cell p + int n \<le> 2000 \<Longrightarrow> printer_ok (put_cells n v p) \<and> cell (put_cells n v p) = cell p + int n"
proof (induction n arbitrary: p)
  case (Suc n)
  then show ?case using put_cell_ok [of p v] by auto
qed simp

lemma row_end: "0 \<le> c \<Longrightarrow> c < 2000 \<Longrightarrow> c + (80 - c mod 80) \<le> (2000 :: int) \<and> (c + (80 - c mod 80)) mod 80 = 0"
  by presburger

interpretation console_pr: printer console_putc printer_ok
proof
  fix p c color
  assume "printer_ok p"
  from scroll_loop_ok [OF this] have s: "printer_ok (scroll_loop p)" "cell (scroll_loop p) < 2000" by auto
  then have "0 \<le> cell (scroll_loop p)" by (simp add: printer_ok_def)
  from row_end [OF this s(2)] s put_cell_ok put_cells_ok show "printer_ok (console_putc c color p)"
    by (auto simp: console_putc_def Let_def)
qed

interpretation log_pr: printer log_putc port_initialized
  by unfold_locales (auto simp: log_putc_def parallel_port_putc_def Let_def)

lemma mk_console_printer_ok: "console_ok s \<Longrightarrow> printer_ok (mk_console_printer cpos scr s)"
  by (auto simp: printer_ok_def console_ok_def mk_console_printer_def Let_def console_dims)

lemma finish_printer_ok:
  "printer_ok p \<Longrightarrow> finish_printer cpos p = (pos, s') \<Longrightarrow> console_ok s' \<and> 0 \<le> pos \<and> pos \<le> 2000"
  by (auto simp: finish_printer_def move_cursor_def console_show_cursor_def outb_def console_ok_def printer_ok_def
      Let_def console_state.defs split: if_splits)

text \<open>
  No format, argument or colour makes the console printer touch memory outside the 25 by 80
  console: from a well-formed console, \<open>console_vprintf\<close> at any position (negative, inside, or past the
  end) leaves a well-formed console, returns a position between 0 and 2000 and keeps the cursor there.
\<close>

theorem console_vprintf_bounds:
  assumes "console_ok st" and "console_vprintf cpos color fmt args st = Some (pos, st')"
  shows "console_ok st' \<and> 0 \<le> pos \<and> pos \<le> 2000"
proof -
  obtain p where p: "vprintf console_putc color fmt args (mk_console_printer cpos (cpos < 0) st) = Some p"
    "finish_printer cpos p = (pos, st')" using assms(2) by (auto simp: console_vprintf_def)
  from console_pr.vprintf_invar [OF p(1) mk_console_printer_ok [OF assms(1)]] p(2) show ?thesis by (rule finish_printer_ok)
qed

definition blank_console :: console_state where
  "blank_console = \<lparr>console = replicate 2000 0, cursorpos = 2000, outb_log = [], fault = False\<rparr>"

theorem console_vprintf_bounds_witness:
  "\<exists>pos st'. console_vprintf (- 1) 0x700 [104, 10] [] blank_console = Some (pos, st') \<and> console_ok st' \<and> pos \<le> 2000"
proof -
  have ok: "console_ok blank_console" by (simp add: console_ok_def blank_console_def)
  obtain pos st' where p: "console_vprintf (- 1) 0x700 [104, 10] [] blank_console = Some (pos, st')"
    by (cases "console_vprintf (- 1) 0x700 [104, 10] [] blank_console") (auto simp: console_vprintf_def)
  from console_vprintf_bounds [OF ok p] p show ?thesis by blast
qed

section \<open>What is printed\<close>

definition cell_of :: "int \<Rightarrow> u8 \<Rightarrow> u16" where
  "cell_of color c = ucast c OR word_of_int color"

lemma put_text:
  assumes "printer_ok p" and "cell p + int (length cs) \<le> 2000" and "10 \<notin> set cs"
  shows "put_all console_putc color cs p =
    p\<lparr>console := take (nat (cell p)) (console p) @ map (cell_of color) cs @ drop (nat (cell p) + length cs) (console p),
      cell := cell p + int (length cs)\<rparr>"
  using assms
proof (induction cs arbitrary: p)
  case Nil
  then show ?case by (simp add: put_all_def)
next
  case (Cons c cs)
  have lt: "0 \<le> cell p" "cell p < 2000" "length (console p) = 2000"
    using Cons.prems by (auto simp: printer_ok_def console_ok_def)
  have sl: "scroll_loop p = p" using lt(2) by (simp add: scroll_loop.simps [of p] console_dims)
  let ?p = "put_cell (cell_of color c) p"
  have p': "?p = p\<lparr>console := (console p)[nat (cell p) := cell_of color c], cell := cell p + 1\<rparr>"
    using lt by (simp add: put_cell_def console_dims)
  have ok: "printer_ok ?p" "cell ?p = cell p + 1" using put_cell_ok [OF Cons.prems(1) lt(2)] by auto
  have "put_all console_putc color (c # cs) p = put_all console_putc color cs ?p"
    using Cons.prems(3) by (simp add: put_all_def console_putc_def sl cell_of_def)
  also have "\<dots> = ?p\<lparr>console := take (nat (cell ?p)) (console ?p) @ map (cell_of color) cs @ drop (nat (cell ?p) + length cs) (console ?p),
      cell := cell ?p + int (length cs)\<rparr>"
    using Cons.IH [OF ok(1)] Cons.prems ok(2) by simp
  also have "\<dots> = p\<lparr>console := take (nat (cell p)) (console p) @ map (cell_of color) (c # cs) @ drop (nat (cell p) + length (c # cs)) (console p),
      cell := cell p + int (length (c # cs))\<rparr>"
  proof -
    have n: "nat (cell p + 1) = Suc (nat (cell p))" "nat (cell p) < length (console p)" using lt by auto
    have "take (Suc (nat (cell p))) ((console p)[nat (cell p) := cell_of color c]) = take (nat (cell p)) (console p) @ [cell_of color c]"
      using n(2) by (simp add: take_Suc_conv_app_nth take_update_cancel)
    then show ?thesis unfolding p' by (simp add: n(1) drop_update_cancel)
  qed
  finally show ?case .
qed

text \<open>
  Text that fits appears exactly where it was put: printing \<open>cs\<close> (no newline) at position \<open>cpos\<close>
  replaces precisely the cells from \<open>cpos\<close> on by the characters in the given colour, moves neither
  cursor nor any other cell, and returns the position after the text.
\<close>

theorem console_puts_text:
  assumes "console_ok st" and "0 \<le> cpos" and "cpos + int (length cs) \<le> 2000" and "10 \<notin> set cs"
  shows "console_puts cpos color cs st = (cpos + int (length cs),
    st\<lparr>console := take (nat cpos) (console st) @ map (cell_of color) cs @ drop (nat cpos + length cs) (console st)\<rparr>)"
proof -
  let ?p = "mk_console_printer cpos False st"
  have ok: "printer_ok ?p" by (rule mk_console_printer_ok [OF assms(1)])
  have p: "?p = \<lparr>console = console st, cursorpos = cursorpos st, outb_log = outb_log st, fault = fault st, cell = cpos, scrolls = False\<rparr>"
    using assms(2,3) by (simp add: mk_console_printer_def console_dims)
  then have "cell ?p + int (length cs) \<le> 2000" using assms(3) by simp
  from put_text [OF ok this assms(4), of color] assms(2) show ?thesis
    by (simp add: console_puts_def finish_printer_def p Let_def console_state.defs)
qed

theorem console_puts_text_witness:
  "fst (console_puts (CPOS 23 10) 0x0700 [87] blank_console) = CPOS 23 11"
  using console_puts_text [of blank_console "CPOS 23 10" "[87]" "0x0700"]
  by (simp add: CPOS_def console_ok_def blank_console_def)

definition logged :: "log_printer \<Rightarrow> u8 list" where
  "logged p = map snd (filter (\<lambda>(port, _). port = 0x378) (port_log p))"

lemma logged_put_log: "logged (put_log log_putc out p) = logged p @ map fst out"
proof (induction out arbitrary: p)
  case (Cons x out)
  then show ?case by (cases x) (simp add: log_putc_def parallel_port_putc_def logged_def Let_def)
qed simp

text \<open>
  Error messages reach the log unchanged: whatever the console does, the bytes strobed out of the
  parallel port's data register are exactly the characters the format denotes, in order, after those
  already logged.
\<close>

theorem error_vprintf_logs:
  assumes "error_vprintf cpos color fmt args (l, st) = Some (pos, l', st')"
  shows "\<exists>out. formatted 0 fmt args = Some out \<and> logged l' = logged l @ map fst out"
  using assms by (auto simp: error_vprintf_def log_vprintf_def vprintf_eq logged_put_log split: option.splits)

theorem error_vprintf_logs_witness:
  "\<exists>pos l' st'. error_vprintf (- 1) COLOR_ERROR [104, 105] [] (\<lparr>port_initialized = False, port_log = []\<rparr>, blank_console) = Some (pos, l', st') \<and>
     logged l' = [104, 105]"
proof -
  obtain pos l' st' where e: "error_vprintf (- 1) COLOR_ERROR [104, 105] [] (\<lparr>port_initialized = False, port_log = []\<rparr>, blank_console) = Some (pos, l', st')"
    by (cases "error_vprintf (- 1) COLOR_ERROR [104, 105] [] (\<lparr>port_initialized = False, port_log = []\<rparr>, blank_console)")
       (auto simp: error_vprintf_def log_vprintf_def console_vprintf_def)
  from error_vprintf_logs [OF e] e show ?thesis by (auto simp: logged_def)
qed

end
