(* ===== verification/X86.thy ===== *)
theory X86
  imports CString
begin

unbundle bit_operations_syntax

text \<open>
  The machine level of the kernel: constants, page geometry, registers and descriptors of
  \<open>weensyos/x86-64.h\<close> and \<open>kernel.hh\<close>, 64-bit little-endian accesses to byte memory, and the descriptor
  encoders of \<open>weensyos/k-hardware.cc\<close>.
\<close>

section \<open>Constants\<close>

definition PAGEOFFBITS :: nat where "PAGEOFFBITS = 12"
definition PAGEINDEXBITS :: nat where "PAGEINDEXBITS = 9"
definition PAGESIZE :: u64 where "PAGESIZE = push_bit PAGEOFFBITS 1"
definition PAGEOFFMASK :: u64 where "PAGEOFFMASK = PAGESIZE - 1"
definition PTE_P :: u64 where "PTE_P = 0x1"
definition PTE_W :: u64 where "PTE_W = 0x2"
definition PTE_U :: u64 where "PTE_U = 0x4"
definition PTE_PS :: u64 where "PTE_PS = 0x80"
definition PTE_PAMASK :: u64 where "PTE_PAMASK = 0x000FFFFFFFFFF000"
definition VA_LOWMAX :: u64 where "VA_LOWMAX = 0x00007FFFFFFFFFFF"
definition VA_LOWEND :: u64 where "VA_LOWEND = 0x0000800000000000"
definition VA_HIGHMIN :: u64 where "VA_HIGHMIN = 0xFFFF800000000000"
definition VA_NONCANONMAX :: u64 where "VA_NONCANONMAX = 0x0000FFFFFFFFFFFF"

lemmas page_consts = PAGEOFFBITS_def PAGEINDEXBITS_def PAGESIZE_def PAGEOFFMASK_def
lemmas pte_consts = PTE_P_def PTE_W_def PTE_U_def PTE_PS_def PTE_PAMASK_def

section \<open>Parts of an address\<close>

definition pageindex :: "u64 \<Rightarrow> nat \<Rightarrow> u64" where
  "pageindex addr level = drop_bit (PAGEOFFBITS + level * PAGEINDEXBITS) addr AND 0x1FF"

definition pageoffmask :: "nat \<Rightarrow> u64" where
  "pageoffmask level = push_bit (PAGEOFFBITS + level * PAGEINDEXBITS) 1 - 1"

definition pageoffset :: "u64 \<Rightarrow> nat \<Rightarrow> u64" where
  "pageoffset addr level = addr AND pageoffmask level"

definition va_is_canonical :: "u64 \<Rightarrow> bool" where
  "va_is_canonical va = (va \<le> VA_LOWMAX \<or> va \<ge> VA_HIGHMIN)"

section \<open>Registers\<close>

record regstate =
  reg_rax :: u64
  reg_rcx :: u64
  reg_rdx :: u64
  reg_rbx :: u64
  reg_rbp :: u64
  reg_rsi :: u64
  reg_rdi :: u64
  reg_r8 :: u64
  reg_r9 :: u64
  reg_r10 :: u64
  reg_r11 :: u64
  reg_r12 :: u64
  reg_r13 :: u64
  reg_r14 :: u64
  reg_r15 :: u64
  reg_fs :: u64
  reg_gs :: u64
  reg_intno :: u32
  reg_swapgs :: u32
  reg_errcode :: u64
  reg_rip :: u64
  reg_cs :: u64
  reg_rflags :: u64
  reg_rsp :: u64
  reg_ss :: u64

definition zero_regs :: regstate where
  "zero_regs = \<lparr>reg_rax = 0, reg_rcx = 0, reg_rdx = 0, reg_rbx = 0, reg_rbp = 0, reg_rsi = 0, reg_rdi = 0,
     reg_r8 = 0, reg_r9 = 0, reg_r10 = 0, reg_r11 = 0, reg_r12 = 0, reg_r13 = 0, reg_r14 = 0, reg_r15 = 0,
     reg_fs = 0, reg_gs = 0, reg_intno = 0, reg_swapgs = 0, reg_errcode = 0, reg_rip = 0, reg_cs = 0,
     reg_rflags = 0, reg_rsp = 0, reg_ss = 0\<rparr>"

section \<open>Words in memory\<close>

definition read64 :: "memory \<Rightarrow> u64 \<Rightarrow> u64" where
  "read64 m a = ucast (m a) OR push_bit 8 (ucast (m (a + 1))) OR push_bit 16 (ucast (m (a + 2))) OR
     push_bit 24 (ucast (m (a + 3))) OR push_bit 32 (ucast (m (a + 4))) OR push_bit 40 (ucast (m (a + 5))) OR
     push_bit 48 (ucast (m (a + 6))) OR push_bit 56 (ucast (m (a + 7)))"

definition write64 :: "u64 \<Rightarrow> u64 \<Rightarrow> memory \<Rightarrow> memory" where
  "write64 a v m = m(a := ucast v, a + 1 := ucast (drop_bit 8 v), a + 2 := ucast (drop_bit 16 v),
     a + 3 := ucast (drop_bit 24 v), a + 4 := ucast (drop_bit 32 v), a + 5 := ucast (drop_bit 40 v),
     a + 6 := ucast (drop_bit 48 v), a + 7 := ucast (drop_bit 56 v))"

section \<open>Descriptors\<close>

definition X86SEG_S :: u64 where "X86SEG_S = push_bit 44 1"
definition X86SEG_P :: u64 where "X86SEG_P = push_bit 47 1"
definition X86SEG_L :: u64 where "X86SEG_L = push_bit 53 1"
definition X86SEG_W :: u64 where "X86SEG_W = push_bit 40 2"
definition X86SEG_X :: u64 where "X86SEG_X = push_bit 40 8"
definition X86SEG_TSS :: u64 where "X86SEG_TSS = push_bit 40 9"
definition X86GATE_INTERRUPT :: u32 where "X86GATE_INTERRUPT = 0xE"
definition SEGSEL_KERN_CODE :: u64 where "SEGSEL_KERN_CODE = 0x8"
definition SEGSEL_KERN_DATA :: u64 where "SEGSEL_KERN_DATA = 0x10"
definition SEGSEL_APP_CODE :: u64 where "SEGSEL_APP_CODE = 0x18"
definition SEGSEL_APP_DATA :: u64 where "SEGSEL_APP_DATA = 0x20"
definition SEGSEL_TASKSTATE :: u64 where "SEGSEL_TASKSTATE = 0x28"
definition INT_BP :: nat where "INT_BP = 3"

lemmas seg_consts = X86SEG_S_def X86SEG_P_def X86SEG_L_def X86SEG_W_def X86SEG_X_def X86SEG_TSS_def
  X86GATE_INTERRUPT_def SEGSEL_KERN_CODE_def SEGSEL_KERN_DATA_def SEGSEL_APP_CODE_def SEGSEL_APP_DATA_def
  SEGSEL_TASKSTATE_def

text \<open>Privilege levels and types are small non-negative \<open>int\<close>s; they enter as words.\<close>

definition set_app_segment :: "u64 \<Rightarrow> u64 \<Rightarrow> u64" where
  "set_app_segment ty dpl = ty OR X86SEG_S OR push_bit 45 dpl OR X86SEG_P"

definition set_sys_segment :: "u64 \<Rightarrow> u64 \<Rightarrow> u64 \<Rightarrow> u64 \<Rightarrow> u64 \<times> u64" where
  "set_sys_segment addr sz ty dpl =
     (push_bit 16 (addr AND 0x0000000000FFFFFF) OR push_bit 32 (addr AND 0x00000000FF000000) OR
      ((sz - 1) AND 0x0FFFF) OR push_bit 48 ((sz - 1) AND 0xF0000) OR ty OR push_bit 45 dpl OR X86SEG_P,
      drop_bit 32 addr)"

record gatedescriptor =
  gd_low :: u64
  gd_high :: u64

definition set_gate :: "u64 \<Rightarrow> u32 \<Rightarrow> u32 \<Rightarrow> u32 \<Rightarrow> gatedescriptor option" where
  "set_gate addr ty dpl ist =
     (if ty < 16 \<and> dpl < 4 \<and> ist < 8 then
        Some \<lparr>gd_low = (addr AND 0x000000000000FFFF) OR push_bit 16 SEGSEL_KERN_CODE OR push_bit 32 (ucast ist) OR
                push_bit 40 (ucast ty) OR push_bit 45 (ucast dpl) OR X86SEG_P OR push_bit 32 (addr AND 0x00000000FFFF0000),
              gd_high = drop_bit 32 addr\<rparr>
      else None)"

text \<open>
  The seven segments \<open>init_kernel_memory\<close> builds; \<open>taskstate\<close> is the address of the task state, whose
  size is 104.
\<close>

definition kernel_gdt_segments :: "u64 \<Rightarrow> u64 list" where
  "kernel_gdt_segments taskstate =
     [0, set_app_segment (X86SEG_X OR X86SEG_L) 0, set_app_segment X86SEG_W 0,
      set_app_segment (X86SEG_X OR X86SEG_L) 3, set_app_segment X86SEG_W 3,
      fst (set_sys_segment taskstate 104 X86SEG_TSS 0), snd (set_sys_segment taskstate 104 X86SEG_TSS 0)]"

text \<open>\<open>init_interrupts\<close>: rewriting the 256 handler addresses; only the breakpoint is open to user mode.\<close>

definition init_gate :: "nat \<Rightarrow> u64 \<Rightarrow> gatedescriptor option" where
  "init_gate i addr = set_gate addr X86GATE_INTERRUPT (if i = INT_BP then 3 else 0) 0"

definition init_interrupt_descriptors :: "u64 list \<Rightarrow> gatedescriptor option list" where
  "init_interrupt_descriptors addrs = map (\<lambda>(i, a). init_gate i a) (enumerate 0 addrs)"

section \<open>Reading and writing words\<close>

lemma bit_ucast_byte: "bit (ucast (b :: u8) :: u64) n \<longleftrightarrow> n < 8 \<and> bit b n"
  by (auto simp: bit_simps dest: bit_imp_le_length)

lemma byte_at: "i < 8 \<Longrightarrow> k < 8 \<Longrightarrow> j < 8 \<Longrightarrow> bit (push_bit (8 * i) (ucast (b :: u8)) :: u64) (8 * k + j) \<longleftrightarrow> i = k \<and> bit b j"
proof -
  assume a: "i < 8" "k < 8" "j < 8"
  have "8 * i \<le> 8 * k + j \<and> 8 * k + j - 8 * i < 8 \<longleftrightarrow> i = k" using a(3) by arith
  then show ?thesis using a by (auto simp: bit_push_bit_iff bit_ucast_byte)
qed

lemma read64_byte:
  assumes "k < 8" "j < 8"
  shows "bit (read64 m a) (8 * k + j) = bit (m (a + word_of_nat k)) j"
proof -
  note b = byte_at [OF _ assms]
  have b0: "bit (ucast (m a) :: u64) (8 * k + j) \<longleftrightarrow> 0 = k \<and> bit (m a) j" using b [of 0 "m a"] by simp
  have b1: "bit (push_bit 8 (ucast c) :: u64) (8 * k + j) \<longleftrightarrow> 1 = k \<and> bit c j" for c :: u8 using b [of 1 c] by simp
  have b2: "bit (push_bit 16 (ucast c) :: u64) (8 * k + j) \<longleftrightarrow> 2 = k \<and> bit c j" for c :: u8 using b [of 2 c] by simp
  have b3: "bit (push_bit 24 (ucast c) :: u64) (8 * k + j) \<longleftrightarrow> 3 = k \<and> bit c j" for c :: u8 using b [of 3 c] by simp
  have b4: "bit (push_bit 32 (ucast c) :: u64) (8 * k + j) \<longleftrightarrow> 4 = k \<and> bit c j" for c :: u8 using b [of 4 c] by simp
  have b5: "bit (push_bit 40 (ucast c) :: u64) (8 * k + j) \<longleftrightarrow> 5 = k \<and> bit c j" for c :: u8 using b [of 5 c] by simp
  have b6: "bit (push_bit 48 (ucast c) :: u64) (8 * k + j) \<longleftrightarrow> 6 = k \<and> bit c j" for c :: u8 using b [of 6 c] by simp
  have b7: "bit (push_bit 56 (ucast c) :: u64) (8 * k + j) \<longleftrightarrow> 7 = k \<and> bit c j" for c :: u8 using b [of 7 c] by simp
  note e = read64_def bit_or_iff b0 b1 b2 b3 b4 b5 b6 b7
  have "k \<in> {0, 1, 2, 3, 4, 5, 6, 7}" using assms(1) by auto
  then show ?thesis unfolding e by (elim insertE emptyE) simp_all
qed

lemma write64_byte:
  assumes "k < 8"
  shows "write64 a v m (a + word_of_nat k) = ucast (drop_bit (8 * k) v)"
proof -
  have "k \<in> {0, 1, 2, 3, 4, 5, 6, 7}" using assms by auto
  then show ?thesis by (elim insertE emptyE) (simp_all add: write64_def)
qed

lemma word64_eq_bytes:
  assumes "\<And>k j. k < 8 \<Longrightarrow> j < 8 \<Longrightarrow> bit v (8 * k + j) = bit (w :: u64) (8 * k + j)"
  shows "v = w"
proof (rule bit_word_eqI)
  fix n assume "n < LENGTH(64)"
  then show "bit v n = bit w n" using assms [of "n div 8" "n mod 8"] by simp
qed

lemma read64_write64 [simp]: "read64 (write64 a v m) a = v"
proof (rule word64_eq_bytes)
  fix k j :: nat assume kj: "k < 8" "j < 8"
  then show "bit (read64 (write64 a v m) a) (8 * k + j) = bit v (8 * k + j)"
    by (simp add: read64_byte write64_byte bit_unsigned_iff bit_drop_bit_eq)
qed

lemma read64_cong:
  assumes "\<And>k. k < 8 \<Longrightarrow> m (a + word_of_nat k) = m' (a + word_of_nat k)"
  shows "read64 m a = read64 m' a"
  using assms by (intro word64_eq_bytes) (simp add: read64_byte)

lemma write64_other:
  assumes "\<And>k. k < 8 \<Longrightarrow> p \<noteq> a + word_of_nat k"
  shows "write64 a v m p = m p"
  using assms [of 0] assms [of 1] assms [of 2] assms [of 3] assms [of 4] assms [of 5] assms [of 6] assms [of 7]
  by (simp add: write64_def)

section \<open>Descriptors round-trip\<close>

definition gate_addr :: "gatedescriptor \<Rightarrow> u64" where
  "gate_addr g = take_bit 16 (gd_low g) OR push_bit 16 (take_bit 16 (drop_bit 48 (gd_low g))) OR push_bit 32 (gd_high g)"

definition gate_field :: "nat \<Rightarrow> nat \<Rightarrow> gatedescriptor \<Rightarrow> u64" where
  "gate_field pos w g = take_bit w (drop_bit pos (gd_low g))"

lemma masks: "(0xFFFF :: u64) = mask 16" "(0x00000000FFFF0000 :: u64) = push_bit 16 (mask 16)" "(0xF0000 :: u64) = push_bit 16 (mask 4)"
  by (simp_all add: mask_eq_exp_minus_1)

lemma small_bits:
  "(ty :: u32) < 16 \<Longrightarrow> bit ty n \<Longrightarrow> n < 4" "(dpl :: u32) < 4 \<Longrightarrow> bit dpl n \<Longrightarrow> n < 2" "(ist :: u32) < 8 \<Longrightarrow> bit ist n \<Longrightarrow> n < 3"
  using bit_below [of ty n 4] bit_below [of dpl n 2] bit_below [of ist n 3] by (simp_all add: word_less_nat_alt)

lemma gate_low_bit:
  assumes "set_gate addr ty dpl ist = Some g"
  shows "bit (gd_low g) n \<longleftrightarrow> n < 64 \<and>
    (n < 16 \<and> bit addr n \<or> n = 19 \<or> 32 \<le> n \<and> n < 35 \<and> bit ist (n - 32) \<or> 40 \<le> n \<and> n < 44 \<and> bit ty (n - 40) \<or>
     45 \<le> n \<and> n < 47 \<and> bit dpl (n - 45) \<or> n = 47 \<or> 48 \<le> n \<and> bit addr (n - 32))"
proof -
  have b: "ty < 16" "dpl < 4" "ist < 8" using assms by (auto simp: set_gate_def split: if_splits)
  have kc: "push_bit 16 SEGSEL_KERN_CODE = push_bit 19 (1 :: u64)" by (simp add: SEGSEL_KERN_CODE_def)
  have low: "gd_low g = (addr AND mask 16) OR push_bit 19 1 OR push_bit 32 (ucast ist) OR push_bit 40 (ucast ty) OR
     push_bit 45 (ucast dpl) OR push_bit 47 1 OR push_bit 32 (addr AND push_bit 16 (mask 16))"
    using assms by (auto simp: set_gate_def kc X86SEG_P_def masks split: if_splits)
  have p1: "bit (push_bit k (1 :: u64)) n \<longleftrightarrow> n = k" if "k < 64" for k
    using that by (auto simp: bit_push_bit_iff bit_1_iff simp del: push_bit_of_1)
  have f: "bit (push_bit k (ucast (x :: u32)) :: u64) n \<longleftrightarrow> k \<le> n \<and> n < k + w \<and> bit x (n - k)"
    if "\<And>n. bit x n \<Longrightarrow> n < w" "k + w \<le> 64" for k w x
    using that(1) [of "n - k"] that(2) by (auto simp: bit_push_bit_iff bit_unsigned_iff dest: bit_imp_le_length)
  have lo: "bit (addr AND mask 16) n \<longleftrightarrow> n < 16 \<and> bit addr n" by (auto simp: bit_and_iff bit_mask_iff)
  have hi: "bit (push_bit 32 (addr AND push_bit 16 (mask 16))) n \<longleftrightarrow> n < 64 \<and> 48 \<le> n \<and> bit addr (n - 32)"
    by (auto simp: bit_push_bit_iff bit_and_iff bit_mask_iff)
  have fi: "bit (push_bit 32 (ucast ist) :: u64) n \<longleftrightarrow> 32 \<le> n \<and> n < 32 + 3 \<and> bit ist (n - 32)"
    by (rule f) (rule small_bits(3) [OF b(3)], assumption, simp)
  have ft: "bit (push_bit 40 (ucast ty) :: u64) n \<longleftrightarrow> 40 \<le> n \<and> n < 40 + 4 \<and> bit ty (n - 40)"
    by (rule f) (rule small_bits(1) [OF b(1)], assumption, simp)
  have fd: "bit (push_bit 45 (ucast dpl) :: u64) n \<longleftrightarrow> 45 \<le> n \<and> n < 45 + 2 \<and> bit dpl (n - 45)"
    by (rule f) (rule small_bits(2) [OF b(2)], assumption, simp)
  have c: "bit (gd_low g) n \<longleftrightarrow> n < 16 \<and> bit addr n \<or> n = 19 \<or> 32 \<le> n \<and> n < 32 + 3 \<and> bit ist (n - 32) \<or>
      40 \<le> n \<and> n < 40 + 4 \<and> bit ty (n - 40) \<or> 45 \<le> n \<and> n < 45 + 2 \<and> bit dpl (n - 45) \<or> n = 47 \<or>
      n < 64 \<and> 48 \<le> n \<and> bit addr (n - 32)"
    unfolding low bit_or_iff lo hi fi ft fd by (subst p1, simp)+ (simp only: disj_assoc)
  show ?thesis unfolding c by auto
qed

text \<open>
  Interrupt gates round-trip: whatever the handler's address, the descriptor written by \<open>set_gate\<close>
  yields that address back, names the kernel code segment, is present, and carries exactly the given
  type, privilege level and stack index; other arguments fail the assertion.
\<close>

theorem set_gate_roundtrip:
  "(set_gate addr ty dpl ist = None \<longleftrightarrow> \<not> (ty < 16 \<and> dpl < 4 \<and> ist < 8)) \<and>
   (\<forall>g. set_gate addr ty dpl ist = Some g \<longrightarrow>
     gate_addr g = addr \<and> gate_field 16 16 g = SEGSEL_KERN_CODE \<and> gate_field 47 1 g = 1 \<and>
     gate_field 40 4 g = ucast ty \<and> gate_field 45 2 g = ucast dpl \<and> gate_field 32 3 g = ucast ist)"
proof (intro conjI allI impI)
  show "set_gate addr ty dpl ist = None \<longleftrightarrow> \<not> (ty < 16 \<and> dpl < 4 \<and> ist < 8)" by (simp add: set_gate_def)
  fix g assume g: "set_gate addr ty dpl ist = Some g"
  then have b: "ty < 16" "dpl < 4" "ist < 8" "gd_high g = drop_bit 32 addr" by (auto simp: set_gate_def split: if_splits)
  note gl = gate_low_bit [OF g]
  show "gate_addr g = addr"
  proof (rule bit_word_eqI)
    fix n assume "n < LENGTH(64)"
    then show "bit (gate_addr g) n = bit addr n"
      by (cases "n < 16"; cases "n < 32") (auto simp: gate_addr_def bit_or_iff bit_take_bit_iff bit_push_bit_iff bit_drop_bit_eq gl b(4))
  qed
  have field: "bit (gate_field pos w g) n \<longleftrightarrow> n < w \<and> bit (gd_low g) (pos + n)" for pos w n
    by (auto simp: gate_field_def bit_take_bit_iff bit_drop_bit_eq)
  have k: "SEGSEL_KERN_CODE = push_bit 3 1" by (simp add: SEGSEL_KERN_CODE_def)
  show "gate_field 16 16 g = SEGSEL_KERN_CODE" unfolding k
    by (rule bit_word_eqI) (auto simp: field gl bit_push_bit_iff bit_1_iff simp del: push_bit_of_1)
  show "gate_field 47 1 g = 1" by (rule bit_word_eqI) (auto simp: field gl bit_1_iff)
  show "gate_field 40 4 g = ucast ty" using small_bits(1) [OF b(1)]
    by (intro bit_word_eqI) (fastforce simp: field gl bit_unsigned_iff)
  show "gate_field 45 2 g = ucast dpl" using small_bits(2) [OF b(2)]
    by (intro bit_word_eqI) (fastforce simp: field gl bit_unsigned_iff)
  show "gate_field 32 3 g = ucast ist" using small_bits(3) [OF b(3)]
    by (intro bit_word_eqI) (fastforce simp: field gl bit_unsigned_iff)
qed

theorem set_gate_roundtrip_witness:
  "\<exists>g. set_gate 0x0000000000041234 X86GATE_INTERRUPT 3 0 = Some g \<and> gate_addr g = 0x41234 \<and> gate_field 45 2 g = 3"
proof -
  obtain g where g: "set_gate 0x41234 X86GATE_INTERRUPT 3 0 = Some g" by (simp add: set_gate_def X86GATE_INTERRUPT_def)
  from set_gate_roundtrip [of "0x41234" X86GATE_INTERRUPT 3 0] g have "gate_addr g = 0x41234 \<and> gate_field 45 2 g = ucast (3 :: u32)"
    by blast
  with g show ?thesis by simp
qed

lemma take_bit_16_add: "take_bit 16 (x + 0x10000) = take_bit 16 (x :: u64)"
proof -
  have "unat (take_bit 16 (x + 0x10000)) = (unat x + 0x10000) mod 2 ^ 64 mod 2 ^ 16"
    by (simp add: unsigned_take_bit_eq take_bit_eq_mod unat_word_ariths)
  also have "\<dots> = unat (take_bit 16 x)" by (simp only: unsigned_take_bit_eq) (simp add: take_bit_eq_mod mod_mod_cancel)
  finally show ?thesis by (rule unsigned_word_eqI)
qed

text \<open>
  System segment descriptors lose the upper four bits of their limit: sizes that differ by 64 KiB
  are encoded identically, because those bits are shifted by 48 instead of 32 and fall off the word.
\<close>

theorem set_sys_segment_drops_limit:
  "set_sys_segment addr (sz + 0x10000) ty dpl = set_sys_segment addr sz ty dpl"
proof -
  have "push_bit 48 (x AND 0xF0000) = (0 :: u64)" for x
    unfolding masks by (rule bit_word_eqI) (auto simp: bit_push_bit_iff bit_and_iff bit_mask_iff)
  moreover have "(sz + 0x10000 - 1) AND 0xFFFF = (sz - 1) AND 0xFFFF"
  proof -
    have "take_bit 16 (sz - 1 + 0x10000) = take_bit 16 (sz - 1)" by (rule take_bit_16_add)
    then show ?thesis unfolding masks by (simp add: take_bit_eq_mask [symmetric] algebra_simps)
  qed
  ultimately show ?thesis by (simp add: set_sys_segment_def)
qed

end
