(* ===== verification/Vmiter.thy ===== *)
theory Vmiter
  imports X86
begin

unbundle bit_operations_syntax

text \<open>
  The page-table iterators of \<open>weensyos/k-vmiter.{hh,cc}\<close>. \<open>vmiter\<close> walks virtual addresses and caches how
  far the previous walk got; \<open>ptiter\<close> walks page-table pages. Page tables live in byte memory; the
  entry pointer is either the shared constant zero entry or an address. A panic, a failed assertion and
  a write to the constant entry are errors.
\<close>

section \<open>vmiter\<close>

datatype pep = ZeroPE | Entry u64

datatype vm_error = VmPanic | VmAssert | VmFault

record vmiter =
  vm_pt :: u64
  pep :: pep
  level :: nat
  vperm :: u64
  cur_va :: u64

definition initial_perm :: u64 where
  "initial_perm = 0xFFF"

fun deref :: "memory \<Rightarrow> pep \<Rightarrow> u64" where
  "deref m ZeroPE = 0"
| "deref m (Entry a) = read64 m a"

text \<open>\<open>&pt->entry[i]\<close>\<close>

definition entry_addr :: "u64 \<Rightarrow> u64 \<Rightarrow> pep" where
  "entry_addr table i = Entry (table + 8 * i)"

fun descend :: "memory \<Rightarrow> u64 \<Rightarrow> nat \<Rightarrow> pep \<Rightarrow> u64 \<Rightarrow> nat \<times> pep \<times> u64" where
  "descend m va 0 p perm = (0, p, perm)"
| "descend m va (Suc l) p perm =
     (if deref m p AND (PTE_P OR PTE_PS) = PTE_P
      then descend m va l (entry_addr (deref m p AND PTE_PAMASK) (pageindex va l)) (perm AND deref m p)
      else (Suc l, p, perm))"

lemma descend_level: "descend m va l p perm = (L, p', perm') \<Longrightarrow> L \<le> l"
proof (induction l arbitrary: p perm)
  case (Suc l)
  then show ?case by (fastforce split: if_splits)
qed simp

definition down :: "memory \<Rightarrow> vmiter \<Rightarrow> vm_error + vmiter" where
  "down m it =
     (let (l, p, perm) = descend m (cur_va it) (level it) (pep it) (vperm it)
      in if deref m p AND PTE_PAMASK \<ge> 0x100000000 then Inl VmPanic
         else Inr (it\<lparr>level := l, pep := p, vperm := perm\<rparr>))"

definition real_find :: "memory \<Rightarrow> u64 \<Rightarrow> vmiter \<Rightarrow> vm_error + vmiter" where
  "real_find m va it =
     (let it = (if level it = 3 \<or> (cur_va it XOR va) AND NOT (pageoffmask (level it + 1)) \<noteq> 0 then
                  if va_is_canonical va
                  then it\<lparr>level := 3, vperm := initial_perm, pep := entry_addr (vm_pt it) (pageindex va 3)\<rparr>
                  else it\<lparr>level := 3, vperm := 0, pep := ZeroPE\<rparr>
                else
                  case pep it of
                    Entry a \<Rightarrow>
                      let curidx = drop_bit 3 (a AND PAGEOFFMASK)
                      in it\<lparr>pep := Entry (a + 8 * (pageindex va (level it) - curidx))\<rparr>
                  | ZeroPE \<Rightarrow> it)
      in down m (it\<lparr>cur_va := va\<rparr>))"

definition mk_vmiter :: "memory \<Rightarrow> u64 \<Rightarrow> u64 \<Rightarrow> vm_error + vmiter" where
  "mk_vmiter m tbl va = real_find m va \<lparr>vm_pt = tbl, pep = entry_addr tbl 0, level = 3, vperm = initial_perm, cur_va = 0\<rparr>"

definition last_va :: "vmiter \<Rightarrow> u64" where
  "last_va it = (cur_va it OR pageoffmask (level it)) + 1"

definition vm_low :: "vmiter \<Rightarrow> bool" where
  "vm_low it = (cur_va it \<le> VA_LOWMAX)"

definition vm_pa :: "memory \<Rightarrow> vmiter \<Rightarrow> u64" where
  "vm_pa m it =
     (if deref m (pep it) AND PTE_P \<noteq> 0 then
        let a = deref m (pep it) AND PTE_PAMASK;
            a = (if level it > 0 then a AND NOT 0x1000 else a)
        in a + (cur_va it AND pageoffmask (level it))
      else - 1)"

definition vm_perm :: "memory \<Rightarrow> vmiter \<Rightarrow> u64" where
  "vm_perm m it = (if deref m (pep it) AND PTE_P \<noteq> 0 then deref m (pep it) AND vperm it else 0)"

definition has_perm :: "memory \<Rightarrow> vmiter \<Rightarrow> u64 \<Rightarrow> bool" where
  "has_perm m it p = (deref m (pep it) AND vperm it AND p = p)"

definition vm_present :: "memory \<Rightarrow> vmiter \<Rightarrow> bool" where
  "vm_present m it = (deref m (pep it) AND PTE_P \<noteq> 0)"

definition vm_writable :: "memory \<Rightarrow> vmiter \<Rightarrow> bool" where
  "vm_writable m it = has_perm m it (PTE_P OR PTE_W)"

definition vm_user :: "memory \<Rightarrow> vmiter \<Rightarrow> bool" where
  "vm_user m it = has_perm m it (PTE_P OR PTE_U)"

definition vm_find :: "memory \<Rightarrow> u64 \<Rightarrow> vmiter \<Rightarrow> vm_error + vmiter" where
  "vm_find m va it = real_find m va it"

definition advance :: "memory \<Rightarrow> u64 \<Rightarrow> vmiter \<Rightarrow> vm_error + vmiter" where
  "advance m delta it = vm_find m (cur_va it + delta) it"

definition retreat :: "memory \<Rightarrow> u64 \<Rightarrow> vmiter \<Rightarrow> vm_error + vmiter" where
  "retreat m delta it = vm_find m (cur_va it - delta) it"

definition next_va :: "memory \<Rightarrow> vmiter \<Rightarrow> vm_error + vmiter" where
  "next_va m it =
     (let l = (if level it > 0 \<and> vm_perm m it = 0 then level it else 0)
      in real_find m ((cur_va it OR pageoffmask l) + 1) it)"

definition next_range :: "memory \<Rightarrow> vmiter \<Rightarrow> vm_error + vmiter" where
  "next_range m it = real_find m (last_va it) it"

text \<open>
  \<open>perm(last_va, p)\<close>: a loop over ranges; it may not end (the address wraps at the top of memory), so
  it is partial.
\<close>

partial_function (option) range_perm :: "memory \<Rightarrow> u64 \<Rightarrow> u64 \<Rightarrow> vmiter \<Rightarrow> (vm_error + bool) option" where
  "range_perm m lva p it =
     (if cur_va it < lva then
        if \<not> has_perm m it p then Some (Inr False)
        else case next_range m it of Inl e \<Rightarrow> Some (Inl e) | Inr it' \<Rightarrow> range_perm m lva p it'
      else Some (Inr True))"

definition low_perm :: "memory \<Rightarrow> u64 \<Rightarrow> u64 \<Rightarrow> u64 \<Rightarrow> vmiter \<Rightarrow> (vm_error + bool) option" where
  "low_perm m first sz p it =
     (if \<not> (first \<le> VA_LOWEND \<and> sz \<le> VA_LOWEND - first) then Some (Inr False)
      else if sz = 0 then Some (Inr True)
      else case vm_find m first it of Inl e \<Rightarrow> Some (Inl e) | Inr it' \<Rightarrow> range_perm m (first + sz) p it')"

text \<open>
  \<open>try_map\<close> with the page allocator as a parameter: \<open>kalloc\<close> takes its own state and the memory and
  returns a page (or 0) with both updated. The loop ends: a turn that goes on leaves a present entry where the
  iterator was, so either the walk gets past it to a lower level or the next turn's assertion fails.
\<close>

function map_loop :: "('s \<Rightarrow> memory \<Rightarrow> u64 \<times> 's \<times> memory) \<Rightarrow> 's \<Rightarrow> memory \<Rightarrow> vmiter \<Rightarrow> vm_error + bool \<times> 's \<times> memory \<times> vmiter" where
  "map_loop kalloc s m it =
     (if level it > 0 then
        if deref m (pep it) AND PTE_P \<noteq> 0 then Inl VmAssert
        else
          let (tbl, s, m) = kalloc s m
          in if tbl = 0 then Inr (False, s, m, it)
             else
               let m = snd (memset tbl 0 PAGESIZE m)
               in case pep it of
                    ZeroPE \<Rightarrow> Inl VmFault
                  | Entry a \<Rightarrow>
                      let m = write64 a (tbl OR PTE_P OR PTE_W OR PTE_U) m
                      in case down m it of Inl e \<Rightarrow> Inl e | Inr it' \<Rightarrow> map_loop kalloc s m it'
      else Inr (True, s, m, it))"
  by pat_completeness auto

termination
proof (relation "measure (\<lambda>(kalloc, s, m, it). 2 * level it + (if deref m (pep it) AND PTE_P = 0 then 1 else 0))", simp)
  fix kalloc :: "'s \<Rightarrow> memory \<Rightarrow> u64 \<times> 's \<times> memory" and s s' s1 :: 's and m m' m1 m2 m3 :: memory and it it' :: vmiter and x y tbl a :: u64
  assume l: "0 < level it" and np: "\<not> deref m (pep it) AND PTE_P \<noteq> 0" and a: "pep it = Entry a"
    and m3: "m3 = write64 a (tbl OR PTE_P OR PTE_W OR PTE_U) m2" and d: "down m3 it = Inr it'"
  have P: "deref m3 (pep it) AND PTE_P \<noteq> 0"
    by (simp add: a m3 bit.conj_disj_distrib2 or_eq_0_iff PTE_P_def)
  obtain L p q where ds: "descend m3 (cur_va it) (level it) (pep it) (vperm it) = (L, p, q)" by (metis prod_cases3)
  with d have it': "level it' = L" "pep it' = p" by (auto simp: down_def split: if_splits)
  have "L < level it \<or> (L = level it \<and> p = pep it)"
    using ds descend_level [of m3 "cur_va it" "level it - 1"] l by (cases "level it") (fastforce split: if_splits)+
  with it' P np show "((kalloc, s', m3, it'), kalloc, s, m, it) \<in> measure (\<lambda>(kalloc, s, m, it). 2 * level it + (if deref m (pep it) AND PTE_P = 0 then 1 else 0))"
    by auto
qed

declare map_loop.simps [simp del]

definition try_map :: "('s \<Rightarrow> memory \<Rightarrow> u64 \<times> 's \<times> memory) \<Rightarrow> u64 \<Rightarrow> u64 \<Rightarrow> 's \<Rightarrow> memory \<Rightarrow> vmiter \<Rightarrow> vm_error + int \<times> 's \<times> memory \<times> vmiter" where
  "try_map kalloc pa perm s m it =
     (let pa = (if pa = - 1 \<and> perm = 0 then 0 else pa)
      in if cur_va it AND PAGEOFFMASK \<noteq> 0 then Inl VmAssert
         else if perm AND PTE_P \<noteq> 0 \<and> (pa = - 1 \<or> pa AND PTE_PAMASK \<noteq> pa) then Inl VmAssert
         else if perm AND PTE_P = 0 \<and> pa AND PTE_P \<noteq> 0 then Inl VmAssert
         else if perm AND NOT (vperm it) AND (PTE_P OR PTE_W OR PTE_U) \<noteq> 0 then Inl VmAssert
         else
           case (if perm \<noteq> 0 then map_loop kalloc s m it else Inr (True, s, m, it)) of
             Inl e \<Rightarrow> Inl e
           | Inr (ok, s, m, it) \<Rightarrow>
               if \<not> ok then Inr (- 1, s, m, it)
               else if level it = 0 then
                 (case pep it of Entry a \<Rightarrow> Inr (0, s, write64 a (pa OR perm) m, it) | ZeroPE \<Rightarrow> Inl VmFault)
               else Inr (0, s, m, it))"

definition vm_map :: "('s \<Rightarrow> memory \<Rightarrow> u64 \<times> 's \<times> memory) \<Rightarrow> u64 \<Rightarrow> u64 \<Rightarrow> 's \<Rightarrow> memory \<Rightarrow> vmiter \<Rightarrow> vm_error + 's \<times> memory \<times> vmiter" where
  "vm_map kalloc pa perm s m it =
     (case try_map kalloc pa perm s m it of
        Inl e \<Rightarrow> Inl e
      | Inr (r, s, m, it) \<Rightarrow> if r = 0 then Inr (s, m, it) else Inl VmAssert)"

section \<open>ptiter\<close>

record ptiter =
  pti_pt :: u64
  pti_pep :: u64
  pti_level :: nat
  pti_va :: u64

text \<open>
  The loop of \<open>ptiter::down\<close>. Page tables with cycles could keep it running for very long, so it is
  partial; \<open>level_\<close> below 1 is never reached from level 3 with \<open>stop_level\<close> at least 1.
\<close>

partial_function (option) pti_down :: "memory \<Rightarrow> nat \<Rightarrow> bool \<Rightarrow> ptiter \<Rightarrow> ptiter option" where
  "pti_down m stop skip it =
     (let e = read64 m (pti_pep it)
      in if e AND (PTE_P OR PTE_PS) = PTE_P \<and> \<not> skip then
           if pti_level it = stop then Some it
           else
             let l = pti_level it - 1
             in pti_down m stop skip (it\<lparr>pti_level := l, pti_pep := (e AND PTE_PAMASK) + 8 * pageindex (pti_va it) l\<rparr>)
         else
           let va = (pti_va it OR pageoffmask (pti_level it)) + 1
           in if (va XOR pti_va it) AND NOT (pageoffmask (pti_level it + 1)) \<noteq> 0 then
                if pti_level it = 3 then Some (it\<lparr>pti_va := VA_NONCANONMAX + 1\<rparr>)
                else pti_down m (pti_level it + 1) False
                       (it\<lparr>pti_level := 3, pti_pep := pti_pt it + 8 * pageindex (pti_va it) 3\<rparr>)
              else pti_down m stop False (it\<lparr>pti_pep := pti_pep it + 8, pti_va := va\<rparr>))"

definition pti_go :: "memory \<Rightarrow> u64 \<Rightarrow> u64 \<Rightarrow> ptiter option" where
  "pti_go m tbl va = pti_down m 1 False \<lparr>pti_pt = tbl, pti_pep = tbl + 8 * pageindex va 3, pti_level = 3, pti_va = va\<rparr>"

definition pti_next :: "memory \<Rightarrow> ptiter \<Rightarrow> ptiter option" where
  "pti_next m it = pti_down m 1 True it"

definition pti_active :: "ptiter \<Rightarrow> bool" where
  "pti_active it = (pti_va it \<le> VA_NONCANONMAX)"

definition pti_pa :: "memory \<Rightarrow> ptiter \<Rightarrow> u64" where
  "pti_pa m it = read64 m (pti_pep it) AND PTE_PAMASK"

definition pti_start_va :: "ptiter \<Rightarrow> u64" where
  "pti_start_va it = pti_va it AND NOT (pageoffmask (pti_level it))"

definition pti_last_va :: "ptiter \<Rightarrow> u64" where
  "pti_last_va it = (pti_va it OR pageoffmask (pti_level it)) + 1"

section \<open>Indices and alignment\<close>

lemma pageoffmask_mask: "pageoffmask l = mask (12 + 9 * l)"
  by (simp add: pageoffmask_def page_consts mask_eq_exp_minus_1 mult.commute)

lemma bit_pageindex: "bit (pageindex va l) n \<longleftrightarrow> n < 9 \<and> bit va (12 + 9 * l + n)"
proof -
  have m: "(0x1FF :: u64) = mask 9" by (simp add: mask_eq_exp_minus_1)
  show ?thesis unfolding pageindex_def m by (auto simp: page_consts bit_and_iff bit_drop_bit_eq bit_mask_iff mult.commute)
qed

lemma agree_bits:
  assumes "(x XOR y) AND NOT (pageoffmask l) = (0 :: u64)" and "12 + 9 * l \<le> n"
  shows "bit x n = bit y n"
proof (cases "n < 64")
  case True
  have "\<not> bit ((x XOR y) AND NOT (pageoffmask l)) n" using assms(1) by simp
  with True assms(2) show ?thesis by (simp add: bit_and_iff bit_xor_iff bit_not_iff pageoffmask_mask bit_mask_iff)
next
  case False
  then show ?thesis using bit_imp_le_length [of x n] bit_imp_le_length [of y n] by auto
qed

lemma agree_pageindex:
  assumes "(x XOR y) AND NOT (pageoffmask (Suc l)) = (0 :: u64)" and "l < k"
  shows "pageindex x k = pageindex y k"
proof (rule bit_word_eqI)
  fix n assume "n < LENGTH(64)"
  have "12 + 9 * Suc l \<le> 12 + 9 * k + n" using assms(2) by (simp add: trans_le_add1)
  then show "bit (pageindex x k) n = bit (pageindex y k) n"
    using agree_bits [OF assms(1)] by (simp only: bit_pageindex)
qed

lemma canonical_drop: "va_is_canonical va \<longleftrightarrow> drop_bit 47 va = 0 \<or> drop_bit 47 va = mask 17"
proof -
  have u: "unat (drop_bit 47 va) = unat va div 2 ^ 47" by (simp only: unsigned_drop_bit_eq) (simp add: drop_bit_eq_div take_bit_nat_eq_self unat_lt_64)
  have "unat (mask 17 :: u64) = 2 ^ 17 - 1" by (simp add: mask_eq_exp_minus_1)
  then have "drop_bit 47 va = mask 17 \<longleftrightarrow> unat va div 2 ^ 47 = 2 ^ 17 - 1" using u by (metis unsigned_word_eqI)
  also have "\<dots> \<longleftrightarrow> va \<ge> VA_HIGHMIN" using unat_lt_64 [of va] by (auto simp: VA_HIGHMIN_def word_le_nat_alt)
  finally have h: "drop_bit 47 va = mask 17 \<longleftrightarrow> va \<ge> VA_HIGHMIN" .
  have "drop_bit 47 va = 0 \<longleftrightarrow> unat va div 2 ^ 47 = 0" using u by (metis unsigned_0 unsigned_word_eqI)
  also have "\<dots> \<longleftrightarrow> va \<le> VA_LOWMAX" by (auto simp: VA_LOWMAX_def word_le_nat_alt)
  finally show ?thesis using h by (simp add: va_is_canonical_def)
qed

lemma agree_canonical:
  assumes "(x XOR y) AND NOT (pageoffmask l) = (0 :: u64)" and "l \<le> 3"
  shows "va_is_canonical x = va_is_canonical y"
proof -
  have "drop_bit 47 x = drop_bit 47 y"
    using agree_bits [OF assms(1)] assms(2) by (intro bit_word_eqI) (simp add: bit_drop_bit_eq)
  then show ?thesis by (simp add: canonical_drop)
qed

lemma pageindex_less: "unat (pageindex va l) < 512"
proof -
  have "take_bit 9 (pageindex va l) = pageindex va l" by (rule bit_word_eqI) (simp add: bit_take_bit_iff bit_pageindex)
  then have "take_bit 9 (unat (pageindex va l)) = unat (pageindex va l)" by (metis unsigned_take_bit_eq)
  then show ?thesis by (simp add: take_bit_nat_eq_self_iff)
qed

lemma pamask_bit: "bit (x AND PTE_PAMASK) n \<longleftrightarrow> 12 \<le> n \<and> n < 52 \<and> bit x n"
proof -
  have m: "PTE_PAMASK = push_bit 12 (mask 40)" by (simp add: PTE_PAMASK_def mask_eq_exp_minus_1)
  show ?thesis unfolding m by (auto simp: bit_and_iff bit_push_bit_iff bit_mask_iff)
qed

lemma entry_plus:
  assumes "tbl AND PTE_PAMASK = tbl"
  shows "tbl + 8 * pageindex va l = tbl OR push_bit 3 (pageindex va l)"
proof -
  have t: "bit tbl n \<longleftrightarrow> 12 \<le> n \<and> n < 52 \<and> bit tbl n" for n using pamask_bit [of tbl n] assms by simp
  have "tbl AND push_bit 3 (pageindex va l) = 0"
  proof (rule bit_word_eqI)
    fix n show "bit (tbl AND push_bit 3 (pageindex va l)) n = bit (0 :: u64) n"
      using t [of n] by (auto simp: bit_and_iff bit_push_bit_iff bit_pageindex)
  qed
  then have "tbl + push_bit 3 (pageindex va l) = tbl OR push_bit 3 (pageindex va l)" by (rule disjunctive_add_eq_or)
  moreover have "8 * pageindex va l = push_bit 3 (pageindex va l)" by (simp add: push_bit_eq_mult mult.commute)
  ultimately show ?thesis by simp
qed

lemma entry_index:
  assumes "tbl AND PTE_PAMASK = tbl"
  shows "drop_bit 3 ((tbl + 8 * pageindex va l) AND PAGEOFFMASK) = pageindex va l"
proof (rule bit_word_eqI)
  fix n assume "n < LENGTH(64)"
  have t: "bit tbl n \<longleftrightarrow> 12 \<le> n \<and> n < 52 \<and> bit tbl n" for n using pamask_bit [of tbl n] assms by simp
  have m: "PAGEOFFMASK = mask 12" by (simp add: page_consts mask_eq_exp_minus_1)
  show "bit (drop_bit 3 ((tbl + 8 * pageindex va l) AND PAGEOFFMASK)) n = bit (pageindex va l) n"
    unfolding entry_plus [OF assms] m using t [of "3 + n"]
    by (auto simp: bit_drop_bit_eq bit_and_iff bit_or_iff bit_push_bit_iff bit_mask_iff bit_pageindex)
qed

section \<open>Cached walks\<close>

text \<open>A walk for another address that shares the indices above the level where a walk stopped.\<close>

lemma descend_shared:
  assumes "descend m va' l p perm = (L, p', perm')" and "L < l" and "\<And>k. L < k \<Longrightarrow> k < l \<Longrightarrow> pageindex va k = pageindex va' k"
  shows "\<exists>tbl. p' = entry_addr tbl (pageindex va' L) \<and> tbl AND PTE_PAMASK = tbl \<and>
    descend m va l p perm = descend m va L (entry_addr tbl (pageindex va L)) perm'"
  using assms
proof (induction l arbitrary: p perm)
  case (Suc l)
  let ?e = "deref m p" and ?tbl = "deref m p AND PTE_PAMASK"
  have P: "?e AND (PTE_P OR PTE_PS) = PTE_P" using Suc.prems(1,2) by (auto split: if_splits)
  then have d: "descend m va' l (entry_addr ?tbl (pageindex va' l)) (perm AND ?e) = (L, p', perm')" using Suc.prems(1) by simp
  have al: "?tbl AND PTE_PAMASK = ?tbl" by (simp add: and.assoc)
  show ?case
  proof (cases "L = l")
    case True
    have "p' = entry_addr ?tbl (pageindex va' L) \<and> perm' = perm AND ?e"
      using d True by (cases l) (auto split: if_splits dest: descend_level)
    with P al True show ?thesis by auto
  next
    case False
    then have "L < l" using Suc.prems(2) by simp
    moreover from this have "pageindex va l = pageindex va' l" using Suc.prems(3) by simp
    ultimately show ?thesis using Suc.IH [OF d] Suc.prems(3) P by auto
  qed
qed simp

text \<open>An iterator is in sync when it is what a fresh walk to its address gives.\<close>

definition in_sync :: "memory \<Rightarrow> vmiter \<Rightarrow> bool" where
  "in_sync m it = (mk_vmiter m (vm_pt it) (cur_va it) = Inr it)"

lemma mk_vmiter_cases:
  "mk_vmiter m tbl va =
     down m (if va_is_canonical va
       then \<lparr>vm_pt = tbl, pep = entry_addr tbl (pageindex va 3), level = 3, vperm = initial_perm, cur_va = va\<rparr>
       else \<lparr>vm_pt = tbl, pep = ZeroPE, level = 3, vperm = 0, cur_va = va\<rparr>)"
  by (simp add: mk_vmiter_def real_find_def)

lemma down_record:
  "down m it = (let (l, p, perm) = descend m (cur_va it) (level it) (pep it) (vperm it)
     in if deref m p AND PTE_PAMASK \<ge> 0x100000000 then Inl VmPanic
        else Inr \<lparr>vm_pt = vm_pt it, pep = p, level = l, vperm = perm, cur_va = cur_va it\<rparr>)"
  by (cases it) (simp add: down_def split: prod.splits)

lemma in_sync_descend:
  assumes "in_sync m it" and "level it \<noteq> 3"
  shows "va_is_canonical (cur_va it) \<and> level it < 3 \<and>
    descend m (cur_va it) 3 (entry_addr (vm_pt it) (pageindex (cur_va it) 3)) initial_perm = (level it, pep it, vperm it)"
proof -
  have "va_is_canonical (cur_va it)"
  proof (rule ccontr)
    assume "\<not> ?thesis"
    with assms(1) have "level it = 3"
      by (cases it) (auto simp: in_sync_def mk_vmiter_cases down_record numeral_3_eq_3 PTE_P_def split: if_splits prod.splits)
    with assms(2) show False by simp
  qed
  moreover from this assms(1) have d: "descend m (cur_va it) 3 (entry_addr (vm_pt it) (pageindex (cur_va it) 3)) initial_perm = (level it, pep it, vperm it)"
    by (cases it) (auto simp: in_sync_def mk_vmiter_cases down_record split: if_splits prod.splits)
  moreover from descend_level [OF d] assms(2) have "level it < 3" by simp
  ultimately show ?thesis by blast
qed

lemma real_find_eq:
  assumes "in_sync m it"
  shows "real_find m va it = mk_vmiter m (vm_pt it) va"
proof (cases "level it = 3 \<or> (cur_va it XOR va) AND NOT (pageoffmask (level it + 1)) \<noteq> 0")
  case True
  then have "real_find m va it = down m (if va_is_canonical va
       then it\<lparr>level := 3, vperm := initial_perm, pep := entry_addr (vm_pt it) (pageindex va 3), cur_va := va\<rparr>
       else it\<lparr>level := 3, vperm := 0, pep := ZeroPE, cur_va := va\<rparr>)"
    by (simp add: real_find_def)
  then show ?thesis by (cases it) (simp add: mk_vmiter_cases)
next
  case False
  let ?L = "level it"
  have ag: "(cur_va it XOR va) AND NOT (pageoffmask (Suc ?L)) = 0" and L3: "?L \<noteq> 3" using False by auto
  note s = in_sync_descend [OF assms L3]
  have canon: "va_is_canonical va" using agree_canonical [OF ag] s by simp
  have idx: "\<And>k. ?L < k \<Longrightarrow> pageindex va k = pageindex (cur_va it) k" using agree_pageindex [OF ag] by simp
  from s descend_shared [of m "cur_va it" 3 _ _ ?L] idx obtain tbl where
    tbl: "pep it = entry_addr tbl (pageindex (cur_va it) ?L)" "tbl AND PTE_PAMASK = tbl"
      "descend m va 3 (entry_addr (vm_pt it) (pageindex (cur_va it) 3)) initial_perm =
       descend m va ?L (entry_addr tbl (pageindex va ?L)) (vperm it)" by blast
  let ?a = "tbl + 8 * pageindex (cur_va it) ?L"
  have "?a + 8 * (pageindex va ?L - drop_bit 3 (?a AND PAGEOFFMASK)) = tbl + 8 * pageindex va ?L"
    by (simp only: entry_index [OF tbl(2)]) (simp add: algebra_simps)
  then have "real_find m va it = down m (it\<lparr>pep := entry_addr tbl (pageindex va ?L), cur_va := va\<rparr>)"
    using False tbl(1) by (simp add: real_find_def entry_addr_def Let_def del: drop_bit_and)
  moreover have "pageindex va 3 = pageindex (cur_va it) 3" using idx s by simp
  ultimately show ?thesis using tbl(3) canon by (simp add: mk_vmiter_cases down_record split: prod.splits)
qed


text \<open>
  C33. The cache of \<open>vmiter\<close> is sound: moving an iterator that is in sync with memory to any address, near
  or far, canonical or not, gives exactly the iterator (or the panic) that a fresh walk from the root of
  the page table gives, although the code restarts at the level it had reached.
\<close>

theorem real_find_fresh:
  assumes "in_sync m it"
  shows "real_find m va it = mk_vmiter m (vm_pt it) va"
  by (rule real_find_eq [OF assms])

theorem real_find_fresh_witness:
  "\<exists>it. in_sync (\<lambda>_. 0) it \<and> real_find (\<lambda>_. 0) 0x200000 it = mk_vmiter (\<lambda>_. 0) 0x1000 0x200000"
proof -
  have z: "read64 (\<lambda>_. 0) a = 0" for a by (simp add: read64_def)
  have it: "mk_vmiter (\<lambda>_. 0) 0x1000 0 =
     Inr \<lparr>vm_pt = 0x1000, pep = entry_addr 0x1000 (pageindex 0 3), level = 3, vperm = initial_perm, cur_va = 0\<rparr>" (is "_ = Inr ?it")
    by (simp add: mk_vmiter_cases down_record numeral_3_eq_3 va_is_canonical_def VA_LOWMAX_def entry_addr_def z PTE_P_def)
  then have "in_sync (\<lambda>_. 0) ?it" by (simp add: in_sync_def)
  from real_find_fresh [OF this, of "0x200000"] this show ?thesis by auto
qed

section \<open>Ranges\<close>

lemma descend_stop: "descend m va l p perm = (L, p', perm') \<Longrightarrow> descend m va2 L p' q = (L, p', q)"
proof (induction l arbitrary: p perm)
  case (Suc l)
  then show ?case by (fastforce split: if_splits)
qed simp

lemma mk_vmiter_fields: "mk_vmiter m tbl va = Inr it \<Longrightarrow> vm_pt it = tbl \<and> cur_va it = va \<and> in_sync m it"
proof -
  assume a: "mk_vmiter m tbl va = Inr it"
  then have "vm_pt it = tbl \<and> cur_va it = va" by (auto simp: mk_vmiter_cases down_record split: if_splits prod.splits)
  with a show ?thesis by (simp add: in_sync_def)
qed

lemma agree_coarser:
  assumes "(x XOR y) AND NOT (pageoffmask l) = (0 :: u64)" and "l \<le> k"
  shows "(x XOR y) AND NOT (pageoffmask k) = 0"
proof (rule bit_word_eqI)
  fix n assume "n < LENGTH(64)"
  have "bit x n = bit y n" if "12 + 9 * k \<le> n" using agree_bits [OF assms(1), of n] assms(2) that by simp
  then show "bit ((x XOR y) AND NOT (pageoffmask k)) n = bit (0 :: u64) n"
    by (auto simp: bit_and_iff bit_xor_iff bit_not_iff pageoffmask_mask bit_mask_iff)
qed

lemma same_range:
  assumes s: "in_sync m it" and ag: "(cur_va it XOR va) AND NOT (pageoffmask (level it)) = 0"
  shows "mk_vmiter m (vm_pt it) va = Inr (it\<lparr>cur_va := va\<rparr>)"
proof -
  let ?va = "cur_va it"
  have lvl: "level it \<le> 3" using in_sync_descend [OF s] by force
  have canon: "va_is_canonical va = va_is_canonical ?va" using agree_canonical [OF ag lvl] by simp
  have idx: "pageindex va k = pageindex ?va k" if "level it \<le> k" for k
  proof (rule bit_word_eqI)
    fix n assume "n < LENGTH(64)"
    have "12 + 9 * level it \<le> 12 + 9 * k + n" using that by (simp add: trans_le_add1)
    then show "bit (pageindex va k) n = bit (pageindex ?va k) n" using agree_bits [OF ag] by (simp only: bit_pageindex)
  qed
  define p0 where "p0 = (if va_is_canonical ?va then entry_addr (vm_pt it) (pageindex ?va 3) else ZeroPE)"
  define q0 where "q0 = (if va_is_canonical ?va then initial_perm else 0)"
  have start: "mk_vmiter m (vm_pt it) x = down m \<lparr>vm_pt = vm_pt it, pep = p0, level = 3, vperm = q0, cur_va = x\<rparr>"
    if "x = ?va \<or> x = va" for x using that canon idx [OF lvl] by (auto simp: mk_vmiter_cases p0_def q0_def)
  obtain L p q where d: "descend m ?va 3 p0 q0 = (L, p, q)" by (metis prod_cases3)
  have "down m \<lparr>vm_pt = vm_pt it, pep = p0, level = 3, vperm = q0, cur_va = ?va\<rparr> = Inr it"
    using s start [of ?va] by (simp add: in_sync_def)
  then have ok: "\<not> deref m p AND PTE_PAMASK \<ge> 0x100000000"
    and eq: "\<lparr>vm_pt = vm_pt it, pep = p, level = L, vperm = q, cur_va = ?va\<rparr> = it"
    by (simp_all add: down_record d split: if_splits)
  have it: "level it = L" "pep it = p" "vperm it = q"
    using arg_cong [OF eq, of level] arg_cong [OF eq, of pep] arg_cong [OF eq, of vperm] by simp_all
  have "descend m va 3 p0 q0 = (L, p, q)"
  proof (cases "L < 3")
    case True
    from descend_shared [OF d True, of va] idx it(1) obtain tbl where
      t: "p = entry_addr tbl (pageindex ?va L)" "descend m va 3 p0 q0 = descend m va L (entry_addr tbl (pageindex va L)) q" by auto
    moreover have "entry_addr tbl (pageindex va L) = p" using t(1) idx it(1) by simp
    ultimately show ?thesis using descend_stop [OF d] by simp
  next
    case False
    then have "L = 3" using it(1) lvl by simp
    with descend_stop [OF d, of va q0] d show ?thesis by (auto simp: numeral_3_eq_3 split: if_splits dest: descend_level)
  qed
  with start [of va] ok have "mk_vmiter m (vm_pt it) va = Inr \<lparr>vm_pt = vm_pt it, pep = p, level = L, vperm = q, cur_va = va\<rparr>"
    by (simp add: down_record)
  with it show ?thesis by (cases it) simp
qed

text \<open>
  An iterator speaks for its whole range: every address from the same entry's range (up to
  \<open>last_va\<close>, and all that \<open>next\<close> skips when nothing is mapped) has the same level and permissions as the
  current one, and physical addresses advance with virtual ones; so skipping to the end of the range
  never skips a page with a different mapping.
\<close>

theorem range_uniform:
  assumes "in_sync m it" and "(cur_va it XOR va) AND NOT (pageoffmask (level it)) = 0"
  shows "\<exists>it'. mk_vmiter m (vm_pt it) va = Inr it' \<and> level it' = level it \<and> vm_perm m it' = vm_perm m it \<and>
    vm_present m it' = vm_present m it \<and>
    (vm_present m it \<longrightarrow> vm_pa m it' - pageoffset va (level it) = vm_pa m it - pageoffset (cur_va it) (level it))"
  using same_range [OF assms]
  by (auto simp: vm_perm_def vm_present_def vm_pa_def pageoffset_def Let_def)

theorem range_uniform_witness:
  "\<exists>it it'. in_sync (\<lambda>_. 0) it \<and> mk_vmiter (\<lambda>_. 0) 0x1000 0x7FFFFF5678 = Inr it' \<and> vm_perm (\<lambda>_. 0) it' = vm_perm (\<lambda>_. 0) it"
proof -
  have z: "read64 (\<lambda>_. 0) a = 0" for a by (simp add: read64_def)
  have it: "mk_vmiter (\<lambda>_. 0) 0x1000 0 =
     Inr \<lparr>vm_pt = 0x1000, pep = entry_addr 0x1000 (pageindex 0 3), level = 3, vperm = initial_perm, cur_va = 0\<rparr>" (is "_ = Inr ?it")
    by (simp add: mk_vmiter_cases down_record numeral_3_eq_3 va_is_canonical_def VA_LOWMAX_def entry_addr_def z PTE_P_def)
  then have "in_sync (\<lambda>_. 0) ?it" by (simp add: in_sync_def)
  moreover have "(cur_va ?it XOR 0x7FFFFF5678) AND NOT (pageoffmask (level ?it)) = 0" by (simp add: pageoffmask_def page_consts)
  ultimately show ?thesis using range_uniform [of "\<lambda>_. 0" ?it "0x7FFFFF5678"] by auto
qed

section \<open>Installing mappings\<close>

lemma pwu_bits:
  assumes "tbl AND PTE_PAMASK = tbl"
  shows "(tbl OR PTE_P OR PTE_W OR PTE_U) AND (PTE_P OR PTE_PS) = PTE_P"
    "(tbl OR PTE_P OR PTE_W OR PTE_U) AND PTE_PAMASK = tbl"
    "(tbl OR PTE_P OR PTE_W OR PTE_U) AND 7 = 7"
proof -
  have z: "tbl AND x = 0" if "PTE_PAMASK AND x = 0" for x using that assms by (metis and.assoc and_zero_eq)
  have "tbl AND (PTE_P OR PTE_PS) = 0" "tbl AND 7 = 0" by (rule z, simp add: pte_consts)+
  then show "(tbl OR PTE_P OR PTE_W OR PTE_U) AND (PTE_P OR PTE_PS) = PTE_P"
    "(tbl OR PTE_P OR PTE_W OR PTE_U) AND 7 = 7" by (simp_all add: bit.conj_disj_distrib2 pte_consts)
  show "(tbl OR PTE_P OR PTE_W OR PTE_U) AND PTE_PAMASK = tbl"
    using assms by (simp add: bit.conj_disj_distrib2) (simp add: pte_consts)
qed

lemma entries_apart:
  assumes "8 dvd unat a" "8 dvd unat b" "a \<noteq> b" and jk: "j < 8" "k < 8"
  shows "(a :: u64) + word_of_nat j \<noteq> b + word_of_nat k"
proof
  assume eq: "a + word_of_nat j = b + word_of_nat k"
  from assms(1,2) obtain x y where x: "unat a = 8 * x" and y: "unat b = 8 * y" by (elim dvdE)
  have nw: "unat (c + word_of_nat i :: u64) = unat c + i" if "8 dvd unat c" "i < 8" for c and i :: nat
  proof -
    from that(1) obtain z where "unat c = 8 * z" by (elim dvdE)
    moreover have "z < 2305843009213693952" using unat_lt_64 [of c] calculation by simp
    ultimately show ?thesis using that(2) by (simp add: unat_add_64 unat_of_nat_small)
  qed
  have "8 * x + j = 8 * y + k" using eq nw [OF assms(1) jk(1)] nw [OF assms(2) jk(2)] x y by metis
  then have "x = y" using jk by arith
  then show False using assms(3) x y by (simp add: word_unat_eq_iff)
qed

lemma read64_write64_other:
  assumes "8 dvd unat a" "8 dvd unat b" "a \<noteq> b"
  shows "read64 (write64 b v m) a = read64 m a"
  by (intro read64_cong write64_other entries_apart [OF assms])

text \<open>The entries a walk from the entry at \<open>a\<close> of a table of level \<open>l\<close> looks at.\<close>

fun walk :: "memory \<Rightarrow> u64 \<Rightarrow> nat \<Rightarrow> u64 \<Rightarrow> u64 list" where
  "walk m va 0 a = [a]"
| "walk m va (Suc l) a =
     a # (if read64 m a AND (PTE_P OR PTE_PS) = PTE_P then walk m va l ((read64 m a AND PTE_PAMASK) + 8 * pageindex va l) else [])"

definition walk_of :: "memory \<Rightarrow> vmiter \<Rightarrow> u64 list" where
  "walk_of m it = walk m (cur_va it) 3 (vm_pt it + 8 * pageindex (cur_va it) 3)"

lemma walk_nonempty [simp]: "walk m va l a \<noteq> []"
  by (cases l) simp_all

lemma dvd_8_bits: "(\<And>n. bit (x :: u64) n \<Longrightarrow> 3 \<le> n) \<Longrightarrow> 8 dvd unat x"
proof -
  assume a: "\<And>n. bit x n \<Longrightarrow> 3 \<le> n"
  have "take_bit 3 (unat x) = 0" by (rule bit_eqI) (use a in \<open>force simp: bit_take_bit_iff bit_unsigned_iff\<close>)
  then show "8 dvd unat x" by (simp add: take_bit_eq_mod dvd_eq_mod_eq_0)
qed

lemma entry_aligned:
  assumes "tbl AND PTE_PAMASK = tbl"
  shows "8 dvd unat (tbl + 8 * pageindex va l)"
  unfolding entry_plus [OF assms]
proof (rule dvd_8_bits)
  fix n assume "bit (tbl OR push_bit 3 (pageindex va l)) n"
  then show "3 \<le> n" using pamask_bit [of tbl n] assms by (auto simp: bit_or_iff bit_push_bit_iff)
qed

lemma walk_aligned: "8 dvd unat a \<Longrightarrow> b \<in> set (walk m va l a) \<Longrightarrow> 8 dvd unat b"
proof (induction l arbitrary: a)
  case (Suc l)
  have "(read64 m a AND PTE_PAMASK) AND PTE_PAMASK = read64 m a AND PTE_PAMASK" by (simp add: and.assoc)
  from Suc.IH [OF entry_aligned [OF this]] Suc.prems show ?case by (auto split: if_splits)
qed simp

text \<open>A change of the entry where a walk ends, or of no entry of the walk, leaves the way to it alone.\<close>

lemma walk_extend:
  assumes "descend m va l (Entry a) q = (L, Entry c, q')" and "distinct (walk m va l a)"
    and "\<And>b. b \<in> set (walk m va l a) \<Longrightarrow> b \<noteq> c \<Longrightarrow> read64 m2 b = read64 m b"
  shows "descend m2 va l (Entry a) q = descend m2 va L (Entry c) q' \<and> last (walk m va l a) = c \<and>
    walk m2 va l a = butlast (walk m va l a) @ walk m2 va L c"
  using assms
proof (induction l arbitrary: a q)
  case (Suc l)
  let ?b = "(read64 m a AND PTE_PAMASK) + 8 * pageindex va l"
  show ?case
  proof (cases "read64 m a AND (PTE_P OR PTE_PS) = PTE_P")
    case True
      have d: "descend m va l (Entry ?b) (q AND read64 m a) = (L, Entry c, q')" using Suc.prems(1) True by (simp add: entry_addr_def)
    have "descend m2 va l (Entry ?b) (q AND read64 m a) = descend m2 va L (Entry c) q' \<and> last (walk m va l ?b) = c \<and>
        walk m2 va l ?b = butlast (walk m va l ?b) @ walk m2 va L c"
      using True Suc.prems(2,3) by (intro Suc.IH [OF d]) auto
    moreover from this have "c \<in> set (walk m va l ?b)" by (metis last_in_set walk_nonempty)
    then have "a \<noteq> c" using Suc.prems(2) True by auto
    then have "read64 m2 a = read64 m a" using Suc.prems(3) by simp
    ultimately show ?thesis using True by (simp add: entry_addr_def)
  next
    case False
    then have "L = Suc l" "c = a" "q' = q" using Suc.prems(1) by (simp_all split: if_splits)
    with False show ?thesis by simp
  qed
qed simp

lemma in_sync_entry:
  assumes "pep it = Entry a"
  shows "in_sync m it \<longleftrightarrow> va_is_canonical (cur_va it) \<and> read64 m a AND PTE_PAMASK < 0x100000000 \<and>
    descend m (cur_va it) 3 (Entry (vm_pt it + 8 * pageindex (cur_va it) 3)) initial_perm = (level it, Entry a, vperm it)"
proof -
  have "descend m v 3 ZeroPE q = (3, ZeroPE, q)" for v q by (simp add: numeral_3_eq_3 PTE_P_def)
  then show ?thesis using assms
    by (cases it) (auto simp: in_sync_def mk_vmiter_cases down_record entry_addr_def not_le split: prod.splits)
qed

lemma walk_ends:
  assumes "in_sync m it" and "pep it = Entry a" and "distinct (walk_of m it)"
  shows "walk_of m it \<noteq> [] \<and> last (walk_of m it) = a"
proof -
  from assms(1,2) have "descend m (cur_va it) 3 (Entry (vm_pt it + 8 * pageindex (cur_va it) 3)) initial_perm = (level it, Entry a, vperm it)"
    by (simp add: in_sync_entry)
  from walk_extend [OF this assms(3) [unfolded walk_of_def], of m] show ?thesis by (simp add: walk_of_def)
qed

text \<open>An iterator stays in sync when the entry it ends on is changed and it goes on from there.\<close>

lemma in_sync_relink:
  assumes s: "in_sync m it" and a: "pep it = Entry a" and d: "distinct (walk_of m it)"
    and eq: "\<And>b. b \<in> set (walk_of m it) \<Longrightarrow> b \<noteq> a \<Longrightarrow> read64 m2 b = read64 m b"
    and go: "descend m2 (cur_va it) (level it) (Entry a) (vperm it) = (L, Entry c, q)" "read64 m2 c AND PTE_PAMASK < 0x100000000"
  shows "in_sync m2 (it\<lparr>level := L, pep := Entry c, vperm := q\<rparr>)"
    and "walk_of m2 it = butlast (walk_of m it) @ walk m2 (cur_va it) (level it) a"
proof -
  from s a have i: "va_is_canonical (cur_va it)"
      "descend m (cur_va it) 3 (Entry (vm_pt it + 8 * pageindex (cur_va it) 3)) initial_perm = (level it, Entry a, vperm it)"
    by (simp_all add: in_sync_entry)
  from walk_extend [OF i(2) d [unfolded walk_of_def], of m2] eq
  have w: "descend m2 (cur_va it) 3 (Entry (vm_pt it + 8 * pageindex (cur_va it) 3)) initial_perm = (L, Entry c, q)"
    "walk_of m2 it = butlast (walk_of m it) @ walk m2 (cur_va it) (level it) a"
    using go(1) by (auto simp: walk_of_def)
  then show "walk_of m2 it = butlast (walk_of m it) @ walk m2 (cur_va it) (level it) a" by blast
  show "in_sync m2 (it\<lparr>level := L, pep := Entry c, vperm := q\<rparr>)" using i(1) w(1) go(2) by (simp add: in_sync_entry)
qed

text \<open>The eight bytes at \<open>a\<close> are in no free page.\<close>

definition owned_entry :: "('s \<Rightarrow> u64 \<Rightarrow> bool) \<Rightarrow> 's \<Rightarrow> u64 \<Rightarrow> bool" where
  "owned_entry free s a = (\<forall>k < 8. \<not> free s (a + word_of_nat k))"

text \<open>An iterator ready to be mapped: in sync, over different entries of memory in use, and not stopped by a large page.\<close>

definition mappable :: "('s \<Rightarrow> u64 \<Rightarrow> bool) \<Rightarrow> 's \<Rightarrow> memory \<Rightarrow> vmiter \<Rightarrow> bool" where
  "mappable free s m it = (in_sync m it \<and> vm_pt it AND PTE_PAMASK = vm_pt it \<and> (level it = 0 \<or> \<not> vm_present m it) \<and>
     distinct (walk_of m it) \<and> (\<forall>b \<in> set (walk_of m it). owned_entry free s b))"

text \<open>
  What the iterators rely on from the page allocator: it hands out page-aligned pages of low physical
  memory that were free and are not free afterwards, touches no other memory, and returns null only when nothing
  is free.
\<close>

locale page_allocator =
  fixes kalloc :: "'s \<Rightarrow> memory \<Rightarrow> u64 \<times> 's \<times> memory" and inv :: "'s \<Rightarrow> bool" and free :: "'s \<Rightarrow> u64 \<Rightarrow> bool"
  assumes kalloc_inv: "inv s \<Longrightarrow> kalloc s m = (tbl, s', m') \<Longrightarrow> inv s'"
    and kalloc_page: "inv s \<Longrightarrow> kalloc s m = (tbl, s', m') \<Longrightarrow> tbl \<noteq> 0 \<Longrightarrow>
      tbl AND PTE_PAMASK = tbl \<and> (\<forall>a. unat (a - tbl) < 4096 \<longrightarrow> free s a \<and> \<not> free s' a) \<and>
      (\<forall>a. 4096 \<le> unat (a - tbl) \<longrightarrow> m' a = m a)"
    and kalloc_null: "inv s \<Longrightarrow> kalloc s m = (0, s', m') \<Longrightarrow> m' = m \<and> \<not> free s a"
    and kalloc_free: "inv s \<Longrightarrow> kalloc s m = (tbl, s', m') \<Longrightarrow> free s' a \<Longrightarrow> free s a"
begin

lemma entry_in_page:
  assumes "tbl AND PTE_PAMASK = tbl" and "k < 8"
  shows "unat (tbl + 8 * pageindex va l + word_of_nat k - tbl) < 4096"
proof -
  let ?i = "pageindex va l"
  have i: "unat ?i < 512" by (rule pageindex_less)
  have "unat (8 * ?i) = 8 * unat ?i" using i by (simp add: unat_word_ariths)
  moreover have "unat (word_of_nat k :: u64) = k" using assms(2) by (simp add: unat_of_nat_small)
  ultimately have "unat (8 * ?i + word_of_nat k) = 8 * unat ?i + k" using i assms(2) by (simp add: unat_add_64)
  then show ?thesis using i assms(2) by simp
qed

text \<open>One turn of the allocation loop: the new table is linked in and the walk ends on its zero entry.\<close>

lemma map_turn:
  assumes i: "inv s" and k: "kalloc s m = (tbl, s', m1)" "tbl \<noteq> 0" and it: "level it = Suc l" "pep it = Entry a" and own: "owned_entry free s a"
    and m2: "m2 = write64 a (tbl OR PTE_P OR PTE_W OR PTE_U) (snd (memset tbl 0 PAGESIZE m1))"
  shows "down m2 it = Inr (it\<lparr>level := l, pep := entry_addr tbl (pageindex (cur_va it) l), vperm := vperm it AND (tbl OR PTE_P OR PTE_W OR PTE_U)\<rparr>) \<and>
    deref m2 (entry_addr tbl (pageindex (cur_va it) l)) = 0 \<and>
    owned_entry free s' (tbl + 8 * pageindex (cur_va it) l) \<and>
    (\<forall>p. \<not> free s p \<longrightarrow> (\<forall>k < 8. p \<noteq> a + word_of_nat k) \<longrightarrow> m2 p = m p)"
proof -
  let ?i = "pageindex (cur_va it) l" and ?e = "tbl OR PTE_P OR PTE_W OR PTE_U"
  from kalloc_page [OF i k] have al: "tbl AND PTE_PAMASK = tbl"
    and fr: "\<And>p. unat (p - tbl) < 4096 \<Longrightarrow> free s p \<and> \<not> free s' p" and fm: "\<And>p. 4096 \<le> unat (p - tbl) \<Longrightarrow> m1 p = m p" by auto
  define mz where "mz = snd (memset tbl 0 PAGESIZE m1)"
  have mz: "mz = (\<lambda>p. if unat (p - tbl) < 4096 then 0 else m1 p)" by (simp add: mz_def memset_def page_consts fill_up_eq)
  have m2': "m2 = write64 a ?e mz" by (simp add: m2 mz_def)
  have in_page: "unat (tbl + 8 * ?i + word_of_nat k - tbl) < 4096" if "k < 8" for k by (rule entry_in_page [OF al that])
  have zero: "deref m2 (entry_addr tbl ?i) = 0"
  proof -
    have "m2 (tbl + 8 * ?i + word_of_nat k) = 0" if k: "k < 8" for k
    proof -
      have "free s (tbl + 8 * ?i + word_of_nat k)" using fr in_page [OF k] by blast
      then have "m2 (tbl + 8 * ?i + word_of_nat k) = mz (tbl + 8 * ?i + word_of_nat k)"
        unfolding m2' using own by (intro write64_other) (auto simp: owned_entry_def)
      then show ?thesis using in_page [OF k] by (simp add: mz)
    qed
    then have "read64 m2 (tbl + 8 * ?i) = read64 (\<lambda>_. 0) (tbl + 8 * ?i)" by (intro read64_cong) simp
    then show ?thesis by (simp add: entry_addr_def read64_def)
  qed
  have e: "deref m2 (pep it) = ?e" by (simp add: it m2')
  have stop: "descend m2 (cur_va it) l (entry_addr tbl ?i) p = (l, entry_addr tbl ?i, p)" for p
    using zero by (cases l) (simp_all add: PTE_P_def)
  have "down m2 it = Inr (it\<lparr>level := l, pep := entry_addr tbl ?i, vperm := vperm it AND ?e\<rparr>)"
    unfolding down_def by (simp add: it(1) e pwu_bits(1,2) [OF al] stop zero)
  moreover have "owned_entry free s' (tbl + 8 * ?i)" using fr in_page by (auto simp: owned_entry_def)
  moreover have "m2 p = m p" if "\<not> free s p" "\<forall>k < 8. p \<noteq> a + word_of_nat k" for p
  proof -
    have "4096 \<le> unat (p - tbl)" using that(1) fr by (meson not_le)
    then show ?thesis unfolding m2' using that(2) fm by (subst write64_other) (auto simp: mz)
  qed
  ultimately show ?thesis using zero by blast
qed

lemma owned_read:
  assumes "owned_entry free s b" and "8 dvd unat b" and "8 dvd unat a" and "b \<noteq> a"
    and "\<forall>p. \<not> free s p \<longrightarrow> (\<forall>k < 8. p \<noteq> a + word_of_nat k) \<longrightarrow> m2 p = m p"
  shows "read64 m2 b = read64 m b"
proof (rule read64_cong)
  fix k :: nat assume k: "k < 8"
  have "b + word_of_nat k \<noteq> a + word_of_nat j" if "j < 8" for j
    using entries_apart [OF assms(2,3,4) k that] .
  with k assms(1,5) show "m2 (b + word_of_nat k) = m (b + word_of_nat k)" by (simp add: owned_entry_def)
qed

text \<open>After a turn of the loop the iterator is ready again, one level down, on the new table.\<close>

lemma map_turn_mappable:
  assumes i: "inv s" and k: "kalloc s m = (tbl, s', m1)" "tbl \<noteq> 0" and it: "level it = Suc l" "pep it = Entry a" and r: "mappable free s m it"
    and m2: "m2 = write64 a (tbl OR PTE_P OR PTE_W OR PTE_U) (snd (memset tbl 0 PAGESIZE m1))"
    and it2: "it2 = it\<lparr>level := l, pep := entry_addr tbl (pageindex (cur_va it) l), vperm := vperm it AND (tbl OR PTE_P OR PTE_W OR PTE_U)\<rparr>"
  shows "mappable free s' m2 it2"
proof -
  let ?a = "tbl + 8 * pageindex (cur_va it) l" and ?e = "tbl OR PTE_P OR PTE_W OR PTE_U"
  from r have s: "in_sync m it" "vm_pt it AND PTE_PAMASK = vm_pt it" "distinct (walk_of m it)" "\<And>b. b \<in> set (walk_of m it) \<Longrightarrow> owned_entry free s b"
    by (simp_all add: mappable_def)
  have al: "b \<in> set (walk_of m it) \<Longrightarrow> 8 dvd unat b" for b
    unfolding walk_of_def by (rule walk_aligned [OF entry_aligned [OF s(2)]])
  note we = walk_ends [OF s(1) it(2) s(3)]
  then have aw: "a \<in> set (walk_of m it)" by (metis last_in_set)
  note t = map_turn [OF i k it s(4) [OF aw] m2]
  from kalloc_page [OF i k] have tal: "tbl AND PTE_PAMASK = tbl" and fr: "\<And>p. unat (p - tbl) < 4096 \<Longrightarrow> free s p" by auto
  have keep: "read64 m2 b = read64 m b" if "b \<in> set (walk_of m it)" "b \<noteq> a" for b
    using owned_read [OF s(4) [OF that(1)] al [OF that(1)] al [OF aw] that(2)] t by blast
  have e: "read64 m2 a = ?e" "read64 m2 ?a = 0" using t by (simp_all add: m2 entry_addr_def)
  have stop: "descend m2 v l (Entry ?a) q = (l, Entry ?a, q)" "walk m2 v l ?a = [?a]" for v q
    using e(2) by (cases l; simp add: PTE_P_def)+
  have "descend m2 (cur_va it) (level it) (Entry a) (vperm it) = (l, Entry ?a, vperm it AND ?e)"
    by (simp add: it(1) e pwu_bits(1,2) [OF tal] stop entry_addr_def)
  note rl = in_sync_relink [OF s(1) it(2) s(3) keep this]
  have y: "in_sync m2 it2" using rl(1) e(2) by (simp add: it2 entry_addr_def)
  have "walk_of m2 it = butlast (walk_of m it) @ [a, ?a]"
    using rl(2) e by (simp add: it(1) e pwu_bits(1,2) [OF tal] stop)
  moreover have "butlast (walk_of m it) @ [a] = walk_of m it" using we by (metis append_butlast_last_id)
  ultimately have w: "walk_of m2 it2 = walk_of m it @ [?a]" by (simp add: it2 walk_of_def flip: append.assoc)
  have "owned_entry free s' b" if "b \<in> set (walk_of m it)" for b
    using s(4) [OF that] kalloc_free [OF i k(1)] by (auto simp: owned_entry_def)
  moreover have "?a \<notin> set (walk_of m it)"
    using s(4) [of ?a] fr entry_in_page [OF tal, of 0] by (fastforce simp: owned_entry_def)
  ultimately show ?thesis using y s(2,3) w t e(2) by (simp add: mappable_def it2 vm_present_def entry_addr_def)
qed

lemma map_loop_turn:
  assumes i: "inv s" and k: "kalloc s m = (tbl, s', m1)" "tbl \<noteq> 0" and it: "level it = Suc l" "pep it = Entry a" and r: "mappable free s m it"
    and m2: "m2 = write64 a (tbl OR PTE_P OR PTE_W OR PTE_U) (snd (memset tbl 0 PAGESIZE m1))"
    and it2: "it2 = it\<lparr>level := l, pep := entry_addr tbl (pageindex (cur_va it) l), vperm := vperm it AND (tbl OR PTE_P OR PTE_W OR PTE_U)\<rparr>"
  shows "map_loop kalloc s m it = map_loop kalloc s' m2 it2 \<and> owned_entry free s a"
proof -
  from r it walk_ends [of m it a] have "a \<in> set (walk_of m it)" by (metis last_in_set mappable_def)
  with r have own: "owned_entry free s a" by (simp add: mappable_def)
  moreover have "deref m (pep it) AND PTE_P = 0" using r it(1) by (simp add: mappable_def vm_present_def)
  moreover note map_turn [OF i k it own m2, folded it2]
  ultimately show ?thesis using it k by (simp add: map_loop.simps [of kalloc s m it] Let_def m2)
qed

text \<open>
  The loop needs no assumption on its result: from an iterator that is ready it reaches the last level, or it stops
  because no page is free; either way the iterator is what a fresh walk through the tables linked so far gives.
\<close>

lemma map_loop_links:
  assumes "mappable free s m it" and "pep it = Entry a" and "inv s"
  shows "\<exists>ok s' m' it' a'. map_loop kalloc s m it = Inr (ok, s', m', it') \<and> inv s' \<and> (\<forall>q. free s' q \<longrightarrow> free s q) \<and>
    pep it' = Entry a' \<and> mappable free s' m' it' \<and> vm_pt it' = vm_pt it \<and> cur_va it' = cur_va it \<and> vperm it' AND 7 = vperm it AND 7 \<and>
    (if ok then level it' = 0 else 0 < level it' \<and> (\<forall>q. \<not> free s' q)) \<and> (a' = a \<or> (\<forall>k < 8. free s (a' + word_of_nat k))) \<and>
    (\<forall>p. \<not> free s p \<longrightarrow> (\<forall>k < 8. p \<noteq> a + word_of_nat k) \<longrightarrow> m' p = m p)"
  using assms
proof (induction "level it" arbitrary: s m it a)
  case 0
  then show ?case by (auto simp: map_loop.simps [of kalloc s m it])
next
  case (Suc l)
  note lv = Suc.hyps(2) [symmetric]
  from Suc.prems(1) lv have np: "deref m (pep it) AND PTE_P = 0" by (simp add: mappable_def vm_present_def)
  obtain tbl s1 m1 where k: "kalloc s m = (tbl, s1, m1)" by (metis prod_cases3)
  note i1 = kalloc_inv [OF Suc.prems(3) k] and f1 = kalloc_free [OF Suc.prems(3) k]
  show ?case
  proof (cases "tbl = 0")
    case True
    note z = kalloc_null [OF Suc.prems(3) k [unfolded True]]
    from Suc.prems(1) z f1 have "mappable free s1 m1 it" by (auto simp: mappable_def owned_entry_def)
    moreover have "map_loop kalloc s m it = Inr (False, s1, m1, it)" using np lv k True by (simp add: map_loop.simps [of kalloc s m it])
    ultimately show ?thesis using Suc.prems(2) i1 f1 z lv by auto
  next
    case False
    define m2 where "m2 = write64 a (tbl OR PTE_P OR PTE_W OR PTE_U) (snd (memset tbl 0 PAGESIZE m1))"
    define it2 where "it2 = it\<lparr>level := l, pep := entry_addr tbl (pageindex (cur_va it) l), vperm := vperm it AND (tbl OR PTE_P OR PTE_W OR PTE_U)\<rparr>"
    let ?a = "tbl + 8 * pageindex (cur_va it) l"
    note rdy = map_turn_mappable [OF Suc.prems(3) k False lv Suc.prems(2,1) m2_def it2_def]
    note mt = map_loop_turn [OF Suc.prems(3) k False lv Suc.prems(2,1) m2_def it2_def]
    from mt have own: "owned_entry free s a" ..
    from mt have ml: "map_loop kalloc s m it = map_loop kalloc s1 m2 it2" ..
    note turn = map_turn [OF Suc.prems(3) k False lv Suc.prems(2) own m2_def, folded it2_def]
    from kalloc_page [OF Suc.prems(3) k False] have al: "tbl AND PTE_PAMASK = tbl"
      and fr: "\<And>p. unat (p - tbl) < 4096 \<Longrightarrow> free s p" by auto
    have it2: "l = level it2" "pep it2 = Entry ?a" "vm_pt it2 = vm_pt it" "cur_va it2 = cur_va it" "vperm it2 AND 7 = vperm it AND 7"
      using pwu_bits(3) [OF al] by (simp_all add: it2_def entry_addr_def and.assoc)
    from Suc.hyps(1) [OF it2(1) rdy it2(2) i1, folded ml, unfolded it2(3-5)] obtain ok s' m' it' a' where
      l: "map_loop kalloc s m it = Inr (ok, s', m', it')" "inv s'" "\<forall>q. free s' q \<longrightarrow> free s1 q" "pep it' = Entry a'" "mappable free s' m' it'"
        "vm_pt it' = vm_pt it" "cur_va it' = cur_va it" "vperm it' AND 7 = vperm it AND 7"
        "if ok then level it' = 0 else 0 < level it' \<and> (\<forall>q. \<not> free s' q)"
        "a' = ?a \<or> (\<forall>k < 8. free s1 (a' + word_of_nat k))"
      and m': "\<forall>p. \<not> free s1 p \<longrightarrow> (\<forall>k < 8. p \<noteq> ?a + word_of_nat k) \<longrightarrow> m' p = m2 p"
      by blast
    have new: "free s (?a + word_of_nat k)" if "k < 8" for k using fr entry_in_page [OF al that] by blast
    have "\<forall>k < 8. free s (a' + word_of_nat k)" using l(10) new f1 by auto
    moreover have "m' p = m p" if p: "\<not> free s p" "\<forall>k < 8. p \<noteq> a + word_of_nat k" for p
    proof -
      have "\<not> free s1 p" "\<forall>k < 8. p \<noteq> ?a + word_of_nat k" using p(1) f1 new by auto
      with m' turn p show ?thesis by auto
    qed
    moreover have "\<forall>q. free s' q \<longrightarrow> free s q" using l(3) f1 by blast
    ultimately show ?thesis using l(1,2,4-9) by blast
  qed
qed

text \<open>The last step of \<open>try_map\<close>: a mapping written into the entry the iterator ends on.\<close>

lemma mapping_written:
  assumes r: "mappable free s m it" and it: "pep it = Entry a" "level it = 0" "cur_va it AND PAGEOFFMASK = 0"
    and p: "perm AND PTE_P \<noteq> 0" "perm < 0x1000" "perm AND NOT (vperm it) AND 7 = 0" and pa: "pa AND PTE_PAMASK = pa" "pa < 0x100000000"
  shows "in_sync (write64 a (pa OR perm) m) it \<and> vm_pa (write64 a (pa OR perm) m) it = pa \<and> vm_perm (write64 a (pa OR perm) m) it AND 7 = perm AND 7"
proof -
  define m' where "m' = write64 a (pa OR perm) m"
  have e: "read64 m' a = pa OR perm" by (simp add: m'_def)
  have "perm AND PTE_PAMASK = 0"
  proof (rule bit_word_eqI)
    fix n assume "n < LENGTH(64)"
    have "bit perm n \<Longrightarrow> n < 12" using bit_below [of perm n 12] p(2) by (simp add: word_less_nat_alt)
    then show "bit (perm AND PTE_PAMASK) n = bit (0 :: u64) n" by (auto simp: pamask_bit)
  qed
  then have m: "(pa OR perm) AND PTE_PAMASK = pa" using pa(1) by (simp add: bit.conj_disj_distrib2)
  from r have s: "in_sync m it" "vm_pt it AND PTE_PAMASK = vm_pt it" "distinct (walk_of m it)" by (simp_all add: mappable_def)
  have al: "b \<in> set (walk_of m it) \<Longrightarrow> 8 dvd unat b" for b
    unfolding walk_of_def by (rule walk_aligned [OF entry_aligned [OF s(2)]])
  from walk_ends [OF s(1) it(1) s(3)] have aw: "a \<in> set (walk_of m it)" by (metis last_in_set)
  have keep: "read64 m' b = read64 m b" if "b \<in> set (walk_of m it)" "b \<noteq> a" for b
    unfolding m'_def using al [OF that(1)] al [OF aw] that(2) by (rule read64_write64_other)
  have "descend m' (cur_va it) (level it) (Entry a) (vperm it) = (0, Entry a, vperm it)" by (simp add: it(2))
  from in_sync_relink(1) [OF s(1) it(1) s(3) keep this] e m pa(2) have y: "in_sync m' (it\<lparr>level := 0, pep := Entry a, vperm := vperm it\<rparr>)" by simp
  have P: "(pa OR perm) AND PTE_P \<noteq> 0" using p(1) by (simp add: bit.conj_disj_distrib2 or_eq_0_iff)
  have "vm_pa m' it = pa" using P it(2,3) m by (simp add: vm_pa_def it(1) e pageoffmask_def page_consts)
  moreover have "vm_perm m' it AND 7 = perm AND 7"
  proof (rule bit_word_eqI)
    fix n assume l: "n < LENGTH(64)"
    have pa7: "bit pa n \<Longrightarrow> 12 \<le> n" using pamask_bit [of pa n] pa(1) by simp
    have b7: "bit (7 :: u64) n \<Longrightarrow> n < 3" using bit_below [of "7 :: u64" n 3] by simp
    have n: "bit perm n \<Longrightarrow> bit (7 :: u64) n \<Longrightarrow> bit (vperm it) n"
      using p(3) l by (metis bit_and_iff bit_not_iff bit_0_eq bot_apply bot_bool_def impossible_bit not_less)
    show "bit (vm_perm m' it AND 7) n = bit (perm AND 7) n"
      using P pa7 b7 n by (auto simp: vm_perm_def it(1) e bit_and_iff bit_or_iff)
  qed
  moreover have "it\<lparr>level := 0, pep := Entry a, vperm := vperm it\<rparr> = it" using it(1,2) by (cases it) simp
  ultimately show ?thesis using y by (simp only: m'_def)
qed

lemma try_map_installs:
  assumes r: "mappable free s m it" and e: "pep it = Entry a" "inv s" and al: "cur_va it AND PAGEOFFMASK = 0"
    and p: "perm AND PTE_P \<noteq> 0" "perm < 0x1000" "perm AND NOT (vperm it) AND 7 = 0" and pa: "pa AND PTE_PAMASK = pa" "pa < 0x100000000"
  shows "\<exists>r s' m' it'. try_map kalloc pa perm s m it = Inr (r, s', m', it') \<and> inv s' \<and> (\<forall>q. free s' q \<longrightarrow> free s q) \<and>
    mk_vmiter m' (vm_pt it) (cur_va it) = Inr it' \<and>
    (r = 0 \<and> level it' = 0 \<and> vm_pa m' it' = pa \<and> vm_perm m' it' AND 7 = perm AND 7 \<or>
     r = - 1 \<and> 0 < level it' \<and> (\<forall>q. \<not> free s' q)) \<and>
    (\<forall>q. \<not> free s q \<longrightarrow> (\<forall>k < 8. q \<noteq> a + word_of_nat k) \<longrightarrow> m' q = m q)"
proof -
  from map_loop_links [OF r e] obtain ok s1 m1 it1 a1 where
    l: "map_loop kalloc s m it = Inr (ok, s1, m1, it1)" "inv s1" "\<forall>q. free s1 q \<longrightarrow> free s q" "pep it1 = Entry a1" "mappable free s1 m1 it1"
      "vm_pt it1 = vm_pt it" "cur_va it1 = cur_va it" "vperm it1 AND 7 = vperm it AND 7"
      "if ok then level it1 = 0 else 0 < level it1 \<and> (\<forall>q. \<not> free s1 q)" "a1 = a \<or> (\<forall>k < 8. free s (a1 + word_of_nat k))"
    and m1: "\<forall>p. \<not> free s p \<longrightarrow> (\<forall>k < 8. p \<noteq> a + word_of_nat k) \<longrightarrow> m1 p = m p" by blast
  have "perm \<noteq> 0" "pa \<noteq> - 1" using p(1) pa(2) by auto
  then have tm: "try_map kalloc pa perm s m it =
      (if ok then Inr (0, s1, write64 a1 (pa OR perm) m1, it1) else Inr (- 1, s1, m1, it1))"
    using al p pa l(1,4,9) by (simp add: try_map_def Let_def pte_consts split: if_splits)
  show ?thesis
  proof (cases ok)
    case True
    have p1: "perm AND NOT (vperm it1) AND 7 = 0"
    proof (rule bit_word_eqI)
      fix n assume n: "n < LENGTH(64)"
      have v: "bit (7 :: u64) n \<Longrightarrow> bit (vperm it1) n = bit (vperm it) n" using l(8) by (metis bit_and_iff)
      have "\<not> bit (perm AND NOT (vperm it) AND 7) n" using p(3) by simp
      then show "bit (perm AND NOT (vperm it1) AND 7) n = bit (0 :: u64) n" using v n by (auto simp: bit_and_iff bit_not_iff)
    qed
    have lv: "level it1 = 0" using l(9) True by simp
    note w = mapping_written [OF l(5,4) lv _ p(1,2) p1 pa, unfolded l(7), OF al]
    have "write64 a1 (pa OR perm) m1 q = m q" if q: "\<not> free s q" "\<forall>k < 8. q \<noteq> a + word_of_nat k" for q
    proof -
      have "\<forall>k < 8. q \<noteq> a1 + word_of_nat k" using l(10) q by auto
      then show ?thesis using m1 q by (subst write64_other) auto
    qed
    with w lv l(2,3,6,7) True tm show ?thesis by (simp add: in_sync_def)
  next
    case False
    with l(2,3,5,6,7,9) m1 tm show ?thesis by (simp add: mappable_def in_sync_def)
  qed
qed

end

end
