(* ===== verification/Loader.thy ===== *)
theory Loader
  imports X86
begin

unbundle bit_operations_syntax

text \<open>
  Executables and symbols: the ELF structures of \<open>weensyos/elf.h\<close>, and from \<open>weensyos/k-hardware.cc\<close> the
  program loader, the symbol lookup and the stack backtracer. The program images are linked into the
  kernel as binary blobs; they are a parameter here, an image being its header fields, its program
  headers and its bytes.
\<close>

section \<open>ELF\<close>

definition ELF_MAGIC :: u32 where "ELF_MAGIC = 0x464C457F"
definition ELF_PTYPE_LOAD :: u32 where "ELF_PTYPE_LOAD = 1"
definition ELF_PFLAG_WRITE :: u32 where "ELF_PFLAG_WRITE = 2"

record elf_program =
  p_type :: u32
  p_flags :: u32
  p_offset :: u64
  p_va :: u64
  p_pa :: u64
  p_filesz :: u64
  p_memsz :: u64
  p_align :: u64

record elf_image =
  e_magic :: u32
  e_entry :: u64
  e_programs :: "elf_program list"
  e_bytes :: "u64 \<Rightarrow> u8"

record elf_symbol =
  st_name :: u32
  st_info :: u8
  st_other :: u8
  st_shndx :: u16
  st_value :: u64
  st_size :: u64

section \<open>Program loader\<close>

definition ramimage_names :: "string list" where
  "ramimage_names = [''allocator'', ''allocator2'', ''allocator3'', ''allocator4'', ''fork'', ''forkexit'']"

text \<open>\<open>ph\<close> and \<open>endph\<close> count program headers from the start of the table; both are 0 without an image.\<close>

record program_loader =
  elf :: "elf_image option"
  ph :: nat
  endph :: nat

definition header_at :: "program_loader \<Rightarrow> elf_program" where
  "header_at pl = e_programs (the (elf pl)) ! ph pl"

function loader_fix :: "program_loader \<Rightarrow> program_loader" where
  "loader_fix pl =
     (if elf pl \<noteq> None \<and> ph pl < endph pl \<and> p_type (header_at pl) \<noteq> ELF_PTYPE_LOAD
      then loader_fix (pl\<lparr>ph := ph pl + 1\<rparr>) else pl)"
  by pat_completeness auto

termination
  by (relation "measure (\<lambda>pl. endph pl - ph pl)") auto

declare loader_fix.simps [simp del]

text \<open>\<open>None\<close> is the failed assertion on the magic number.\<close>

definition loader_reset :: "program_loader \<Rightarrow> program_loader option" where
  "loader_reset pl =
     (case elf pl of
        None \<Rightarrow> Some (pl\<lparr>ph := 0, endph := 0\<rparr>)
      | Some e \<Rightarrow>
          if e_magic e = ELF_MAGIC then Some (loader_fix (pl\<lparr>ph := 0, endph := length (e_programs e)\<rparr>)) else None)"

definition mk_loader :: "(nat \<Rightarrow> elf_image) \<Rightarrow> int \<Rightarrow> program_loader option" where
  "mk_loader images program_number =
     loader_reset \<lparr>elf = (if program_number \<ge> 0 \<and> nat program_number < length ramimage_names
                           then Some (images (nat program_number)) else None), ph = 0, endph = 0\<rparr>"

fun index_of_name :: "string \<Rightarrow> int \<Rightarrow> string list \<Rightarrow> int" where
  "index_of_name name i [] = - 1"
| "index_of_name name i (n # ns) = (if name = n then i else index_of_name name (i + 1) ns)"

definition program_number :: "string \<Rightarrow> int" where
  "program_number name = index_of_name name 0 ramimage_names"

definition mk_loader_named :: "(nat \<Rightarrow> elf_image) \<Rightarrow> string \<Rightarrow> program_loader option" where
  "mk_loader_named images name = mk_loader images (program_number name)"

definition loader_present :: "program_loader \<Rightarrow> bool" where
  "loader_present pl = (ph pl \<noteq> endph pl)"

definition loader_va :: "program_loader \<Rightarrow> u64" where
  "loader_va pl = (if ph pl \<noteq> endph pl then p_va (header_at pl) else 0)"

definition loader_size :: "program_loader \<Rightarrow> u64" where
  "loader_size pl = (if ph pl \<noteq> endph pl then p_memsz (header_at pl) else 0)"

definition loader_data :: "program_loader \<Rightarrow> u64 \<Rightarrow> u8" where
  "loader_data pl i = e_bytes (the (elf pl)) (p_offset (header_at pl) + i)"

definition loader_data_size :: "program_loader \<Rightarrow> u64" where
  "loader_data_size pl = (if ph pl \<noteq> endph pl then p_filesz (header_at pl) else 0)"

definition loader_writable :: "program_loader \<Rightarrow> bool" where
  "loader_writable pl = (ph pl \<noteq> endph pl \<and> p_flags (header_at pl) AND ELF_PFLAG_WRITE \<noteq> 0)"

definition loader_entry :: "program_loader \<Rightarrow> u64" where
  "loader_entry pl = (case elf pl of None \<Rightarrow> 0 | Some e \<Rightarrow> e_entry e)"

definition loader_next :: "program_loader \<Rightarrow> program_loader" where
  "loader_next pl = (if ph pl \<noteq> endph pl then loader_fix (pl\<lparr>ph := ph pl + 1\<rparr>) else pl)"

text \<open>The headers a loop \<open>for (...; loader.present(); ++loader)\<close> visits.\<close>

lemma loader_fix_forward: "ph pl \<le> ph (loader_fix pl) \<and> endph (loader_fix pl) = endph pl \<and> elf (loader_fix pl) = elf pl"
proof (induction pl rule: loader_fix.induct)
  case (1 pl)
  show ?case
  proof (cases "elf pl \<noteq> None \<and> ph pl < endph pl \<and> p_type (header_at pl) \<noteq> ELF_PTYPE_LOAD")
    case True
    then show ?thesis using "1.IH" by (subst (1 2 3) loader_fix.simps) auto
  next
    case False
    then show ?thesis by (subst (1 2 3) loader_fix.simps) auto
  qed
qed

function visited :: "program_loader \<Rightarrow> elf_program list" where
  "visited pl = (if ph pl < endph pl then header_at pl # visited (loader_next pl) else [])"
  by pat_completeness auto

termination
proof (relation "measure (\<lambda>pl. endph pl - ph pl)", simp)
  fix pl :: program_loader
  assume p: "ph pl < endph pl"
  let ?q = "pl\<lparr>ph := ph pl + 1\<rparr>"
  from loader_fix_forward [of ?q] p show "(loader_next pl, pl) \<in> measure (\<lambda>pl. endph pl - ph pl)"
    by (auto simp: loader_next_def)
qed

declare visited.simps [simp del]

section \<open>Symbols\<close>

definition SYMTAB_ADDR :: u64 where "SYMTAB_ADDR = 0x1000000"

text \<open>
  The binary search of \<open>lookup_symbol\<close> over the symbol table; the result is the index of the symbol found.
  The reference \<open>(&sym)[1]\<close> is only made when \<open>m + 1\<close> is not the number of symbols.
\<close>

definition covers :: "elf_symbol list \<Rightarrow> nat \<Rightarrow> u64 \<Rightarrow> bool" where
  "covers syms m addr =
     (st_value (syms ! m) \<le> addr \<and>
      (if st_size (syms ! m) \<noteq> 0 then addr < st_value (syms ! m) + st_size (syms ! m)
       else m + 1 = length syms \<or> addr < st_value (syms ! (m + 1))))"

function lookup_loop :: "elf_symbol list \<Rightarrow> u64 \<Rightarrow> nat \<Rightarrow> nat \<Rightarrow> nat option" where
  "lookup_loop syms addr l r =
     (if l < r then
        let m = l + (r - l) div 2
        in if covers syms m addr then Some m
           else if st_value (syms ! m) < addr then lookup_loop syms addr (m + 1) r
           else lookup_loop syms addr l m
      else None)"
  by pat_completeness auto

termination
  by (relation "measure (\<lambda>(_, _, l, r). r - l)") auto

declare lookup_loop.simps [simp del]

text \<open>
  The whole function: it first makes sure the symbol table is mapped (a large page in the kernel page
  table's third table at \<open>ptab\<close>), then searches. Results are the name offset and the start address.
\<close>

definition lookup_symbol :: "u64 \<Rightarrow> elf_symbol list \<Rightarrow> u64 \<Rightarrow> memory \<Rightarrow> (u32 \<times> u64) option \<times> memory" where
  "lookup_symbol ptab syms addr m =
     (let a = ptab + 8 * (SYMTAB_ADDR div 0x200000);
          m = (if read64 m a = 0 then write64 a (SYMTAB_ADDR OR PTE_P OR PTE_W OR PTE_PS) m else m)
      in (map_option (\<lambda>i. (st_name (syms ! i), st_value (syms ! i))) (lookup_loop syms addr 0 (length syms)), m))"

section \<open>Backtraces\<close>

record backtracer =
  bt_rbp :: u64
  bt_rsp :: u64
  bt_top :: u64

definition bt_ok :: "backtracer \<Rightarrow> bool" where
  "bt_ok bt = (bt_rbp bt \<ge> bt_rsp bt \<and> bt_top bt - bt_rbp bt \<ge> 16)"

definition ret_rip :: "memory \<Rightarrow> backtracer \<Rightarrow> u64" where
  "ret_rip m bt = read64 m (bt_rbp bt + 8)"

definition bt_step :: "memory \<Rightarrow> backtracer \<Rightarrow> backtracer" where
  "bt_step m bt = bt\<lparr>bt_rsp := bt_rbp bt + 16, bt_rbp := read64 m (bt_rbp bt)\<rparr>"

text \<open>The return addresses a backtrace prints, with their frame numbers; partial, as stack contents may loop.\<close>

partial_function (option) frames :: "memory \<Rightarrow> int \<Rightarrow> backtracer \<Rightarrow> (int \<times> u64) list option" where
  "frames m frame bt =
     (if bt_ok bt then Option.bind (frames m (frame + 1) (bt_step m bt)) (\<lambda>fs. Some ((frame, ret_rip m bt) # fs))
      else Some [])"

section \<open>The loader visits the loadable segments\<close>

lemma loader_fix_spec:
  assumes "elf pl = Some e" and "endph pl = length (e_programs e)" and "ph pl \<le> endph pl"
  shows "filter (\<lambda>p. p_type p = ELF_PTYPE_LOAD) (drop (ph (loader_fix pl)) (e_programs e)) =
      filter (\<lambda>p. p_type p = ELF_PTYPE_LOAD) (drop (ph pl) (e_programs e)) \<and>
    ph (loader_fix pl) \<le> endph pl \<and>
    (ph (loader_fix pl) < endph pl \<longrightarrow> p_type (e_programs e ! ph (loader_fix pl)) = ELF_PTYPE_LOAD)"
  using assms
proof (induction pl rule: loader_fix.induct)
  case (1 pl)
  show ?case
  proof (cases "elf pl \<noteq> None \<and> ph pl < endph pl \<and> p_type (header_at pl) \<noteq> ELF_PTYPE_LOAD")
    case True
    have "drop (ph pl) (e_programs e) = e_programs e ! ph pl # drop (Suc (ph pl)) (e_programs e)"
      using True "1.prems" by (intro Cons_nth_drop_Suc [symmetric]) simp
    with True "1.prems" "1.IH" [OF True] show ?thesis by (subst (1 2 3 4) loader_fix.simps) (simp add: header_at_def)
  next
    case False
    then have "loader_fix pl = pl" by (subst loader_fix.simps) auto
    with False "1.prems" show ?thesis by (auto simp: header_at_def)
  qed
qed

lemma visited_spec:
  assumes "elf pl = Some e" and "endph pl = length (e_programs e)" and "ph pl \<le> endph pl"
    and "ph pl < endph pl \<Longrightarrow> p_type (e_programs e ! ph pl) = ELF_PTYPE_LOAD"
  shows "visited pl = filter (\<lambda>p. p_type p = ELF_PTYPE_LOAD) (drop (ph pl) (e_programs e))"
  using assms
proof (induction pl rule: visited.induct)
  case (1 pl)
  show ?case
  proof (cases "ph pl < endph pl")
    case True
    let ?q = "pl\<lparr>ph := Suc (ph pl)\<rparr>"
    have q: "elf ?q = Some e" "endph ?q = length (e_programs e)" "ph ?q \<le> endph ?q" using "1.prems" True by auto
    note f = loader_fix_spec [OF q] loader_fix_forward [of ?q]
    have n: "loader_next pl = loader_fix ?q" using True by (simp add: loader_next_def)
    have "drop (ph pl) (e_programs e) = e_programs e ! ph pl # drop (Suc (ph pl)) (e_programs e)"
      using True "1.prems" by (intro Cons_nth_drop_Suc [symmetric]) simp
    moreover have "visited (loader_next pl) = filter (\<lambda>p. p_type p = ELF_PTYPE_LOAD) (drop (ph (loader_next pl)) (e_programs e))"
      using f q by (intro "1.IH" [OF True]) (auto simp: n)
    ultimately show ?thesis using True "1.prems" f n by (subst visited.simps) (simp add: header_at_def)
  next
    case False
    then show ?thesis using "1.prems" by (subst visited.simps) simp
  qed
qed

text \<open>
  Looping over a program visits exactly its loadable segments, in the order of the program
  headers, each once; an unknown program name or number has no segments and entry point 0.
\<close>

theorem loader_visits_loads:
  assumes "mk_loader images n = Some pl"
  shows "visited pl = (if 0 \<le> n \<and> n < 6 then filter (\<lambda>p. p_type p = ELF_PTYPE_LOAD) (e_programs (images (nat n))) else []) \<and>
    loader_entry pl = (if 0 \<le> n \<and> n < 6 then e_entry (images (nat n)) else 0)"
proof (cases "0 \<le> n \<and> n < 6")
  case True
  let ?e = "images (nat n)" and ?pl = "\<lparr>elf = Some (images (nat n)), ph = 0, endph = length (e_programs (images (nat n)))\<rparr>"
  have pl: "pl = loader_fix ?pl" using assms True by (simp add: mk_loader_def loader_reset_def ramimage_names_def split: if_splits)
  have f: "elf ?pl = Some ?e" "endph ?pl = length (e_programs ?e)" "ph ?pl \<le> endph ?pl" by simp_all
  note s = loader_fix_spec [OF f] loader_fix_forward [of ?pl]
  have "visited pl = filter (\<lambda>p. p_type p = ELF_PTYPE_LOAD) (drop (ph pl) (e_programs ?e))"
    unfolding pl using s by (intro visited_spec) auto
  with s True show ?thesis by (simp add: pl loader_entry_def)
next
  case False
  then have "pl = \<lparr>elf = None, ph = 0, endph = 0\<rparr>" using assms
    by (auto simp: mk_loader_def loader_reset_def ramimage_names_def split: if_splits)
  with False show ?thesis by (auto simp: visited.simps loader_entry_def)
qed

definition sample_program :: "u32 \<Rightarrow> u64 \<Rightarrow> elf_program" where
  "sample_program ty va = \<lparr>p_type = ty, p_flags = 0, p_offset = 0, p_va = va, p_pa = 0, p_filesz = 0, p_memsz = 0, p_align = 0\<rparr>"

theorem loader_visits_loads_witness:
  "\<exists>pl. mk_loader (\<lambda>_. \<lparr>e_magic = ELF_MAGIC, e_entry = 0x100000, e_programs = [sample_program 2 0, sample_program 1 0x100000], e_bytes = \<lambda>_. 0\<rparr>) 4 = Some pl \<and>
     visited pl = [sample_program 1 0x100000] \<and> loader_entry pl = 0x100000"
proof -
  let ?im = "\<lambda>_ :: nat. \<lparr>e_magic = ELF_MAGIC, e_entry = 0x100000, e_programs = [sample_program 2 0, sample_program 1 0x100000], e_bytes = \<lambda>_. 0\<rparr>"
  obtain pl where pl: "mk_loader ?im 4 = Some pl" by (simp add: mk_loader_def loader_reset_def ramimage_names_def)
  from loader_visits_loads [OF this] pl show ?thesis by (simp add: sample_program_def ELF_PTYPE_LOAD_def)
qed

section \<open>Symbol lookup finds the covering symbol\<close>

text \<open>What the symbol table builder guarantees: increasing addresses, no overlap, no wrap-around.\<close>

definition symtab_ok :: "elf_symbol list \<Rightarrow> bool" where
  "symtab_ok syms =
     ((\<forall>i j. i < j \<longrightarrow> j < length syms \<longrightarrow>
         unat (st_value (syms ! i)) < unat (st_value (syms ! j)) \<and>
         unat (st_value (syms ! i)) + unat (st_size (syms ! i)) \<le> unat (st_value (syms ! j))) \<and>
      (\<forall>i < length syms. unat (st_value (syms ! i)) + unat (st_size (syms ! i)) < 2 ^ 64))"

lemma covers_unat:
  assumes "symtab_ok syms" and "i < length syms"
  shows "covers syms i addr \<longleftrightarrow> unat (st_value (syms ! i)) \<le> unat addr \<and>
    (if st_size (syms ! i) \<noteq> 0 then unat addr < unat (st_value (syms ! i)) + unat (st_size (syms ! i))
     else i + 1 = length syms \<or> unat addr < unat (st_value (syms ! (i + 1))))"
proof -
  have "unat (st_value (syms ! i) + st_size (syms ! i)) = unat (st_value (syms ! i)) + unat (st_size (syms ! i))"
    using assms by (intro unat_plus_no_wrap) (auto simp: symtab_ok_def)
  then show ?thesis by (simp add: covers_def word_le_nat_alt word_less_nat_alt)
qed

lemma covers_order:
  assumes ok: "symtab_ok syms" and i: "i < length syms" "covers syms i addr" and m: "m < length syms" "\<not> covers syms m addr"
  shows "st_value (syms ! m) < addr \<longleftrightarrow> m < i"
proof -
  have c: "unat (st_value (syms ! i)) \<le> unat addr" using i ok by (simp add: covers_unat)
  have ne: "m \<noteq> i" using i m by auto
  show ?thesis
  proof (cases "m < i")
    case True
    then have "unat (st_value (syms ! m)) < unat (st_value (syms ! i))" using ok i(1) by (auto simp: symtab_ok_def)
    with True c show ?thesis by (simp add: word_less_nat_alt)
  next
    case False
    then have im: "i < m" using ne by simp
    have vs: "unat (st_value (syms ! i)) + unat (st_size (syms ! i)) \<le> unat (st_value (syms ! m))"
      using ok im m(1) by (auto simp: symtab_ok_def)
    have "unat addr < unat (st_value (syms ! m))"
    proof (cases "st_size (syms ! i) = 0")
      case True
      then have "unat addr < unat (st_value (syms ! (i + 1)))" using i ok im m(1) by (auto simp: covers_unat)
      moreover have "unat (st_value (syms ! (i + 1))) \<le> unat (st_value (syms ! m))"
        using ok im m(1) by (cases "i + 1 = m") (auto simp: symtab_ok_def less_imp_le)
      ultimately show ?thesis by linarith
    next
      case False
      then have "unat addr < unat (st_value (syms ! i)) + unat (st_size (syms ! i))" using i ok by (simp add: covers_unat)
      with vs show ?thesis by linarith
    qed
    with False show ?thesis by (simp add: word_less_nat_alt)
  qed
qed

text \<open>The search is right when a symbol that does not cover the address tells on which side of it those that do lie.\<close>

lemma lookup_loop_ordered:
  assumes "\<And>i k. i < length syms \<Longrightarrow> k < length syms \<Longrightarrow> covers syms i addr \<Longrightarrow> \<not> covers syms k addr \<Longrightarrow>
      st_value (syms ! k) < addr \<longleftrightarrow> k < i"
    and "r \<le> length syms"
  shows "(\<forall>i. lookup_loop syms addr l r = Some i \<longrightarrow> l \<le> i \<and> i < r \<and> covers syms i addr) \<and>
    (lookup_loop syms addr l r = None \<longrightarrow> (\<forall>i. l \<le> i \<and> i < r \<longrightarrow> \<not> covers syms i addr))"
  using assms
proof (induction syms addr l r rule: lookup_loop.induct)
  case (1 syms addr l r)
  show ?case
  proof (cases "l < r")
    case False
    then show ?thesis by (auto simp: lookup_loop.simps)
  next
    case True
    define mid where "mid = l + (r - l) div 2"
    have m: "l \<le> mid" "mid < r" using True by (auto simp: mid_def)
    note ih = "1.IH" [OF True mid_def]
    show ?thesis
    proof (cases "covers syms mid addr")
      case True
      with m \<open>l < r\<close> show ?thesis by (simp add: lookup_loop.simps [of _ _ l] mid_def [symmetric])
    next
      case False
      have ord: "covers syms i addr \<Longrightarrow> i < r \<Longrightarrow> st_value (syms ! mid) < addr \<longleftrightarrow> mid < i" for i
        using "1.prems"(1) [OF _ _ _ False] m "1.prems"(2) by simp
      show ?thesis
      proof (cases "st_value (syms ! mid) < addr")
        case up: True
        have step: "lookup_loop syms addr l r = lookup_loop syms addr (mid + 1) r"
          using \<open>l < r\<close> False up by (simp add: lookup_loop.simps [of _ _ l] mid_def [symmetric])
        have h: "mid + 1 \<le> i" if "covers syms i addr" "i < r" for i using ord [OF that] up by simp
        from ih(1) [OF False up "1.prems"] h m show ?thesis unfolding step by (auto simp del: Suc_eq_plus1)
      next
        case dn: False
        have step: "lookup_loop syms addr l r = lookup_loop syms addr l mid"
          using \<open>l < r\<close> False dn by (simp add: lookup_loop.simps [of _ _ l] mid_def [symmetric])
        have "mid \<le> length syms" using m "1.prems"(2) by simp
        have h: "i < mid" if "covers syms i addr" "i < r" for i using ord [OF that] dn False that by (metis linorder_neqE_nat)
        from ih(2) [OF False dn "1.prems"(1) \<open>mid \<le> length syms\<close>] h m show ?thesis unfolding step by auto
      qed
    qed
  qed
qed

lemma lookup_loop_spec:
  assumes "symtab_ok syms" and "r \<le> length syms"
  shows "(\<forall>i. lookup_loop syms addr l r = Some i \<longrightarrow> l \<le> i \<and> i < r \<and> covers syms i addr) \<and>
    (lookup_loop syms addr l r = None \<longrightarrow> (\<forall>i. l \<le> i \<and> i < r \<longrightarrow> \<not> covers syms i addr))"
  by (rule lookup_loop_ordered [OF covers_order [OF assms(1)] assms(2)])

text \<open>
  Symbol lookup is sound and complete: on a table with increasing, non-overlapping symbols the
  binary search returns a symbol that covers the address whenever one exists, and nothing otherwise;
  symbols without a size extend to the next one.
\<close>

theorem lookup_symbol_correct:
  assumes "symtab_ok syms"
  shows "case fst (lookup_symbol ptab syms addr m) of
      Some (name, start) \<Rightarrow> (\<exists>i < length syms. covers syms i addr \<and> name = st_name (syms ! i) \<and> start = st_value (syms ! i))
    | None \<Rightarrow> (\<forall>i < length syms. \<not> covers syms i addr)"
  using lookup_loop_spec [OF assms order.refl, of addr 0]
  by (auto simp: lookup_symbol_def Let_def split: option.splits)

definition sample_symbols :: "elf_symbol list" where
  "sample_symbols = [\<lparr>st_name = 1, st_info = 2, st_other = 0, st_shndx = 1, st_value = 0x40000, st_size = 0x100\<rparr>,
     \<lparr>st_name = 9, st_info = 2, st_other = 0, st_shndx = 1, st_value = 0x40200, st_size = 0\<rparr>]"

theorem lookup_symbol_correct_witness:
  "fst (lookup_symbol 0 sample_symbols 0x40300 (\<lambda>_. 0)) = Some (9, 0x40200)"
proof -
  have ok: "symtab_ok sample_symbols" by (auto simp: symtab_ok_def sample_symbols_def less_Suc_eq nth_Cons')
  have "fst (lookup_symbol 0 sample_symbols 0x40300 (\<lambda>_. 0)) \<noteq> None"
    by (simp add: lookup_symbol_def lookup_loop.simps sample_symbols_def covers_def Let_def)
  with lookup_symbol_correct [OF ok, where addr = "0x40300" and ptab = 0 and m = "\<lambda>_. 0"] show ?thesis
    by (auto simp: sample_symbols_def covers_def less_Suc_eq split: option.splits)
qed

section \<open>The backtracer's bound\<close>

text \<open>
  The backtracer accepts frame pointers beyond the stack: every frame pointer from 15 bytes below
  the top upwards would have to be rejected, but the unsigned difference \<open>stack_top - rbp\<close> wraps, so every
  \<open>rbp\<close> above the top (and at least 16 away from it modulo the word size) passes \<open>ok\<close> and is dereferenced.
\<close>

theorem bt_ok_above_top:
  assumes "bt_top bt < bt_rbp bt" and "bt_rsp bt \<le> bt_rbp bt" and "unat (bt_rbp bt) - unat (bt_top bt) \<le> 2 ^ 64 - 16"
  shows "bt_ok bt"
  using assms by (auto simp: bt_ok_def word_le_nat_alt word_less_nat_alt unat_diff_wrap)

theorem bt_ok_above_top_witness: "bt_ok \<lparr>bt_rbp = 0x80000000, bt_rsp = 0x7FF00, bt_top = 0x80000\<rparr>"
  using bt_ok_above_top [of "\<lparr>bt_rbp = 0x80000000, bt_rsp = 0x7FF00, bt_top = 0x80000\<rparr>"] by simp

end
