(* ===== verification/Keyboard.thy ===== *)
theory Keyboard
  imports Console Loader
begin

unbundle bit_operations_syntax

text \<open>
  The keyboard driver of \<open>weensyos/k-hardware.cc\<close>: the key tables, \<open>keyboard_readc\<close> with its modifier and
  escape state, and \<open>check_keyboard\<close>. A read of the controller is a pair of the status and data bytes.
\<close>

section \<open>Tables\<close>

definition MOD_SHIFT :: u8 where "MOD_SHIFT = push_bit 0 1"
definition MOD_CONTROL :: u8 where "MOD_CONTROL = push_bit 1 1"
definition MOD_CAPSLOCK :: u8 where "MOD_CAPSLOCK = push_bit 3 1"

text \<open>Octal 0372 to 0377.\<close>

definition KEY_SHIFT :: int where "KEY_SHIFT = 250"
definition KEY_CONTROL :: int where "KEY_CONTROL = 251"
definition KEY_ALT :: int where "KEY_ALT = 252"
definition KEY_CAPSLOCK :: int where "KEY_CAPSLOCK = 253"
definition KEY_NUMLOCK :: int where "KEY_NUMLOCK = 254"
definition KEY_SCROLLLOCK :: int where "KEY_SCROLLLOCK = 255"

definition CKEY :: "int \<Rightarrow> int" where "CKEY cn = 0x80 + cn"

lemmas key_consts = MOD_SHIFT_def MOD_CONTROL_def MOD_CAPSLOCK_def KEY_SHIFT_def KEY_CONTROL_def KEY_ALT_def
  KEY_CAPSLOCK_def KEY_NUMLOCK_def KEY_SCROLLLOCK_def CKEY_def

definition keymap :: "int list" where
  "keymap =
     [0, 27, 128, 129, 130, 131, 132, 133, 134, 135, 136, 137, 138, 139, 8, 9,
      113, 119, 101, 114, 116, 121, 117, 105, 111, 112, 140, 141, 142, 251, 97, 115,
      100, 102, 103, 104, 106, 107, 108, 143, 144, 145, 250, 146, 122, 120, 99, 118,
      98, 110, 109, 147, 148, 149, 250, 42, 252, 32, 253, 0, 0, 0, 0, 0,
      0, 0, 0, 0, 0, 254, 255, 55, 56, 57, 45, 52, 53, 54, 43, 49,
      50, 51, 48, 46, 0, 0, 0, 0, 0, 0, 0, 0, 0, 0, 0, 0,
      0, 0, 0, 0, 0, 0, 0, 0, 0, 0, 0, 0, 0, 0, 0, 0,
      0, 0, 0, 0, 0, 0, 0, 0, 0, 0, 0, 0, 0, 0, 0, 0,
      0, 0, 0, 0, 0, 0, 0, 0, 0, 0, 0, 0, 0, 0, 0, 0,
      0, 0, 0, 0, 0, 0, 0, 0, 0, 0, 0, 0, 142, 251, 0, 0,
      0, 0, 0, 0, 0, 0, 0, 0, 0, 0, 0, 0, 0, 0, 0, 0,
      0, 0, 0, 0, 0, 47, 0, 0, 252, 0, 0, 0, 0, 0, 0, 0,
      0, 0, 0, 0, 0, 0, 0, 196, 192, 198, 0, 195, 0, 193, 0, 197,
      194, 199, 200, 201, 0, 0, 0, 0, 0, 0, 0, 0, 0, 0, 0, 0,
      0, 0, 0, 0, 0, 0, 0, 0, 0, 0, 0, 0, 0, 0, 0, 0,
      0, 0, 0, 0, 0, 0, 0, 0, 0, 0, 0, 0, 0, 0, 0, 0]"

definition complex_keymap :: "int list list" where
  "complex_keymap =
     [[49, 33, 0, 0], [50, 64, 0, 0], [51, 35, 0, 0], [52, 36, 0, 0], [53, 37, 0, 0], [54, 94, 0, 30],
      [55, 38, 0, 0], [56, 42, 0, 0], [57, 40, 0, 0], [48, 41, 0, 0], [45, 95, 0, 31], [61, 43, 0, 0],
      [91, 123, 27, 0], [93, 125, 29, 0], [10, 10, 13, 13], [59, 58, 0, 0], [39, 34, 0, 0], [96, 126, 0, 0],
      [92, 124, 28, 0], [44, 60, 0, 0], [46, 62, 0, 0], [47, 63, 0, 0]]"

section \<open>Driver\<close>

record kbd =
  modifiers :: u8
  last_escape :: u8

definition KEYBOARD_STATUS_READY :: u8 where "KEYBOARD_STATUS_READY = 0x01"

definition press :: "int \<Rightarrow> kbd \<Rightarrow> int \<times> kbd" where
  "press ch k =
     (if ch \<ge> 97 \<and> ch \<le> 122 then
        if modifiers k AND MOD_CONTROL \<noteq> 0 then (ch - 0x60, k)
        else if (modifiers k AND MOD_SHIFT = 0) \<noteq> (modifiers k AND MOD_CAPSLOCK = 0) then (ch - 0x20, k)
        else (ch, k)
      else if ch \<ge> KEY_CAPSLOCK then (0, k\<lparr>modifiers := modifiers k XOR push_bit (nat (ch - KEY_SHIFT)) 1\<rparr>)
      else if ch \<ge> KEY_SHIFT then (0, k\<lparr>modifiers := modifiers k OR push_bit (nat (ch - KEY_SHIFT)) 1\<rparr>)
      else if ch \<ge> CKEY 0 \<and> ch \<le> CKEY 21 then (complex_keymap ! nat (ch - CKEY 0) ! unat (modifiers k AND 3), k)
      else if ch < 0x80 \<and> modifiers k AND MOD_CONTROL \<noteq> 0 then (0, k)
      else (ch, k))"

definition release :: "int \<Rightarrow> kbd \<Rightarrow> kbd" where
  "release ch k =
     (if ch \<ge> KEY_SHIFT \<and> ch < KEY_CAPSLOCK
      then k\<lparr>modifiers := modifiers k AND NOT (push_bit (nat (ch - KEY_SHIFT)) 1)\<rparr> else k)"

definition keyboard_readc :: "u8 \<times> u8 \<Rightarrow> kbd \<Rightarrow> int \<times> kbd" where
  "keyboard_readc inp k =
     (if fst inp AND KEYBOARD_STATUS_READY = 0 then (- 1, k)
      else
        let data = snd inp; escape = last_escape k; k = k\<lparr>last_escape := 0\<rparr>
        in if data = 0xE0 then (0, k\<lparr>last_escape := 0x80\<rparr>)
           else if data AND 0x80 \<noteq> 0 then (0, release (keymap ! unat ((data AND 0x7F) OR escape)) k)
           else press (keymap ! unat (data OR escape)) k)"

section \<open>Soft reboot\<close>

text \<open>The addresses of the linker's symbols \<open>_data_start\<close>, \<open>_edata\<close> and \<open>_kernel_end\<close>.\<close>

record layout =
  data_start :: u64
  edata :: u64
  kernel_end :: u64

definition stash_kernel_data :: "layout \<Rightarrow> bool \<Rightarrow> memory \<Rightarrow> memory" where
  "stash_kernel_data L reboot m =
     (let data_size = edata L - data_start L; data_stash = SYMTAB_ADDR - data_size
      in if reboot then snd (memset (edata L) 0 (kernel_end L - edata L) (snd (memcpy (data_start L) data_stash data_size m)))
         else snd (memcpy data_stash (data_start L) data_size m))"

text \<open>
  The memory effects of a soft reboot in \<open>check_keyboard\<close>, up to the jump to \<open>kernel_entry\<close>: the temporary
  page table at 0x1000, then the data and zero segments restored, once by \<open>stash_kernel_data\<close> and once in place.
\<close>

definition soft_reboot :: "layout \<Rightarrow> memory \<Rightarrow> memory" where
  "soft_reboot L m =
     (let m = snd (memset 0x1000 0 (PAGESIZE * 2) m);
          m = write64 0x1000 (0x2000 OR PTE_P OR PTE_W) m;
          m = write64 0x2000 (PTE_P OR PTE_W OR PTE_PS) m;
          m = stash_kernel_data L True m;
          data_size = edata L - data_start L;
          zero_size = kernel_end L - edata L;
          data_stash = SYMTAB_ADDR - data_size;
          m = snd (memcpy (data_start L) data_stash data_size m)
      in snd (memset (edata L) 0 zero_size m))"

text \<open>
  What \<open>check_keyboard\<close> ends with: the key, a jump to \<open>kernel_entry\<close> with a program name in the
  multiboot information, or \<open>poweroff\<close>.
\<close>

datatype key_action = KeyReturn int | SoftReboot string | PowerOff

definition check_keyboard :: "layout \<Rightarrow> u8 \<times> u8 \<Rightarrow> kbd \<Rightarrow> memory \<Rightarrow> key_action \<times> kbd \<times> memory" where
  "check_keyboard L inp k m =
     (let (c, k) = keyboard_readc inp k
      in if c = 97 \<or> c = 102 \<or> c = 101 then
           (SoftReboot (if c = 97 then ''allocators'' else if c = 101 then ''forkexit'' else ''fork''), k, soft_reboot L m)
         else if c = 0x03 \<or> c = 113 then (PowerOff, k, m)
         else (KeyReturn c, k, m))"

section \<open>The tables are indexed within their bounds\<close>

lemma length_keymap [simp]: "length keymap = 256"
  by (simp add: keymap_def)

lemma keymap_range: "\<forall>ch \<in> set keymap. 0 \<le> ch \<and> ch < 256"
  by (simp add: keymap_def)

lemma complex_keymap_shape: "length complex_keymap = 22" "\<forall>row \<in> set complex_keymap. length row = 4 \<and> (\<forall>ch \<in> set row. 0 \<le> ch \<and> ch < 256)"
  by (simp_all add: complex_keymap_def)

lemma keymap_nth: "0 \<le> keymap ! unat (i :: u8) \<and> keymap ! unat i < 256"
  using keymap_range unat_lt_8 [of i] by (auto simp: all_set_conv_all_nth)

lemma press_range: "0 \<le> ch \<Longrightarrow> ch < 256 \<Longrightarrow> 0 \<le> fst (press ch k) \<and> fst (press ch k) < 256"
proof -
  assume ch: "0 \<le> ch" "ch < 256"
  have m: "unat (modifiers k AND 3) < 4" using word_and_le1 [of "modifiers k" 3] by (simp add: word_le_nat_alt)
  have "0 \<le> complex_keymap ! nat (ch - 128) ! unat (modifiers k AND 3) \<and> complex_keymap ! nat (ch - 128) ! unat (modifiers k AND 3) < 256"
    if "128 \<le> ch" "ch \<le> 149"
  proof -
    have "complex_keymap ! nat (ch - 128) \<in> set complex_keymap" using that complex_keymap_shape(1) by (intro nth_mem) simp
    with complex_keymap_shape(2) m show ?thesis by (metis nth_mem)
  qed
  with ch show ?thesis by (auto simp: press_def key_consts)
qed


lemma press_frame: "last_escape (snd (press ch k)) = last_escape k"
  by (simp add: press_def)

lemma release_frame [simp]: "last_escape (release ch k) = last_escape k"
  by (simp add: release_def)

text \<open>The driver is in one of the two escape states.\<close>

definition kbd_ok :: "kbd \<Rightarrow> bool" where
  "kbd_ok k = (last_escape k = 0 \<or> last_escape k = 0x80)"

text \<open>What a key code means under modifiers, case by case.\<close>

definition key_meaning :: "int \<Rightarrow> bool \<Rightarrow> bool \<Rightarrow> bool \<Rightarrow> int" where
  "key_meaning ch shift ctrl caps =
     (if 97 \<le> ch \<and> ch \<le> 122 then if ctrl then ch - 96 else if shift \<noteq> caps then ch - 32 else ch
      else if 250 \<le> ch then 0
      else if 128 \<le> ch \<and> ch \<le> 149 then complex_keymap ! nat (ch - 128) ! ((if shift then 1 else 0) + (if ctrl then 2 else 0))
      else if ch < 128 \<and> ctrl then 0 else ch)"

lemma low_modifiers:
  "unat (x AND 3 :: u8) = (if x AND MOD_SHIFT \<noteq> 0 then 1 else 0) + (if x AND MOD_CONTROL \<noteq> 0 then 2 else 0)"
proof -
  define y where "y = x AND 3"
  have "y \<le> 3" unfolding y_def by (rule word_and_le1)
  then have "unat y = 0 \<or> unat y = 1 \<or> unat y = 2 \<or> unat y = 3" by (auto simp: word_le_nat_alt)
  then have y: "y = 0 \<or> y = 1 \<or> y = 2 \<or> y = 3" by (simp add: word_unat_eq_iff)
  have "x AND MOD_SHIFT = y AND MOD_SHIFT" "x AND MOD_CONTROL = y AND MOD_CONTROL"
    by (simp_all add: y_def and.assoc key_consts)
  moreover have "unat y = (if y AND MOD_SHIFT \<noteq> 0 then 1 else 0) + (if y AND MOD_CONTROL \<noteq> 0 then 2 else 0)"
    using y by (elim disjE) (simp_all add: key_consts)
  ultimately show ?thesis by (simp add: y_def)
qed

lemma press_meaning:
  "fst (press ch k) = key_meaning ch (modifiers k AND MOD_SHIFT \<noteq> 0) (modifiers k AND MOD_CONTROL \<noteq> 0) (modifiers k AND MOD_CAPSLOCK \<noteq> 0)"
  unfolding press_def key_meaning_def low_modifiers [symmetric] KEY_CAPSLOCK_def KEY_SHIFT_def CKEY_def
  by (auto simp: low_modifiers)

lemma keyboard_readc_cases:
  assumes "kbd_ok k"
  shows "keyboard_readc inp k = (c, k') \<Longrightarrow> kbd_ok k' \<and> - 1 \<le> c \<and> c < 256 \<and>
    (c = - 1 \<longleftrightarrow> fst inp AND KEYBOARD_STATUS_READY = 0)"
proof -
  assume r: "keyboard_readc inp k = (c, k')"
  show ?thesis
  proof (cases "fst inp AND KEYBOARD_STATUS_READY = 0 \<or> snd inp = 0xE0 \<or> snd inp AND 0x80 \<noteq> 0")
    case True
    with r assms show ?thesis by (auto simp: keyboard_readc_def kbd_ok_def Let_def split: if_splits)
  next
    case False
    let ?k = "k\<lparr>last_escape := 0\<rparr>" and ?ch = "keymap ! unat (snd inp OR last_escape k)"
    from False r have p: "press ?ch ?k = (c, k')" by (simp add: keyboard_readc_def Let_def)
    have "0 \<le> c \<and> c < 256" using press_range [of ?ch ?k] keymap_nth [of "snd inp OR last_escape k"] p by simp
    moreover have "last_escape k' = 0" using press_frame [of ?ch ?k] p by simp
    ultimately show ?thesis using False by (simp add: kbd_ok_def)
  qed
qed

text \<open>
  Reading a key: with data ready and no escape pending, a press of a key whose table code is not a modifier
  yields its meaning under the current shift, control and caps-lock state and changes no modifier; a letter
  is upper case exactly when one of shift and caps lock is active, and a control character under control.
  The answer is always between -1 and 255, it is -1 exactly when nothing was ready, and every index
  into the key tables is within their bounds (the escape state stays 0 or 0x80).
\<close>

theorem keyboard_readc_meaning:
  assumes "kbd_ok k" and "keyboard_readc (st, data) k = (c, k')"
  shows "kbd_ok k' \<and> - 1 \<le> c \<and> c < 256 \<and> (c = - 1 \<longleftrightarrow> st AND KEYBOARD_STATUS_READY = 0) \<and>
    (let ch = keymap ! unat data
     in st AND KEYBOARD_STATUS_READY \<noteq> 0 \<and> data AND 0x80 = 0 \<and> last_escape k = 0 \<and> ch < KEY_SHIFT \<longrightarrow>
        modifiers k' = modifiers k \<and>
        c = key_meaning ch (modifiers k AND MOD_SHIFT \<noteq> 0) (modifiers k AND MOD_CONTROL \<noteq> 0) (modifiers k AND MOD_CAPSLOCK \<noteq> 0))"
proof -
  have "modifiers k' = modifiers k \<and> c = key_meaning (keymap ! unat data) (modifiers k AND MOD_SHIFT \<noteq> 0) (modifiers k AND MOD_CONTROL \<noteq> 0) (modifiers k AND MOD_CAPSLOCK \<noteq> 0)"
    if "st AND KEYBOARD_STATUS_READY \<noteq> 0" "data AND 0x80 = 0" "last_escape k = 0" "keymap ! unat data < KEY_SHIFT"
  proof -
    have "data \<noteq> 0xE0" using that(2) by auto
    with that assms(2) have p: "press (keymap ! unat data) (k\<lparr>last_escape := 0\<rparr>) = (c, k')" by (simp add: keyboard_readc_def Let_def)
    have "modifiers (snd (press (keymap ! unat data) (k\<lparr>last_escape := 0\<rparr>))) = modifiers k"
      using that(4) by (simp add: press_def key_consts)
    with p press_meaning [of "keymap ! unat data" "k\<lparr>last_escape := 0\<rparr>"] show ?thesis by simp
  qed
  with keyboard_readc_cases [OF assms] show ?thesis by (simp add: Let_def)
qed

theorem keyboard_readc_meaning_witness:
  "\<exists>k'. keyboard_readc (1, 0x1E) \<lparr>modifiers = MOD_SHIFT, last_escape = 0\<rparr> = (65, k')"
proof -
  let ?k = "\<lparr>modifiers = MOD_SHIFT, last_escape = 0\<rparr>"
  have "kbd_ok ?k" by (simp add: kbd_ok_def)
  moreover obtain c k' where r: "keyboard_readc (1, 0x1E) ?k = (c, k')" by (metis surj_pair)
  ultimately have "c = key_meaning (keymap ! unat (0x1E :: u8)) True False False"
    using keyboard_readc_meaning [of ?k 1 "0x1E" c k'] by (simp add: KEYBOARD_STATUS_READY_def keymap_def key_consts)
  then show ?thesis using r by (simp add: keymap_def key_meaning_def)
qed

section \<open>Soft reboot restores the kernel data\<close>

text \<open>The kernel's image lies above the temporary page table and the stash fits between it and the symbol table.\<close>

definition layout_ok :: "layout \<Rightarrow> bool" where
  "layout_ok L = (0x3000 \<le> unat (data_start L) \<and> unat (data_start L) \<le> unat (edata L) \<and> unat (edata L) \<le> unat (kernel_end L) \<and>
     unat (kernel_end L) + (unat (edata L) - unat (data_start L)) \<le> 0x1000000)"

lemma in_area: "unat d + n \<le> 2 ^ 64 \<Longrightarrow> unat (a - d :: u64) < n \<longleftrightarrow> unat d \<le> unat a \<and> unat a < unat d + n"
  using unat_lt_64 [of a] by (auto simp: unat_diff_wrap)

lemma layout_sizes:
  assumes "layout_ok L"
  shows "unat (edata L - data_start L) = unat (edata L) - unat (data_start L)"
    "unat (kernel_end L - edata L) = unat (kernel_end L) - unat (edata L)"
    "unat (SYMTAB_ADDR - (edata L - data_start L)) = 0x1000000 - (unat (edata L) - unat (data_start L))"
  using assms by (auto simp: layout_ok_def SYMTAB_ADDR_def unat_diff_wrap)

lemma stash_saves:
  assumes "layout_ok L" "d < unat (edata L - data_start L)"
  shows "stash_kernel_data L False m (SYMTAB_ADDR - (edata L - data_start L) + word_of_nat d) = m (data_start L + word_of_nat d)"
proof -
  let ?n = "edata L - data_start L"
  have "unat ?n \<le> unat (SYMTAB_ADDR - ?n - data_start L)"
    using assms(1) layout_sizes [OF assms(1)] unat_diff_wrap [of "SYMTAB_ADDR - ?n" "data_start L"]
    unfolding layout_ok_def by (auto split: if_splits)
  moreover have "unat (word_of_nat d :: u64) = d" using assms(2) unat_lt_64 [of ?n] by (intro unat_of_nat_small) simp
  ultimately show ?thesis using assms(2) unat_lt_64 [of ?n]
    by (simp add: stash_kernel_data_def memcpy_def copy_up_eq Let_def)
qed

lemma restore_eq:
  assumes "layout_ok L"
  shows "stash_kernel_data L True m =
    (\<lambda>a. if unat (edata L) \<le> unat a \<and> unat a < unat (kernel_end L) then 0
         else if unat (data_start L) \<le> unat a \<and> unat a < unat (edata L)
         then m (SYMTAB_ADDR - (edata L - data_start L) + (a - data_start L)) else m a)"
proof -
  note s = layout_sizes [OF assms]
  have "data_start L = SYMTAB_ADDR - (edata L - data_start L) \<or> unat (edata L - data_start L) \<le> unat (data_start L - (SYMTAB_ADDR - (edata L - data_start L)))"
    using assms s unat_diff_wrap [of "data_start L" "SYMTAB_ADDR - (edata L - data_start L)"] unfolding layout_ok_def word_unat_eq_iff by (auto split: if_splits)
  then show ?thesis using assms s unat_lt_64 [of "edata L"] unat_lt_64 [of "kernel_end L"]
    by (auto simp: stash_kernel_data_def memcpy_def memset_def Let_def copy_up_eq fill_up_eq layout_ok_def fun_eq_iff in_area)
qed

lemma soft_reboot_eq:
  assumes "layout_ok L"
  shows "soft_reboot L m =
    stash_kernel_data L True (stash_kernel_data L True
      (write64 0x2000 (PTE_P OR PTE_W OR PTE_PS) (write64 0x1000 (0x2000 OR PTE_P OR PTE_W) (snd (memset 0x1000 0 (PAGESIZE * 2) m)))))"
  by (simp add: soft_reboot_def Let_def stash_kernel_data_def)

lemma table_frame:
  assumes "0x3000 \<le> unat a"
  shows "write64 0x2000 v (write64 0x1000 w (snd (memset 0x1000 0 (PAGESIZE * 2) m))) a = m a"
proof -
  have o: "write64 b v m a = m a" if "b \<le> 0x2000" for b v m
  proof (rule write64_other)
    fix k :: nat assume k: "k < 8"
    have "unat (b + word_of_nat k) \<le> 0x2008" using k that by (simp add: unat_add_64 unat_of_nat_small word_le_nat_alt)
    then show "a \<noteq> b + word_of_nat k" using assms by auto
  qed
  have "\<not> unat (a - 0x1000) < 8192" using assms unat_lt_64 [of a] by (simp add: unat_diff_wrap)
  then show ?thesis by (simp add: o memset_def page_consts fill_up_eq)
qed

text \<open>
  A soft reboot puts the kernel's data segment back to what it was when it was stashed at boot, whatever
  the kernel did to it since, and zeroes the rest of its image, provided that nothing wrote to the
  stash and the image, the stash and the temporary page table are apart.
\<close>

theorem soft_reboot_restores:
  assumes "layout_ok L"
    and "\<forall>d < unat (edata L - data_start L). m (SYMTAB_ADDR - (edata L - data_start L) + word_of_nat d) =
           stash_kernel_data L False boot (SYMTAB_ADDR - (edata L - data_start L) + word_of_nat d)"
  shows "\<forall>a. (data_start L \<le> a \<and> a < edata L \<longrightarrow> soft_reboot L m a = boot a) \<and>
             (edata L \<le> a \<and> a < kernel_end L \<longrightarrow> soft_reboot L m a = 0)"
proof (intro allI conjI impI)
  fix a assume a: "data_start L \<le> a \<and> a < edata L"
  note s = layout_sizes [OF assms(1)]
  define d where "d = unat (a - data_start L)"
  define st where "st = SYMTAB_ADDR - (edata L - data_start L) + (a - data_start L)"
  have ad: "a - data_start L = word_of_nat d" by (simp add: d_def)
  have dn: "d < unat (edata L - data_start L)" using a assms(1) s(1) unat_diff_wrap [of a "data_start L"]
    by (auto simp: d_def layout_ok_def word_le_nat_alt word_less_nat_alt)
  then have "unat st = 0x1000000 - (unat (edata L) - unat (data_start L)) + d"
    using s assms(1) unat_add_64 [of "SYMTAB_ADDR - (edata L - data_start L)" "a - data_start L"]
    by (auto simp: st_def d_def layout_ok_def)
  then have st: "unat (kernel_end L) \<le> unat st" using assms(1) by (auto simp: layout_ok_def)
  have st3: "0x3000 \<le> unat st" using st assms(1) by (auto simp: layout_ok_def)
  have "m st = stash_kernel_data L False boot st" using assms(2) dn by (auto simp: st_def ad)
  also have "\<dots> = boot a" using stash_saves [OF assms(1) dn] by (simp add: st_def flip: ad)
  finally have "m st = boot a" .
  moreover have "soft_reboot L m a = m st"
    unfolding soft_reboot_eq [OF assms(1)] using a st assms(1) table_frame [OF st3]
    by (simp add: restore_eq [OF assms(1)] layout_ok_def word_le_nat_alt word_less_nat_alt flip: st_def)
  ultimately show "soft_reboot L m a = boot a" by simp
next
  fix a assume "edata L \<le> a \<and> a < kernel_end L"
  then show "soft_reboot L m a = 0"
    unfolding soft_reboot_eq [OF assms(1)] by (simp add: restore_eq [OF assms(1)] word_le_nat_alt word_less_nat_alt)
qed

theorem soft_reboot_restores_witness:
  "soft_reboot \<lparr>data_start = 0x60000, edata = 0x60003, kernel_end = 0x60005\<rparr>
     ((stash_kernel_data \<lparr>data_start = 0x60000, edata = 0x60003, kernel_end = 0x60005\<rparr> False (\<lambda>_. 7))(0x60001 := 9, 0x60004 := 1)) 0x60001 = 7"
proof -
  let ?L = "\<lparr>data_start = 0x60000, edata = 0x60003, kernel_end = 0x60005\<rparr>"
  let ?m = "(stash_kernel_data ?L False (\<lambda>_. 7))(0x60001 := 9, 0x60004 := 1)"
  have "layout_ok ?L" by (simp add: layout_ok_def)
  moreover have "\<forall>d < unat (edata ?L - data_start ?L). ?m (SYMTAB_ADDR - (edata ?L - data_start ?L) + word_of_nat d) =
     stash_kernel_data ?L False (\<lambda>_. 7) (SYMTAB_ADDR - (edata ?L - data_start ?L) + word_of_nat d)"
  proof (intro allI impI)
    fix d assume "d < unat (edata ?L - data_start ?L)"
    then have "d = 0 \<or> d = 1 \<or> d = 2" by simp arith
    then show "?m (SYMTAB_ADDR - (edata ?L - data_start ?L) + word_of_nat d) =
      stash_kernel_data ?L False (\<lambda>_. 7) (SYMTAB_ADDR - (edata ?L - data_start ?L) + word_of_nat d)"
      by (elim disjE) (simp_all add: SYMTAB_ADDR_def)
  qed
  ultimately show ?thesis using soft_reboot_restores [of ?L ?m "\<lambda>_. 7"] by auto
qed

end
