(* ===== verification/Pages.thy ===== *)
theory Pages
  imports Vmiter Keyboard
begin

unbundle bit_operations_syntax

text \<open>
  Physical pages: the classification of physical addresses in \<open>weensyos/k-hardware.cc\<close>, the page allocator
  \<open>kalloc\<close> of \<open>weensyos/kernel.cc\<close>, and the construction and checking of the kernel page table. The
  allocator is shown to satisfy the interface the page-table iterators rely on.
\<close>

section \<open>Physical addresses\<close>

definition KERNEL_START_ADDR :: u64 where "KERNEL_START_ADDR = 0x40000"
definition KERNEL_STACK_TOP :: u64 where "KERNEL_STACK_TOP = 0x80000"
definition PROC_START_ADDR :: u64 where "PROC_START_ADDR = 0x100000"
definition MEMSIZE_PHYSICAL :: u64 where "MEMSIZE_PHYSICAL = 0x200000"
definition NPAGES :: nat where "NPAGES = unat (MEMSIZE_PHYSICAL div PAGESIZE)"
definition IOPHYSMEM :: u64 where "IOPHYSMEM = 0x000A0000"
definition EXTPHYSMEM :: u64 where "EXTPHYSMEM = 0x00100000"

lemmas addr_consts = KERNEL_START_ADDR_def KERNEL_STACK_TOP_def PROC_START_ADDR_def MEMSIZE_PHYSICAL_def
  IOPHYSMEM_def EXTPHYSMEM_def

lemma NPAGES [simp]: "NPAGES = 512"
  by (simp add: NPAGES_def addr_consts page_consts unat_div)

definition reserved_physical_address :: "u64 \<Rightarrow> bool" where
  "reserved_physical_address pa = (pa < PAGESIZE \<or> pa \<ge> IOPHYSMEM \<and> pa < EXTPHYSMEM)"

definition allocatable_physical_address :: "layout \<Rightarrow> u64 \<Rightarrow> bool" where
  "allocatable_physical_address L pa =
     (\<not> reserved_physical_address pa \<and>
      (pa < KERNEL_START_ADDR \<or> pa \<ge> round_up (kernel_end L) (ucast PAGESIZE)) \<and>
      (pa < KERNEL_STACK_TOP - PAGESIZE \<or> pa \<ge> KERNEL_STACK_TOP) \<and>
      pa < MEMSIZE_PHYSICAL)"

section \<open>The page allocator\<close>

text \<open>\<open>pages\<close> holds the reference counts of \<open>pageinfo\<close>.\<close>

record pagestate =
  pages :: "u8 list"
  next_alloc_pa :: u64

text \<open>The index of \<open>pages[pa / PAGESIZE]\<close>.\<close>

definition page_of :: "u64 \<Rightarrow> nat" where
  "page_of pa = unat (pa div PAGESIZE)"

definition used :: "pagestate \<Rightarrow> u64 \<Rightarrow> bool" where
  "used s pa = (pages s ! page_of pa \<noteq> 0)"

lemma next_page_unat: "pa < MEMSIZE_PHYSICAL \<Longrightarrow> unat (pa + PAGESIZE) = unat pa + 4096"
  by (simp add: addr_consts page_consts unat_add_64 word_less_nat_alt)

function kalloc_loop :: "layout \<Rightarrow> pagestate \<Rightarrow> memory \<Rightarrow> u64 \<times> pagestate \<times> memory" where
  "kalloc_loop L s m =
     (if next_alloc_pa s < MEMSIZE_PHYSICAL then
        let pa = next_alloc_pa s; s = s\<lparr>next_alloc_pa := next_alloc_pa s + PAGESIZE\<rparr>
        in if allocatable_physical_address L pa \<and> \<not> used s pa
           then (pa, s\<lparr>pages := (pages s)[page_of pa := 1]\<rparr>, snd (memset pa 0xCC PAGESIZE m))
           else kalloc_loop L s m
      else (0, s, m))"
  by pat_completeness auto

termination
proof (relation "measure (\<lambda>(L, s, m). 0x200000 - unat (next_alloc_pa s))", simp)
  fix L :: layout and s :: pagestate and m :: memory and pa s'
  assume a: "next_alloc_pa s < MEMSIZE_PHYSICAL" "pa = next_alloc_pa s" "s' = s\<lparr>next_alloc_pa := next_alloc_pa s + PAGESIZE\<rparr>"
  have "unat (next_alloc_pa s) < 0x200000" using a(1) by (simp add: addr_consts word_less_nat_alt)
  with next_page_unat [OF a(1)] a(3) show "((L, s', m), L, s, m) \<in> measure (\<lambda>(L, s, m). 0x200000 - unat (next_alloc_pa s))" by simp
qed

declare kalloc_loop.simps [simp del]

definition kalloc :: "layout \<Rightarrow> u64 \<Rightarrow> pagestate \<Rightarrow> memory \<Rightarrow> u64 \<times> pagestate \<times> memory" where
  "kalloc L sz s m = (if sz > PAGESIZE then (0, s, m) else kalloc_loop L s m)"

definition boot_pages :: pagestate where
  "boot_pages = \<lparr>pages = replicate 512 0, next_alloc_pa = 0\<rparr>"

text \<open>The counts cover physical memory and the search position is at a page boundary.\<close>

definition pages_ok :: "pagestate \<Rightarrow> bool" where
  "pages_ok s = (length (pages s) = 512 \<and> 4096 dvd unat (next_alloc_pa s))"

text \<open>An address is free when its page may still be handed out.\<close>

definition page_free :: "layout \<Rightarrow> pagestate \<Rightarrow> u64 \<Rightarrow> bool" where
  "page_free L s a =
     (let pa = round_down a (ucast PAGESIZE)
      in allocatable_physical_address L pa \<and> \<not> used s pa \<and> next_alloc_pa s \<le> pa)"

section \<open>The allocator's contract\<close>

lemma round_page: "unat (round_down a (ucast PAGESIZE)) = unat a div 4096 * 4096"
proof -
  have p: "unat (PAGESIZE :: u64) = 4096" "ucast (ucast PAGESIZE :: u32) = (PAGESIZE :: u64)" by (simp_all add: page_consts)
  have "a mod PAGESIZE \<le> a" by (simp add: word_le_nat_alt unat_mod)
  then have "unat (a - a mod PAGESIZE) = unat a - unat a mod 4096" by (simp only: unat_sub unat_mod p(1))
  then show ?thesis by (simp only: round_down_def p(2)) (simp add: minus_mod_eq_div_mult)
qed

lemma page_of_round: "page_of a = unat a div 4096" "page_of (round_down a (ucast PAGESIZE)) = unat a div 4096"
proof -
  have p: "unat (PAGESIZE :: u64) = 4096" by (simp add: page_consts)
  show "page_of a = unat a div 4096" by (simp add: page_of_def unat_div p)
  show "page_of (round_down a (ucast PAGESIZE)) = unat a div 4096" by (simp only: page_of_def unat_div p round_page nonzero_mult_div_cancel_right)
qed

lemma page_aligned_round: "4096 dvd unat pa \<Longrightarrow> unat (a - pa) < 4096 \<Longrightarrow> round_down a (ucast PAGESIZE) = pa"
proof (rule unsigned_word_eqI)
  assume d: "4096 dvd unat pa" and l: "unat (a - pa) < 4096"
  from d obtain k where k: "unat pa = 4096 * k" by (elim dvdE)
  have b: "4096 * k \<le> 18446744073709547520" 
  proof -
    have "k < 4503599627370496" using unat_lt_64 [of pa] k by simp
    then show ?thesis by linarith
  qed
  have "unat pa \<le> unat a"
  proof (rule ccontr)
    assume "\<not> unat pa \<le> unat a"
    then have "unat (a - pa) = unat a + 18446744073709551616 - unat pa" by (simp add: unat_diff_wrap)
    with l b k show False by linarith
  qed
  then have "unat (a - pa) = unat a - unat pa" by (simp add: unat_diff_wrap)
  with l \<open>unat pa \<le> unat a\<close> k have "4096 * k \<le> unat a" "unat a < 4096 * k + 4096" by linarith+
  then have "unat a div 4096 = k" by (intro div_nat_eqI) simp_all
  then show "unat (round_down a (ucast PAGESIZE)) = unat pa" using k by (simp only: round_page mult.commute)
qed

lemma allocatable_bounds: "allocatable_physical_address L pa \<Longrightarrow> 4096 \<le> unat pa \<and> unat pa < 0x200000"
  by (auto simp: allocatable_physical_address_def reserved_physical_address_def addr_consts page_consts
      word_less_nat_alt word_le_nat_alt)

lemma aligned_pamask: "4096 dvd unat (pa :: u64) \<Longrightarrow> unat pa < 0x10000000000000 \<Longrightarrow> pa AND PTE_PAMASK = pa"
proof (rule bit_word_eqI)
  fix n assume d: "4096 dvd unat pa" and l: "unat pa < 0x10000000000000"
  have "n < 52" if "bit pa n" using bit_below [OF that, of 52] l by simp
  moreover have "12 \<le> n" if "bit pa n"
  proof (rule ccontr)
    assume "\<not> 12 \<le> n"
    have "bit (unat pa) n" using that by (simp add: bit_unsigned_iff bit_imp_le_length)
    then have "bit (take_bit 12 (unat pa)) n" using \<open>\<not> 12 \<le> n\<close> by (simp add: bit_take_bit_iff)
    then show False using d by (simp add: take_bit_eq_mod)
  qed
  ultimately show "bit (pa AND PTE_PAMASK) n = bit pa n" by (auto simp: pamask_bit)
qed

text \<open>What a successful search leaves behind.\<close>

lemma kalloc_loop_result:
  assumes "kalloc_loop L s m = (pa, s', m')" and "pages_ok s"
  shows "pages_ok s' \<and> unat (next_alloc_pa s) \<le> unat (next_alloc_pa s') \<and>
    (pa = 0 \<and> pages s' = pages s \<and> m' = m \<and> MEMSIZE_PHYSICAL \<le> next_alloc_pa s' \<and>
       (\<forall>a. \<not> page_free L s a) \<or>
     pa \<noteq> 0 \<and> 4096 dvd unat pa \<and> page_free L s pa \<and> pages s' = (pages s)[page_of pa := 1] \<and>
       unat (next_alloc_pa s') = unat pa + 4096 \<and> m' = (\<lambda>a. if unat (a - pa) < 4096 then 0xCC else m a))"
  using assms
proof (induction L s m rule: kalloc_loop.induct)
  case (1 L s m)
  let ?pa = "next_alloc_pa s" and ?s = "s\<lparr>next_alloc_pa := next_alloc_pa s + PAGESIZE\<rparr>"
  show ?case
  proof (cases "?pa < MEMSIZE_PHYSICAL")
    case False
    have "\<not> page_free L s a" for a
      using False allocatable_bounds [of L "round_down a (ucast PAGESIZE)"]
      by (auto simp: page_free_def Let_def addr_consts word_less_nat_alt word_le_nat_alt)
    with False 1 show ?thesis by (auto simp: kalloc_loop.simps [of L s m])
  next
    case True
    note nx = next_page_unat [OF True]
    have ok: "pages_ok ?s" using "1.prems"(2) nx by (simp add: pages_ok_def)
    have al: "4096 dvd unat ?pa" using "1.prems"(2) by (simp add: pages_ok_def)
    have rd: "round_down ?pa (ucast PAGESIZE) = ?pa" by (rule page_aligned_round [OF al]) simp
    show ?thesis
    proof (cases "allocatable_physical_address L ?pa \<and> \<not> used ?s ?pa")
      case a: True
      with "1.prems"(1) True have r: "pa = ?pa" "s' = ?s\<lparr>pages := (pages s)[page_of ?pa := 1]\<rparr>" "m' = snd (memset ?pa 0xCC PAGESIZE m)"
        by (auto simp: kalloc_loop.simps [of L s m] Let_def)
      have "pa \<noteq> 0" using r(1) a allocatable_bounds [of L ?pa] by auto
      moreover have "page_free L s pa" using a r(1) rd by (simp add: page_free_def used_def)
      moreover have "m' = (\<lambda>a. if unat (a - pa) < 4096 then 0xCC else m a)"
        using r by (simp add: memset_def page_consts fill_up_eq)
      ultimately show ?thesis using r ok al nx by (simp add: pages_ok_def)
    next
      case False
      with "1.prems"(1) True have r: "kalloc_loop L ?s m = (pa, s', m')" by (simp add: kalloc_loop.simps [of L s m] Let_def)
      have "?pa + PAGESIZE \<le> p" if pp: "?pa \<le> p" "p \<noteq> ?pa" "4096 dvd unat p" for p
      proof -
        have "unat ?pa < unat p" using pp(1,2) by (simp add: word_le_nat_alt word_unat_eq_iff)
        moreover obtain i j where "unat ?pa = 4096 * i" "unat p = 4096 * j" using al pp(3) by (elim dvdE)
        ultimately show ?thesis using nx by (simp add: word_le_nat_alt)
      qed
      moreover have "?pa \<le> p" if "?pa + PAGESIZE \<le> p" for p using that nx by (simp add: word_le_nat_alt)
      moreover have "4096 dvd unat (round_down a (ucast PAGESIZE))" for a by (simp only: round_page dvd_triv_right)
      ultimately have free: "page_free L s a \<longleftrightarrow> page_free L ?s a" for a
        using False unfolding page_free_def Let_def used_def by (simp, metis)
      from "1.IH" [OF True refl refl False r ok] show ?thesis using nx by (auto simp: free)
    qed
  qed
qed

lemma kalloc_result:
  assumes "kalloc L sz s m = (pa, s', m')" and "pages_ok s" and "pa \<noteq> 0"
  shows "4096 dvd unat pa \<and> page_free L s pa \<and> pages s' = (pages s)[page_of pa := 1] \<and>
    unat (next_alloc_pa s') = unat pa + 4096 \<and> m' = (\<lambda>a. if unat (a - pa) < 4096 then 0xCC else m a)"
  using assms kalloc_loop_result [of L s m pa s' m'] by (auto simp: kalloc_def split: if_splits)

lemma page_free_same: "4096 dvd unat pa \<Longrightarrow> unat (a - pa) < 4096 \<Longrightarrow> page_free L s a = page_free L s pa"
  using page_aligned_round [of pa a] page_aligned_round [of pa pa] by (simp add: page_free_def)

lemma page_free_next: "page_free L s a \<Longrightarrow> unat (next_alloc_pa s) \<le> unat a"
  using round_page [of a] div_times_less_eq_dividend [of "unat a" 4096] by (auto simp: page_free_def Let_def word_le_nat_alt)

text \<open>An allocated page is no longer free, and allocation frees nothing.\<close>

lemma kalloc_not_free:
  assumes "kalloc L sz s m = (pa, s', m')" and "pages_ok s"
  shows "(page_free L s' a \<longrightarrow> page_free L s a) \<and> (pa \<noteq> 0 \<longrightarrow> unat (a - pa) < 4096 \<longrightarrow> \<not> page_free L s' a)"
proof (cases "pa = 0")
  case True
  then show ?thesis using assms kalloc_loop_result [of L s m pa s' m']
    by (auto simp: kalloc_def page_free_def Let_def used_def word_le_nat_alt split: if_splits)
next
  case False
  note k = kalloc_result [OF assms False]
  have "\<not> page_free L s' pa" using page_free_next [of L s' pa] k by auto
  then have nf: "\<not> page_free L s' a" if "unat (a - pa) < 4096" using page_free_same [OF _ that] k by blast
  have "page_free L s a" if f: "page_free L s' a"
  proof -
    let ?p = "round_down a (ucast PAGESIZE)"
    have b: "allocatable_physical_address L ?p" "next_alloc_pa s' \<le> ?p" "pages s' ! page_of ?p = 0"
      using f by (auto simp: page_free_def Let_def used_def)
    have "unat pa < unat ?p" using b(2) k by (simp add: word_le_nat_alt)
    then have "page_of pa \<noteq> page_of ?p"
      using k b(2) by (simp add: page_of_round(1) word_le_nat_alt)
    then have "pages s ! page_of ?p = 0" using b(3) k by simp
    moreover have "next_alloc_pa s \<le> ?p" using page_free_next [of L s pa] k \<open>unat pa < unat ?p\<close> by (simp add: word_le_nat_alt)
    ultimately show ?thesis using b(1) by (simp add: page_free_def Let_def used_def)
  qed
  with nf show ?thesis by blast
qed

lemma kalloc_pages_ok: "kalloc L sz s m = (pa, s', m') \<Longrightarrow> pages_ok s \<Longrightarrow> pages_ok s'"
  using kalloc_loop_result [of L s m pa s' m'] by (auto simp: kalloc_def split: if_splits)

interpretation kernel_pages: page_allocator "kalloc L PAGESIZE" pages_ok "page_free L"
proof
  fix s m tbl s' m'
  assume ok: "pages_ok s" and k: "kalloc L PAGESIZE s m = (tbl, s', m')"
  show "pages_ok s'" using k ok by (rule kalloc_pages_ok)
  show "page_free L s a" if "page_free L s' a" for a using kalloc_not_free [OF k ok] that by blast
  show "tbl AND PTE_PAMASK = tbl \<and> (\<forall>a. unat (a - tbl) < 4096 \<longrightarrow> page_free L s a \<and> \<not> page_free L s' a) \<and>
      (\<forall>a. 4096 \<le> unat (a - tbl) \<longrightarrow> m' a = m a)" if "tbl \<noteq> 0"
  proof -
    note r = kalloc_result [OF k ok that]
    then have "page_free L s tbl" "round_down tbl (ucast PAGESIZE) = tbl" by (auto intro: page_aligned_round)
    then have "unat tbl < 0x200000" using allocatable_bounds [of L tbl] by (simp add: page_free_def Let_def)
    with r have "tbl AND PTE_PAMASK = tbl" by (intro aligned_pamask) simp_all
    moreover have "page_free L s a \<and> \<not> page_free L s' a" if "unat (a - tbl) < 4096" for a
      using page_free_same [OF _ that] r kalloc_not_free [OF k ok, of a] \<open>tbl \<noteq> 0\<close> that by blast
    moreover have "m' a = m a" if "4096 \<le> unat (a - tbl)" for a using r that by (simp add: not_less)
    ultimately show ?thesis by blast
  qed
next
  fix s m s' m' a
  assume "pages_ok s" and "kalloc L PAGESIZE s m = (0, s', m')"
  then show "m' = m \<and> \<not> page_free L s a" using kalloc_loop_result [of L s m 0 s' m'] by (auto simp: kalloc_def split: if_splits)
qed

text \<open>
  C31. The kernel's page allocator: a request above a page fails and changes nothing. Otherwise, a
  non-null result is a page-aligned allocatable page that was unused; it gets the reference count 1, all
  other counts stay, its bytes become 0xCC and no other byte changes. A null result for a legal size means that
  no page the allocator may still hand out is left.
\<close>

theorem kalloc_spec:
  assumes "pages_ok s" and "kalloc L sz s m = (pa, s', m')"
  shows "pages_ok s' \<and> (sz > PAGESIZE \<longrightarrow> pa = 0 \<and> s' = s \<and> m' = m) \<and>
    (pa \<noteq> 0 \<longrightarrow> pa mod PAGESIZE = 0 \<and> allocatable_physical_address L pa \<and> \<not> used s pa \<and>
       pages s' = (pages s)[page_of pa := 1] \<and> m' = (\<lambda>a. if unat (a - pa) < 4096 then 0xCC else m a)) \<and>
    (sz \<le> PAGESIZE \<and> pa = 0 \<longrightarrow> m' = m \<and> pages s' = pages s \<and> (\<forall>a. \<not> page_free L s a))"
proof -
  have "pa mod PAGESIZE = 0 \<and> allocatable_physical_address L pa \<and> \<not> used s pa \<and>
       pages s' = (pages s)[page_of pa := 1] \<and> m' = (\<lambda>a. if unat (a - pa) < 4096 then 0xCC else m a)" if "pa \<noteq> 0"
  proof -
    note r = kalloc_result [OF assms(2,1) that]
    have "round_down pa (ucast PAGESIZE) = pa" using r by (intro page_aligned_round) auto
    moreover have "pa mod PAGESIZE = 0" using r by (simp add: unat_mod page_consts word_unat_eq_iff)
    ultimately show ?thesis using r by (auto simp: page_free_def Let_def)
  qed
  moreover have "m' = m \<and> pages s' = pages s \<and> (\<forall>a. \<not> page_free L s a)" if "sz \<le> PAGESIZE" "pa = 0"
    using assms kalloc_loop_result [of L s m pa s' m'] that by (auto simp: kalloc_def split: if_splits)
  ultimately show ?thesis using kalloc_pages_ok [OF assms(2,1)] assms(2) by (auto simp: kalloc_def split: if_splits)
qed

theorem kalloc_spec_witness:
  "\<exists>s' m'. kalloc \<lparr>data_start = 0, edata = 0, kernel_end = 0x5A000\<rparr> 8 boot_pages (\<lambda>_. 0) = (0x1000, s', m') \<and> pages_ok s' \<and> m' 0x1FFF = 0xCC"
proof -
  let ?L = "\<lparr>data_start = 0, edata = 0, kernel_end = 0x5A000\<rparr>"
  have k: "\<exists>s' m'. kalloc ?L 8 boot_pages (\<lambda>_. 0) = (0x1000, s', m')"
    by (simp add: kalloc_def kalloc_loop.simps Let_def boot_pages_def allocatable_physical_address_def reserved_physical_address_def
        addr_consts page_consts round_up_def round_down_def used_def page_of_def)
  then obtain s' m' where k: "kalloc ?L 8 boot_pages (\<lambda>_. 0) = (0x1000, s', m')" by blast
  have "pages_ok boot_pages" by (simp add: pages_ok_def boot_pages_def)
  from kalloc_spec [OF this k] k show ?thesis by simp
qed

text \<open>Consecutive allocations.\<close>

fun kalloc_many :: "layout \<Rightarrow> u64 list \<Rightarrow> pagestate \<Rightarrow> memory \<Rightarrow> u64 list" where
  "kalloc_many L [] s m = []"
| "kalloc_many L (sz # szs) s m = (let (pa, s, m) = kalloc L sz s m in pa # kalloc_many L szs s m)"

lemma kalloc_many_free:
  "pages_ok s \<Longrightarrow> pa \<in> set (kalloc_many L szs s m) \<Longrightarrow> pa \<noteq> 0 \<Longrightarrow> page_free L s pa"
proof (induction szs arbitrary: s m)
  case (Cons sz szs)
  obtain q s' m' where k: "kalloc L sz s m = (q, s', m')" by (metis prod_cases3)
  from Cons.IH [OF kalloc_pages_ok [OF k Cons.prems(1)], of m'] kalloc_not_free [OF k Cons.prems(1), of pa]
    kalloc_result [OF k Cons.prems(1)] Cons.prems(2,3) k show ?case by auto
qed simp

lemma kalloc_many_distinct: "pages_ok s \<Longrightarrow> distinct (filter (\<lambda>pa. pa \<noteq> 0) (kalloc_many L szs s m))"
proof (induction szs arbitrary: s m)
  case (Cons sz szs)
  obtain q s' m' where k: "kalloc L sz s m = (q, s', m')" by (metis prod_cases3)
  note ok = kalloc_pages_ok [OF k Cons.prems(1)]
  have "q \<noteq> 0 \<Longrightarrow> q \<notin> set (kalloc_many L szs s' m')"
    using kalloc_many_free [OF ok, of q] kalloc_not_free [OF k Cons.prems(1), of q] by auto
  with Cons.IH [OF ok, of m'] k show ?case by auto
qed simp

text \<open>
  Pages are never handed out twice: whatever sizes are requested one after the other, the pages returned
  are pairwise different, were all free at the start, and none of them is reserved, part of
  the kernel's image or stack, or beyond physical memory.
\<close>

theorem kalloc_never_twice:
  assumes "pages_ok s" and "pas = filter (\<lambda>pa. pa \<noteq> 0) (kalloc_many L szs s m)"
  shows "distinct pas \<and> (\<forall>pa \<in> set pas. page_free L s pa \<and> allocatable_physical_address L (round_down pa (ucast PAGESIZE)))"
  using kalloc_many_distinct [OF assms(1)] kalloc_many_free [OF assms(1)] assms(2) by (auto simp: page_free_def Let_def)

theorem kalloc_never_twice_witness:
  "\<exists>pas. pas = filter (\<lambda>pa. pa \<noteq> 0) (kalloc_many \<lparr>data_start = 0, edata = 0, kernel_end = 0x5A000\<rparr> [8, 5000, 4096] boot_pages (\<lambda>_. 0)) \<and>
     pas = [0x1000, 0x2000] \<and> distinct pas"
proof -
  let ?L = "\<lparr>data_start = 0, edata = 0, kernel_end = 0x5A000\<rparr>"
  have "pages_ok boot_pages" by (simp add: pages_ok_def boot_pages_def)
  from kalloc_never_twice [OF this refl, of ?L "[8, 5000, 4096]" "\<lambda>_. 0"]
  show ?thesis
    by (simp add: kalloc_def kalloc_loop.simps Let_def boot_pages_def allocatable_physical_address_def reserved_physical_address_def
        addr_consts page_consts round_up_def round_down_def used_def page_of_def)
qed

text \<open>
  C32. \<open>try_map\<close> with the kernel's allocator, on an iterator that is what a fresh walk gives, over a page table in memory
  in use and not stopped by a large page: for every page-aligned virtual address, page-aligned physical address below 4 GiB
  and permissions the walk allows, it returns without a panic. It returns 0 when it has installed the mapping: a fresh walk
  through the new memory ends, as the iterator does, on a last-level entry with exactly the requested physical address
  and permissions, the missing page tables allocated, zeroed and linked. It returns -1 only when no page is left to
  allocate, with the tables linked so far in place. Either way only bytes of the entry the iterator ended on and of pages
  that were free are modified, so page tables in use, the kernel and other processes' memory keep their contents, and no
  page becomes free.
\<close>

theorem try_map_installs_mapping:
  assumes "mappable (page_free L) s m it" and "pep it = Entry a" and "pages_ok s" and "cur_va it AND PAGEOFFMASK = 0"
    and "perm AND PTE_P \<noteq> 0" and "perm < 0x1000" and "perm AND NOT (vperm it) AND 7 = 0"
    and "pa AND PTE_PAMASK = pa" and "pa < 0x100000000"
  shows "\<exists>r s' m' it'. try_map (kalloc L PAGESIZE) pa perm s m it = Inr (r, s', m', it') \<and>
    pages_ok s' \<and> (\<forall>q. page_free L s' q \<longrightarrow> page_free L s q) \<and>
    mk_vmiter m' (vm_pt it) (cur_va it) = Inr it' \<and>
    (r = 0 \<and> level it' = 0 \<and> vm_pa m' it' = pa \<and> vm_perm m' it' AND 7 = perm AND 7 \<or>
     r = - 1 \<and> 0 < level it' \<and> (\<forall>q. \<not> page_free L s' q)) \<and>
    (\<forall>q. \<not> page_free L s q \<longrightarrow> (\<forall>k < 8. q \<noteq> a + word_of_nat k) \<longrightarrow> m' q = m q)"
  by (rule kernel_pages.try_map_installs [OF assms])

text \<open>An iterator at the root of an empty page table in the kernel's memory.\<close>

definition small_layout :: layout where
  "small_layout = \<lparr>data_start = 0, edata = 0, kernel_end = 0x5A000\<rparr>"

definition empty_walk :: vmiter where
  "empty_walk = \<lparr>vm_pt = 0x41000, pep = Entry 0x41000, level = 3, vperm = initial_perm, cur_va = 0x2000\<rparr>"

lemma empty_walk_mappable: "mappable (page_free small_layout) boot_pages (\<lambda>_. 0) empty_walk"
proof -
  have z: "read64 (\<lambda>_. 0) a = 0" for a by (simp add: read64_def)
  have i: "pageindex 0x2000 3 = 0" by (simp add: pageindex_def page_consts)
  have "\<not> page_free small_layout boot_pages (0x41000 + word_of_nat k)" if k: "k < 8" for k
  proof -
    have "unat (0x41000 + word_of_nat k :: u64) = 0x41000 + k" using k by (simp add: unat_add_64 unat_of_nat_small)
    moreover have "(0x41000 + k) div 4096 = 65" using k by simp
    ultimately have "round_down (0x41000 + word_of_nat k :: u64) (ucast PAGESIZE) = 0x41000"
      by (simp only: word_unat_eq_iff round_page) simp
    moreover have "\<not> allocatable_physical_address small_layout 0x41000"
      by (simp add: small_layout_def allocatable_physical_address_def addr_consts page_consts round_up_def round_down_def)
    ultimately show ?thesis by (simp only: page_free_def Let_def) simp
  qed
  moreover have "walk_of (\<lambda>_. 0) empty_walk = [0x41000]" by (simp add: walk_of_def empty_walk_def z i [unfolded numeral_3_eq_3] numeral_3_eq_3 PTE_P_def)
  moreover have "in_sync (\<lambda>_. 0) empty_walk"
    by (simp add: in_sync_entry empty_walk_def z i [unfolded numeral_3_eq_3] va_is_canonical_def VA_LOWMAX_def numeral_3_eq_3 PTE_P_def)
  ultimately show ?thesis by (simp add: mappable_def owned_entry_def vm_present_def z) (simp add: empty_walk_def z PTE_PAMASK_def)
qed

text \<open>One turn of the loop on a state whose next page is allocatable.\<close>

lemma small_kalloc:
  assumes "next_alloc_pa s = pa" and "pa \<in> {0x1000, 0x2000, 0x3000}" and "\<not> used s pa"
  shows "kalloc small_layout PAGESIZE s m = (pa, s\<lparr>next_alloc_pa := pa + PAGESIZE, pages := (pages s)[page_of pa := 1]\<rparr>, snd (memset pa 0xCC PAGESIZE m))"
  using assms by (auto simp: kalloc_def kalloc_loop.simps [of _ s] Let_def small_layout_def allocatable_physical_address_def
      reserved_physical_address_def addr_consts page_consts round_up_def round_down_def used_def)

theorem try_map_installs_mapping_witness:
  "\<exists>s' m' it'. try_map (kalloc small_layout PAGESIZE) 0x7000 7 boot_pages (\<lambda>_. 0) empty_walk = Inr (0, s', m', it') \<and>
     mk_vmiter m' 0x41000 0x2000 = Inr it' \<and> vm_pa m' it' = 0x7000"
proof -
  let ?K = "kalloc small_layout PAGESIZE" and ?F = "page_free small_layout"
  define s0 where "s0 = boot_pages\<lparr>next_alloc_pa := 0x1000\<rparr>"
  define s1 where "s1 = s0\<lparr>next_alloc_pa := 0x2000, pages := (pages s0)[1 := 1]\<rparr>"
  define s2 where "s2 = s1\<lparr>next_alloc_pa := 0x3000, pages := (pages s1)[2 := 1]\<rparr>"
  define s3 where "s3 = s2\<lparr>next_alloc_pa := 0x4000, pages := (pages s2)[3 := 1]\<rparr>"
  note sd = s3_def s2_def s1_def s0_def boot_pages_def
  have k0: "?K boot_pages m = ?K s0 m" for m
    unfolding kalloc_def
    by (subst kalloc_loop.simps) (simp add: Let_def s0_def boot_pages_def allocatable_physical_address_def
        reserved_physical_address_def addr_consts page_consts)
  have pg: "page_of 0x1000 = 1" "page_of 0x2000 = 2" "page_of 0x3000 = 3" by (simp_all add: page_of_def page_consts)
  have "next_alloc_pa s0 = 0x1000 \<and> \<not> used s0 0x1000" "next_alloc_pa s1 = 0x2000 \<and> \<not> used s1 0x2000"
      "next_alloc_pa s2 = 0x3000 \<and> \<not> used s2 0x3000"
    by (simp_all add: sd used_def pg)
  then have k: "\<exists>m'. ?K s0 m = (0x1000, s1, m')" "\<exists>m'. ?K s1 m = (0x2000, s2, m')" "\<exists>m'. ?K s2 m = (0x3000, s3, m')" for m
    using small_kalloc [of s0 "0x1000" m] small_kalloc [of s1 "0x2000" m] small_kalloc [of s2 "0x3000" m]
    by (simp_all add: s1_def s2_def s3_def pg page_consts)
  have turn: "\<exists>m2 it2 a2. map_loop ?K s m it = map_loop ?K s' m2 it2 \<and> mappable ?F s' m2 it2 \<and> level it2 = l \<and> pep it2 = Entry a2"
    if "pages_ok s" "\<exists>m'. ?K s m = (tbl, s', m')" "tbl \<noteq> 0" "level it = Suc l" "pep it = Entry a" "mappable ?F s m it" for s m tbl s' it l a
  proof -
    from that(2) obtain m' where k: "?K s m = (tbl, s', m')" ..
    show ?thesis
      using kernel_pages.map_loop_turn [OF that(1) k that(3-6) refl refl] kernel_pages.map_turn_mappable [OF that(1) k that(3-6) refl refl]
      by (force simp: entry_addr_def)
  qed
  have ok: "pages_ok boot_pages" "pages_ok s1" "pages_ok s2" by (simp_all add: sd pages_ok_def)
  have lv: "level empty_walk = Suc 2" "pep empty_walk = Entry 0x41000" by (simp_all add: empty_walk_def)
  obtain m1 i1 a1 where t1: "map_loop ?K boot_pages (\<lambda>_. 0) empty_walk = map_loop ?K s1 m1 i1" "mappable ?F s1 m1 i1" "level i1 = Suc 1" "pep i1 = Entry a1"
    using turn [OF ok(1) _ _ lv empty_walk_mappable, of "0x1000" s1] k0 k(1) by auto
  obtain m2 i2 a2 where t2: "map_loop ?K s1 m1 i1 = map_loop ?K s2 m2 i2" "mappable ?F s2 m2 i2" "level i2 = Suc 0" "pep i2 = Entry a2"
    using turn [OF ok(2) k(2) _ t1(3,4,2)] by auto
  obtain m3 i3 a3 where t3: "map_loop ?K s2 m2 i2 = map_loop ?K s3 m3 i3" "level i3 = 0" "pep i3 = Entry a3"
    using turn [OF ok(3) k(3) _ t2(3,4,2)] by auto
  have "map_loop ?K boot_pages (\<lambda>_. 0) empty_walk = Inr (True, s3, m3, i3)"
    using t1(1) t2(1) t3 by (simp add: map_loop.simps [of ?K s3])
  then have "\<exists>s' m' it'. try_map ?K 0x7000 7 boot_pages (\<lambda>_. 0) empty_walk = Inr (0, s', m', it')"
    using t3 by (simp add: try_map_def empty_walk_def pte_consts page_consts initial_perm_def)
  then obtain s' m' it' where tm: "try_map ?K 0x7000 7 boot_pages (\<lambda>_. 0) empty_walk = Inr (0, s', m', it')" by blast
  have "cur_va empty_walk AND PAGEOFFMASK = 0" "(7 :: u64) AND PTE_P \<noteq> 0" "(7 :: u64) < 0x1000" "(7 :: u64) AND NOT (vperm empty_walk) AND 7 = 0"
      "(0x7000 :: u64) AND PTE_PAMASK = 0x7000" "(0x7000 :: u64) < 0x100000000"
    by (simp_all add: empty_walk_def pte_consts page_consts initial_perm_def)
  from try_map_installs_mapping [OF empty_walk_mappable lv(2) ok(1) this] tm
  show ?thesis by (auto simp: empty_walk_def)
qed

section \<open>The kernel page table\<close>

text \<open>
  The loop of \<open>init_kernel_memory\<close> and \<open>kernel\<close> over physical memory: every page but the first is mapped
  to itself; the first is left alone in \<open>init_kernel_memory\<close> and unmapped in \<open>kernel\<close> (\<open>clear\<close>).
\<close>

partial_function (option) identity_loop ::
    "layout \<Rightarrow> bool \<Rightarrow> pagestate \<Rightarrow> memory \<Rightarrow> vmiter \<Rightarrow> (vm_error + pagestate \<times> memory) option" where
  "identity_loop L clear s m it =
     (if cur_va it < MEMSIZE_PHYSICAL then
        case (if cur_va it \<noteq> 0 then vm_map (kalloc L PAGESIZE) (cur_va it) (PTE_P OR PTE_W OR PTE_U) s m it
              else if clear then vm_map (kalloc L PAGESIZE) (cur_va it) 0 s m it
              else Inr (s, m, it)) of
          Inl e \<Rightarrow> Some (Inl e)
        | Inr (s, m, it) \<Rightarrow>
            (case advance m PAGESIZE it of Inl e \<Rightarrow> Some (Inl e) | Inr it \<Rightarrow> identity_loop L clear s m it)
      else Some (Inr (s, m)))"

definition map_identity :: "layout \<Rightarrow> bool \<Rightarrow> u64 \<Rightarrow> pagestate \<Rightarrow> memory \<Rightarrow> (vm_error + pagestate \<times> memory) option" where
  "map_identity L clear kpt s m =
     (case mk_vmiter m kpt 0 of Inl e \<Rightarrow> Some (Inl e) | Inr it \<Rightarrow> identity_loop L clear s m it)"

text \<open>The page-table part of \<open>init_kernel_memory\<close>, for five page-table pages at \<open>kpt\<close>.\<close>

definition boot_tables :: "u64 \<Rightarrow> memory \<Rightarrow> memory" where
  "boot_tables kpt m =
     (let m = snd (memset kpt 0 (5 * PAGESIZE) m);
          m = write64 kpt ((kpt + PAGESIZE) OR PTE_P OR PTE_W OR PTE_U) m;
          m = write64 (kpt + PAGESIZE) ((kpt + 2 * PAGESIZE) OR PTE_P OR PTE_W OR PTE_U) m;
          m = write64 (kpt + 2 * PAGESIZE) ((kpt + 3 * PAGESIZE) OR PTE_P OR PTE_W OR PTE_U) m;
          m = write64 (kpt + 2 * PAGESIZE + 8) ((kpt + 4 * PAGESIZE) OR PTE_P OR PTE_W OR PTE_U) m;
          m = write64 (kpt + PAGESIZE + 8) (push_bit 30 1 OR PTE_P OR PTE_W OR PTE_PS) m;
          m = write64 (kpt + PAGESIZE + 16) (push_bit 30 2 OR PTE_P OR PTE_W OR PTE_PS) m
      in write64 (kpt + PAGESIZE + 24) (push_bit 30 3 OR PTE_P OR PTE_W OR PTE_PS) m)"

definition init_kernel_memory :: "layout \<Rightarrow> u64 \<Rightarrow> pagestate \<Rightarrow> memory \<Rightarrow> (vm_error + pagestate \<times> memory) option" where
  "init_kernel_memory L kpt s m =
     (let m = stash_kernel_data L False m in map_identity L False kpt s (boot_tables kpt m))"

text \<open>\<open>check_pagetable\<close>: \<open>entry\<close> is the address of \<open>exception_entry\<close>.\<close>

definition check_pagetable :: "u64 \<Rightarrow> u64 \<Rightarrow> memory \<Rightarrow> u64 \<Rightarrow> vm_error + unit" where
  "check_pagetable entry kpt m tbl =
     (if tbl AND PAGEOFFMASK \<noteq> 0 then Inl VmAssert
      else case mk_vmiter m tbl entry of Inl e \<Rightarrow> Inl e
      | Inr it \<Rightarrow>
          if vm_pa m it \<noteq> entry then Inl VmAssert
          else case mk_vmiter m kpt tbl of Inl e \<Rightarrow> Inl e
          | Inr it \<Rightarrow>
              if vm_pa m it \<noteq> tbl then Inl VmAssert
              else case mk_vmiter m tbl kpt of Inl e \<Rightarrow> Inl e
              | Inr it \<Rightarrow> if vm_pa m it \<noteq> kpt then Inl VmAssert else Inr ())"

text \<open>\<open>set_pagetable\<close> yields the new value of the \<open>cr3\<close> register.\<close>

definition set_pagetable :: "u64 \<Rightarrow> u64 \<Rightarrow> memory \<Rightarrow> u64 \<Rightarrow> vm_error + u64" where
  "set_pagetable entry kpt m tbl = (case check_pagetable entry kpt m tbl of Inl e \<Rightarrow> Inl e | Inr _ \<Rightarrow> Inr tbl)"

section \<open>The kernel page table maps memory to itself\<close>

definition kpt_ok :: "u64 \<Rightarrow> bool" where
  "kpt_ok kpt = (4096 dvd unat kpt \<and> unat kpt + 0x5000 \<le> 0x100000000)"

text \<open>The first three tables lead to the fourth, whose entries map the pages below \<open>n\<close> but the first.\<close>

definition kernel_tables :: "u64 \<Rightarrow> nat \<Rightarrow> memory \<Rightarrow> bool" where
  "kernel_tables kpt n m =
     (read64 m kpt = (kpt + 0x1000) OR 7 \<and> read64 m (kpt + 0x1000) = (kpt + 0x2000) OR 7 \<and>
      read64 m (kpt + 0x2000) = (kpt + 0x3000) OR 7 \<and>
      read64 m (kpt + 0x2008) = (kpt + 0x4000) OR 7 \<and> read64 m (kpt + 0x4000) = 0 \<and>
      (\<forall>i < 512. read64 m (kpt + 0x3000 + 8 * word_of_nat i) = (if 0 < i \<and> i < n then (0x1000 * word_of_nat i) OR 7 else 0)))"

text \<open>The other entries: three large pages, and nothing else.\<close>

definition upper_tables :: "u64 \<Rightarrow> memory \<Rightarrow> bool" where
  "upper_tables kpt m =
     (\<forall>i < 512. (0 < i \<longrightarrow> read64 m (kpt + 8 * word_of_nat i) = 0) \<and>
        (0 < i \<longrightarrow> read64 m (kpt + 0x1000 + 8 * word_of_nat i) = (if i < 4 then push_bit 30 (word_of_nat i) OR 0x83 else 0)) \<and>
        (1 < i \<longrightarrow> read64 m (kpt + 0x2000 + 8 * word_of_nat i) = 0) \<and> read64 m (kpt + 0x4000 + 8 * word_of_nat i) = 0)"

text \<open>The entries outside the fourth table are the same.\<close>

definition keeps_upper :: "u64 \<Rightarrow> memory \<Rightarrow> memory \<Rightarrow> bool" where
  "keeps_upper kpt m m' = (\<forall>b c. unat b = unat kpt + c \<and> 8 dvd c \<and> (c < 0x3000 \<or> 0x4000 \<le> c) \<longrightarrow> read64 m' b = read64 m b)"

lemma keeps_upper_refl [simp]: "keeps_upper kpt m m"
  by (simp add: keeps_upper_def)

lemma keeps_upper_trans: "keeps_upper kpt m m' \<Longrightarrow> keeps_upper kpt m' m'' \<Longrightarrow> keeps_upper kpt m m''"
  by (simp add: keeps_upper_def)

lemma kpt_unat:
  assumes "kpt_ok kpt" "c < 0x5000"
  shows "unat (kpt + c) = unat kpt + unat c"
  using assms by (simp add: kpt_ok_def unat_add_64 word_less_nat_alt)

lemma kpt_table_aligned:
  assumes "kpt_ok kpt" "4096 dvd unat c" "c < 0x5000"
  shows "(kpt + c) AND PTE_PAMASK = kpt + c" "kpt + c < 0x100000000"
proof -
  have u: "unat (kpt + c) = unat kpt + unat c" by (rule kpt_unat [OF assms(1,3)])
  then show lt: "kpt + c < 0x100000000" using assms by (simp add: kpt_ok_def word_less_nat_alt)
  have d: "4096 dvd unat (kpt + c)" using u assms(1,2) by (simp add: kpt_ok_def)
  show "(kpt + c) AND PTE_PAMASK = kpt + c"
    using lt d by (intro aligned_pamask) (simp_all add: word_less_nat_alt)
qed

lemma table_entry:
  assumes "kpt_ok kpt" "4096 dvd unat c" "c < 0x5000"
  shows "((kpt + c) OR 7) AND (PTE_P OR PTE_PS) = PTE_P" "((kpt + c) OR 7) AND PTE_PAMASK = kpt + c" "((kpt + c) OR 7) AND 7 = 7"
  using pwu_bits [OF kpt_table_aligned(1) [OF assms]] by (simp_all add: pte_consts or.assoc)

lemma low_indices:
  assumes "unat va < 0x200000"
  shows "pageindex va 3 = 0" "pageindex va 2 = 0" "pageindex va 1 = 0" "pageindex va 0 = word_of_nat (unat va div 4096)"
proof -
  have b: "bit va n \<Longrightarrow> n < 21" for n using bit_below [of va n 21] assms by simp
  have z: "pageindex va l = 0" if "0 < l" for l
    using b that by (intro bit_word_eqI) (force simp: bit_pageindex)
  then show "pageindex va 3 = 0" "pageindex va 2 = 0" "pageindex va 1 = 0" by auto
  have "pageindex va 0 = drop_bit 12 va" using b by (intro bit_word_eqI) (force simp: bit_pageindex bit_drop_bit_eq)
  then have "pageindex va 0 = va div 4096" by (simp add: drop_bit_eq_div)
  then have "unat (pageindex va 0) = unat va div 4096" by (simp add: unat_div)
  then show "pageindex va 0 = word_of_nat (unat va div 4096)" by (metis unat_of_nat_small word_unat_eq_iff of_nat_unat ucast_id)
qed

lemma descend_unroll:
  "descend m va 3 p q = (if deref m p AND (PTE_P OR PTE_PS) = PTE_P then descend m va 2 (entry_addr (deref m p AND PTE_PAMASK) (pageindex va 2)) (q AND deref m p) else (3, p, q))"
  "descend m va 2 p q = (if deref m p AND (PTE_P OR PTE_PS) = PTE_P then descend m va 1 (entry_addr (deref m p AND PTE_PAMASK) (pageindex va 1)) (q AND deref m p) else (2, p, q))"
  "descend m va 1 p q = (if deref m p AND (PTE_P OR PTE_PS) = PTE_P then descend m va 0 (entry_addr (deref m p AND PTE_PAMASK) (pageindex va 0)) (q AND deref m p) else (1, p, q))"
proof -
  have sn: "Suc 2 = 3" "Suc 1 = 2" "Suc 0 = 1" by simp_all
  note d = descend.simps(2) [of m va 2 p q] descend.simps(2) [of m va 1 p q] descend.simps(2) [of m va 0 p q]
  from d(1) show "descend m va 3 p q = (if deref m p AND (PTE_P OR PTE_PS) = PTE_P then descend m va 2 (entry_addr (deref m p AND PTE_PAMASK) (pageindex va 2)) (q AND deref m p) else (3, p, q))" by (simp only: sn)
  from d(2) show "descend m va 2 p q = (if deref m p AND (PTE_P OR PTE_PS) = PTE_P then descend m va 1 (entry_addr (deref m p AND PTE_PAMASK) (pageindex va 1)) (q AND deref m p) else (2, p, q))" by (simp only: sn)
  from d(3) show "descend m va 1 p q = (if deref m p AND (PTE_P OR PTE_PS) = PTE_P then descend m va 0 (entry_addr (deref m p AND PTE_PAMASK) (pageindex va 0)) (q AND deref m p) else (1, p, q))" by (simp only: sn)
qed

text \<open>Walking any address of physical memory ends at its entry of the fourth table.\<close>

lemma kernel_walk:
  assumes k: "kpt_ok kpt" and t: "kernel_tables kpt n m" and va: "unat va < 0x200000"
  shows "mk_vmiter m kpt va =
    Inr \<lparr>vm_pt = kpt, pep = Entry (kpt + 0x3000 + 8 * word_of_nat (unat va div 4096)), level = 0,
         vperm = initial_perm AND ((kpt + 0x1000) OR 7) AND ((kpt + 0x2000) OR 7) AND ((kpt + 0x3000) OR 7), cur_va = va\<rparr>"
proof -
  have i: "unat va div 4096 < 512" using va by (simp add: less_mult_imp_div_less)
  note ix = low_indices [OF va]
  have can: "va_is_canonical va" using va by (simp add: va_is_canonical_def VA_LOWMAX_def word_le_nat_alt)
  have te: "((kpt + c) OR 7) AND (PTE_P OR PTE_PS) = PTE_P \<and> ((kpt + c) OR 7) AND PTE_PAMASK = kpt + c" if "c \<in> {0x1000, 0x2000, 0x3000}" for c
    using that table_entry [OF k, of c] by auto
  have m4: "read64 m (kpt + 0x3000 + 8 * word_of_nat (unat va div 4096)) AND PTE_PAMASK < 0x100000000"
  proof -
    let ?i = "unat va div 4096"
    have "(0x1000 * word_of_nat ?i :: u64) AND PTE_PAMASK = 0x1000 * word_of_nat ?i \<and> unat (0x1000 * word_of_nat ?i :: u64) = 4096 * ?i"
    proof -
      have "unat (word_of_nat ?i :: u64) = ?i" using i by (intro unat_of_nat_small) simp
      then have u: "unat (0x1000 * word_of_nat ?i :: u64) = 4096 * ?i" using i by (simp add: unat_word_ariths)
      then show ?thesis using i by (intro conjI aligned_pamask) simp_all
    qed
    then have "((0x1000 * word_of_nat ?i :: u64) OR 7) AND PTE_PAMASK < 0x100000000"
      using i by (simp add: bit.conj_disj_distrib2 pte_consts word_less_nat_alt)
    then show ?thesis using t i by (simp add: kernel_tables_def)
  qed
  have d: "descend m va 3 (Entry kpt) initial_perm =
    (0, Entry (kpt + 0x3000 + 8 * word_of_nat (unat va div 4096)),
     initial_perm AND ((kpt + 0x1000) OR 7) AND ((kpt + 0x2000) OR 7) AND ((kpt + 0x3000) OR 7))"
    using t ix by (simp add: descend_unroll te kernel_tables_def entry_addr_def and.assoc)
  show ?thesis using can d m4 ix
    by (simp add: mk_vmiter_def real_find_def down_def entry_addr_def Let_def not_le)
qed

lemma kernel_vperm:
  assumes "kpt_ok kpt"
  shows "(initial_perm AND ((kpt + 0x1000) OR 7) AND ((kpt + 0x2000) OR 7) AND ((kpt + 0x3000) OR 7)) AND 7 = 7"
proof -
  have "((kpt + c) OR 7) AND 7 = 7" for c by (simp add: bit.conj_disj_distrib2)
  then show ?thesis by (simp add: initial_perm_def and.assoc)
qed

text \<open>Just above physical memory the walk ends in the empty fifth table.\<close>

lemma kernel_walk_end:
  assumes k: "kpt_ok kpt" and t: "kernel_tables kpt n m"
  shows "\<exists>it. mk_vmiter m kpt 0x200000 = Inr it"
proof -
  have te: "((kpt + c) OR 7) AND (PTE_P OR PTE_PS) = PTE_P \<and> ((kpt + c) OR 7) AND PTE_PAMASK = kpt + c" if "c \<in> {0x1000, 0x2000, 0x4000}" for c
    using that table_entry [OF k, of c] by auto
  have ix: "pageindex 0x200000 3 = 0" "pageindex 0x200000 2 = 0" "pageindex 0x200000 1 = 1" "pageindex 0x200000 0 = 0" "pageindex 0x200000 (Suc 0) = 1"
    by (simp_all add: pageindex_def page_consts)
  have e8: "read64 m (0x2008 + kpt) = (kpt + 0x4000) OR 7" using t by (simp add: kernel_tables_def add.commute)
  have "descend m 0x200000 3 (Entry kpt) initial_perm = (0, Entry (kpt + 0x4000),
     initial_perm AND ((kpt + 0x1000) OR 7) AND ((kpt + 0x2000) OR 7) AND ((kpt + 0x4000) OR 7))"
    using t e8 by (simp add: descend_unroll ix te kernel_tables_def entry_addr_def and.assoc)
  then show ?thesis using t ix
    by (simp add: mk_vmiter_def real_find_def down_def entry_addr_def Let_def kernel_tables_def va_is_canonical_def VA_LOWMAX_def)
qed

text \<open>Writing the entry of page \<open>i\<close>.\<close>

lemma entry_unat: "kpt_ok kpt \<Longrightarrow> i < 512 \<Longrightarrow> unat (kpt + 0x3000 + 8 * word_of_nat i) = unat kpt + 0x3000 + 8 * i"
proof -
  assume k: "kpt_ok kpt" and i: "i < 512"
  have u: "unat (word_of_nat i :: u64) = i" using i by (intro unat_of_nat_small) simp
  then have v: "unat (8 * word_of_nat i :: u64) = 8 * i" using i by (simp add: unat_word_ariths)
  then have w: "unat (0x3000 + 8 * word_of_nat i :: u64) = 0x3000 + 8 * i" using i by (simp add: unat_add_64)
  then show ?thesis using kpt_unat [OF k, of "0x3000 + 8 * word_of_nat i"] i by (simp add: add.assoc word_less_nat_alt)
qed

lemma table_entry_unat:
  assumes "kpt_ok kpt" and "i < 512" and "unat c \<le> 0x4000"
  shows "unat (kpt + c + 8 * word_of_nat i) = unat kpt + (unat c + 8 * i)"
proof -
  have u: "unat (word_of_nat i :: u64) = i" using assms(2) by (intro unat_of_nat_small) simp
  then have v: "unat (8 * word_of_nat i :: u64) = 8 * i" using assms(2) by (simp add: unat_word_ariths)
  then have w: "unat (c + 8 * word_of_nat i) = unat c + 8 * i" using assms(2,3) by (simp add: unat_add_64)
  have "c + 8 * word_of_nat i < 0x5000" using w assms(2,3) by (simp add: word_less_nat_alt)
  from kpt_unat [OF assms(1) this] w show ?thesis by (simp add: add.assoc)
qed

lemma upper_tables_kept:
  assumes "kpt_ok kpt" and "upper_tables kpt m" and "keeps_upper kpt m m'"
  shows "upper_tables kpt m'"
proof -
  have r: "read64 m' (kpt + c + 8 * word_of_nat i) = read64 m (kpt + c + 8 * word_of_nat i)"
    if "c \<in> {0, 0x1000, 0x2000, 0x4000}" "i < 512" for c i
  proof -
    have "unat c \<le> 0x4000" "8 dvd unat c + 8 * i" "unat c + 8 * i < 0x3000 \<or> 0x4000 \<le> unat c + 8 * i" using that by (auto simp: dvd_add)
    with table_entry_unat [OF assms(1) that(2)] assms(3) show ?thesis by (auto simp: keeps_upper_def)
  qed
  from r [of 0] r [of "0x1000"] r [of "0x2000"] r [of "0x4000"] assms(2) show ?thesis unfolding upper_tables_def by auto
qed

lemma entry_write_keeps:
  assumes k: "kpt_ok kpt" and i: "i < 512"
  shows "keeps_upper kpt m (write64 (kpt + 0x3000 + 8 * word_of_nat i) v m)"
  unfolding keeps_upper_def
proof (intro allI impI)
  fix b :: u64 and c assume c: "unat b = unat kpt + c \<and> 8 dvd c \<and> (c < 0x3000 \<or> 0x4000 \<le> c)"
  obtain q where q: "unat kpt = 4096 * q" using k by (auto simp: kpt_ok_def elim: dvdE)
  let ?a = "kpt + 0x3000 + 8 * word_of_nat i"
  have "unat ?a = 8 * (512 * q + 1536 + i)" using entry_unat [OF k i] q by simp
  then have "8 dvd unat ?a" by (simp only: dvd_triv_left)
  moreover have "8 dvd unat b" using c q by (simp add: dvd_add_right_iff)
  moreover have "b \<noteq> ?a" using c entry_unat [OF k i] i by auto
  ultimately show "read64 (write64 ?a v m) b = read64 m b" by (intro read64_write64_other)
qed

lemma entry_write:
  assumes k: "kpt_ok kpt" and t: "kernel_tables kpt n m" and i: "i < 512" "i \<le> n"
  shows "kernel_tables kpt (max n (Suc i)) (write64 (kpt + 0x3000 + 8 * word_of_nat i) (if 0 < i then (0x1000 * word_of_nat i) OR 7 else 0) m)"
    (is "kernel_tables _ _ ?m")
proof -
  let ?a = "\<lambda>i. kpt + 0x3000 + 8 * word_of_nat i"
  note ua = entry_unat [OF k]
  obtain q where q: "unat kpt = 4096 * q" using k by (auto simp: kpt_ok_def elim: dvdE)
  have al: "8 dvd unat (?a j)" if "j < 512" for j 
  proof -
    have "unat (?a j) = 8 * (512 * q + 1536 + j)" using ua [OF that] q by simp
    then show ?thesis by (simp only: dvd_triv_left)
  qed
  have o: "read64 ?m b = read64 m b" if "unat b = unat kpt + c" "8 dvd c" "c < 0x3000 \<or> 0x4000 \<le> c" for b c
  proof (rule read64_write64_other [OF _ al [OF i(1)]])
    show "8 dvd unat b" using that(1,2) q by (simp add: dvd_add_right_iff)
    show "b \<noteq> ?a i" using that ua [OF i(1)] i by auto
  qed
  have e: "read64 ?m (?a j) = (if j = i then (if 0 < i then (0x1000 * word_of_nat i) OR 7 else 0) else read64 m (?a j))" if "j < 512" for j
    using read64_write64_other [OF al [OF that] al [OF i(1)]] ua [OF that] ua [OF i(1)] by (auto simp: word_unat_eq_iff)
  have u: "unat (kpt + 0x1000) = unat kpt + 0x1000" "unat (kpt + 0x2000) = unat kpt + 0x2000" "unat (kpt + 0x2008) = unat kpt + 0x2008"
    "unat (kpt + 0x4000) = unat kpt + 0x4000" using kpt_unat [OF k] by simp_all
  have "read64 ?m kpt = read64 m kpt" "read64 ?m (kpt + 0x1000) = read64 m (kpt + 0x1000)" "read64 ?m (kpt + 0x2000) = read64 m (kpt + 0x2000)"
    "read64 ?m (kpt + 0x2008) = read64 m (kpt + 0x2008)" "read64 ?m (kpt + 0x4000) = read64 m (kpt + 0x4000)"
    using o [of kpt 0] o [OF u(1)] o [OF u(2)] o [OF u(3)] o [OF u(4)] by simp_all
  moreover have "read64 ?m (?a j) = (if 0 < j \<and> j < max n (Suc i) then (0x1000 * word_of_nat j) OR 7 else 0)" if "j < 512" for j
  proof (cases "j = i")
    case True
    then show ?thesis using e [OF that] by (auto simp: less_max_iff_disj)
  next
    case False
    then have "j < max n (Suc i) \<longleftrightarrow> j < n" using i(2) by auto
    then show ?thesis using e [OF that] False that t by (simp add: kernel_tables_def)
  qed
  ultimately show ?thesis using t unfolding kernel_tables_def by metis
qed

lemma page_word:
  assumes "i < 512"
  shows "unat (0x1000 * word_of_nat i :: u64) = 4096 * i" "(0x1000 * word_of_nat i :: u64) AND PAGEOFFMASK = 0"
    "(0x1000 * word_of_nat i :: u64) AND PTE_PAMASK = 0x1000 * word_of_nat i"
proof -
  have "unat (word_of_nat i :: u64) = i" using assms by (intro unat_of_nat_small) simp
  then show u: "unat (0x1000 * word_of_nat i :: u64) = 4096 * i" using assms by (simp add: unat_word_ariths)
  then show p: "(0x1000 * word_of_nat i :: u64) AND PTE_PAMASK = 0x1000 * word_of_nat i"
    using assms by (intro aligned_pamask) simp_all
  have "PTE_PAMASK AND PAGEOFFMASK = 0" by (simp add: pte_consts page_consts)
  then show "(0x1000 * word_of_nat i :: u64) AND PAGEOFFMASK = 0" using p by (metis and.assoc and_zero_eq)
qed

lemma map_page:
  assumes k: "kpt_ok kpt" and t: "kernel_tables kpt n m" and i: "i < 512" "0 < i"
    and it: "mk_vmiter m kpt (0x1000 * word_of_nat i) = Inr it"
  shows "vm_map kal (0x1000 * word_of_nat i) (PTE_P OR PTE_W OR PTE_U) s m it =
    Inr (s, write64 (kpt + 0x3000 + 8 * word_of_nat i) (0x1000 * word_of_nat i OR 7) m, it)"
proof -
  note w = page_word [OF i(1)]
  have "unat (0x1000 * word_of_nat i :: u64) < 0x200000" "unat (0x1000 * word_of_nat i :: u64) div 4096 = i" using w(1) i by simp_all
  with kernel_walk [OF k t, of "0x1000 * word_of_nat i"] it have f: "pep it = Entry (kpt + 0x3000 + 8 * word_of_nat i)" "level it = 0" "cur_va it = 0x1000 * word_of_nat i"
    "vperm it AND 7 = 7" using kernel_vperm [OF k] by auto
  have n: "(0x1000 * word_of_nat i :: u64) \<noteq> - 1" using w(2) by (auto simp: page_consts)
  have "7 AND NOT (vperm it) AND 7 = (0 :: u64)"
  proof (rule bit_word_eqI)
    fix n :: nat assume "n < LENGTH(64)"
    have "bit (7 :: u64) n \<Longrightarrow> bit (vperm it) n" using f(4) by (metis bit_and_iff)
    then show "bit (7 AND NOT (vperm it) AND 7) n = bit (0 :: u64) n" by (auto simp: bit_and_iff bit_not_iff)
  qed
  then show ?thesis using f w n by (simp add: vm_map_def try_map_def map_loop.simps Let_def pte_consts)
qed

lemma next_page_word: "i < 512 \<Longrightarrow> 0x1000 * word_of_nat i + PAGESIZE = (0x1000 * word_of_nat (Suc i) :: u64)"
  by (simp add: page_consts distrib_left)

text \<open>The iterator of the next page, or the one that ends the loop.\<close>

lemma next_page_iter:
  assumes k: "kpt_ok kpt" and t: "kernel_tables kpt n m" and i: "i < 512"
    and it: "mk_vmiter m kpt (0x1000 * word_of_nat i) = Inr it"
  shows "\<exists>it'. advance m PAGESIZE it = Inr it' \<and> mk_vmiter m kpt (0x1000 * word_of_nat (Suc i)) = Inr it'"
proof -
  note f = mk_vmiter_fields [OF it]
  then have adv: "advance m PAGESIZE it = mk_vmiter m kpt (0x1000 * word_of_nat (Suc i))"
    using real_find_eq [of m it "0x1000 * word_of_nat (Suc i)"] next_page_word [OF i] by (simp only: advance_def vm_find_def)
  show ?thesis
  proof (cases "Suc i < 512")
    case True
    have "4096 * Suc i < 0x200000" using True by simp
    then have "unat (0x1000 * word_of_nat (Suc i) :: u64) < 0x200000" by (simp only: page_word(1) [OF True])
    from kernel_walk [OF k t this] adv show ?thesis by simp
  next
    case False
    with i have "i = 511" by simp
    then have "0x1000 * word_of_nat (Suc i) = (0x200000 :: u64)" by simp
    with kernel_walk_end [OF k t] adv show ?thesis by auto
  qed
qed

lemma identity_loop_result:
  assumes k: "kpt_ok kpt" and "kernel_tables kpt n m" and "i \<le> 512" and "i \<le> n" and "n \<le> 512"
    and "mk_vmiter m kpt (0x1000 * word_of_nat i) = Inr it"
  shows "\<exists>m'. identity_loop L clear s m it = Some (Inr (s, m')) \<and> kernel_tables kpt 512 m' \<and> keeps_upper kpt m m'"
  using assms(2-)
proof (induction "512 - i" arbitrary: i n m it)
  case 0
  then have "i = 512" "n = 512" by simp_all
  with 0 mk_vmiter_fields [OF 0(6)] have "cur_va it = 0x200000" by simp
  then show ?case using 0 \<open>n = 512\<close> by (subst identity_loop.simps) (simp add: addr_consts)
next
  case (Suc d)
  have i: "i < 512" using Suc.hyps(2) by simp
  note f = mk_vmiter_fields [OF Suc.prems(5)]
  have lt: "cur_va it < MEMSIZE_PHYSICAL" using f page_word(1) [OF i] i by (simp add: addr_consts word_less_nat_alt)
  define m' where "m' = (if i = 0 \<and> \<not> clear then m else write64 (kpt + 0x3000 + 8 * word_of_nat i) (if 0 < i then (0x1000 * word_of_nat i) OR 7 else 0) m)"
  have t': "kernel_tables kpt (max n (Suc i)) m'"
  proof (cases "i = 0 \<and> \<not> clear")
    case True
    have "kernel_tables kpt (max n (Suc 0)) m" using Suc.prems(1) by (auto simp: kernel_tables_def max_def)
    with True show ?thesis by (simp add: m'_def)
  next
    case False
    then have "m' = write64 (kpt + 0x3000 + 8 * word_of_nat i) (if 0 < i then (0x1000 * word_of_nat i) OR 7 else 0) m" by (auto simp: m'_def)
    then show ?thesis using entry_write [OF k Suc.prems(1) i Suc.prems(3)] by (simp only:)
  qed
  have it': "mk_vmiter m' kpt (0x1000 * word_of_nat i) = Inr it"
  proof -
    have u: "unat (0x1000 * word_of_nat i :: u64) < 0x200000" using page_word(1) [OF i] i by simp
    from kernel_walk [OF k Suc.prems(1) u] kernel_walk [OF k t' u] Suc.prems(5) show ?thesis by simp
  qed
  have map: "(if cur_va it \<noteq> 0 then vm_map (kalloc L PAGESIZE) (cur_va it) (PTE_P OR PTE_W OR PTE_U) s m it
      else if clear then vm_map (kalloc L PAGESIZE) (cur_va it) 0 s m it else Inr (s, m, it)) = Inr (s, m', it)"
  proof (cases "i = 0")
    case True
    then have z: "cur_va it = 0" using f by simp
    have "pep it = Entry (kpt + 0x3000) \<and> level it = 0" using kernel_walk [OF k Suc.prems(1), of 0] Suc.prems(5) True by auto
    then show ?thesis using z True by (auto simp: vm_map_def try_map_def m'_def)
  next
    case False
    then have p: "0 < i" by simp
    have "unat (cur_va it) \<noteq> 0" using f page_word(1) [OF i] p by simp
    then have nz: "cur_va it \<noteq> 0" by auto
    have "cur_va it = 0x1000 * word_of_nat i" using f by simp
    then show ?thesis using map_page [OF k Suc.prems(1) i p Suc.prems(5), of "kalloc L PAGESIZE" s] nz p by (simp only: m'_def) simp
  qed
  from next_page_iter [OF k t' i it'] obtain it2 where
    n2: "advance m' PAGESIZE it = Inr it2" "mk_vmiter m' kpt (0x1000 * word_of_nat (Suc i)) = Inr it2" by blast
  have "identity_loop L clear s m it = identity_loop L clear s m' it2"
    using lt map n2(1) by (subst identity_loop.simps) simp
  moreover have "\<exists>m2. identity_loop L clear s m' it2 = Some (Inr (s, m2)) \<and> kernel_tables kpt 512 m2 \<and> keeps_upper kpt m' m2"
    using Suc.hyps(2) i Suc.prems(4) by (intro Suc.hyps(1) [OF _ t' _ _ _ n2(2)]) auto
  moreover have "keeps_upper kpt m m'" using entry_write_keeps [OF k i] by (simp add: m'_def)
  ultimately show ?case using keeps_upper_trans by metis
qed

lemma kpt_rw:
  assumes k: "kpt_ok kpt" and c: "c < 0x5000" "8 dvd unat c" and d: "d < 0x5000" "8 dvd unat d"
  shows "read64 (write64 (kpt + d) v m) (kpt + c) = (if c = d then v else read64 m (kpt + c))"
proof (cases "c = d")
  case False
  have "8 dvd unat kpt" using k by (auto simp: kpt_ok_def intro: dvd_trans [of 8 4096])
  then have "8 dvd unat (kpt + c)" "8 dvd unat (kpt + d)" using kpt_unat [OF k] c d by simp_all
  with False show ?thesis by (simp add: read64_write64_other)
qed simp

lemma boot_tables_entries:
  assumes k: "kpt_ok kpt" and c: "unat c + 8 \<le> 0x5000" "8 dvd unat c"
  shows "read64 (boot_tables kpt m) (kpt + c) =
      (if c = 0x1018 then push_bit 30 3 OR 0x83 else if c = 0x1010 then push_bit 30 2 OR 0x83 else if c = 0x1008 then push_bit 30 1 OR 0x83
       else if c = 0x2008 then (kpt + 0x4000) OR 7 else if c = 0x2000 then (kpt + 0x3000) OR 7
       else if c = 0x1000 then (kpt + 0x2000) OR 7 else if c = 0 then (kpt + 0x1000) OR 7 else 0)"
proof -
  define m0 where "m0 = snd (memset kpt 0 (5 * PAGESIZE) m)"
  have m0: "m0 = (\<lambda>a. if unat (a - kpt) < 0x5000 then 0 else m a)" by (simp add: m0_def memset_def page_consts fill_up_eq)
  have z: "read64 m0 (kpt + c) = 0" if "unat c + 8 \<le> 0x5000" for c
  proof -
    have "m0 (kpt + c + word_of_nat j) = 0" if "j < 8" for j
    proof -
      have "unat (c + word_of_nat j) = unat c + j" using that \<open>unat c + 8 \<le> 0x5000\<close> by (simp add: unat_add_64 unat_of_nat_small)
      then show ?thesis using that \<open>unat c + 8 \<le> 0x5000\<close> by (simp add: m0 add.assoc)
    qed
    then have "read64 m0 (kpt + c) = read64 (\<lambda>_. 0) (kpt + c)" by (intro read64_cong) simp
    then show ?thesis by (simp add: read64_def)
  qed
  have b: "boot_tables kpt m = write64 (kpt + 0x1018) (push_bit 30 3 OR PTE_P OR PTE_W OR PTE_PS) (write64 (kpt + 0x1010) (push_bit 30 2 OR PTE_P OR PTE_W OR PTE_PS)
     (write64 (kpt + 0x1008) (push_bit 30 1 OR PTE_P OR PTE_W OR PTE_PS) (write64 (kpt + 0x2008) ((kpt + 0x4000) OR 7)
     (write64 (kpt + 0x2000) ((kpt + 0x3000) OR 7) (write64 (kpt + 0x1000) ((kpt + 0x2000) OR 7) (write64 (kpt + 0) ((kpt + 0x1000) OR 7) m0))))))"
    by (simp add: boot_tables_def Let_def m0_def page_consts pte_consts or.assoc add.assoc)
  have c5: "c < 0x5000" using c(1) by (simp add: word_less_nat_alt)
  note rw = kpt_rw [OF k c5 c(2)]
  show ?thesis unfolding b using c z [OF c(1)] by (simp add: rw pte_consts del: add_0_right)
qed

lemma boot_tables_ok:
  assumes k: "kpt_ok kpt"
  shows "kernel_tables kpt 0 (boot_tables kpt m)"
proof -
  note rd = boot_tables_entries [OF k]
  have "read64 (boot_tables kpt m) (kpt + 0x3000 + 8 * word_of_nat i) = 0" if i: "i < 512" for i
  proof -
    have "unat (word_of_nat i :: u64) = i" using i by (intro unat_of_nat_small) simp
    then have "unat (8 * word_of_nat i :: u64) = 8 * i" using i by (simp add: unat_word_ariths)
    then have u: "unat (0x3000 + 8 * word_of_nat i :: u64) = 0x3000 + 8 * i" using i by (simp add: unat_add_64)
    have n: "0x3000 + 8 * word_of_nat i \<noteq> (w :: u64)" if "unat w < 0x3000" for w using u that by auto
    have "read64 (boot_tables kpt m) (kpt + (0x3000 + 8 * word_of_nat i)) = 0"
      using u i n [of "0x2008"] n [of "0x2000"] n [of "0x1000"] n [of 0] n [of "0x1008"] n [of "0x1010"] n [of "0x1018"]
      by (subst rd) (simp_all add: u dvd_add)
    then show ?thesis by (simp only: add.assoc)
  qed
  with rd [of 0] rd [of "0x1000"] rd [of "0x2000"] rd [of "0x2008"] rd [of "0x4000"] show ?thesis by (simp add: kernel_tables_def)
qed

lemma boot_tables_upper:
  assumes k: "kpt_ok kpt"
  shows "upper_tables kpt (boot_tables kpt m)"
  unfolding upper_tables_def
proof (intro allI impI conjI)
  fix i :: nat assume i: "i < 512"
  have u: "unat (word_of_nat i :: u64) = i" using i by (intro unat_of_nat_small) simp
  then have v: "unat (8 * word_of_nat i :: u64) = 8 * i" using i by (simp add: unat_word_ariths)
  then have w: "unat (c + 8 * word_of_nat i) = unat c + 8 * i" if "unat c \<le> 0x4000" for c :: u64 using that i by (simp add: unat_add_64)
  have e: "c + 8 * word_of_nat i = (d :: u64) \<longleftrightarrow> unat c + 8 * i = unat d" if "unat c \<le> 0x4000" for c d
    using w [OF that] by (simp add: word_unat_eq_iff)
  have rd: "read64 (boot_tables kpt m) (kpt + c + 8 * word_of_nat i) =
      (if unat c + 8 * i = 0x1018 then push_bit 30 3 OR 0x83 else if unat c + 8 * i = 0x1010 then push_bit 30 2 OR 0x83
       else if unat c + 8 * i = 0x1008 then push_bit 30 1 OR 0x83
       else if unat c + 8 * i = 0x2008 then (kpt + 0x4000) OR 7 else if unat c + 8 * i = 0x2000 then (kpt + 0x3000) OR 7
       else if unat c + 8 * i = 0x1000 then (kpt + 0x2000) OR 7 else if unat c + 8 * i = 0 then (kpt + 0x1000) OR 7 else 0)"
    if c: "unat c \<le> 0x4000" "8 dvd unat c" for c
  proof -
    have "unat (c + 8 * word_of_nat i) + 8 \<le> 0x5000" "8 dvd unat (c + 8 * word_of_nat i)" using w [OF c(1)] c i by (simp_all add: dvd_add)
    from boot_tables_entries [OF k this, of m] show ?thesis by (simp add: e [OF c(1)] add.assoc)
  qed
  show "read64 (boot_tables kpt m) (kpt + 8 * word_of_nat i) = 0" if "0 < i" using rd [of 0] that i by (simp split: if_splits)
  show "read64 (boot_tables kpt m) (kpt + 0x1000 + 8 * word_of_nat i) = (if i < 4 then push_bit 30 (word_of_nat i) OR 0x83 else 0)" if "0 < i"
  proof -
    have "i = 1 \<or> i = 2 \<or> i = 3 \<or> 4 \<le> i" using that by auto
    then show ?thesis using rd [of "0x1000"] i by (elim disjE) (simp_all, presburger?)
  qed
  show "read64 (boot_tables kpt m) (kpt + 0x2000 + 8 * word_of_nat i) = 0" if "1 < i" using rd [of "0x2000"] that i by (simp split: if_splits)
  show "read64 (boot_tables kpt m) (kpt + 0x4000 + 8 * word_of_nat i) = 0" using rd [of "0x4000"] i by simp
qed

text \<open>Physical memory is mapped to itself for everyone, except that its first page is not mapped.\<close>

definition identity_mapped :: "u64 \<Rightarrow> memory \<Rightarrow> bool" where
  "identity_mapped kpt m =
     (\<forall>va. va < MEMSIZE_PHYSICAL \<longrightarrow>
        (\<exists>it. mk_vmiter m kpt va = Inr it \<and>
              (if va < PAGESIZE then \<not> vm_present m it else vm_pa m it = va \<and> vm_perm m it AND 7 = 7)))"

lemma page_split: "unat va < 0x200000 \<Longrightarrow> 0x1000 * word_of_nat (unat va div 4096) + (va AND 4095) = (va :: u64)"
proof -
  assume va: "unat va < 0x200000"
  have i: "unat va div 4096 < 512" using va by (simp add: less_mult_imp_div_less)
  have "unat (va AND 4095) = unat va mod 4096"
  proof -
    have m: "(4095 :: u64) = mask 12" by (simp add: mask_eq_exp_minus_1)
    show ?thesis by (simp only: m take_bit_eq_mask [symmetric] unsigned_take_bit_eq) (simp add: take_bit_eq_mod)
  qed
  moreover have "unat (0x1000 * word_of_nat (unat va div 4096) :: u64) = 4096 * (unat va div 4096)" by (rule page_word(1) [OF i])
  ultimately have "unat (0x1000 * word_of_nat (unat va div 4096) + (va AND 4095) :: u64) = unat va"
    using va by (simp add: unat_add_64)
  then show ?thesis by (simp add: word_unat_eq_iff)
qed

lemma tables_identity:
  assumes k: "kpt_ok kpt" and t: "kernel_tables kpt 512 m"
  shows "identity_mapped kpt m"
  unfolding identity_mapped_def
proof (intro allI impI)
  fix va assume va: "va < MEMSIZE_PHYSICAL"
  then have u: "unat va < 0x200000" by (simp add: addr_consts word_less_nat_alt)
  define i where "i = unat va div 4096"
  have i: "i < 512" using u by (simp add: i_def less_mult_imp_div_less)
  from kernel_walk [OF k t u] obtain it where it: "mk_vmiter m kpt va = Inr it" "pep it = Entry (kpt + 0x3000 + 8 * word_of_nat i)" "level it = 0"
    "vperm it = initial_perm AND ((kpt + 0x1000) OR 7) AND ((kpt + 0x2000) OR 7) AND ((kpt + 0x3000) OR 7)" "cur_va it = va"
    by (auto simp: i_def)
  have e: "deref m (pep it) = (if 0 < i then (0x1000 * word_of_nat i) OR 7 else 0)" using t i it(2) by (simp add: kernel_tables_def)
  have lt: "va < PAGESIZE \<longleftrightarrow> i = 0" by (simp add: i_def page_consts word_less_nat_alt div_eq_0_iff)
  have "vm_pa m it = va \<and> vm_perm m it AND 7 = 7" if "0 < i"
  proof -
    have pa: "(0x1000 * word_of_nat i OR 7) AND PTE_PAMASK = (0x1000 * word_of_nat i :: u64)"
      using page_word(3) [OF i] by (simp add: bit.conj_disj_distrib2) (simp add: pte_consts)
    have pr: "(0x1000 * word_of_nat i OR 7) AND PTE_P \<noteq> (0 :: u64)" by (simp add: bit.conj_disj_distrib2 or_eq_0_iff PTE_P_def)
    have "vm_pa m it = va" using that e pa pr it page_split [OF u] by (simp add: vm_pa_def pageoffmask_def page_consts i_def)
    moreover have "vm_perm m it AND 7 = 7"
    proof -
      have "((x OR 7) AND y) AND 7 = (7 :: u64)" if "y AND 7 = 7" for x y
      proof (rule bit_word_eqI)
        fix n :: nat assume "n < LENGTH(64)"
        have "bit (7 :: u64) n \<Longrightarrow> bit y n" using that by (metis bit_and_iff)
        then show "bit (((x OR 7) AND y) AND 7) n = bit (7 :: u64) n" by (auto simp: bit_and_iff bit_or_iff)
      qed
      then show ?thesis using kernel_vperm [OF k] e pr \<open>0 < i\<close> it(4) by (simp add: vm_perm_def)
    qed
    ultimately show ?thesis by simp
  qed
  moreover have "\<not> vm_present m it" if "i = 0" using e that by (simp add: vm_present_def)
  ultimately show "\<exists>it. mk_vmiter m kpt va = Inr it \<and> (if va < PAGESIZE then \<not> vm_present m it else vm_pa m it = va \<and> vm_perm m it AND 7 = 7)"
    using it(1) lt by auto
qed

lemma init_kernel_tables:
  assumes "kpt_ok kpt"
  shows "\<exists>m'. init_kernel_memory L kpt s m = Some (Inr (s, m')) \<and> kernel_tables kpt 512 m' \<and> upper_tables kpt m'"
proof -
  let ?m = "boot_tables kpt (stash_kernel_data L False m)"
  note t = boot_tables_ok [OF assms, of "stash_kernel_data L False m"]
  from kernel_walk [OF assms t, of 0] obtain it where it: "mk_vmiter ?m kpt 0 = Inr it" by auto
  from identity_loop_result [OF assms t, of 0 it L False s] it obtain m' where
    "identity_loop L False s ?m it = Some (Inr (s, m'))" "kernel_tables kpt 512 m'" "keeps_upper kpt ?m m'" by auto
  then show ?thesis using it upper_tables_kept [OF assms boot_tables_upper [OF assms]]
    by (auto simp: init_kernel_memory_def map_identity_def Let_def)
qed

lemma remap_kernel_tables:
  assumes "kpt_ok kpt" "kernel_tables kpt 512 m"
  shows "\<exists>m'. map_identity L clear kpt s m = Some (Inr (s, m')) \<and> kernel_tables kpt 512 m' \<and> keeps_upper kpt m m'"
proof -
  from kernel_walk [OF assms, of 0] obtain it where it: "mk_vmiter m kpt 0 = Inr it" by auto
  with identity_loop_result [OF assms, of 0] show ?thesis by (auto simp: map_identity_def)
qed

lemma identity_check:
  assumes "kpt_ok kpt" "identity_mapped kpt m" "PAGESIZE \<le> kpt" "kpt < MEMSIZE_PHYSICAL" "PAGESIZE \<le> entry" "entry < MEMSIZE_PHYSICAL"
  shows "check_pagetable entry kpt m kpt = Inr ()"
proof -
  have "\<exists>it. mk_vmiter m kpt va = Inr it \<and> vm_pa m it = va" if "PAGESIZE \<le> va" "va < MEMSIZE_PHYSICAL" for va
    using assms(2) that by (auto simp: identity_mapped_def not_less)
  from this [OF assms(3,4)] this [OF assms(5,6)] obtain i j where
    "mk_vmiter m kpt kpt = Inr i" "vm_pa m i = kpt" "mk_vmiter m kpt entry = Inr j" "vm_pa m j = entry" by blast
  moreover have "kpt AND PAGEOFFMASK = 0"
  proof -
    have "kpt AND PTE_PAMASK = kpt" using assms(1) by (intro aligned_pamask) (auto simp: kpt_ok_def)
    moreover have "PTE_PAMASK AND PAGEOFFMASK = 0" by (simp add: pte_consts page_consts)
    ultimately show ?thesis by (metis and.assoc and_zero_eq)
  qed
  ultimately show ?thesis by (simp add: check_pagetable_def)
qed

text \<open>
  C30. Booting always succeeds in building the kernel's page table: \<open>init_kernel_memory\<close> returns, and so does the
  loop with which \<open>kernel\<close> goes over it again; neither allocates a page. After both every address of physical
  memory translates to itself with all permissions, except that the first page is not mapped, and
  \<open>check_pagetable\<close> accepts the kernel page table.
\<close>

theorem kernel_boot_identity:
  assumes "kpt_ok kpt" and "PAGESIZE \<le> kpt" and "kpt < MEMSIZE_PHYSICAL" and "PAGESIZE \<le> entry" and "entry < MEMSIZE_PHYSICAL"
  shows "\<exists>m1 m2. init_kernel_memory L kpt s m = Some (Inr (s, m1)) \<and> identity_mapped kpt m1 \<and>
    map_identity L True kpt s m1 = Some (Inr (s, m2)) \<and> identity_mapped kpt m2 \<and> check_pagetable entry kpt m2 kpt = Inr ()"
proof -
  from init_kernel_tables [OF assms(1), of L s m] obtain m1 where m1: "init_kernel_memory L kpt s m = Some (Inr (s, m1))" "kernel_tables kpt 512 m1" by blast
  from remap_kernel_tables [OF assms(1) m1(2), of L True s] obtain m2 where m2: "map_identity L True kpt s m1 = Some (Inr (s, m2))" "kernel_tables kpt 512 m2" by blast
  from m1 m2 tables_identity [OF assms(1)] identity_check [OF assms(1) _ assms(2-5)] show ?thesis by blast
qed

theorem kernel_boot_identity_witness:
  "\<exists>m1 m2. init_kernel_memory \<lparr>data_start = 0x50000, edata = 0x58000, kernel_end = 0x5A000\<rparr> 0x52000 boot_pages (\<lambda>_. 7) = Some (Inr (boot_pages, m1)) \<and>
     check_pagetable 0x40100 0x52000 m2 0x52000 = Inr ()"
proof -
  have "kpt_ok 0x52000" by (simp add: kpt_ok_def)
  then show ?thesis
    using kernel_boot_identity [of "0x52000" "0x40100" "\<lparr>data_start = 0x50000, edata = 0x58000, kernel_end = 0x5A000\<rparr>" boot_pages "\<lambda>_. 7"]
    by (auto simp: page_consts addr_consts)
qed

end
