(* ===== verification/Kernel.thy ===== *)
theory Kernel
  imports Pages
begin

unbundle bit_operations_syntax

text \<open>
  The kernel's state and its processes: the process table of \<open>weensyos/kernel.hh\<close>, \<open>panic\<close> and \<open>fail\<close>,
  \<open>init_process\<close> of \<open>k-hardware.cc\<close> and \<open>process_setup\<close> of \<open>kernel.cc\<close>.

  An operation of the kernel maps a state to a result: it may run forever (\<open>None\<close>), end the normal flow (\<open>Inl\<close>:
  a process is resumed, the machine reboots or powers off, a panic or failed assertion is waiting in
  \<open>fail\<close>, or memory outside an array was touched), or return a value with the new state (\<open>Inr\<close>).
\<close>

section \<open>State\<close>

datatype proc_state = P_FREE | P_RUNNABLE | P_BLOCKED | P_BROKEN

record proc =
  pagetable :: u64
  pid :: int
  pstate :: proc_state
  regs :: regstate

definition NPROC :: nat where "NPROC = 16"
definition PROC_SIZE :: int where "PROC_SIZE = 0x40000"
definition HZ :: u64 where "HZ = 100"

text \<open>
  \<open>current\<close> is an index into the process table. \<open>reads\<close> counts the polls of the keyboard, \<open>eois\<close> the
  acknowledged interrupts; \<open>mu_page\<close> and \<open>mu_map\<close> are the memory viewer's page and its contents, \<open>last_ticks\<close> and
  \<open>showing\<close> the static variables of \<open>memshow\<close>.
\<close>

record kernel =
  ptable :: "proc list"
  current :: nat
  ticks :: u64
  frames :: pagestate
  mem :: memory
  con :: console_state
  klog :: log_printer
  keyboard :: kbd
  reads :: nat
  eois :: nat
  panicking :: bool
  mu_page :: u64
  mu_map :: "u32 list"
  last_ticks :: u32
  showing :: nat

text \<open>
  What the kernel finds around it: the linker's symbols, the addresses of \<open>kernel_pagetable\<close> and \<open>exception_entry\<close>,
  what each poll of the keyboard controller reads, the program images, the symbol table, and the stack and
  frame pointers a backtrace starts from.
\<close>

record machine =
  lay :: layout
  kpt :: u64
  exc_entry :: u64
  keys :: "nat \<Rightarrow> u8 \<times> u8"
  images :: "nat \<Rightarrow> elf_image"
  symbols :: "elf_symbol list"
  strtab :: "u32 \<Rightarrow> u8 list"
  rsp_rbp :: "u64 \<times> u64"

datatype outcome = Resumed nat | Rebooted string | PoweredOff | Failing | Faulted

type_synonym 'a result = "(outcome \<times> kernel + 'a \<times> kernel) option"

abbreviation return :: "'a \<Rightarrow> kernel \<Rightarrow> 'a result" where
  "return x s \<equiv> Some (Inr (x, s))"

abbreviation stop :: "outcome \<Rightarrow> kernel \<Rightarrow> 'a result" where
  "stop r s \<equiv> Some (Inl (r, s))"

definition andthen :: "'a result \<Rightarrow> ('a \<Rightarrow> kernel \<Rightarrow> 'b result) \<Rightarrow> 'b result" where
  "andthen r f = Option.bind r (case_sum (\<lambda>e. Some (Inl e)) (\<lambda>(x, s). f x s))"

lemma andthen_simps [simp]: "andthen None f = None" "andthen (Some (Inl e)) f = Some (Inl e)" "andthen (return x s) f = f x s"
  by (simp_all add: andthen_def)

lemma andthen_mono [partial_function_mono]:
  assumes "mono_option B" and "\<And>y s. mono_option (\<lambda>f. C y s f)"
  shows "mono_option (\<lambda>f. andthen (B f) (\<lambda>y s. C y s f))"
  unfolding andthen_def
proof (rule bind_mono [OF assms(1)])
  show "mono_option (\<lambda>f. case_sum (\<lambda>e. Some (Inl e)) (\<lambda>(y, s). C y s f) x)" for x
    using assms(2) by (cases x) (auto intro: option.const_mono split: prod.split)
qed

lemma andthen_return: "andthen r f = return x s' \<longleftrightarrow> (\<exists>y t. r = return y t \<and> f y t = return x s')"
  by (cases r) (auto simp: andthen_def split: sum.splits)

lemma andthen_cases:
  "andthen r f = Some o' \<longleftrightarrow> (\<exists>e. r = Some (Inl e) \<and> o' = Inl e) \<or> (\<exists>y t. r = return y t \<and> f y t = Some o')"
  by (cases r) (auto simp: andthen_def split: sum.splits)

definition the_proc :: "kernel \<Rightarrow> nat \<Rightarrow> proc" where
  "the_proc s i = ptable s ! i"

definition update_proc :: "nat \<Rightarrow> (proc \<Rightarrow> proc) \<Rightarrow> kernel \<Rightarrow> kernel" where
  "update_proc i f s = s\<lparr>ptable := (ptable s)[i := f (ptable s ! i)]\<rparr>"

section \<open>Messages and failure\<close>

definition ascii :: "string \<Rightarrow> u8 list" where
  "ascii = map of_char"

text \<open>The kernel's log, console and error printing; a format used with wrong arguments has no result.\<close>

definition k_log :: "u8 list \<Rightarrow> va_arg list \<Rightarrow> kernel \<Rightarrow> unit result" where
  "k_log fmt args s = (case log_printf fmt args (klog s) of None \<Rightarrow> stop Faulted s | Some l \<Rightarrow> return () (s\<lparr>klog := l\<rparr>))"

definition k_print :: "int \<Rightarrow> int \<Rightarrow> u8 list \<Rightarrow> va_arg list \<Rightarrow> kernel \<Rightarrow> unit result" where
  "k_print cpos color fmt args s =
     (case console_printf cpos color fmt args (con s) of None \<Rightarrow> stop Faulted s | Some (c, st) \<Rightarrow> return () (s\<lparr>con := st\<rparr>))"

definition k_error :: "int \<Rightarrow> int \<Rightarrow> u8 list \<Rightarrow> va_arg list \<Rightarrow> kernel \<Rightarrow> unit result" where
  "k_error cpos color fmt args s =
     (case error_printf cpos color fmt args (klog s, con s) of
        None \<Rightarrow> stop Faulted s | Some (c, l, st) \<Rightarrow> return () (s\<lparr>klog := l, con := st\<rparr>))"

definition set_cursor :: "int \<Rightarrow> kernel \<Rightarrow> kernel" where
  "set_cursor cpos s = s\<lparr>con := (con s)\<lparr>cursorpos := cpos\<rparr>\<rparr>"

text \<open>\<open>panic\<close> up to its call of \<open>fail\<close>; \<open>None\<close> is a null format.\<close>

definition panic :: "(u8 list \<times> va_arg list) option \<Rightarrow> kernel \<Rightarrow> 'a result" where
  "panic msg s =
     (let s = set_cursor (CPOS 24 80) (s\<lparr>panicking := True\<rparr>)
      in andthen
           (case msg of
              Some (fmt, args) \<Rightarrow>
                andthen (k_error (- 1) COLOR_ERROR (ascii ''PANIC: '') [] s) (\<lambda>_ s.
                andthen (k_error (- 1) COLOR_ERROR fmt args s) (\<lambda>_ s.
                if CCOL (cursorpos (con s)) \<noteq> 0 then k_error (- 1) COLOR_ERROR [10] [] s else return () s))
            | None \<Rightarrow>
                andthen (k_error (- 1) COLOR_ERROR (ascii ''PANIC'') [] s) (\<lambda>_ s. k_log [10] [] s))
           (\<lambda>_ s. stop Failing s))"

definition k_lookup :: "machine \<Rightarrow> u64 \<Rightarrow> kernel \<Rightarrow> (u32 \<times> u64) option \<times> kernel" where
  "k_lookup M addr s =
     (let (r, m) = lookup_symbol (kpt M + 2 * PAGESIZE) (symbols M) addr (mem s) in (r, s\<lparr>mem := m\<rparr>))"

text \<open>The loop over stack frames that \<open>assert_fail\<close> and \<open>log_backtrace\<close> share; \<open>pr\<close> prints a line.\<close>

partial_function (option) backtrace ::
    "machine \<Rightarrow> (u8 list \<Rightarrow> va_arg list \<Rightarrow> kernel \<Rightarrow> unit result) \<Rightarrow> u32 \<Rightarrow> backtracer \<Rightarrow> kernel \<Rightarrow> unit result" where
  "backtrace M pr frame bt s =
     (if bt_ok bt then
        let rip = ret_rip (mem s) bt; (r, s) = k_lookup M rip s
        in andthen
             (case r of
                Some (name, start) \<Rightarrow> pr (ascii ''  #%d  %p  <%s>'' @ [10]) [AInt frame, APtr rip, AStr (strtab M name)] s
              | None \<Rightarrow> if rip \<noteq> 0 then pr (ascii ''  #%d  %p'' @ [10]) [AInt frame, APtr rip] s else return () s)
             (\<lambda>_ s. backtrace M pr (frame + 1) (bt_step (mem s) bt) s)
      else return () s)"

definition backtracer_of :: "u64 \<Rightarrow> u64 \<Rightarrow> backtracer" where
  "backtracer_of rsp rbp = \<lparr>bt_rbp = rbp, bt_rsp = rsp, bt_top = round_up rsp (ucast PAGESIZE)\<rparr>"

definition log_backtrace :: "machine \<Rightarrow> u8 list \<Rightarrow> u64 \<Rightarrow> u64 \<Rightarrow> kernel \<Rightarrow> unit result" where
  "log_backtrace M prefix rsp rbp s =
     andthen
       (if rsp \<noteq> rbp \<and> round_up rsp (ucast PAGESIZE) = round_down rbp (ucast PAGESIZE)
        then k_log (ascii ''%s  warning: possible stack overflow (rsp %p, rbp %p)'' @ [10]) [APtr rsp, APtr rbp] s
        else return () s)
       (\<lambda>_ s. backtrace M (\<lambda>fmt args. k_log (ascii ''%s'' @ fmt) (AStr prefix # args)) 1 (backtracer_of rsp rbp) s)"

text \<open>A failed assertion, with the arguments the \<open>assert\<close> macro passes.\<close>

definition assert_fail :: "machine \<Rightarrow> string \<Rightarrow> nat \<Rightarrow> string \<Rightarrow> kernel \<Rightarrow> 'a result" where
  "assert_fail M file line msg s =
     (let s = set_cursor (CPOS 23 0) s
      in andthen (k_error (- 1) COLOR_ERROR (ascii ''%s:%d: kernel assertion '' @ [39] @ ascii ''%s'' @ [39] @ ascii '' failed'' @ [10])
                    [AStr (ascii file), AInt (word_of_nat line), AStr (ascii msg)] s) (\<lambda>_ s.
         andthen (backtrace M (k_error (- 1) COLOR_ERROR) 1 (backtracer_of (fst (rsp_rbp M)) (snd (rsp_rbp M))) s) (\<lambda>_ s.
         stop Failing s)))"

text \<open>\<open>assert(b)\<close>\<close>

definition k_assert :: "machine \<Rightarrow> string \<Rightarrow> nat \<Rightarrow> string \<Rightarrow> bool \<Rightarrow> kernel \<Rightarrow> unit result" where
  "k_assert M file line msg b s = (if b then return () s else assert_fail M file line msg s)"

definition k_check_keyboard :: "machine \<Rightarrow> kernel \<Rightarrow> int result" where
  "k_check_keyboard M s =
     (let (act, k, m) = check_keyboard (lay M) (keys M (reads s)) (keyboard s) (mem s);
          s = s\<lparr>keyboard := k, mem := m, reads := reads s + 1\<rparr>
      in case act of KeyReturn c \<Rightarrow> return c s | SoftReboot name \<Rightarrow> stop (Rebooted name) s | PowerOff \<Rightarrow> stop PoweredOff s)"

partial_function (option) fail :: "machine \<Rightarrow> kernel \<Rightarrow> unit result" where
  "fail M s = andthen (k_check_keyboard M s) (\<lambda>_ s. fail M s)"

section \<open>Processes\<close>

definition EFLAGS_IF :: u64 where "EFLAGS_IF = 0x200"
definition EFLAGS_IOPL_3 :: u64 where "EFLAGS_IOPL_3 = 0x3000"
definition PROCINIT_ALLOW_PROGRAMMED_IO :: int where "PROCINIT_ALLOW_PROGRAMMED_IO = 0x01"
definition PROCINIT_DISABLE_INTERRUPTS :: int where "PROCINIT_DISABLE_INTERRUPTS = 0x02"

definition init_process :: "int \<Rightarrow> proc \<Rightarrow> proc" where
  "init_process flags p =
     (let r = zero_regs\<lparr>reg_cs := SEGSEL_APP_CODE OR 3, reg_fs := SEGSEL_APP_DATA OR 3, reg_gs := SEGSEL_APP_DATA OR 3,
                        reg_ss := SEGSEL_APP_DATA OR 3, reg_rflags := EFLAGS_IF\<rparr>;
          r = (if flags AND PROCINIT_ALLOW_PROGRAMMED_IO \<noteq> 0 then r\<lparr>reg_rflags := reg_rflags r OR EFLAGS_IOPL_3\<rparr> else r);
          r = (if flags AND PROCINIT_DISABLE_INTERRUPTS \<noteq> 0 then r\<lparr>reg_rflags := reg_rflags r AND NOT EFLAGS_IF\<rparr> else r)
      in p\<lparr>regs := r\<rparr>)"

text \<open>
  Claiming the page of an address, \<open>assert(!pages[a / PAGESIZE].used())\<close> and \<open>refcount = 1\<close>: out of the array, page in
  use, or claimed.
\<close>

datatype claim_error = OutOfArray | InUse

definition claim_page :: "u64 \<Rightarrow> pagestate \<Rightarrow> claim_error + pagestate" where
  "claim_page a f =
     (if page_of a \<ge> length (pages f) then Inl OutOfArray
      else if used f a then Inl InUse
      else Inr (f\<lparr>pages := (pages f)[page_of a := 1]\<rparr>))"

lemma claim_page_length: "claim_page a f = Inr f' \<Longrightarrow> length (pages f') = length (pages f) \<and> page_of a < length (pages f)"
  by (auto simp: claim_page_def split: if_splits)

text \<open>
  The pages of one segment, from \<open>a\<close> up to its end. The array has \<open>NPAGES\<close> elements throughout; the test makes that
  visible to the termination argument (an address beyond it faults before it can wrap around).
\<close>

function claim_pages :: "u64 \<Rightarrow> u64 \<Rightarrow> pagestate \<Rightarrow> claim_error + pagestate" where
  "claim_pages a lim f =
     (if a < lim then
        if length (pages f) = NPAGES then
          case claim_page a f of Inl e \<Rightarrow> Inl e | Inr f \<Rightarrow> claim_pages (a + PAGESIZE) lim f
        else Inl OutOfArray
      else Inr f)"
  by pat_completeness auto

termination
proof (relation "measure (\<lambda>(a, lim, f). 0x200000 - unat a)", simp)
  fix a lim :: u64 and f f' :: pagestate
  assume l: "length (pages f) = NPAGES" and c: "claim_page a f = Inr f'"
  have "unat a div 4096 < 512" using claim_page_length [OF c] l by (simp add: page_of_round)
  then have u: "unat a < 0x200000" by (simp add: div_less_iff_less_mult)
  then have "unat (a + PAGESIZE) = unat a + 4096" by (simp add: page_consts unat_add_64)
  with u show "((a + PAGESIZE, lim, f'), a, lim, f) \<in> measure (\<lambda>(a, lim, f). 0x200000 - unat a)" by simp
qed

declare claim_pages.simps [simp del]

fun claim_segments :: "elf_program list \<Rightarrow> pagestate \<Rightarrow> claim_error + pagestate" where
  "claim_segments [] f = Inr f"
| "claim_segments (p # ps) f =
     (case claim_pages (round_down (p_va p) (ucast PAGESIZE)) (p_va p + p_memsz p) f of
        Inl e \<Rightarrow> Inl e | Inr f \<Rightarrow> claim_segments ps f)"

text \<open>Zeroing a segment and copying its bytes from the image.\<close>

definition load_segment :: "elf_image \<Rightarrow> elf_program \<Rightarrow> memory \<Rightarrow> memory" where
  "load_segment e p m =
     (let m = snd (memset (p_va p) 0 (p_memsz p) m)
      in (\<lambda>a. if unat (a - p_va p) < unat (p_filesz p) then e_bytes e (p_offset p + (a - p_va p)) else m a))"

definition load_segments :: "elf_image \<Rightarrow> elf_program list \<Rightarrow> memory \<Rightarrow> memory" where
  "load_segments e ps m = fold (load_segment e) ps m"

definition stack_addr :: "int \<Rightarrow> u64" where
  "stack_addr i = PROC_START_ADDR + word_of_int (PROC_SIZE * i) - PAGESIZE"

definition claim_result :: "machine \<Rightarrow> nat \<Rightarrow> string \<Rightarrow> claim_error + pagestate \<Rightarrow> kernel \<Rightarrow> unit result" where
  "claim_result M line msg r s =
     (case r of Inl OutOfArray \<Rightarrow> stop Faulted s
      | Inl InUse \<Rightarrow> assert_fail M ''kernel.cc'' line msg s
      | Inr f \<Rightarrow> return () (s\<lparr>frames := f\<rparr>))"

definition process_setup :: "machine \<Rightarrow> nat \<Rightarrow> string \<Rightarrow> kernel \<Rightarrow> unit result" where
  "process_setup M i program_name s =
     (let s = update_proc i (init_process 0) s;
          s = update_proc i (\<lambda>p. p\<lparr>pagetable := kpt M\<rparr>) s
      in case mk_loader_named (images M) program_name of
           None \<Rightarrow> assert_fail M ''k-hardware.cc'' 920 ''elf_->e_magic == ELF_MAGIC'' s
         | Some loader \<Rightarrow>
             andthen (claim_result M 172 ''!pages[a / PAGESIZE].used()'' (claim_segments (visited loader) (frames s)) s) (\<lambda>_ s.
             let s = (case elf loader of None \<Rightarrow> s | Some e \<Rightarrow> s\<lparr>mem := load_segments e (visited loader) (mem s)\<rparr>);
                 s = update_proc i (\<lambda>p. p\<lparr>regs := (regs p)\<lparr>reg_rip := loader_entry loader\<rparr>\<rparr>) s;
                 a = stack_addr (int i)
             in andthen (claim_result M 192 ''!pages[stack_addr / PAGESIZE].used()'' (claim_page a (frames s)) s) (\<lambda>_ s.
                let s = update_proc i (\<lambda>p. p\<lparr>regs := (regs p)\<lparr>reg_rsp := a + PAGESIZE\<rparr>\<rparr>) s
                in return () (update_proc i (\<lambda>p. p\<lparr>pstate := P_RUNNABLE\<rparr>) s))))"

text \<open>\<open>kfree\<close> is a placeholder that always fails.\<close>

definition kfree :: "machine \<Rightarrow> u64 \<Rightarrow> kernel \<Rightarrow> unit result" where
  "kfree M kptr s = k_assert M ''kernel.cc'' 143 ''false'' False s"

section \<open>Setting up a process\<close>

text \<open>The page numbers a segment covers.\<close>

definition segment_pages :: "elf_program \<Rightarrow> nat set" where
  "segment_pages p = {k. unat (p_va p) div 4096 \<le> k \<and> 4096 * k < unat (p_va p + p_memsz p)}"

lemma claim_page_result:
  "claim_page a f = Inr f' \<Longrightarrow> page_of a < length (pages f) \<and> pages f ! page_of a = 0 \<and>
     pages f' = (pages f)[page_of a := 1] \<and> next_alloc_pa f' = next_alloc_pa f"
  by (auto simp: claim_page_def used_def split: if_splits)

lemma claim_pages_result:
  assumes "claim_pages a lim f = Inr f'" and "unat a = 4096 * q" and "length (pages f) = 512"
  shows "length (pages f') = 512 \<and> (\<forall>k. q \<le> k \<and> 4096 * k < unat lim \<longrightarrow> k < 512 \<and> pages f ! k = 0) \<and>
    (\<forall>k < 512. pages f' ! k = (if q \<le> k \<and> 4096 * k < unat lim then 1 else pages f ! k))"
  using assms
proof (induction a lim f arbitrary: q rule: claim_pages.induct)
  case (1 a lim f)
  show ?case
  proof (cases "a < lim")
    case False
    then have "\<not> (q \<le> k \<and> 4096 * k < unat lim)" for k using "1.prems"(2) by (simp add: word_less_nat_alt)
    moreover have "f' = f" using False "1.prems"(1) by (simp add: claim_pages.simps [of a lim f])
    ultimately show ?thesis using "1.prems"(3) by auto
  next
    case True
    then obtain g where g: "claim_page a f = Inr g" "claim_pages (a + PAGESIZE) lim g = Inr f'"
      using "1.prems"(1,3) by (auto simp: claim_pages.simps [of a lim f] split: sum.splits)
    have pa: "page_of a = q" using "1.prems"(2) by (simp add: page_of_round)
    note c = claim_page_result [OF g(1), unfolded pa]
    have q: "q < 512" using c "1.prems"(3) by simp
    have a': "unat (a + PAGESIZE) = 4096 * Suc q" using q "1.prems"(2) by (simp add: page_consts unat_add_64)
    have "length (pages g) = 512" using c "1.prems"(3) by simp
    from "1.IH" [OF True _ g(1) g(2) a' this] "1.prems"(3)
    have ih: "length (pages f') = 512" "\<forall>k. Suc q \<le> k \<and> 4096 * k < unat lim \<longrightarrow> k < 512 \<and> pages g ! k = 0"
      "\<forall>k < 512. pages f' ! k = (if Suc q \<le> k \<and> 4096 * k < unat lim then 1 else pages g ! k)" by auto
    have ql: "4096 * q < unat lim" using True "1.prems"(2) by (simp add: word_less_nat_alt)
    have "k < 512 \<and> pages f ! k = 0" if "q \<le> k" "4096 * k < unat lim" for k
      using that ih(2) c q by (cases "k = q") (auto simp: nth_list_update)
    moreover have "pages f' ! k = (if q \<le> k \<and> 4096 * k < unat lim then 1 else pages f ! k)" if "k < 512" for k
      using that ih(3) c ql q "1.prems"(3) by (cases "k = q") auto
    ultimately show ?thesis using ih(1) by blast
  qed
qed

lemma claim_segments_result:
  assumes "claim_segments ps f = Inr f'" and "length (pages f) = 512"
  shows "length (pages f') = 512 \<and> (\<forall>k \<in> \<Union> (segment_pages ` set ps). k < 512 \<and> pages f ! k = 0) \<and>
    (\<forall>k < 512. pages f' ! k = (if k \<in> \<Union> (segment_pages ` set ps) then 1 else pages f ! k))"
  using assms
proof (induction ps arbitrary: f)
  case (Cons p ps)
  from Cons.prems(1) obtain g where g: "claim_pages (round_down (p_va p) (ucast PAGESIZE)) (p_va p + p_memsz p) f = Inr g" "claim_segments ps g = Inr f'"
    by (auto split: sum.splits)
  have "unat (round_down (p_va p) (ucast PAGESIZE)) = 4096 * (unat (p_va p) div 4096)" by (simp only: round_page mult.commute)
  from claim_pages_result [OF g(1) this Cons.prems(2)]
  have c: "length (pages g) = 512" "\<forall>k \<in> segment_pages p. k < 512 \<and> pages f ! k = 0"
    "\<forall>k < 512. pages g ! k = (if k \<in> segment_pages p then 1 else pages f ! k)" by (auto simp: segment_pages_def)
  let ?U = "\<Union> (segment_pages ` set ps)"
  from Cons.IH [OF g(2) c(1)] have ih: "length (pages f') = 512" "\<forall>k \<in> ?U. k < 512 \<and> pages g ! k = 0"
    "\<forall>k < 512. pages f' ! k = (if k \<in> ?U then 1 else pages g ! k)" by blast+
  have "k < 512 \<and> pages f ! k = 0" if "k \<in> segment_pages p \<union> ?U" for k
    using that ih(2) c(2,3) by (metis Un_iff zero_neq_one)
  moreover have "pages f' ! k = (if k \<in> segment_pages p \<union> ?U then 1 else pages f ! k)" if "k < 512" for k
    using that ih(3) c(3) by simp
  moreover have "\<Union> (segment_pages ` set (p # ps)) = segment_pages p \<union> ?U" by simp
  ultimately show ?case using ih(1) by (simp only:) blast
qed simp

lemma update_proc_simps [simp]:
  "frames (update_proc i f s) = frames s" "mem (update_proc i f s) = mem s" "length (ptable (update_proc i f s)) = length (ptable s)"
  "i < length (ptable s) \<Longrightarrow> ptable (update_proc i f s) ! j = (if j = i then f (ptable s ! i) else ptable s ! j)"
  by (simp_all add: update_proc_def nth_list_update)

lemma claim_result_ok: "claim_result M line msg r s = Some (Inr ((), s')) \<Longrightarrow> \<exists>f. r = Inr f \<and> s' = s\<lparr>frames := f\<rparr>"
  by (auto simp: claim_result_def assert_fail_def Let_def andthen_return split: sum.splits claim_error.splits)

text \<open>The state a successful \<open>process_setup\<close> leaves.\<close>

lemma process_setup_result:
  assumes "process_setup M i name s = Some (Inr ((), s'))" and "i < length (ptable s)" and "length (pages (frames s)) = 512"
    and "mk_loader_named (images M) name = Some loader" and "elf loader = Some e"
  shows "(let p = ptable s' ! i; U = \<Union> (segment_pages ` set (visited loader)) \<union> {page_of (stack_addr (int i))}
     in pstate p = P_RUNNABLE \<and> pagetable p = kpt M \<and> reg_rip (regs p) = e_entry e \<and> reg_rsp (regs p) = stack_addr (int i) + PAGESIZE \<and>
        reg_rflags (regs p) = EFLAGS_IF \<and> reg_cs (regs p) AND 3 = 3 \<and> reg_ss (regs p) AND 3 = 3 \<and>
        (\<forall>j. j \<noteq> i \<longrightarrow> ptable s' ! j = ptable s ! j) \<and>
        (\<forall>k \<in> U. k < 512 \<and> pages (frames s) ! k = 0) \<and>
        (\<forall>k < 512. pages (frames s') ! k = (if k \<in> U then 1 else pages (frames s) ! k)) \<and>
        mem s' = load_segments e (visited loader) (mem s))"
proof -
  let ?a = "stack_addr (int i)" and ?U = "\<Union> (segment_pages ` set (visited loader))"
  define s1 where "s1 = update_proc i (\<lambda>p. p\<lparr>pagetable := kpt M\<rparr>) (update_proc i (init_process 0) s)"
  from assms(1,4,5) obtain f f' where f: "claim_segments (visited loader) (frames s) = Inr f" "claim_page ?a f = Inr f'"
    and s': "s' = update_proc i (\<lambda>p. p\<lparr>pstate := P_RUNNABLE\<rparr>) (update_proc i (\<lambda>p. p\<lparr>regs := (regs p)\<lparr>reg_rsp := ?a + PAGESIZE\<rparr>\<rparr>)
      (update_proc i (\<lambda>p. p\<lparr>regs := (regs p)\<lparr>reg_rip := e_entry e\<rparr>\<rparr>) (s1\<lparr>frames := f, mem := load_segments e (visited loader) (mem s1)\<rparr>)\<lparr>frames := f'\<rparr>))"
    by (auto simp: process_setup_def Let_def loader_entry_def andthen_return simp flip: s1_def dest!: claim_result_ok)
  have l1: "length (pages (frames s1)) = 512" "frames s1 = frames s" "mem s1 = mem s" "i < length (ptable s1)" using assms(2,3) by (simp_all add: s1_def)
  note c1 = claim_segments_result [OF f(1) assms(3)] and c2 = claim_page_result [OF f(2)]
  have "pages f ! page_of ?a = 0" "page_of ?a < 512" using c1 c2 by auto
  then have stk: "page_of ?a \<notin> ?U" "pages (frames s) ! page_of ?a = 0" using c1 l1(2) by (auto split: if_splits)
  have fr: "frames s' = f'" "mem s' = load_segments e (visited loader) (mem s)" by (simp_all add: s' l1(3))
  have "k < 512 \<and> pages (frames s) ! k = 0" if "k \<in> ?U \<union> {page_of ?a}" for k using that c1 l1(2) stk \<open>page_of ?a < 512\<close> by auto
  moreover have "pages (frames s') ! k = (if k \<in> ?U \<union> {page_of ?a} then 1 else pages (frames s) ! k)" if "k < 512" for k
    using that c1 c2 fr(1) l1(2) by (cases "k = page_of ?a") (auto simp: nth_list_update)
  moreover have "ptable s' ! i = (let p = init_process 0 (ptable s ! i)\<lparr>pagetable := kpt M\<rparr>
      in p\<lparr>regs := (regs p)\<lparr>reg_rip := e_entry e, reg_rsp := ?a + PAGESIZE\<rparr>, pstate := P_RUNNABLE\<rparr>)"
    using assms(2) by (simp add: s' s1_def update_proc_def Let_def)
  moreover have "ptable s' ! j = ptable s ! j" if "j \<noteq> i" for j using that by (simp add: s' s1_def update_proc_def)
  ultimately show ?thesis using fr(2)
    by (simp add: Let_def init_process_def zero_regs_def seg_consts PROCINIT_ALLOW_PROGRAMMED_IO_def PROCINIT_DISABLE_INTERRUPTS_def)
qed

text \<open>
  Loading byte by byte. A segment is well formed when it does not wrap around the address space and its file part fits
  its memory part; the pages \<open>claim_segments\<close> claims keep such segments apart, so a later one overwrites no byte of an
  earlier one.
\<close>

definition segment_loadable :: "elf_program \<Rightarrow> bool" where
  "segment_loadable p = (p_filesz p \<le> p_memsz p \<and> unat (p_va p) + unat (p_memsz p) < 2 ^ 64)"

definition in_segment :: "elf_program \<Rightarrow> u64 \<Rightarrow> bool" where
  "in_segment p a = (a - p_va p < p_memsz p)"

lemma load_segment_byte:
  "load_segment e p m a =
     (if a - p_va p < p_filesz p then e_bytes e (p_offset p + (a - p_va p)) else if in_segment p a then 0 else m a)"
  using unat_lt_64 [of "p_memsz p"] by (simp add: load_segment_def memset_def fill_up_eq in_segment_def word_less_nat_alt)

lemma in_segment_page:
  assumes "in_segment p a" and "segment_loadable p"
  shows "unat a div 4096 \<in> segment_pages p"
proof -
  have l: "unat (a - p_va p) < unat (p_memsz p)" using assms(1) by (simp add: in_segment_def word_less_nat_alt)
  have "unat (p_va p + (a - p_va p)) = unat (p_va p) + unat (a - p_va p)" "unat (p_va p + p_memsz p) = unat (p_va p) + unat (p_memsz p)"
    using l assms(2) by (simp_all only: segment_loadable_def unat_add_64) simp_all
  then have "unat (p_va p) \<le> unat a" "unat a < unat (p_va p + p_memsz p)" using l by simp_all
  moreover from this(1) have "unat (p_va p) div 4096 \<le> unat a div 4096" by (rule div_le_mono)
  moreover have "4096 * (unat a div 4096) \<le> unat a" by simp
  ultimately show ?thesis unfolding segment_pages_def by simp
qed

lemma load_segments_other: "\<forall>p \<in> set ps. segment_loadable p \<and> \<not> in_segment p a \<Longrightarrow> load_segments e ps m a = m a"
proof (induction ps arbitrary: m)
  case (Cons p ps)
  then have "\<not> a - p_va p < p_filesz p" by (auto simp: segment_loadable_def in_segment_def)
  with Cons show ?case by (simp add: load_segments_def load_segment_byte)
qed (simp add: load_segments_def)

lemma load_segments_byte:
  assumes "claim_segments ps f = Inr f'" and "length (pages f) = 512" and "\<forall>p \<in> set ps. segment_loadable p"
    and "p \<in> set ps" and "in_segment p a"
  shows "load_segments e ps m a = (if a - p_va p < p_filesz p then e_bytes e (p_offset p + (a - p_va p)) else 0)"
  using assms
proof (induction ps arbitrary: f m)
  case (Cons q ps)
  from Cons.prems(1) obtain g where g: "claim_pages (round_down (p_va q) (ucast PAGESIZE)) (p_va q + p_memsz q) f = Inr g" "claim_segments ps g = Inr f'"
    by (auto split: sum.splits)
  have "unat (round_down (p_va q) (ucast PAGESIZE)) = 4096 * (unat (p_va q) div 4096)" by (simp only: round_page mult.commute)
  from claim_pages_result [OF g(1) this Cons.prems(2)]
  have c: "length (pages g) = 512" "\<forall>k \<in> segment_pages q. k < 512 \<and> pages g ! k = 1" by (auto simp: segment_pages_def)
  have n: "load_segments e (q # ps) m = load_segments e ps (load_segment e q m)" by (simp add: load_segments_def)
  show ?case
  proof (cases "p \<in> set ps")
    case True
    from Cons.IH [OF g(2) c(1) _ True Cons.prems(5)] Cons.prems(3) show ?thesis by (simp add: n)
  next
    case False
    then have q: "p = q" using Cons.prems(4) by simp
    have "\<not> in_segment r a" if r: "r \<in> set ps" for r
    proof
      assume "in_segment r a"
      with r Cons.prems(3) have "unat a div 4096 \<in> segment_pages r" by (simp add: in_segment_page)
      with r claim_segments_result [OF g(2) c(1)] have "pages g ! (unat a div 4096) = 0" by blast
      moreover have "unat a div 4096 \<in> segment_pages q" using Cons.prems(3,5) q by (simp add: in_segment_page)
      ultimately show False using c(2) by auto
    qed
    then have "load_segments e ps (load_segment e q m) a = load_segment e q m a" using Cons.prems(3) by (intro load_segments_other) simp
    then show ?thesis using Cons.prems(5) by (simp add: n load_segment_byte q)
  qed
qed simp

lemma process_setup_claims:
  assumes "process_setup M i name s = Some (Inr ((), s'))" and "mk_loader_named (images M) name = Some loader"
  shows "\<exists>f. claim_segments (visited loader) (frames s) = Inr f"
  using assms by (auto simp: process_setup_def Let_def andthen_return dest!: claim_result_ok)

text \<open>
  C25. What a successful \<open>process_setup\<close> guarantees, for a program whose loaded segments do not wrap around and whose file
  parts fit their memory parts: the process is runnable at the program's entry point with an empty stack, user-mode
  segments and interrupts enabled, in the kernel's page table; every byte of every loaded segment is the image's byte
  for that offset, or zero beyond the segment's file part, and no other byte of memory has changed; exactly the pages of
  its segments and its stack page, all unused before, are now in use once; every other process is untouched.
\<close>

theorem process_setup_ready:
  assumes "process_setup M i name s = Some (Inr ((), s'))" and "i < length (ptable s)" and "length (pages (frames s)) = 512"
    and "mk_loader_named (images M) name = Some loader" and "elf loader = Some e" and "\<forall>p \<in> set (visited loader). segment_loadable p"
  shows "(let p = ptable s' ! i; U = \<Union> (segment_pages ` set (visited loader)) \<union> {page_of (stack_addr (int i))}
     in pstate p = P_RUNNABLE \<and> pagetable p = kpt M \<and> reg_rip (regs p) = e_entry e \<and> reg_rsp (regs p) = stack_addr (int i) + PAGESIZE \<and>
        reg_rflags (regs p) = EFLAGS_IF \<and> reg_cs (regs p) AND 3 = 3 \<and> reg_ss (regs p) AND 3 = 3 \<and>
        (\<forall>j. j \<noteq> i \<longrightarrow> ptable s' ! j = ptable s ! j) \<and>
        (\<forall>k \<in> U. k < 512 \<and> pages (frames s) ! k = 0) \<and>
        (\<forall>k < 512. pages (frames s') ! k = (if k \<in> U then 1 else pages (frames s) ! k))) \<and>
     (\<forall>p \<in> set (visited loader). \<forall>k < p_memsz p.
        mem s' (p_va p + k) = (if k < p_filesz p then e_bytes e (p_offset p + k) else 0)) \<and>
     (\<forall>a. (\<forall>p \<in> set (visited loader). \<not> in_segment p a) \<longrightarrow> mem s' a = mem s a)"
proof -
  note r = process_setup_result [OF assms(1-5), unfolded Let_def]
  from process_setup_claims [OF assms(1,4)] obtain f where f: "claim_segments (visited loader) (frames s) = Inr f" ..
  have m: "mem s' = load_segments e (visited loader) (mem s)" using r by blast
  have "mem s' (p_va p + k) = (if k < p_filesz p then e_bytes e (p_offset p + k) else 0)" if "p \<in> set (visited loader)" "k < p_memsz p" for p k
    using load_segments_byte [OF f assms(3,6) that(1), of "p_va p + k"] that(2) by (simp add: m in_segment_def)
  moreover have "mem s' a = mem s a" if "\<forall>p \<in> set (visited loader). \<not> in_segment p a" for a
    using that assms(6) by (simp add: m load_segments_other)
  ultimately show ?thesis using r unfolding Let_def by blast
qed

lemma process_setup_succeeds:
  assumes "mk_loader_named (images M) name = Some loader"
    and "claim_segments (visited loader) (frames s) = Inr f" and "claim_page (stack_addr (int i)) f = Inr f'"
  shows "\<exists>s'. process_setup M i name s = Some (Inr ((), s'))"
  using assms by (simp add: process_setup_def claim_result_def Let_def split: option.split)

text \<open>The state before any process exists, and a machine whose images are all the same small program.\<close>

definition free_proc :: "nat \<Rightarrow> proc" where
  "free_proc i = \<lparr>pagetable = 0, pid = int i, pstate = P_FREE, regs = zero_regs\<rparr>"

definition empty_kernel :: kernel where
  "empty_kernel = \<lparr>ptable = map free_proc [0..<16], current = 0, ticks = 1, frames = boot_pages, mem = (\<lambda>_. 0), con = blank_console,
     klog = \<lparr>port_initialized = False, port_log = []\<rparr>, keyboard = \<lparr>modifiers = 0, last_escape = 0\<rparr>, reads = 0, eois = 0,
     panicking = False, mu_page = 0, mu_map = [], last_ticks = 0, showing = 0\<rparr>"

definition small_image :: elf_image where
  "small_image = \<lparr>e_magic = ELF_MAGIC, e_entry = 0x100000,
     e_programs = [\<lparr>p_type = ELF_PTYPE_LOAD, p_flags = 5, p_offset = 0x1000, p_va = 0x100000, p_pa = 0, p_filesz = 4, p_memsz = 8, p_align = 0\<rparr>],
     e_bytes = (\<lambda>_. 0x90)\<rparr>"

definition quiet_machine :: machine where
  "quiet_machine = \<lparr>lay = \<lparr>data_start = 0x50000, edata = 0x58000, kernel_end = 0x5A000\<rparr>, kpt = 0x52000, exc_entry = 0x40100,
     keys = (\<lambda>_. (0, 0)), images = (\<lambda>_. small_image), symbols = [], strtab = (\<lambda>_. []), rsp_rbp = (0x7F000, 0x7F000)\<rparr>"

theorem process_setup_ready_witness:
  "\<exists>s'. process_setup quiet_machine 1 ''allocator'' empty_kernel = Some (Inr ((), s')) \<and>
     reg_rip (regs (ptable s' ! 1)) = 0x100000 \<and> pages (frames s') ! 256 = 1 \<and>
     mem s' 0x100003 = 0x90 \<and> mem s' 0x100004 = 0 \<and> mem s' 0x100008 = mem empty_kernel 0x100008"
proof -
  let ?l = "\<lparr>elf = Some small_image, ph = 0, endph = 1\<rparr>"
  have l: "mk_loader_named (images quiet_machine) ''allocator'' = Some ?l"
    by (simp add: mk_loader_named_def program_number_def ramimage_names_def mk_loader_def loader_reset_def quiet_machine_def small_image_def
        loader_fix.simps header_at_def ELF_PTYPE_LOAD_def)
  have v: "visited ?l = e_programs small_image"
    by (simp add: visited.simps loader_next_def loader_fix.simps header_at_def small_image_def)
  obtain f where f: "claim_segments (visited ?l) (frames empty_kernel) = Inr f" "f = \<lparr>pages = (replicate 512 0)[256 := 1], next_alloc_pa = 0\<rparr>"
    by (simp only: v) (simp add: small_image_def claim_pages.simps claim_page_def page_of_def used_def empty_kernel_def boot_pages_def round_down_def page_consts)
  obtain f' where "claim_page (stack_addr (int 1)) f = Inr f'"
    by (simp add: f(2) claim_page_def page_of_def used_def page_consts stack_addr_def addr_consts PROC_SIZE_def)
  from process_setup_succeeds [OF l f(1) this] have "\<exists>s'. process_setup quiet_machine 1 ''allocator'' empty_kernel = Some (Inr ((), s'))" .
  then obtain s' where p: "process_setup quiet_machine 1 ''allocator'' empty_kernel = Some (Inr ((), s'))" by blast
  have k: "1 < length (ptable empty_kernel)" "length (pages (frames empty_kernel)) = 512" by (simp_all add: empty_kernel_def boot_pages_def)
  have "hd (e_programs small_image) \<in> set (visited ?l)" "256 \<in> segment_pages (hd (e_programs small_image))"
    by (simp_all only: v) (simp_all add: segment_pages_def small_image_def)
  then have "256 \<in> \<Union> (segment_pages ` set (visited ?l)) \<union> {page_of (stack_addr (int 1))}" by blast
  moreover have ok: "\<forall>p \<in> set (visited ?l). segment_loadable p" by (simp only: v) (simp add: small_image_def segment_loadable_def)
  moreover note r = process_setup_ready [OF p k l _ ok, of small_image, unfolded Let_def]
  ultimately have "pages (frames s') ! 256 = 1 \<and> reg_rip (regs (ptable s' ! 1)) = e_entry small_image" by simp
  moreover have b: "\<forall>p \<in> set (e_programs small_image). \<forall>k < p_memsz p.
      mem s' (p_va p + k) = (if k < p_filesz p then e_bytes small_image (p_offset p + k) else 0)"
    and o: "\<forall>a. (\<forall>p \<in> set (e_programs small_image). \<not> in_segment p a) \<longrightarrow> mem s' a = mem empty_kernel a"
    using r by (simp_all only: v) simp_all
  have "mem s' 0x100003 = 0x90" "mem s' 0x100004 = 0"
    using b [THEN bspec, of "hd (e_programs small_image)", THEN spec, of 3] b [THEN bspec, of "hd (e_programs small_image)", THEN spec, of 4]
    by (simp_all add: small_image_def)
  moreover have "mem s' 0x100008 = mem empty_kernel 0x100008"
    using o [THEN spec, of "0x100008"] by (simp add: small_image_def in_segment_def)
  ultimately show ?thesis using p by (auto simp: small_image_def)
qed

end
