(* ===== verification/Memviewer.thy ===== *)
theory Memviewer
  imports Kernel
begin

unbundle bit_operations_syntax

text \<open>
  The memory viewer of \<open>weensyos/k-memviewer.cc\<close>: \<open>memusage\<close> marks every physical page with the processes
  that can reach it, \<open>symbol_at\<close> chooses the cell that shows a page, and \<open>console_memviewer\<close> draws physical and
  virtual memory. The marks are an array of 1024 words in a page of their own, kept apart from the memory.
\<close>

section \<open>Marks\<close>

definition maxpa :: u64 where "maxpa = 1024 * PAGESIZE"
definition max_view_pa :: u64 where "max_view_pa = 512 * PAGESIZE"
definition max_view_va :: u64 where "max_view_va = 768 * PAGESIZE"

definition f_kernel :: u32 where "f_kernel = 1"
definition f_user :: u32 where "f_user = 2"

definition f_process :: "int \<Rightarrow> u32" where
  "f_process i = (if i \<ge> 30 then push_bit 31 2 else if i \<ge> 1 then push_bit (nat i) 2 else 0)"

definition mark :: "u64 \<Rightarrow> u32 \<Rightarrow> u32 list \<Rightarrow> u32 list" where
  "mark pa flags v = (if pa < maxpa then v[page_of pa := v ! page_of pa OR flags] else v)"

definition marked_pid :: "u32 \<Rightarrow> nat" where
  "marked_pid v = lsb (drop_bit 2 v)"

section \<open>Refreshing the marks\<close>

text \<open>Errors of the iterators; their messages are not modelled.\<close>

definition vm_stop :: "vm_error \<Rightarrow> outcome" where
  "vm_stop e = (case e of VmFault \<Rightarrow> Faulted | _ \<Rightarrow> Failing)"

text \<open>\<open>for (ptiter it(pt); it.active(); it.next()) mark(it.pa(), flags)\<close>\<close>

partial_function (option) mark_tables :: "memory \<Rightarrow> u32 \<Rightarrow> ptiter \<Rightarrow> u32 list \<Rightarrow> u32 list option" where
  "mark_tables m flags it v =
     (if pti_active it then Option.bind (pti_next m it) (\<lambda>it'. mark_tables m flags it' (mark (pti_pa m it) flags v))
      else Some v)"

text \<open>
  The loops over user-accessible pages: \<open>owner\<close> says whether a page is marked, and with what; other ranges are
  skipped.
\<close>

partial_function (option) mark_pages ::
    "memory \<Rightarrow> (u64 \<Rightarrow> u32 option) \<Rightarrow> vmiter \<Rightarrow> u32 list \<Rightarrow> (vm_error + u32 list) option" where
  "mark_pages m owner it v =
     (if vm_low it then
        case (if vm_user m it then owner (vm_pa m it) else None) of
          Some flags \<Rightarrow>
            (case next_va m it of Inl e \<Rightarrow> Some (Inl e) | Inr it' \<Rightarrow> mark_pages m owner it' (mark (vm_pa m it) flags v))
        | None \<Rightarrow>
            (case next_range m it of Inl e \<Rightarrow> Some (Inl e) | Inr it' \<Rightarrow> mark_pages m owner it' v)
      else Some (Inr v))"

definition mark_accessible :: "memory \<Rightarrow> (u64 \<Rightarrow> u32 option) \<Rightarrow> u64 \<Rightarrow> u32 list \<Rightarrow> (vm_error + u32 list) option" where
  "mark_accessible m owner tbl v =
     (case mk_vmiter m tbl 0 of Inl e \<Rightarrow> Some (Inl e) | Inr it \<Rightarrow> mark_pages m owner it v)"

definition has_own_table :: "machine \<Rightarrow> proc \<Rightarrow> bool" where
  "has_own_table M p = (pstate p \<noteq> P_FREE \<and> pagetable p \<noteq> 0 \<and> pagetable p \<noteq> kpt M)"

fun mark_processes :: "machine \<Rightarrow> memory \<Rightarrow> (nat \<times> proc) list \<Rightarrow> u32 list \<Rightarrow> (vm_error + u32 list) option" where
  "mark_processes M m [] v = Some (Inr v)"
| "mark_processes M m ((i, p) # ps) v =
     (if has_own_table M p then
        Option.bind (pti_go m (pagetable p) 0) (\<lambda>it.
        Option.bind (mark_tables m (f_kernel OR f_process (int i)) it v) (\<lambda>v.
        let v = mark (pagetable p) (f_kernel OR f_process (int i)) v
        in Option.bind (mark_accessible m (\<lambda>_. Some (f_user OR f_process (int i))) (pagetable p) v)
             (case_sum (\<lambda>e. Some (Inl e)) (\<lambda>v. mark_processes M m ps v))))
      else mark_processes M m ps v)"

text \<open>
  Without process page tables the owner of a page is computed from its address; the difference wraps around
  below \<open>PROC_START_ADDR\<close> and is cut to 32 bits. An address of physical memory indexes \<open>pages\<close> within bounds.
\<close>

definition owner_of :: "pagestate \<Rightarrow> u64 \<Rightarrow> u32 option" where
  "owner_of f pa =
     (if pa < MEMSIZE_PHYSICAL \<and> used f pa then
        let owner = (ucast ((pa - PROC_START_ADDR) div 0x40000) :: u32) in Some (f_user OR f_process (sint (owner + 1)))
      else None)"

definition any_own_table :: "machine \<Rightarrow> kernel \<Rightarrow> bool" where
  "any_own_table M s = (\<exists>p \<in> set (tl (ptable s)). has_own_table M p)"

text \<open>The marks computed from the page tables, before the viewer's own page is added.\<close>

definition compute_marks :: "machine \<Rightarrow> kernel \<Rightarrow> (vm_error + u32 list) option" where
  "compute_marks M s =
     Option.bind (pti_go (mem s) (kpt M) 0) (\<lambda>it.
     Option.bind (mark_tables (mem s) f_kernel it (replicate 1024 0)) (\<lambda>v.
     let v = mark (kpt M) f_kernel v
     in Option.bind (mark_processes M (mem s) (enumerate 1 (tl (ptable s))) v)
          (case_sum (\<lambda>e. Some (Inl e))
             (\<lambda>v. if any_own_table M s then Some (Inr v)
                   else mark_accessible (mem s) (owner_of (frames s)) (kpt M) v))))"

definition refresh :: "machine \<Rightarrow> kernel \<Rightarrow> unit result" where
  "refresh M s =
     andthen
       (if mu_page s = 0 then
          let (pa, f, m) = kalloc (lay M) PAGESIZE (frames s) (mem s);
              s = s\<lparr>frames := f, mem := m, mu_page := pa\<rparr>
          in k_assert M ''k-memviewer.cc'' 72 ''v_ != nullptr'' (pa \<noteq> 0) s
        else return () s)
       (\<lambda>_ s. Option.bind (compute_marks M s)
          (case_sum (\<lambda>e. stop (vm_stop e) s)
             (\<lambda>v. return () (s\<lparr>mu_map := (if any_own_table M s then mark (mu_page s) f_kernel v else v)\<rparr>))))"

section \<open>Symbols\<close>

definition CONSOLE_ADDR :: u64 where "CONSOLE_ADDR = 0xB8000"

definition page_names :: "u8 list" where
  "page_names = ascii ''K123456789ABCDEFGHIJKLMNOPQRST??''"

definition page_colors :: "u16 list" where
  "page_colors = [0xF, 0xC, 0xA, 0x9, 0xE]"

text \<open>A character with its colour.\<close>

definition glyph :: "char \<Rightarrow> u16 \<Rightarrow> u16" where
  "glyph c color = of_char c OR color"

text \<open>The cell for a page and the page-table error to report, if any.\<close>

definition symbol_for :: "layout \<Rightarrow> u32 list \<Rightarrow> u64 \<Rightarrow> u16 \<times> string option" where
  "symbol_for L mu pa =
     (let is_reserved = reserved_physical_address pa;
          is_kernel = (\<not> is_reserved \<and> \<not> allocatable_physical_address L pa)
      in if pa \<ge> maxpa then
           (if is_kernel then glyph (CHR ''K'') 0x4000 else if is_reserved then glyph (CHR ''?'') 0x4000 else glyph (CHR ''?'') 0xF000, None)
         else
           let v = mu ! page_of pa
           in if pa \<ge> CONSOLE_ADDR \<and> pa < CONSOLE_ADDR + PAGESIZE then (glyph (CHR ''C'') 0x0700, None)
              else if is_reserved \<and> v > f_kernel OR f_user then (glyph (CHR ''R'') 0x0C00, Some ''reserved page mapped for user'')
              else if is_reserved then (glyph (CHR ''R'') 0x0700, None)
              else if is_kernel \<and> v > f_kernel OR f_user then (glyph (CHR ''K'') 0xCD00, Some ''kernel data page mapped for user'')
              else if is_kernel then (glyph (CHR ''K'') 0x0D00, None)
              else if pa \<ge> MEMSIZE_PHYSICAL then (glyph (CHR '' '') 0x0700, None)
              else if v = 0 then (glyph (CHR ''.'') 0x0700, None)
              else if v = f_kernel then (glyph (CHR ''K'') 0x0D00, None)
              else if v = f_user then (glyph (CHR ''.'') 0x0700, None)
              else if v AND f_kernel \<noteq> 0 \<and> v AND f_user \<noteq> 0 then
                (glyph (CHR ''*'') 0xF400, Some ''kernel allocated page mapped for user'')
              else
                let i = marked_pid v;
                    ch = push_bit 8 (page_colors ! (i mod 5));
                    ch = (if v AND f_kernel \<noteq> 0 then ch OR 0x4000 else ch)
                in (if v > f_process (int i) OR f_kernel OR f_user then glyph (CHR ''S'') 0x0F00
                    else ch OR ucast (page_names ! i), None))"

definition page_error :: "u64 \<Rightarrow> string \<Rightarrow> int \<Rightarrow> kernel \<Rightarrow> unit result" where
  "page_error pa desc i s =
     (let fmt = (if i \<ge> 0 then ascii ''PAGE TABLE ERROR: %lx: %s (pid %d)'' @ [10] else ascii ''PAGE TABLE ERROR: %lx: %s'' @ [10]);
          args = [ALong pa, AStr (ascii desc), AInt (word_of_int i)]
      in andthen (k_error (CPOS 22 0) COLOR_ERROR fmt args s) (\<lambda>_ s. k_log fmt args s))"

definition symbol_at :: "machine \<Rightarrow> u64 \<Rightarrow> kernel \<Rightarrow> u16 result" where
  "symbol_at M pa s =
     (case symbol_for (lay M) (mu_map s) pa of
        (ch, None) \<Rightarrow> return ch s
      | (ch, Some desc) \<Rightarrow> andthen (page_error pa desc (int (marked_pid (mu_map s ! page_of pa))) s) (\<lambda>_ s. return ch s))"

section \<open>Drawing\<close>

definition set_cell :: "int \<Rightarrow> u16 \<Rightarrow> kernel \<Rightarrow> unit result" where
  "set_cell cpos ch s =
     (if 0 \<le> cpos \<and> cpos < 2000 then return () (s\<lparr>con := (con s)\<lparr>console := (console (con s))[nat cpos := ch]\<rparr>\<rparr>)
      else stop Faulted s)"

text \<open>Exchanging foreground and background.\<close>

definition swap_colors :: "u16 \<Rightarrow> u16" where
  "swap_colors ch = (let z = (ch AND 0x0F00) XOR drop_bit 4 (ch AND 0xF000) in ch XOR (z OR push_bit 4 z))"

text \<open>
  The label at the start of each row. \<open>it.va()\<close> is a \<open>long\<close> passed for \<open>%X\<close>, which takes its low half from the
  argument's slot.
\<close>

definition row_label :: "int \<Rightarrow> nat \<Rightarrow> u32 \<Rightarrow> kernel \<Rightarrow> unit result" where
  "row_label row pn addr s =
     (if pn mod 64 = 0 then k_print (CPOS (row + int (pn div 64)) 3) 0x0F00 (ascii ''0x%06X '') [AInt addr] s else return () s)"

partial_function (option) draw_virtual :: "machine \<Rightarrow> vmiter \<Rightarrow> kernel \<Rightarrow> unit result" where
  "draw_virtual M it s =
     (if cur_va it < max_view_va then
        let pn = unat (cur_va it div PAGESIZE)
        in andthen (row_label 11 pn (ucast (cur_va it)) s) (\<lambda>_ s.
           andthen
             (if \<not> vm_present (mem s) it then return (0x20 :: u16) s
              else andthen (symbol_at M (vm_pa (mem s) it) s) (\<lambda>ch s. return (if vm_user (mem s) it then swap_colors ch else ch) s))
             (\<lambda>ch s. andthen (set_cell (CPOS (11 + int (pn div 64)) (12 + int (pn mod 64))) ch s) (\<lambda>_ s.
              case advance (mem s) PAGESIZE it of Inl e \<Rightarrow> stop (vm_stop e) s | Inr it' \<Rightarrow> draw_virtual M it' s)))
      else return () s)"

definition console_memviewer_virtual :: "machine \<Rightarrow> proc \<Rightarrow> kernel \<Rightarrow> unit result" where
  "console_memviewer_virtual M p s =
     andthen (k_print (CPOS 10 26) 0x0F00 (ascii ''VIRTUAL ADDRESS SPACE FOR %d'' @ [10]) [AInt (word_of_int (pid p))] s) (\<lambda>_ s.
     case mk_vmiter (mem s) (pagetable p) 0 of Inl e \<Rightarrow> stop (vm_stop e) s | Inr it \<Rightarrow> draw_virtual M it s)"

fun draw_physical :: "machine \<Rightarrow> nat list \<Rightarrow> kernel \<Rightarrow> unit result" where
  "draw_physical M [] s = return () s"
| "draw_physical M (pn # pns) s =
     andthen (row_label 1 pn (push_bit 12 (word_of_nat pn)) s) (\<lambda>_ s.
     andthen (symbol_at M (word_of_nat pn * PAGESIZE) s) (\<lambda>ch s.
     andthen (set_cell (CPOS (1 + int (pn div 64)) (12 + int (pn mod 64))) ch s) (\<lambda>_ s. draw_physical M pns s)))"

definition console_memviewer :: "machine \<Rightarrow> nat option \<Rightarrow> kernel \<Rightarrow> unit result" where
  "console_memviewer M vmp s =
     andthen (k_assert M ''k-memviewer.cc'' 230 ''ptable[0].state == P_FREE'' (pstate (ptable s ! 0) = P_FREE) s) (\<lambda>_ s.
     andthen (refresh M s) (\<lambda>_ s.
     andthen (k_print (CPOS 0 32) 0x0F00 (ascii ''PHYSICAL MEMORY'' @ [10]) [] s) (\<lambda>_ s.
     andthen (draw_physical M [0..<512] s) (\<lambda>_ s.
       case vmp of
         Some i \<Rightarrow>
           if pagetable (ptable s ! i) \<noteq> 0 then console_memviewer_virtual M (ptable s ! i) s
           else k_print (CPOS 10 0) 0x0F00 (replicate 13 10) [] s
       | None \<Rightarrow> k_print (CPOS 10 0) 0x0F00 (replicate 13 10) [] s))))"

section \<open>What the symbols mean\<close>

lemma below_bits: "(\<And>n. bit w n \<Longrightarrow> n < k) \<Longrightarrow> unat (w :: 'a::len word) < 2 ^ k"
proof -
  assume "\<And>n. bit w n \<Longrightarrow> n < k"
  then have "take_bit k w = w" by (intro bit_word_eqI) (auto simp: bit_take_bit_iff)
  then have "take_bit k (unat w) = unat w" by (metis unsigned_take_bit_eq)
  then show ?thesis by (simp add: take_bit_nat_eq_self_iff)
qed

lemma ffs_nat_spec: "n \<noteq> 0 \<Longrightarrow> ffs_nat n \<noteq> 0 \<and> bit n (ffs_nat n - 1) \<and> (\<forall>j < ffs_nat n - 1. \<not> bit n j)"
proof (induction n rule: ffs_nat.induct)
  case (1 n)
  show ?case
  proof (cases "odd n")
    case True
    then show ?thesis using "1.prems" by (subst (1 2 3) ffs_nat.simps) (auto simp: bit_0)
  next
    case False
    with "1.prems" have h: "n div 2 \<noteq> 0" by (auto elim: evenE)
    from "1.IH" [OF "1.prems" False h] obtain k where k: "ffs_nat (n div 2) = Suc k" "bit (n div 2) k" "\<forall>j < k. \<not> bit (n div 2) j"
      by (cases "ffs_nat (n div 2)") auto
    have "ffs_nat n = Suc (Suc k)" using "1.prems" False k(1) by (subst ffs_nat.simps) simp
    moreover have "\<not> bit n j" if "j < Suc k" for j
      using that False k(3) by (cases j) (auto simp: bit_0 bit_Suc)
    ultimately show ?thesis using k(2) by (simp add: bit_Suc)
  qed
qed

text \<open>The processes a mark names.\<close>

definition owners :: "u32 \<Rightarrow> nat set" where
  "owners v = {i. 1 \<le> i \<and> bit v (Suc i)}"

lemma f_process_bits: "1 \<le> i \<Longrightarrow> i < 30 \<Longrightarrow> bit (f_process (int i)) n \<longleftrightarrow> n = Suc i"
proof -
  assume i: "1 \<le> i" "i < 30"
  have two: "bit (2 :: u32) m \<longleftrightarrow> m = 1" for m by (auto simp: bit_2_iff)
  have "f_process (int i) = push_bit i 2" using i by (simp only: f_process_def) simp
  then have "bit (f_process (int i)) n \<longleftrightarrow> n < 32 \<and> i \<le> n \<and> n - i = 1" by (simp only: bit_push_bit_iff two) auto
  then show ?thesis using i by auto
qed

lemma marked_pid_least:
  assumes "owners v \<noteq> {}"
  shows "marked_pid v \<in> owners v \<and> (\<forall>i \<in> owners v. marked_pid v \<le> i)"
proof -
  let ?n = "unat (drop_bit 2 v)"
  have b: "bit ?n j \<longleftrightarrow> bit v (Suc (Suc j))" for j
    by (auto simp: bit_unsigned_iff bit_drop_bit_eq dest: bit_imp_le_length)
  from assms obtain i where i: "1 \<le> i" "bit v (Suc i)" by (auto simp: owners_def)
  then have "bit ?n (i - 1)" by (simp add: b)
  then have "?n \<noteq> 0" by (metis bit_0_eq bot_apply bot_bool_def)
  from ffs_nat_spec [OF this] obtain k where k: "marked_pid v = Suc k" "bit v (Suc (Suc k))" "\<forall>j < k. \<not> bit v (Suc (Suc j))"
    unfolding marked_pid_def lsb_def b by (cases "ffs_nat ?n") auto
  have "Suc k \<le> i" if "1 \<le> i" "bit v (Suc i)" for i using that k(3) by (cases i) (auto simp: not_less [symmetric])
  with k show ?thesis by (auto simp: owners_def)
qed

lemma above_mark:
  assumes i: "1 \<le> i" "i < 30" and v: "bit v (Suc i)" "\<And>j. 1 \<le> j \<Longrightarrow> j < i \<Longrightarrow> \<not> bit v (Suc j)"
  shows "v > f_process (int i) OR f_kernel OR f_user \<longleftrightarrow> (\<exists>j > Suc i. bit v j)"
proof -
  let ?w = "f_process (int i) OR f_kernel OR f_user"
  have "f_kernel OR f_user = (mask 2 :: u32)" by (simp add: f_kernel_def f_user_def mask_eq_exp_minus_1)
  then have "?w = f_process (int i) OR mask 2" by (simp only: or.assoc)
  then have w: "bit ?w n \<longleftrightarrow> n < 2 \<or> n = Suc i" for n
    using i(2) by (simp only: bit_or_iff f_process_bits [OF i] bit_mask_iff) auto
  show ?thesis
  proof
    assume "\<exists>j > Suc i. bit v j"
    then obtain j where j: "Suc i < j" "bit v j" by blast
    have "\<not> unat v < 2 ^ Suc (Suc i)" using bit_below [OF j(2), of "Suc (Suc i)"] j(1) by auto
    moreover have "unat ?w < 2 ^ Suc (Suc i)" using w i(1) by (intro below_bits) auto
    ultimately show "?w < v" by (simp add: word_less_nat_alt)
  next
    assume l: "?w < v"
    show "\<exists>j > Suc i. bit v j"
    proof (rule ccontr)
      assume n: "\<not> (\<exists>j > Suc i. bit v j)"
      have "bit ?w k" if "bit v k" for k
      proof -
        have "k \<le> Suc i" using n that by (auto simp: not_less)
        moreover have "\<not> (1 \<le> k - 1 \<and> k - 1 < i)" using v(2) [of "k - 1"] \<open>bit v k\<close> by (cases k) auto
        then have "k < 2 \<or> k = Suc i" if "k \<le> Suc i" using that by linarith
        ultimately show ?thesis using w by blast
      qed
      then have "v AND ?w = v" by (intro bit_word_eqI) (auto simp: bit_and_iff)
      then have "v \<le> ?w" using word_and_le1 [of v ?w] by simp
      with l show False by simp
    qed
  qed
qed

lemma mark_flag_bits: "v AND f_kernel \<noteq> 0 \<longleftrightarrow> bit v 0" "v AND f_user \<noteq> 0 \<longleftrightarrow> bit v 1"
proof -
  have b: "v AND push_bit n 1 \<noteq> 0 \<longleftrightarrow> bit v n" for n
    by (metis and_exp_eq_0_iff_not_bit push_bit_eq_mult mult_1 mult.commute)
  show "v AND f_kernel \<noteq> 0 \<longleftrightarrow> bit v 0" using b [of 0] by (simp add: f_kernel_def)
  show "v AND f_user \<noteq> 0 \<longleftrightarrow> bit v 1" using b [of 1] by (simp add: f_user_def)
qed

lemma no_owners:
  assumes "owners v = {}"
  shows "v = of_bool (bit v 0) OR push_bit 1 (of_bool (bit v 1))"
proof (rule bit_word_eqI)
  fix n :: nat assume "n < LENGTH(32)"
  have "\<not> bit v n" if "2 \<le> n" using assms that by (cases n) (auto simp: owners_def)
  moreover have "n = 0 \<or> n = 1 \<or> 2 \<le> n" by arith
  ultimately show "bit v n = bit (of_bool (bit v 0) OR push_bit 1 (of_bool (bit v 1)) :: u32) n"
    by (auto simp: bit_or_iff bit_push_bit_iff bit_of_bool_iff bit_2_iff)
qed

lemma allocatable_kind:
  "allocatable_physical_address L pa \<Longrightarrow> \<not> reserved_physical_address pa \<and> pa < maxpa \<and> pa < MEMSIZE_PHYSICAL \<and>
     \<not> (pa \<ge> CONSOLE_ADDR \<and> pa < CONSOLE_ADDR + PAGESIZE)"
proof -
  assume a: "allocatable_physical_address L pa"
  then have r: "\<not> reserved_physical_address pa" "pa < MEMSIZE_PHYSICAL" by (simp_all add: allocatable_physical_address_def)
  then have "unat pa < 0xA0000 \<or> 0x100000 \<le> unat pa"
    by (simp add: reserved_physical_address_def IOPHYSMEM_def EXTPHYSMEM_def word_less_nat_alt word_le_nat_alt) linarith
  moreover have "pa < maxpa" using allocatable_bounds [OF a] by (simp add: maxpa_def page_consts word_less_nat_alt)
  ultimately show ?thesis using r by (auto simp: CONSOLE_ADDR_def page_consts word_less_nat_alt word_le_nat_alt)
qed

lemma symbol_allocatable:
  assumes "allocatable_physical_address L pa" and "v = mu ! page_of pa"
  shows "symbol_for L mu pa =
    (if v = 0 then (glyph (CHR ''.'') 0x0700, None)
     else if v = f_kernel then (glyph (CHR ''K'') 0x0D00, None)
     else if v = f_user then (glyph (CHR ''.'') 0x0700, None)
     else if v AND f_kernel \<noteq> 0 \<and> v AND f_user \<noteq> 0 then (glyph (CHR ''*'') 0xF400, Some ''kernel allocated page mapped for user'')
     else
       let i = marked_pid v; ch = push_bit 8 (page_colors ! (i mod 5)); ch = (if v AND f_kernel \<noteq> 0 then ch OR 0x4000 else ch)
       in (if v > f_process (int i) OR f_kernel OR f_user then glyph (CHR ''S'') 0x0F00 else ch OR ucast (page_names ! i), None))"
proof -
  note k = allocatable_kind [OF assms(1)]
  then have "\<not> reserved_physical_address pa" "\<not> pa \<ge> maxpa" "\<not> (pa \<ge> CONSOLE_ADDR \<and> pa < CONSOLE_ADDR + PAGESIZE)" "\<not> pa \<ge> MEMSIZE_PHYSICAL"
    by (simp_all add: not_le)
  then show ?thesis unfolding symbol_for_def Let_def assms(2) using assms(1) by (simp only: if_False simp_thms)
qed

text \<open>
  What the memory viewer shows for a page of ordinary memory. A page that is marked both for the kernel and
  for user code is shown as an error; otherwise a page no process reaches is shown as kernel page or as
  free; a page exactly one process reaches shows that process's letter, in the process's colour, on red if the
  kernel owns it; and a page several processes reach is shown as shared. The tables of letters and colours are
  indexed within bounds.
\<close>

theorem symbol_shows_owners:
  assumes "allocatable_physical_address L pa" and "v = mu ! page_of pa" and "\<not> bit v 31"
  shows "symbol_for L mu pa =
    (if bit v 0 \<and> bit v 1 then (glyph (CHR ''*'') 0xF400, Some ''kernel allocated page mapped for user'')
     else if owners v = {} then (if bit v 0 then glyph (CHR ''K'') 0x0D00 else glyph (CHR ''.'') 0x0700, None)
     else if \<exists>i. owners v = {i} then
       (let i = Min (owners v) in push_bit 8 (page_colors ! (i mod 5)) OR (if bit v 0 then 0x4000 else 0) OR ucast (page_names ! i), None)
     else (glyph (CHR ''S'') 0x0F00, None)) \<and>
    (\<forall>i \<in> owners v. i < length page_names \<and> i mod 5 < length page_colors)"
proof -
  have fin: "finite (owners v)" by (rule finite_subset [of _ "{..32}"]) (auto simp: owners_def dest: bit_imp_le_length)
  have lt: "i < 30" if "i \<in> owners v" for i
    using that assms(3) bit_imp_le_length [of v "Suc i"] by (cases "i = 30") (auto simp: owners_def)
  have names: "length page_names = 32" "length page_colors = 5" by (simp_all add: page_names_def page_colors_def ascii_def)
  have "symbol_for L mu pa =
    (if bit v 0 \<and> bit v 1 then (glyph (CHR ''*'') 0xF400, Some ''kernel allocated page mapped for user'')
     else if owners v = {} then (if bit v 0 then glyph (CHR ''K'') 0x0D00 else glyph (CHR ''.'') 0x0700, None)
     else if \<exists>i. owners v = {i} then
       (let i = Min (owners v) in push_bit 8 (page_colors ! (i mod 5)) OR (if bit v 0 then 0x4000 else 0) OR ucast (page_names ! i), None)
     else (glyph (CHR ''S'') 0x0F00, None))"
  proof (cases "owners v = {}")
    case True
    from no_owners [OF True] show ?thesis
      unfolding symbol_allocatable [OF assms(1,2)] mark_flag_bits using True
      by (cases "bit v 0"; cases "bit v 1") (auto simp: f_kernel_def f_user_def)
  next
    case False
    define i where "i = marked_pid v"
    from marked_pid_least [OF False] have i: "i \<in> owners v" "\<forall>j \<in> owners v. i \<le> j" by (auto simp: i_def)
    have i1: "1 \<le> i" "i < 30" "bit v (Suc i)" using i(1) lt by (auto simp: owners_def)
    have m: "Min (owners v) = i" using i fin by (intro Min_eqI) auto
    have "\<not> bit v (Suc j)" if "1 \<le> j" "j < i" for j using i(2) that by (force simp: owners_def)
    from above_mark [OF i1 this] have "v > f_process (int i) OR f_kernel OR f_user \<longleftrightarrow> (\<exists>j > Suc i. bit v j)" .
    also have "\<dots> \<longleftrightarrow> (\<exists>j \<in> owners v. j \<noteq> i)"
    proof
      assume "\<exists>j > Suc i. bit v j"
      then obtain j where "Suc i < Suc j" "bit v (Suc j)" by (metis Suc_lessE)
      then show "\<exists>j \<in> owners v. j \<noteq> i" using i1(1) by (intro bexI [of _ j]) (auto simp: owners_def)
    next
      assume "\<exists>j \<in> owners v. j \<noteq> i"
      then show "\<exists>j > Suc i. bit v j" using i(2) by (metis (lifting) CollectD Suc_mono le_neq_implies_less owners_def)
    qed
    also have "\<dots> \<longleftrightarrow> \<not> (\<exists>j. owners v = {j})" using i(1) by auto
    finally have s: "v > f_process (int i) OR f_kernel OR f_user \<longleftrightarrow> \<not> (\<exists>j. owners v = {j})" .
    have "v \<noteq> 0" "v \<noteq> f_kernel" "v \<noteq> f_user" using i1 by (auto simp: f_kernel_def f_user_def bit_1_iff bit_2_iff)
    then show ?thesis using False m s
      unfolding symbol_allocatable [OF assms(1,2)] mark_flag_bits by (simp add: Let_def or.assoc flip: i_def)
  qed
  moreover have "i < length page_names \<and> i mod 5 < length page_colors" if "i \<in> owners v" for i using lt [OF that] names by simp
  ultimately show ?thesis by blast
qed

theorem symbol_shows_owners_witness:
  "symbol_for \<lparr>data_start = 0, edata = 0, kernel_end = 0x5A000\<rparr> ((replicate 1024 0)[256 := 10]) 0x100000 = (0x0A32, None)"
proof -
  let ?L = "\<lparr>data_start = 0, edata = 0, kernel_end = 0x5A000\<rparr>" and ?mu = "(replicate 1024 0)[256 := 10 :: u32]"
  have a: "allocatable_physical_address ?L 0x100000"
    by (simp add: allocatable_physical_address_def reserved_physical_address_def addr_consts page_consts round_up_def round_down_def)
  have v: "10 = ?mu ! page_of 0x100000" by (simp add: page_of_def page_consts)
  have ten: "(10 :: u32) = push_bit 1 1 OR push_bit 3 1" by simp
  have b: "bit (10 :: u32) n \<longleftrightarrow> n = 1 \<or> n = 3" for n
    unfolding ten by (simp only: bit_or_iff bit_push_bit_iff bit_1_iff) auto
  have ow: "owners 10 = {2}" unfolding owners_def b by auto
  have nb: "\<not> bit (10 :: u32) 31" "\<not> bit (10 :: u32) 0" by (simp_all only: b) simp_all
  have o: "owners 10 \<noteq> {}" "\<exists>i. owners 10 = {i}" "Min (owners 10) = 2" by (simp_all only: ow) simp_all
  have g: "push_bit 8 (page_colors ! (2 mod 5)) OR 0 OR ucast (page_names ! 2) = 0x0A32"
    by (simp add: page_colors_def page_names_def ascii_def)
  from symbol_shows_owners [OF a v nb(1)] show ?thesis by (simp only: nb(2) o Let_def g if_False if_True simp_thms)
qed

end
