(* ===== verification/Sched.thy ===== *)
theory Sched
  imports Memviewer
begin

unbundle bit_operations_syntax

text \<open>
  The control flow of \<open>weensyos/kernel.cc\<close>: \<open>memshow\<close>, \<open>run\<close>, \<open>schedule\<close>, the system calls, the exception handler
  and \<open>kernel\<close> itself. A handler that returns to user mode ends in \<open>Resumed\<close>; a scheduler that finds
  nothing to run spins forever unless the keyboard ends it.
\<close>

section \<open>Showing memory\<close>

text \<open>The search of \<open>memshow\<close>: the process found, if any, and the final value of \<open>showing\<close>.\<close>

fun find_shown :: "(nat \<Rightarrow> bool) \<Rightarrow> nat \<Rightarrow> nat \<Rightarrow> nat option \<times> nat" where
  "find_shown ok 0 i = (None, i)"
| "find_shown ok (Suc n) i = (if ok i then (Some i, i) else find_shown ok n ((i + 1) mod NPROC))"

definition switch_shown :: "kernel \<Rightarrow> kernel" where
  "switch_shown s =
     (if last_ticks s = 0 \<or> ticks s - ucast (last_ticks s) \<ge> HZ div 2
      then s\<lparr>last_ticks := ucast (ticks s), showing := (showing s + 1) mod NPROC\<rparr> else s)"

definition memshow :: "machine \<Rightarrow> kernel \<Rightarrow> unit result" where
  "memshow M s =
     (let s = switch_shown s;
          (p, i) = find_shown (\<lambda>i. pstate (ptable s ! i) \<noteq> P_FREE \<and> pagetable (ptable s ! i) \<noteq> 0) NPROC (showing s)
      in console_memviewer M p (s\<lparr>showing := i\<rparr>))"

section \<open>Running and scheduling\<close>

text \<open>\<open>check_pagetable\<close> on a process's page table; the failed assertions differ only in their message.\<close>

definition k_check_pagetable :: "machine \<Rightarrow> u64 \<Rightarrow> kernel \<Rightarrow> unit result" where
  "k_check_pagetable M tbl s =
     (case check_pagetable (exc_entry M) (kpt M) (mem s) tbl of
        Inr _ \<Rightarrow> return () s | Inl e \<Rightarrow> stop (vm_stop e) s)"

text \<open>\<open>exception_return\<close> (assembly) resumes the process.\<close>

definition run :: "machine \<Rightarrow> nat \<Rightarrow> kernel \<Rightarrow> 'a result" where
  "run M i s =
     andthen (k_assert M ''kernel.cc'' 406 ''p->state == P_RUNNABLE'' (pstate (ptable s ! i) = P_RUNNABLE) s) (\<lambda>_ s.
     let s = s\<lparr>current := i\<rparr>
     in andthen (k_check_pagetable M (pagetable (ptable s ! i)) s) (\<lambda>_ s. stop (Resumed i) s))"

partial_function (option) schedule_loop :: "machine \<Rightarrow> u32 \<Rightarrow> nat \<Rightarrow> kernel \<Rightarrow> unit result" where
  "schedule_loop M spins i s =
     (let i = (i + 1) mod NPROC
      in if pstate (ptable s ! i) = P_RUNNABLE then run M i s
         else andthen (k_check_keyboard M s) (\<lambda>_ s.
              andthen (if spins mod 4096 = 0 then andthen (memshow M s) (\<lambda>_ s. k_log (ascii ''%u'' @ [10]) [AInt spins] s) else return () s)
                (\<lambda>_ s. schedule_loop M (spins + 1) i s)))"

text \<open>\<open>pid\<close> starts from \<open>current->pid\<close>; slot \<open>i\<close> of the table holds process \<open>i\<close>.\<close>

definition schedule :: "machine \<Rightarrow> kernel \<Rightarrow> unit result" where
  "schedule M s = schedule_loop M 1 (nat (pid (ptable s ! current s))) s"

section \<open>System calls\<close>

definition SYSCALL_GETPID :: u64 where "SYSCALL_GETPID = 1"
definition SYSCALL_YIELD :: u64 where "SYSCALL_YIELD = 2"
definition SYSCALL_PANIC :: u64 where "SYSCALL_PANIC = 3"
definition SYSCALL_PAGE_ALLOC :: u64 where "SYSCALL_PAGE_ALLOC = 4"
definition SYSCALL_FORK :: u64 where "SYSCALL_FORK = 5"
definition SYSCALL_EXIT :: u64 where "SYSCALL_EXIT = 6"

lemmas syscall_numbers = SYSCALL_GETPID_def SYSCALL_YIELD_def SYSCALL_PANIC_def SYSCALL_PAGE_ALLOC_def SYSCALL_FORK_def SYSCALL_EXIT_def

text \<open>As in the sources, the page is the one at the same physical address.\<close>

definition syscall_page_alloc :: "machine \<Rightarrow> u64 \<Rightarrow> kernel \<Rightarrow> u64 result" where
  "syscall_page_alloc M addr s =
     andthen (claim_result M 351 ''!pages[addr / PAGESIZE].used()'' (claim_page addr (frames s)) s) (\<lambda>_ s.
       return 0 (s\<lparr>mem := snd (memset addr 0 PAGESIZE (mem s))\<rparr>))"

definition unexpected_syscall :: "u64 \<Rightarrow> kernel \<Rightarrow> 'a result" where
  "unexpected_syscall n s = panic (Some (ascii ''Unexpected system call %ld!'' @ [10], [ALong n])) s"

definition syscall_fork :: "kernel \<Rightarrow> u64 result" where
  "syscall_fork s = unexpected_syscall SYSCALL_FORK s"

definition syscall_exit :: "kernel \<Rightarrow> unit result" where
  "syscall_exit s = unexpected_syscall SYSCALL_EXIT s"

definition show_cursor :: "kernel \<Rightarrow> kernel" where
  "show_cursor s = s\<lparr>con := console_show_cursor (cursorpos (con s)) (con s)\<rparr>"

definition syscall :: "machine \<Rightarrow> regstate \<Rightarrow> kernel \<Rightarrow> u64 result" where
  "syscall M r s =
     (let s = update_proc (current s) (\<lambda>p. p\<lparr>regs := r\<rparr>) s; s = show_cursor s
      in andthen (memshow M s) (\<lambda>_ s.
         andthen (k_check_keyboard M s) (\<lambda>_ s.
           if reg_rax r = SYSCALL_PANIC then panic None s
           else if reg_rax r = SYSCALL_GETPID then return (word_of_int (pid (ptable s ! current s))) s
           else if reg_rax r = SYSCALL_YIELD then
             andthen (schedule M (update_proc (current s) (\<lambda>p. p\<lparr>regs := (regs p)\<lparr>reg_rax := 0\<rparr>\<rparr>) s)) (\<lambda>_ s. return 0 s)
           else if reg_rax r = SYSCALL_PAGE_ALLOC then syscall_page_alloc M (reg_rdi (regs (ptable s ! current s))) s
           else if reg_rax r = SYSCALL_FORK then syscall_fork s
           else if reg_rax r = SYSCALL_EXIT then andthen (syscall_exit s) (\<lambda>_ s. andthen (schedule M s) (\<lambda>_ s. return 0 s))
           else unexpected_syscall (reg_rax r) s)))"

section \<open>Exceptions\<close>

definition INT_IRQ :: u32 where "INT_IRQ = 32"
definition IRQ_TIMER :: u32 where "IRQ_TIMER = 0"
definition INT_PF :: u32 where "INT_PF = 14"
definition PFERR_PRESENT :: u64 where "PFERR_PRESENT = 0x1"
definition PFERR_WRITE :: u64 where "PFERR_WRITE = 0x2"
definition PFERR_USER :: u64 where "PFERR_USER = 0x4"

lemmas int_numbers = INT_IRQ_def IRQ_TIMER_def INT_PF_def PFERR_PRESENT_def PFERR_WRITE_def PFERR_USER_def

text \<open>\<open>addr\<close> is the value of the \<open>cr2\<close> register, the faulting address.\<close>

definition page_fault :: "machine \<Rightarrow> u64 \<Rightarrow> regstate \<Rightarrow> kernel \<Rightarrow> unit result" where
  "page_fault M addr r s =
     (let operation = (if reg_errcode r AND PFERR_WRITE \<noteq> 0 then ''write'' else ''read'');
          problem = (if reg_errcode r AND PFERR_PRESENT \<noteq> 0 then ''protection problem'' else ''missing page'')
      in if reg_errcode r AND PFERR_USER = 0 then
           panic (Some (ascii ''Kernel page fault for %p (%s %s, rip=%p)!'' @ [10],
                        [APtr addr, AStr (ascii operation), AStr (ascii problem), APtr (reg_rip r)])) s
         else
           andthen (k_print (CPOS 24 0) 0x0C00 (ascii ''Process %d page fault for %p (%s %s, rip=%p)!'' @ [10])
                      [AInt (word_of_int (pid (ptable s ! current s))), APtr addr, AStr (ascii operation), AStr (ascii problem), APtr (reg_rip r)] s)
             (\<lambda>_ s. return () (update_proc (current s) (\<lambda>p. p\<lparr>pstate := P_BROKEN\<rparr>) s)))"

definition resume_or_schedule :: "machine \<Rightarrow> kernel \<Rightarrow> unit result" where
  "resume_or_schedule M s =
     (if pstate (ptable s ! current s) = P_RUNNABLE then run M (current s) s else schedule M s)"

text \<open>The \<open>switch\<close> of \<open>exception\<close> and the return to the current process.\<close>

definition dispatch :: "machine \<Rightarrow> u64 \<Rightarrow> regstate \<Rightarrow> kernel \<Rightarrow> unit result" where
  "dispatch M addr r s =
     andthen
       (if reg_intno r = INT_IRQ + IRQ_TIMER then schedule M (s\<lparr>ticks := ticks s + 1, eois := eois s + 1\<rparr>)
        else if reg_intno r = INT_PF then page_fault M addr r s
        else panic (Some (ascii ''Unexpected exception %d!'' @ [10], [AInt (reg_intno r)])) s)
       (\<lambda>_ s. resume_or_schedule M s)"

definition exception :: "machine \<Rightarrow> u64 \<Rightarrow> regstate \<Rightarrow> kernel \<Rightarrow> unit result" where
  "exception M addr r s =
     (let s = update_proc (current s) (\<lambda>p. p\<lparr>regs := r\<rparr>) s; s = show_cursor s
      in andthen (if reg_intno r \<noteq> INT_PF \<or> reg_errcode r AND PFERR_USER \<noteq> 0 then memshow M s else return () s) (\<lambda>_ s.
         andthen (k_check_keyboard M s) (\<lambda>_ s.
         dispatch M addr r s)))"

section \<open>Starting\<close>

text \<open>
  \<open>init_hardware\<close> as far as the kernel's own state goes: its memory, then the console position; the processor and
  interrupt controller set-up is device programming.
\<close>

definition init_hardware :: "machine \<Rightarrow> kernel \<Rightarrow> unit result" where
  "init_hardware M s =
     Option.bind (init_kernel_memory (lay M) (kpt M) (frames s) (mem s))
       (case_sum (\<lambda>e. stop (vm_stop e) s)
          (\<lambda>(f, m). return () (set_cursor (3 * CONSOLE_COLUMNS) (s\<lparr>frames := f, mem := m\<rparr>))))"

definition init_ptable :: "kernel \<Rightarrow> kernel" where
  "init_ptable s = s\<lparr>ptable := map (\<lambda>(i, p). p\<lparr>pid := int i, pstate := P_FREE\<rparr>) (enumerate 0 (ptable s))\<rparr>"

fun setup_all :: "machine \<Rightarrow> (nat \<times> string) list \<Rightarrow> kernel \<Rightarrow> unit result" where
  "setup_all M [] s = return () s"
| "setup_all M ((i, name) # ps) s = andthen (process_setup M i name s) (\<lambda>_ s. setup_all M ps s)"

definition default_programs :: "(nat \<times> string) list" where
  "default_programs = [(1, ''allocator''), (2, ''allocator2''), (3, ''allocator3''), (4, ''allocator4'')]"

definition kernel_start :: "machine \<Rightarrow> string option \<Rightarrow> kernel \<Rightarrow> unit result" where
  "kernel_start M command s =
     andthen (init_hardware M s) (\<lambda>_ s.
     andthen (k_log (ascii ''Starting WeensyOS'' @ [10]) [] s) (\<lambda>_ s.
     let s = s\<lparr>ticks := 1, con := console_clear (con s)\<rparr>
     in Option.bind (map_identity (lay M) True (kpt M) (frames s) (mem s))
          (case_sum (\<lambda>e. stop (vm_stop e) s)
             (\<lambda>(f, m).
               let s = init_ptable (s\<lparr>frames := f, mem := m\<rparr>)
               in case (case command of None \<Rightarrow> Some False | Some c \<Rightarrow> map_option loader_present (mk_loader_named (images M) c)) of
                    None \<Rightarrow> assert_fail M ''k-hardware.cc'' 920 ''elf_->e_magic == ELF_MAGIC'' s
                  | Some found \<Rightarrow>
                      andthen (setup_all M (if found then [(1, the command)] else default_programs) s) (\<lambda>_ s. run M 1 s)))))"

section \<open>The scheduler finds the next runnable process\<close>

definition keyboard_quiet :: "machine \<Rightarrow> bool" where
  "keyboard_quiet M = (\<forall>n. fst (keys M n) AND KEYBOARD_STATUS_READY = 0)"

definition table_ok :: "kernel \<Rightarrow> bool" where
  "table_ok s = (length (ptable s) = NPROC \<and> (\<forall>i < NPROC. pid (ptable s ! i) = int i) \<and> current s < NPROC)"

lemma quiet_check: "keyboard_quiet M \<Longrightarrow> k_check_keyboard M s = return (- 1) (s\<lparr>reads := reads s + 1\<rparr>)"
  by (simp add: k_check_keyboard_def check_keyboard_def keyboard_readc_def keyboard_quiet_def)

lemma schedule_loop_finds:
  assumes "keyboard_quiet M" and "\<And>d. d < k \<Longrightarrow> pstate (ptable s ! ((i + 1 + d) mod NPROC)) \<noteq> P_RUNNABLE"
    and "pstate (ptable s ! ((i + 1 + k) mod NPROC)) = P_RUNNABLE" and "0 < n" and "n + k < 4096"
  shows "schedule_loop M (word_of_nat n) i s = run M ((i + 1 + k) mod NPROC) (s\<lparr>reads := reads s + k\<rparr>)"
  using assms(2-)
proof (induction k arbitrary: n i s)
  case 0
  then show ?case by (subst schedule_loop.simps) simp
next
  case (Suc k)
  have n: "(word_of_nat n :: u32) mod 4096 \<noteq> 0"
  proof -
    have "unat (word_of_nat n :: u32) = n" using Suc.prems(4) by (intro unat_of_nat_small) simp
    then have "unat ((word_of_nat n :: u32) mod 4096) = n" using Suc.prems(4) by (simp add: unat_mod)
    then have "unat ((word_of_nat n :: u32) mod 4096) \<noteq> 0" using Suc.prems(3) by linarith
    then show ?thesis by (metis unsigned_0)
  qed
  let ?s = "s\<lparr>reads := reads s + 1\<rparr>"
  have f: "pstate (ptable s ! ((i + 1) mod NPROC)) \<noteq> P_RUNNABLE" using Suc.prems(1) [of 0] by simp
  have sh: "((i + 1) mod NPROC + 1 + d) mod NPROC = (i + 1 + Suc d) mod NPROC" for d
    using mod_add_left_eq [of "i + 1" NPROC "1 + d"] by (simp only: add.assoc) simp
  have "schedule_loop M (word_of_nat n) i s = schedule_loop M (word_of_nat (Suc n)) ((i + 1) mod NPROC) ?s"
    using f n by (subst schedule_loop.simps) (simp add: quiet_check [OF assms(1)] Let_def add.commute)
  also have "\<dots> = run M (((i + 1) mod NPROC + 1 + k) mod NPROC) (?s\<lparr>reads := reads ?s + k\<rparr>)"
  proof (rule Suc.IH)
    show "pstate (ptable ?s ! (((i + 1) mod NPROC + 1 + d) mod NPROC)) \<noteq> P_RUNNABLE" if "d < k" for d
      unfolding sh using Suc.prems(1) [of "Suc d"] that by simp
    show "pstate (ptable ?s ! (((i + 1) mod NPROC + 1 + k) mod NPROC)) = P_RUNNABLE" unfolding sh using Suc.prems(2) by simp
  qed (use Suc.prems in simp_all)
  also have "?s\<lparr>reads := reads ?s + k\<rparr> = s\<lparr>reads := reads s + Suc k\<rparr>" by simp
  finally show ?case by (simp only: sh)
qed

lemma schedule_finds:
  assumes "table_ok s" and "keyboard_quiet M" and "k < NPROC"
    and "pstate (ptable s ! ((current s + 1 + k) mod NPROC)) = P_RUNNABLE"
    and "\<And>d. d < k \<Longrightarrow> pstate (ptable s ! ((current s + 1 + d) mod NPROC)) \<noteq> P_RUNNABLE"
    and "check_pagetable (exc_entry M) (kpt M) (mem s) (pagetable (ptable s ! ((current s + 1 + k) mod NPROC))) = Inr ()"
  shows "schedule M s =
    Some (Inl (Resumed ((current s + 1 + k) mod NPROC), s\<lparr>current := (current s + 1 + k) mod NPROC, reads := reads s + k\<rparr>))"
proof -
  let ?j = "(current s + 1 + k) mod NPROC"
  have "nat (pid (ptable s ! current s)) = current s" using assms(1) by (simp add: table_ok_def)
  then have "schedule M s = schedule_loop M (word_of_nat 1) (current s) s" by (simp add: schedule_def)
  also have "\<dots> = run M ?j (s\<lparr>reads := reads s + k\<rparr>)"
    using assms by (intro schedule_loop_finds) (auto simp: NPROC_def)
  also have "\<dots> = Some (Inl (Resumed ?j, s\<lparr>current := ?j, reads := reads s + k\<rparr>))"
    using assms(4,6) by (simp add: run_def k_assert_def k_check_pagetable_def)
  finally show ?thesis .
qed

text \<open>
  A kernel whose processes 1 (which runs) and 3 are runnable, both with the kernel's page table, and memory in which
  this table is set up.
\<close>

definition two_procs :: "memory \<Rightarrow> kernel" where
  "two_procs m =
     (let run = \<lambda>i. (free_proc i)\<lparr>pstate := P_RUNNABLE, pagetable := kpt quiet_machine\<rparr>
      in empty_kernel\<lparr>ptable := (map free_proc [0..<16])[1 := run 1, 3 := run 3], current := 1, mem := m\<rparr>)"

lemma quiet_pagetable: "\<exists>m. check_pagetable (exc_entry quiet_machine) (kpt quiet_machine) m (kpt quiet_machine) = Inr ()"
proof -
  have k: "kpt_ok 0x52000" by (simp add: kpt_ok_def)
  from init_kernel_tables [OF k] tables_identity [OF k] obtain m where "identity_mapped 0x52000 m" by blast
  from identity_check [OF k this, of "0x40100"] show ?thesis by (auto simp: quiet_machine_def page_consts addr_consts)
qed

lemma two_procs_simps [simp]:
  "table_ok (two_procs m)" "length (ptable (two_procs m)) = NPROC" "current (two_procs m) = 1" "mem (two_procs m) = m"
  "reads (two_procs m) = 0" "con (two_procs m) = blank_console"
  "i < 16 \<Longrightarrow> ptable (two_procs m) ! i =
     (if i = 1 \<or> i = 3 then (free_proc i)\<lparr>pstate := P_RUNNABLE, pagetable := kpt quiet_machine\<rparr> else free_proc i)"
proof -
  show t: "ptable (two_procs m) ! i =
     (if i = 1 \<or> i = 3 then (free_proc i)\<lparr>pstate := P_RUNNABLE, pagetable := kpt quiet_machine\<rparr> else free_proc i)" if "i < 16" for i
    using that by (auto simp: two_procs_def Let_def nth_list_update)
  show l: "length (ptable (two_procs m)) = NPROC" by (simp add: two_procs_def Let_def NPROC_def)
  show c: "current (two_procs m) = 1" by (simp add: two_procs_def Let_def empty_kernel_def)
  have "pid (ptable (two_procs m) ! i) = int i" if "i < NPROC" for i using t [of i] that by (simp add: NPROC_def free_proc_def)
  then show "table_ok (two_procs m)" using l c by (simp add: table_ok_def NPROC_def)
qed (simp_all add: two_procs_def Let_def empty_kernel_def)

lemma quiet_keyboard [simp]: "keyboard_quiet quiet_machine"
  by (simp add: keyboard_quiet_def quiet_machine_def)

text \<open>
  C20. Scheduling is round robin and live: with no key pressed and some runnable process, \<open>schedule\<close> always
  resumes a process, namely the first runnable one after the current process in cyclic order; it polls the keyboard
  once for each process it passes over and changes nothing else but \<open>current\<close>. (The page table of that process
  has to pass \<open>check_pagetable\<close>.)
\<close>

theorem schedule_round_robin:
  assumes "table_ok s" and "keyboard_quiet M" and "k < NPROC"
    and "pstate (ptable s ! ((current s + 1 + k) mod NPROC)) = P_RUNNABLE"
    and "\<forall>d < k. pstate (ptable s ! ((current s + 1 + d) mod NPROC)) \<noteq> P_RUNNABLE"
    and "check_pagetable (exc_entry M) (kpt M) (mem s) (pagetable (ptable s ! ((current s + 1 + k) mod NPROC))) = Inr ()"
  shows "schedule M s =
    Some (Inl (Resumed ((current s + 1 + k) mod NPROC), s\<lparr>current := (current s + 1 + k) mod NPROC, reads := reads s + k\<rparr>))"
  by (rule schedule_finds [OF assms(1-4) assms(5) [rule_format] assms(6)])

theorem schedule_round_robin_witness:
  "\<exists>m. schedule quiet_machine (two_procs m) = Some (Inl (Resumed 3, two_procs m\<lparr>current := 3, reads := 1\<rparr>))"
proof -
  from quiet_pagetable obtain m where m: "check_pagetable (exc_entry quiet_machine) (kpt quiet_machine) m (kpt quiet_machine) = Inr ()" by blast
  have "schedule quiet_machine (two_procs m) =
    Some (Inl (Resumed ((current (two_procs m) + 1 + 1) mod NPROC),
      two_procs m\<lparr>current := (current (two_procs m) + 1 + 1) mod NPROC, reads := reads (two_procs m) + 1\<rparr>))"
    by (rule schedule_round_robin [of "two_procs m" quiet_machine 1])
       (simp_all add: NPROC_def m free_proc_def)
  then have "schedule quiet_machine (two_procs m) = Some (Inl (Resumed 3, two_procs m\<lparr>current := 3, reads := 1\<rparr>))"
    by (simp add: NPROC_def)
  then show ?thesis by blast
qed

end
