(* ===== verification/Resume.thy ===== *)
theory Resume
  imports Sched
begin

text \<open>
  Which process the kernel may resume. Every operation below the scheduler is \<open>plain\<close>: it leaves the process table
  and the current process alone and does not resume anything. On top of that, whatever the handlers do,
  a process is resumed only when it is runnable and its page table maps the kernel; a process that
  faults in user mode is never resumed.
\<close>

section \<open>Plain operations\<close>

definition final_state :: "(outcome \<times> kernel + 'a \<times> kernel) \<Rightarrow> kernel" where
  "final_state x = case_sum snd snd x"

definition plain :: "kernel \<Rightarrow> 'a result \<Rightarrow> bool" where
  "plain s r =
     (\<forall>x. r = Some x \<longrightarrow> ptable (final_state x) = ptable s \<and> current (final_state x) = current s \<and> (\<forall>j t. x \<noteq> Inl (Resumed j, t)))"

named_theorems plain_intros \<open>operations that keep the process table and resume nothing\<close>

lemma plain_None [plain_intros]: "plain s None"
  by (simp add: plain_def)

lemma plain_return [plain_intros]: "ptable t = ptable s \<Longrightarrow> current t = current s \<Longrightarrow> plain s (return x t)"
  by (simp add: plain_def final_state_def)

lemma plain_stop [plain_intros]:
  "ptable t = ptable s \<Longrightarrow> current t = current s \<Longrightarrow> (\<And>j. oc \<noteq> Resumed j) \<Longrightarrow> plain s (stop oc t)"
  by (simp add: plain_def final_state_def)

lemma plain_andthen:
  assumes "plain s r" and "\<And>y t. r = return y t \<Longrightarrow> ptable t = ptable s \<Longrightarrow> current t = current s \<Longrightarrow> plain s (f y t)"
  shows "plain s (andthen r f)"
proof (cases r)
  case (Some x)
  show ?thesis
  proof (cases x)
    case (Inl e)
    with assms(1) Some show ?thesis by (simp add: plain_def final_state_def)
  next
    case (Inr p)
    obtain y t where p: "p = (y, t)" by (metis surj_pair)
    with assms(1) Some Inr have "ptable t = ptable s" "current t = current s" by (simp_all add: plain_def final_state_def)
    with assms(2) [of y t] Some Inr p show ?thesis by simp
  qed
qed (simp add: plain_def)

lemma plain_same: "plain t r \<Longrightarrow> ptable t = ptable s \<Longrightarrow> current t = current s \<Longrightarrow> plain s r"
  by (simp add: plain_def)

lemma plain_if [plain_intros]: "(b \<Longrightarrow> plain s r) \<Longrightarrow> (\<not> b \<Longrightarrow> plain s q) \<Longrightarrow> plain s (if b then r else q)"
  by simp

lemma k_log_plain [plain_intros]: "ptable t = ptable s \<Longrightarrow> current t = current s \<Longrightarrow> plain s (k_log fmt args t)"
  by (auto simp: k_log_def intro!: plain_intros split: option.split)

lemma k_print_plain [plain_intros]: "ptable t = ptable s \<Longrightarrow> current t = current s \<Longrightarrow> plain s (k_print cpos color fmt args t)"
  by (auto simp: k_print_def intro!: plain_intros split: option.split)

lemma k_error_plain [plain_intros]: "ptable t = ptable s \<Longrightarrow> current t = current s \<Longrightarrow> plain s (k_error cpos color fmt args t)"
  by (auto simp: k_error_def intro!: plain_intros split: option.split)

lemma set_cursor_frame [simp]: "ptable (set_cursor c s) = ptable s" "current (set_cursor c s) = current s"
  by (simp_all add: set_cursor_def)

lemma panic_plain [plain_intros]: "ptable t = ptable s \<Longrightarrow> current t = current s \<Longrightarrow> plain s (panic msg t)"
  by (auto simp: panic_def Let_def intro!: plain_intros plain_andthen split: option.split)

lemma k_lookup_frame: "k_lookup M a t = (r, t') \<Longrightarrow> ptable t' = ptable t \<and> current t' = current t"
  by (auto simp: k_lookup_def split: prod.splits)

lemma plain_recursion: "(\<And>y. r = Some y \<Longrightarrow> plain s (Some y)) \<Longrightarrow> plain s r"
  by (cases r) (simp_all add: plain_None)

text \<open>One turn of the loop, whatever stands for the recursive call.\<close>

lemma backtrace_turn_plain:
  assumes pr: "\<And>fmt args t. plain t (pr fmt args t)" and rec: "\<And>f b u. plain u (bk f b u)"
  shows "plain s (if bt_ok bt then
           let rip = ret_rip (mem s) bt; (r, s) = k_lookup M rip s
           in andthen
                (case r of
                   Some (name, start) \<Rightarrow> pr (ascii ''  #%d  %p  <%s>'' @ [10]) [AInt frame, APtr rip, AStr (strtab M name)] s
                 | None \<Rightarrow> if rip \<noteq> 0 then pr (ascii ''  #%d  %p'' @ [10]) [AInt frame, APtr rip] s else return () s)
                (\<lambda>_ s. bk (frame + 1) (bt_step (mem s) bt) s)
         else return () s)"
proof (cases "bt_ok bt")
  case True
  obtain r s' where l: "k_lookup M (ret_rip (mem s) bt) s = (r, s')" by (metis surj_pair)
  note f = k_lookup_frame [OF l]
  have p: "plain s (pr fmt args s')" for fmt args using plain_same [OF pr] f by blast
  show ?thesis unfolding Let_def l prod.case if_P [OF True]
    using f by (intro plain_andthen plain_same [OF rec]) (cases r, auto simp: p intro: plain_return)
qed (simp add: plain_return)

lemma backtrace_plain:
  assumes pr: "\<And>fmt args t. plain t (pr fmt args t)"
  shows "plain s (backtrace M pr frame bt s)"
proof (rule plain_recursion)
  fix y assume b: "backtrace M pr frame bt s = Some y"
  have "(\<forall>fmt args t. plain t (pr fmt args t)) \<longrightarrow> plain s (Some y)"
    apply (rule backtrace.raw_induct [where P = "\<lambda>M pr frame bt s y. (\<forall>fmt args t. plain t (pr fmt args t)) \<longrightarrow> plain s (Some y)", OF _ b])
    subgoal premises prems for bk M pr frame bt s x
    proof
      assume p: "\<forall>fmt args t. plain t (pr fmt args t)"
      have rec: "plain u (bk M pr f b u)" for f b u by (rule plain_recursion) (rule prems(1) [rule_format, OF _ p [rule_format]])
      show "plain s (Some x)" unfolding prems(2) [symmetric]
        by (rule backtrace_turn_plain [where bk = "bk M pr", OF p [rule_format] rec])
    qed
    done
  with pr show "plain s (Some y)" by blast
qed

lemma assert_fail_plain [plain_intros]: "ptable t = ptable s \<Longrightarrow> current t = current s \<Longrightarrow> plain s (assert_fail M file line msg t)"
  unfolding assert_fail_def Let_def
  by (intro plain_andthen plain_intros plain_same [OF backtrace_plain]) simp_all

lemma k_assert_plain [plain_intros]: "ptable t = ptable s \<Longrightarrow> current t = current s \<Longrightarrow> plain s (k_assert M file line msg b t)"
  by (simp add: k_assert_def plain_intros)

lemma k_check_keyboard_plain [plain_intros]:
  "ptable t = ptable s \<Longrightarrow> current t = current s \<Longrightarrow> plain s (k_check_keyboard M t)"
  by (auto simp: k_check_keyboard_def Let_def intro!: plain_intros split: prod.split key_action.split)

lemma plain_lift [plain_intros]: "(\<And>e. plain s (f e)) \<Longrightarrow> (\<And>v. plain s (g v)) \<Longrightarrow> plain s (Option.bind r (case_sum f g))"
  by (cases r) (auto simp: plain_None split: sum.split)

section \<open>The memory viewer is plain\<close>

lemma vm_stop_resumed [simp]: "vm_stop e \<noteq> Resumed j"
  by (simp add: vm_stop_def split: vm_error.split)

lemma refresh_plain: "plain s (refresh M s)"
  by (auto simp: refresh_def Let_def intro!: plain_intros plain_andthen split: prod.split)

lemma symbol_at_plain: "plain s (symbol_at M pa s)"
  by (auto simp: symbol_at_def page_error_def Let_def intro!: plain_intros plain_andthen split: prod.split option.split)

lemma set_cell_plain [plain_intros]: "ptable t = ptable s \<Longrightarrow> current t = current s \<Longrightarrow> plain s (set_cell c ch t)"
  by (auto simp: set_cell_def intro!: plain_intros)

lemma row_label_plain [plain_intros]: "ptable t = ptable s \<Longrightarrow> current t = current s \<Longrightarrow> plain s (row_label row pn a t)"
  by (auto simp: row_label_def intro!: plain_intros)

lemma draw_physical_plain: "plain s (draw_physical M pns s)"
proof (induction pns arbitrary: s)
  case (Cons pn pns)
  show ?case unfolding draw_physical.simps
    by (intro plain_andthen row_label_plain set_cell_plain plain_same [OF symbol_at_plain] plain_same [OF Cons.IH] refl) auto
qed (simp add: plain_return)

lemma draw_virtual_turn_plain:
  assumes rec: "\<And>i u. plain u (dv i u)"
  shows "plain s (if cur_va it < max_view_va then
        let pn = unat (cur_va it div PAGESIZE)
        in andthen (row_label 11 pn (ucast (cur_va it)) s) (\<lambda>_ s.
           andthen
             (if \<not> vm_present (mem s) it then return (0x20 :: u16) s
              else andthen (symbol_at M (vm_pa (mem s) it) s) (\<lambda>ch s. return (if vm_user (mem s) it then swap_colors ch else ch) s))
             (\<lambda>ch s. andthen (set_cell (CPOS (11 + int (pn div 64)) (12 + int (pn mod 64))) ch s) (\<lambda>_ s.
              case advance (mem s) PAGESIZE it of Inl e \<Rightarrow> stop (vm_stop e) s | Inr it' \<Rightarrow> dv it' s)))
      else return () s)"
  unfolding Let_def
  by (intro plain_if plain_andthen plain_same [OF symbol_at_plain] row_label_plain set_cell_plain plain_return refl)
    (auto intro: plain_stop plain_same [OF rec] split: sum.split)

lemma draw_virtual_plain: "plain s (draw_virtual M it s)"
proof (rule plain_recursion)
  fix y assume b: "draw_virtual M it s = Some y"
  show "plain s (Some y)"
    apply (rule draw_virtual.raw_induct [where P = "\<lambda>M it s y. plain s (Some y)", OF _ b])
    subgoal premises prems for dv M it s x
    proof -
      have rec: "plain u (dv M i u)" for i u by (rule plain_recursion) (rule prems(1))
      show "plain s (Some x)" unfolding prems(2) [symmetric] by (rule draw_virtual_turn_plain [where dv = "dv M", OF rec])
    qed
    done
qed

lemma console_memviewer_plain: "plain s (console_memviewer M vmp s)"
proof -
  have v: "plain s (console_memviewer_virtual M p s)" for M p s
    unfolding console_memviewer_virtual_def
    by (intro plain_andthen k_print_plain refl) (auto intro: plain_stop plain_same [OF draw_virtual_plain] split: sum.split)
  show ?thesis
    unfolding console_memviewer_def
    by (intro plain_andthen k_assert_plain k_print_plain plain_same [OF refresh_plain] plain_same [OF draw_physical_plain] refl)
      (auto intro: plain_same [OF v] k_print_plain split: option.split)
qed

lemma memshow_plain: "plain s (memshow M s)"
  unfolding memshow_def Let_def
  by (auto intro!: plain_same [OF console_memviewer_plain] simp: switch_shown_def split: prod.split)

section \<open>Only runnable processes are resumed\<close>

definition resumable :: "machine \<Rightarrow> nat \<Rightarrow> kernel \<Rightarrow> bool" where
  "resumable M j s =
     (pstate (ptable s ! j) = P_RUNNABLE \<and> current s = j \<and>
      check_pagetable (exc_entry M) (kpt M) (mem s) (pagetable (ptable s ! j)) = Inr ())"

text \<open>The process table is kept, and what is resumed may be.\<close>

definition scheduling :: "machine \<Rightarrow> kernel \<Rightarrow> 'a result \<Rightarrow> bool" where
  "scheduling M s r =
     (\<forall>x. r = Some x \<longrightarrow> ptable (final_state x) = ptable s \<and> (\<forall>j t. x = Inl (Resumed j, t) \<longrightarrow> resumable M j t))"

lemma scheduling_plain: "plain s r \<Longrightarrow> scheduling M s r"
  by (auto simp: plain_def scheduling_def)

lemma scheduling_same: "scheduling M t r \<Longrightarrow> ptable t = ptable s \<Longrightarrow> scheduling M s r"
  by (simp add: scheduling_def)

lemma scheduling_andthen:
  assumes "scheduling M s r" and "\<And>y t. r = return y t \<Longrightarrow> ptable t = ptable s \<Longrightarrow> scheduling M s (f y t)"
  shows "scheduling M s (andthen r f)"
proof (cases r)
  case None
  then show ?thesis by (simp add: scheduling_def)
next
  case (Some x)
  with assms show ?thesis by (cases x) (auto simp: scheduling_def final_state_def)
qed

lemma scheduling_recursion: "(\<And>y. r = Some y \<Longrightarrow> scheduling M s (Some y)) \<Longrightarrow> scheduling M s r"
  by (cases r) (simp_all add: scheduling_def)

lemma run_scheduling: "scheduling M s (run M i s)"
proof -
  have r: "scheduling M s (andthen (k_check_pagetable M (pagetable (ptable t ! i)) (t\<lparr>current := i\<rparr>)) (\<lambda>_ s. stop (Resumed i) s))"
    if "k_assert M f l m (pstate (ptable s ! i) = P_RUNNABLE) s = return y t" for t f l m y
  proof -
    have t: "t = s" "pstate (ptable s ! i) = P_RUNNABLE"
      using that by (auto simp: k_assert_def assert_fail_def Let_def andthen_return split: if_splits)
    show ?thesis unfolding t(1) using t(2)
      by (auto simp: k_check_pagetable_def scheduling_def resumable_def final_state_def split: sum.split)
  qed
  show ?thesis unfolding run_def Let_def
  proof (rule scheduling_andthen [OF scheduling_plain [OF k_assert_plain [OF refl refl]]])
    fix y t assume "k_assert M ''kernel.cc'' 406 ''p->state == P_RUNNABLE'' (pstate (ptable s ! i) = P_RUNNABLE) s = return y t"
    from r [OF this] show "scheduling M s (andthen (k_check_pagetable M (pagetable (ptable (t\<lparr>current := i\<rparr>) ! i)) (t\<lparr>current := i\<rparr>))
        (\<lambda>_ s. stop (Resumed i) s))" by simp
  qed
qed

lemma schedule_turn:
  assumes rec: "\<And>n i u. scheduling M u (sl n i u)"
  shows "scheduling M s (let i = (i + 1) mod NPROC
      in if pstate (ptable s ! i) = P_RUNNABLE then run M i s
         else andthen (k_check_keyboard M s) (\<lambda>_ s.
              andthen (if spins mod 4096 = 0 then andthen (memshow M s) (\<lambda>_ s. k_log (ascii ''%u'' @ [10]) [AInt spins] s) else return () s)
                (\<lambda>_ s. sl (spins + 1) i s)))"
proof -
  have "plain t (if spins mod 4096 = 0 then andthen (memshow M t) (\<lambda>_ s. k_log (ascii ''%u'' @ [10]) [AInt spins] s) else return () t)" for t
    by (intro plain_if plain_andthen memshow_plain k_log_plain plain_return) auto
  then show ?thesis unfolding Let_def
    by (auto intro!: run_scheduling scheduling_andthen [OF scheduling_plain [OF k_check_keyboard_plain]]
        intro: scheduling_same [OF scheduling_andthen [OF scheduling_plain]] scheduling_same [OF rec])
qed

lemma schedule_scheduling: "scheduling M s (schedule M s)"
proof -
  have "scheduling M s (schedule_loop M n i s)" for n i
  proof (rule scheduling_recursion)
    fix y assume b: "schedule_loop M n i s = Some y"
    show "scheduling M s (Some y)"
      apply (rule schedule_loop.raw_induct [where P = "\<lambda>M n i s y. scheduling M s (Some y)", OF _ b])
      subgoal premises prems for sl M n i s x
      proof -
        have rec: "scheduling M u (sl M m j u)" for m j u by (rule scheduling_recursion) (rule prems(1))
        show "scheduling M s (Some x)" unfolding prems(2) [symmetric] by (rule schedule_turn [where sl = "sl M", OF rec])
      qed
      done
  qed
  then show ?thesis by (simp add: schedule_def)
qed

section \<open>Every entry to the kernel resumes only runnable processes\<close>

definition safely :: "machine \<Rightarrow> 'a result \<Rightarrow> bool" where
  "safely M r = (\<forall>j t. r = Some (Inl (Resumed j, t)) \<longrightarrow> resumable M j t)"

named_theorems safely_intros \<open>operations that resume only runnable processes\<close>

lemma safely_basic [safely_intros]: "safely M None" "safely M (return x s)" "(\<And>j. oc \<noteq> Resumed j) \<Longrightarrow> safely M (stop oc s)"
  by (auto simp: safely_def)

lemma safely_plain: "plain s r \<Longrightarrow> safely M r"
  by (auto simp: safely_def plain_def)

lemma safely_scheduling: "scheduling M s r \<Longrightarrow> safely M r"
  by (auto simp: safely_def scheduling_def)

lemma safely_andthen [safely_intros]:
  assumes "safely M r" and "\<And>y t. safely M (f y t)"
  shows "safely M (andthen r f)"
proof (cases r)
  case (Some x)
  with assms show ?thesis by (cases x) (auto simp: safely_def)
qed (simp add: safely_def)

lemma safely_if [safely_intros]: "safely M r \<Longrightarrow> safely M q \<Longrightarrow> safely M (if b then r else q)"
  by simp

lemma safely_bind [safely_intros]: "(\<And>e. safely M (f e)) \<Longrightarrow> (\<And>v. safely M (g v)) \<Longrightarrow> safely M (Option.bind r (case_sum f g))"
  by (cases r) (auto simp: safely_basic split: sum.split)

lemmas safely_calls [safely_intros] =
  safely_plain [OF k_print_plain [OF refl refl]] safely_plain [OF panic_plain [OF refl refl]] safely_plain [OF k_log_plain [OF refl refl]]
  safely_plain [OF k_check_keyboard_plain [OF refl refl]] safely_plain [OF assert_fail_plain [OF refl refl]] safely_plain [OF memshow_plain]
  safely_scheduling [OF schedule_scheduling] safely_scheduling [OF run_scheduling]

lemma claim_result_safely [safely_intros]: "safely M (claim_result M line msg r s)"
  by (auto simp: claim_result_def intro!: safely_intros split: sum.split claim_error.split)

lemma process_setup_safely [safely_intros]: "safely M (process_setup M i name s)"
  by (auto simp: process_setup_def Let_def intro!: safely_intros split: option.split)

lemma setup_all_safely [safely_intros]: "safely M (setup_all M ps s)"
  by (induction M ps s rule: setup_all.induct) (auto intro!: safely_intros)

lemma dispatch_safely [safely_intros]: "safely M (dispatch M addr r s)"
  by (auto simp: dispatch_def page_fault_def resume_or_schedule_def Let_def intro!: safely_intros)

lemma exception_safely: "safely M (exception M addr r s)"
  by (auto simp: exception_def Let_def intro!: safely_intros)

lemma syscall_safely: "safely M (syscall M r s)"
  by (auto simp: syscall_def syscall_fork_def syscall_exit_def syscall_page_alloc_def unexpected_syscall_def Let_def intro!: safely_intros)

lemma init_hardware_safely [safely_intros]: "safely M (init_hardware M s)"
  by (auto simp: init_hardware_def intro!: safely_intros)

lemma kernel_start_safely: "safely M (kernel_start M command s)"
  unfolding kernel_start_def Let_def
  by (intro safely_intros) (auto intro!: safely_intros split: option.split)

text \<open>
  C21. Only runnable processes run: whenever an entry to the kernel (boot, a system call, an exception, or the scheduler
  itself) ends by resuming a process, that process is runnable, it is the current process, and its page table has
  passed \<open>check_pagetable\<close>, so that the kernel stays mapped.
\<close>

theorem resumed_runnable:
  assumes "schedule M s = Some (Inl (Resumed j, t)) \<or> exception M addr r s = Some (Inl (Resumed j, t)) \<or>
    syscall M r s = Some (Inl (Resumed j, t)) \<or> kernel_start M command s = Some (Inl (Resumed j, t))"
  shows "pstate (ptable t ! j) = P_RUNNABLE \<and> current t = j \<and>
    check_pagetable (exc_entry M) (kpt M) (mem t) (pagetable (ptable t ! j)) = Inr ()"
  using assms safely_scheduling [OF schedule_scheduling, of M s] exception_safely [of M addr r s] syscall_safely [of M r s]
    kernel_start_safely [of M command s]
  by (auto simp: safely_def resumable_def)

theorem resumed_runnable_witness:
  "\<exists>m. schedule quiet_machine (two_procs m) = Some (Inl (Resumed 3, two_procs m\<lparr>current := 3, reads := 1\<rparr>)) \<and>
     pstate (ptable (two_procs m) ! 3) = P_RUNNABLE"
proof -
  from quiet_pagetable obtain m where m: "check_pagetable (exc_entry quiet_machine) (kpt quiet_machine) m (kpt quiet_machine) = Inr ()" by blast
  have "schedule quiet_machine (two_procs m) = Some (Inl (Resumed 3, two_procs m\<lparr>current := 3, reads := 1\<rparr>))"
    using schedule_finds [of "two_procs m" quiet_machine 1] by (simp add: NPROC_def m free_proc_def)
  from this resumed_runnable [OF disjI1, OF this] show ?thesis by auto
qed

section \<open>A faulting process does not run again\<close>

text \<open>The directives without flags, width or precision always print.\<close>

lemma fill_numbuf_some: "base = 10 \<or> base = 16 \<or> base = - 16 \<Longrightarrow> \<exists>p buf. fill_numbuf NUMBUFSIZ v base (replicate NUMBUFSIZ 0) = Some (p, buf)"
  using fill_numbuf_digits by blast

lemma bare_directive: "c \<in> {100, 112, 115} \<Longrightarrow> directive color (c # fs) args =
    (case convert False 0 (c # fs) args of
       None \<Rightarrow> None
     | Some (CColor col, fs, args) \<Rightarrow> Some ([], col, fs, args)
     | Some (CText body, fs, args) \<Rightarrow>
         if int (length body) > INT_MAX then None else Some (layout 0 (- 1) (- 1) (prefix_of 0 10 0) body, color, fs, args)
     | Some (CNum base num flags, fs, args) \<Rightarrow>
         (case fill_numbuf NUMBUFSIZ num base (replicate NUMBUFSIZ 0) of
            None \<Rightarrow> None
          | Some (p, buf) \<Rightarrow>
              Some (layout flags (- 1) (- 1) (prefix_of flags base num) (takeWhile (\<lambda>x. x \<noteq> 0) (drop p buf)), color, fs, args)))"
  by (auto simp: directive_def flag_chars_def parse_width_def parse_precision_def parse_length_def)

lemma directive_d: "\<exists>out. directive color (100 # fs) (AInt w # args) = Some (out, color, fs, args)"
proof -
  have "sint w \<noteq> - (2 ^ 63)" using sint_greater_eq [of w] by auto
  moreover obtain p buf where "fill_numbuf NUMBUFSIZ (word_of_int \<bar>sint w\<bar>) 10 (replicate NUMBUFSIZ 0) = Some (p, buf)"
    using fill_numbuf_some by blast
  ultimately show ?thesis by (simp add: bare_directive convert_def)
qed

lemma directive_p: "\<exists>out. directive color (112 # fs) (APtr w # args) = Some (out, color, fs, args)"
proof -
  obtain p buf where "fill_numbuf NUMBUFSIZ w (- 16) (replicate NUMBUFSIZ 0) = Some (p, buf)"
    using fill_numbuf_some by blast
  then show ?thesis by (simp add: bare_directive convert_def)
qed

lemma directive_s: "int (length xs) \<le> INT_MAX \<Longrightarrow> \<exists>out. directive color (115 # fs) (AStr xs # args) = Some (out, color, fs, args)"
  using length_takeWhile_le [of "\<lambda>x. x \<noteq> 0" xs] by (auto simp: bare_directive convert_def)

lemma formatted_directive:
  "\<exists>out. directive color fs args = Some (out, color', rest, args') \<Longrightarrow> \<exists>out. formatted color' rest args' = Some out \<Longrightarrow>
     \<exists>out. formatted color (37 # fs) args = Some out"
  by auto

lemma formatted_char: "c \<noteq> 37 \<Longrightarrow> \<exists>out. formatted color fs args = Some out \<Longrightarrow> \<exists>out. formatted color (c # fs) args = Some out"
  by auto

lemma fault_message_prints:
  assumes "int (length op) \<le> INT_MAX" "int (length pb) \<le> INT_MAX"
  shows "\<exists>out. formatted color (ascii ''Process %d page fault for %p (%s %s, rip=%p)!'' @ [10]) [AInt i, APtr a, AStr op, AStr pb, APtr rip] = Some out"
  unfolding ascii_def
  by (simp del: formatted.simps)
    (intro formatted_char formatted_directive [OF directive_d] formatted_directive [OF directive_p] formatted_directive [OF directive_s [OF assms(1)]]
      formatted_directive [OF directive_s [OF assms(2)]], simp_all)

lemma page_fault_user:
  assumes "reg_errcode r AND PFERR_USER \<noteq> 0"
  shows "\<exists>c. page_fault M addr r s = return () (update_proc (current s) (\<lambda>p. p\<lparr>pstate := P_BROKEN\<rparr>) (s\<lparr>con := c\<rparr>))"
proof -
  let ?op = "ascii (if reg_errcode r AND PFERR_WRITE \<noteq> 0 then ''write'' else ''read'')"
  let ?pb = "ascii (if reg_errcode r AND PFERR_PRESENT \<noteq> 0 then ''protection problem'' else ''missing page'')"
  have "int (length ?op) \<le> INT_MAX" "int (length ?pb) \<le> INT_MAX" by (simp_all add: ascii_def)
  from fault_message_prints [OF this, of "0x0C00" "word_of_int (pid (ptable s ! current s))" addr "reg_rip r"] obtain out where
    "formatted 0x0C00 (ascii ''Process %d page fault for %p (%s %s, rip=%p)!'' @ [10])
       [AInt (word_of_int (pid (ptable s ! current s))), APtr addr, AStr ?op, AStr ?pb, APtr (reg_rip r)] = Some out" by blast
  then have "\<exists>c. k_print (CPOS 24 0) 0x0C00 (ascii ''Process %d page fault for %p (%s %s, rip=%p)!'' @ [10])
       [AInt (word_of_int (pid (ptable s ! current s))), APtr addr, AStr ?op, AStr ?pb, APtr (reg_rip r)] s = return () (s\<lparr>con := c\<rparr>)"
    unfolding k_print_def console_printf_def console_vprintf_def vprintf_eq by (auto simp: finish_printer_def Let_def split: prod.split)
  then obtain c where "k_print (CPOS 24 0) 0x0C00 (ascii ''Process %d page fault for %p (%s %s, rip=%p)!'' @ [10])
       [AInt (word_of_int (pid (ptable s ! current s))), APtr addr, AStr ?op, AStr ?pb, APtr (reg_rip r)] s = return () (s\<lparr>con := c\<rparr>)" ..
  then show ?thesis using assms by (intro exI [of _ c]) (simp add: page_fault_def Let_def)
qed

text \<open>
  C24. A page fault in user mode is fatal to the faulting process only: the handler prints its message, marks exactly the
  current process broken, and resumes the next runnable process, which is another one; the processes, the memory, the
  page array and the clock are otherwise unchanged.
\<close>

theorem user_fault_isolated:
  assumes "table_ok s" and "keyboard_quiet M" and "reg_intno r = INT_PF" and "reg_errcode r AND PFERR_USER \<noteq> 0"
    and "k < NPROC - 1" and "j = (current s + 1 + k) mod NPROC" and "pstate (ptable s ! j) = P_RUNNABLE"
    and "\<forall>d < k. pstate (ptable s ! ((current s + 1 + d) mod NPROC)) \<noteq> P_RUNNABLE"
    and "check_pagetable (exc_entry M) (kpt M) (mem s) (pagetable (ptable s ! j)) = Inr ()"
  shows "j \<noteq> current s \<and>
    (\<exists>c. dispatch M addr r s = Some (Inl (Resumed j,
       s\<lparr>con := c, ptable := (ptable s)[current s := (ptable s ! current s)\<lparr>pstate := P_BROKEN\<rparr>], current := j, reads := reads s + k\<rparr>)))"
proof -
  have cur: "current s < 16" "length (ptable s) = 16" using assms(1) by (simp_all add: table_ok_def NPROC_def)
  have ne: "(current s + 1 + d) mod NPROC \<noteq> current s" if "d < NPROC - 1" for d
  proof (cases "current s + 1 + d < 16")
    case False
    with that cur(1) have "(current s + 1 + d) mod 16 = current s + 1 + d - 16" by (simp add: NPROC_def mod_if)
    with that cur(1) False show ?thesis by (simp add: NPROC_def)
  qed (simp add: NPROC_def)
  from page_fault_user [OF assms(4), of M addr s] obtain c where
    c: "page_fault M addr r s = return () (update_proc (current s) (\<lambda>p. p\<lparr>pstate := P_BROKEN\<rparr>) (s\<lparr>con := c\<rparr>))" ..
  let ?s = "update_proc (current s) (\<lambda>p. p\<lparr>pstate := P_BROKEN\<rparr>) (s\<lparr>con := c\<rparr>)"
  have p: "ptable ?s ! i = (if i = current s then (ptable s ! i)\<lparr>pstate := P_BROKEN\<rparr> else ptable s ! i)" if "i < 16" for i
    using that cur by (auto simp: update_proc_def)
  have lt: "i mod NPROC < 16" for i by (simp add: NPROC_def)
  have s: "current ?s = current s" "mem ?s = mem s" "reads ?s = reads s" by (simp_all add: update_proc_def)
  have ok: "table_ok ?s" using assms(1) p by (auto simp: table_ok_def update_proc_def NPROC_def nth_list_update)
  have "schedule M ?s =
    Some (Inl (Resumed ((current ?s + 1 + k) mod NPROC), ?s\<lparr>current := (current ?s + 1 + k) mod NPROC, reads := reads ?s + k\<rparr>))"
  proof (rule schedule_finds [OF ok assms(2)])
    show "k < NPROC" using assms(5) by simp
    show "pstate (ptable ?s ! ((current ?s + 1 + k) mod NPROC)) = P_RUNNABLE"
      unfolding s p [OF lt] using ne [OF assms(5)] assms(6,7) by simp
    show "pstate (ptable ?s ! ((current ?s + 1 + d) mod NPROC)) \<noteq> P_RUNNABLE" if "d < k" for d
      unfolding s p [OF lt] using ne [of d] that assms(5,8) by simp
    show "check_pagetable (exc_entry M) (kpt M) (mem ?s) (pagetable (ptable ?s ! ((current ?s + 1 + k) mod NPROC))) = Inr ()"
      unfolding s p [OF lt] using ne [OF assms(5)] assms(6,9) by simp
  qed
  then have "dispatch M addr r s = Some (Inl (Resumed j, ?s\<lparr>current := j, reads := reads s + k\<rparr>))"
    unfolding s assms(6) [symmetric]
    using assms(3) c cur(1) p [of "current s"] by (simp add: dispatch_def resume_or_schedule_def s int_numbers)
  then show ?thesis using ne [OF assms(5)] assms(6) by (auto simp: update_proc_def)
qed

theorem user_fault_isolated_witness:
  "\<exists>m c. dispatch quiet_machine 0x1234 (zero_regs\<lparr>reg_intno := INT_PF, reg_errcode := 4\<rparr>) (two_procs m) = Some (Inl (Resumed 3, c)) \<and>
     pstate (ptable c ! 1) = P_BROKEN"
proof -
  from quiet_pagetable obtain m where m: "check_pagetable (exc_entry quiet_machine) (kpt quiet_machine) m (kpt quiet_machine) = Inr ()" by blast
  have "pstate (ptable (two_procs m) ! ((current (two_procs m) + 1 + d) mod NPROC)) \<noteq> P_RUNNABLE" if "d < 1" for d
    using that by (simp add: NPROC_def free_proc_def)
  then have d: "\<forall>d < 1. pstate (ptable (two_procs m) ! ((current (two_procs m) + 1 + d) mod NPROC)) \<noteq> P_RUNNABLE" by blast
  have "3 \<noteq> current (two_procs m) \<and> (\<exists>c. dispatch quiet_machine 0x1234 (zero_regs\<lparr>reg_intno := INT_PF, reg_errcode := 4\<rparr>) (two_procs m) =
      Some (Inl (Resumed 3, two_procs m\<lparr>con := c,
        ptable := (ptable (two_procs m))[current (two_procs m) := (ptable (two_procs m) ! current (two_procs m))\<lparr>pstate := P_BROKEN\<rparr>],
        current := 3, reads := reads (two_procs m) + 1\<rparr>)))"
    by (rule user_fault_isolated [OF _ _ _ _ _ _ _ d]) (simp_all add: NPROC_def m int_numbers zero_regs_def)
  then show ?thesis by (auto simp: NPROC_def intro!: exI [of _ m])
qed

end
