(* ===== verification/Boot.thy ===== *)
theory Boot
  imports Loader
begin

unbundle bit_operations_syntax

text \<open>
  The boot loader \<open>weensyos/boot.cc\<close>: it reads the first page of the kernel's executable from the first IDE disk,
  then every program segment, sector by sector with programmed I/O, clears the rest of each segment, and
  jumps to the entry point. The disk and its controller's status register are parameters.
\<close>

section \<open>The disk\<close>

text \<open>\<open>status n\<close> is what the \<open>n\<close>-th read of the status register gives, \<open>disk\<close> the bytes of the disk from its start.\<close>

record drive =
  status :: "nat \<Rightarrow> u8"
  disk :: "nat \<Rightarrow> u8"

text \<open>The registers of the ATA task file, and the number of status reads so far.\<close>

record ata =
  sector_count :: u8
  lba_low :: u8
  lba_mid :: u8
  lba_high :: u8
  drive_head :: u8
  polls :: nat

definition outb :: "u32 \<Rightarrow> u8 \<Rightarrow> ata \<Rightarrow> ata" where
  "outb port v a =
     (if port = 0x1F2 then a\<lparr>sector_count := v\<rparr> else if port = 0x1F3 then a\<lparr>lba_low := v\<rparr>
      else if port = 0x1F4 then a\<lparr>lba_mid := v\<rparr> else if port = 0x1F5 then a\<lparr>lba_high := v\<rparr>
      else if port = 0x1F6 then a\<lparr>drive_head := v\<rparr> else a)"

text \<open>The 28-bit block address the command 0x20 reads; the high bits of the last register select drive and mode.\<close>

definition selected_sector :: "ata \<Rightarrow> nat" where
  "selected_sector a =
     unat (lba_low a) + 256 * unat (lba_mid a) + 65536 * unat (lba_high a) + 16777216 * unat (drive_head a AND 0xF)"

definition SECTORSIZE :: nat where "SECTORSIZE = 512"
definition ELFHDR :: u64 where "ELFHDR = 0x3000"
definition KERNEL_START_SECTOR :: u64 where "KERNEL_START_SECTOR = 1"

text \<open>\<open>insl\<close>: \<open>n\<close> words of 4 bytes from the selected sector's data.\<close>

definition insl :: "drive \<Rightarrow> u64 \<Rightarrow> nat \<Rightarrow> ata \<times> memory \<Rightarrow> ata \<times> memory" where
  "insl d dst n = (\<lambda>(a, m).
     (a, \<lambda>x. if unat (x - dst) < 4 * n then disk d (SECTORSIZE * selected_sector a + unat (x - dst)) else m x))"

section \<open>Reading\<close>

text \<open>The loops wait for the disk, possibly forever: \<open>None\<close>.\<close>

partial_function (option) boot_waitdisk :: "drive \<Rightarrow> ata \<Rightarrow> ata option" where
  "boot_waitdisk d a =
     (let s = status d (polls a); a = a\<lparr>polls := polls a + 1\<rparr>
      in if s AND 0xC0 \<noteq> 0x40 then boot_waitdisk d a else Some a)"

definition boot_readsect :: "drive \<Rightarrow> u64 \<Rightarrow> u32 \<Rightarrow> ata \<times> memory \<Rightarrow> (ata \<times> memory) option" where
  "boot_readsect d dst src_sect = (\<lambda>(a, m).
     Option.bind (boot_waitdisk d a) (\<lambda>a.
     let a = outb 0x1F2 1 a;
         a = outb 0x1F3 (ucast src_sect) a;
         a = outb 0x1F4 (ucast (drop_bit 8 src_sect)) a;
         a = outb 0x1F5 (ucast (drop_bit 16 src_sect)) a;
         a = outb 0x1F6 (ucast (drop_bit 24 src_sect OR 0xE0)) a;
         a = outb 0x1F7 0x20 a
     in Option.bind (boot_waitdisk d a) (\<lambda>a. Some (insl d dst (SECTORSIZE div 4) (a, m)))))"

partial_function (option) readseg_loop :: "drive \<Rightarrow> u64 \<Rightarrow> u64 \<Rightarrow> u32 \<Rightarrow> ata \<times> memory \<Rightarrow> (ata \<times> memory) option" where
  "readseg_loop d ptr end_ptr src_sect s =
     (if ptr < end_ptr then
        Option.bind (boot_readsect d ptr src_sect s) (\<lambda>s. readseg_loop d (ptr + of_nat SECTORSIZE) end_ptr (src_sect + 1) s)
      else Some s)"

function clear_bss :: "u64 \<Rightarrow> u64 \<Rightarrow> memory \<Rightarrow> memory" where
  "clear_bss end_ptr memsz m = (if end_ptr < memsz then clear_bss (end_ptr + 1) memsz (m(end_ptr := 0)) else m)"
  by pat_completeness auto

termination
proof (relation "measure (\<lambda>(e, n, _). unat n - unat e)", simp)
  fix e n :: u64 and m :: memory
  assume "e < n"
  then have "unat e < unat n" by (simp add: word_less_nat_alt)
  then have "unat (e + 1) = unat e + 1" "unat e < unat n" using unat_lt_64 [of n] by (simp_all add: unat_add_64)
  then show "((e + 1, n, m(e := 0)), e, n, m) \<in> measure (\<lambda>(e, n, _). unat n - unat e)" by simp
qed

declare clear_bss.simps [simp del]

definition boot_readseg :: "drive \<Rightarrow> u64 \<Rightarrow> u32 \<Rightarrow> u64 \<Rightarrow> u64 \<Rightarrow> ata \<times> memory \<Rightarrow> (ata \<times> memory) option" where
  "boot_readseg d ptr src_sect filesz memsz s =
     (let end_ptr = ptr + filesz; memsz = memsz + ptr; ptr = ptr AND NOT (of_nat SECTORSIZE - 1)
      in Option.bind (readseg_loop d ptr end_ptr src_sect s) (\<lambda>(a, m). Some (a, clear_bss end_ptr memsz m)))"

section \<open>Booting\<close>

definition read32 :: "memory \<Rightarrow> u64 \<Rightarrow> u32" where
  "read32 m a = ucast (m a) OR push_bit 8 (ucast (m (a + 1))) OR push_bit 16 (ucast (m (a + 2))) OR push_bit 24 (ucast (m (a + 3)))"

definition read16 :: "memory \<Rightarrow> u64 \<Rightarrow> u16" where
  "read16 m a = ucast (m a) OR push_bit 8 (ucast (m (a + 1)))"

text \<open>Fields of the ELF header and of a program header, at their offsets; \<open>sizeof(elf_program)\<close>.\<close>

definition eh_entry :: "memory \<Rightarrow> u64 \<Rightarrow> u64" where "eh_entry m eh = read64 m (eh + 0x18)"
definition eh_phoff :: "memory \<Rightarrow> u64 \<Rightarrow> u64" where "eh_phoff m eh = read64 m (eh + 0x20)"
definition eh_phnum :: "memory \<Rightarrow> u64 \<Rightarrow> u16" where "eh_phnum m eh = read16 m (eh + 0x38)"
definition ELF_PROGRAM_SIZE :: u64 where "ELF_PROGRAM_SIZE = 56"

definition program_at :: "memory \<Rightarrow> u64 \<Rightarrow> elf_program" where
  "program_at m p =
     \<lparr>p_type = read32 m p, p_flags = read32 m (p + 4), p_offset = read64 m (p + 8), p_va = read64 m (p + 0x10), p_pa = read64 m (p + 0x18),
      p_filesz = read64 m (p + 0x20), p_memsz = read64 m (p + 0x28), p_align = read64 m (p + 0x30)\<rparr>"

partial_function (option) boot_segments :: "drive \<Rightarrow> u64 \<Rightarrow> u64 \<Rightarrow> ata \<times> memory \<Rightarrow> (ata \<times> memory) option" where
  "boot_segments d phdr ephdr s =
     (if phdr < ephdr then
        let p = program_at (snd s) phdr
        in Option.bind (boot_readseg d (p_va p) (ucast (KERNEL_START_SECTOR + p_offset p div of_nat SECTORSIZE)) (p_filesz p) (p_memsz p) s)
             (\<lambda>s. boot_segments d (phdr + ELF_PROGRAM_SIZE) ephdr s)
      else Some s)"

text \<open>The result is the address jumped to, with the state there; an image without magic number loops forever.\<close>

definition boot :: "drive \<Rightarrow> ata \<times> memory \<Rightarrow> (u64 \<times> ata \<times> memory) option" where
  "boot d s =
     Option.bind (boot_readseg d ELFHDR (ucast KERNEL_START_SECTOR) PAGESIZE PAGESIZE s) (\<lambda>s.
     if read32 (snd s) ELFHDR \<noteq> ELF_MAGIC then None
     else
       let phdr = ELFHDR + eh_phoff (snd s) ELFHDR; ephdr = phdr + ELF_PROGRAM_SIZE * ucast (eh_phnum (snd s) ELFHDR)
       in Option.bind (boot_segments d phdr ephdr s) (\<lambda>s. Some (eh_entry (snd s) ELFHDR, s)))"

section \<open>Sectors\<close>

text \<open>A drive that becomes ready again and again.\<close>

definition drive_ready :: "drive \<Rightarrow> bool" where
  "drive_ready d = (\<forall>n. \<exists>k \<ge> n. status d k AND 0xC0 = 0x40)"

lemma waitdisk_returns:
  assumes "drive_ready d"
  shows "\<exists>n. boot_waitdisk d a = Some (a\<lparr>polls := n\<rparr>)"
proof -
  from assms obtain k where k: "polls a \<le> k" "status d k AND 0xC0 = 0x40" by (auto simp: drive_ready_def)
  then show ?thesis
  proof (induction "k - polls a" arbitrary: a)
    case 0
    then show ?case by (subst boot_waitdisk.simps) (auto simp: Let_def)
  next
    case (Suc j)
    let ?a = "a\<lparr>polls := polls a + 1\<rparr>"
    have "j = k - polls ?a" "polls ?a \<le> k" using Suc.hyps(2) by auto
    from Suc.hyps(1) [OF this Suc.prems(2)] obtain n where "boot_waitdisk d ?a = Some (?a\<lparr>polls := n\<rparr>)" by blast
    then show ?case by (subst boot_waitdisk.simps) (auto simp: Let_def)
  qed
qed

lemma lba_bytes: "(x :: nat) mod 256 + 256 * (x div 256 mod 256) + 65536 * (x div 65536 mod 256) + 16777216 * (x div 16777216 mod 16) = x mod 268435456"
proof -
  have "x mod (256 * 256) = 256 * (x div 256 mod 256) + x mod 256" by (rule mod_mult2_eq)
  moreover have "x mod (65536 * 256) = 65536 * (x div 65536 mod 256) + x mod 65536" by (rule mod_mult2_eq)
  moreover have "x mod (16777216 * 16) = 16777216 * (x div 16777216 mod 16) + x mod 16777216" by (rule mod_mult2_eq)
  ultimately show ?thesis by simp
qed

lemma selected_sector_sent:
  fixes x :: u32
  assumes "unat x < 268435456"
  shows "unat (ucast x :: u8) + 256 * unat (ucast (drop_bit 8 x) :: u8) + 65536 * unat (ucast (drop_bit 16 x) :: u8) +
    16777216 * unat ((ucast (drop_bit 24 x OR 0xE0) :: u8) AND 0xF) = unat x"
proof -
  have b: "unat (ucast (drop_bit n x) :: u8) = unat x div 2 ^ n mod 256" for n
    
    by (simp only: unsigned_ucast_eq unat_drop_bit_eq drop_bit_eq_div [of n "unat x"]) (simp add: take_bit_eq_mod)
  have "(ucast (drop_bit 24 x OR 0xE0) :: u8) AND 0xF = ucast (drop_bit 24 x) AND 0xF"
  proof -
    have "(ucast (y OR 0xE0) :: u8) = ucast y OR ucast (0xE0 :: u32)" for y :: u32
      by (rule bit_word_eqI) (auto simp only: bit_ucast_iff bit_or_iff)
    then show ?thesis by (simp add: word_ao_dist)
  qed
  also have "unat \<dots> = unat x div 16777216 mod 16"
  proof -
    have "take_bit 4 w = w AND 0xF" for w :: u8 by (simp only: take_bit_eq_mask) (simp add: mask_eq_exp_minus_1)
    moreover have "take_bit 4 w = w mod 16" for w :: u8 by (simp only: take_bit_eq_mod) simp
    ultimately have "(w :: u8) AND 0xF = w mod 16" for w by metis
    then have "unat ((ucast (drop_bit 24 x) :: u8) AND 0xF) = unat (ucast (drop_bit 24 x) :: u8) mod 16" by (simp only: unat_mod) simp
    also have "\<dots> = unat x div 16777216 mod 256 mod 16" using b [of 24] by simp
    also have "\<dots> = unat x div 16777216 mod 16" by (rule mod_mod_cancel) simp
    finally show ?thesis .
  qed
  finally have top: "unat ((ucast (drop_bit 24 x OR 0xE0) :: u8) AND 0xF) = unat x div 16777216 mod 16" .
  show ?thesis unfolding top using b [of 0] b [of 8] b [of 16] lba_bytes [of "unat x"] assms by simp
qed

text \<open>Reading sectors \<open>q\<close> and following to \<open>[p, e)\<close>.\<close>

definition sectors_read :: "drive \<Rightarrow> nat \<Rightarrow> nat \<Rightarrow> nat \<Rightarrow> memory \<Rightarrow> memory" where
  "sectors_read d p e q m = (\<lambda>x. if p \<le> unat x \<and> unat x < e then disk d (512 * q + (unat x - p)) else m x)"

lemma readsect_result:
  assumes "drive_ready d" and "unat sect < 268435456" and "unat dst + 512 \<le> 18446744073709551616"
  shows "\<exists>a'. boot_readsect d dst sect (a, m) = Some (a', sectors_read d (unat dst) (unat dst + 512) (unat sect) m)"
proof -
  obtain n where n: "boot_waitdisk d a = Some (a\<lparr>polls := n\<rparr>)" using waitdisk_returns [OF assms(1)] by blast
  let ?a = "a\<lparr>polls := n, sector_count := 1, lba_low := ucast sect, lba_mid := ucast (drop_bit 8 sect), lba_high := ucast (drop_bit 16 sect),
    drive_head := ucast (drop_bit 24 sect OR 0xE0)\<rparr>"
  obtain k where k: "boot_waitdisk d ?a = Some (?a\<lparr>polls := k\<rparr>)" using waitdisk_returns [OF assms(1)] by blast
  have s: "selected_sector (?a\<lparr>polls := k\<rparr>) = unat sect" using selected_sector_sent [OF assms(2)] by (simp add: selected_sector_def)
  have "unat (x - dst) < 512 \<longleftrightarrow> unat dst \<le> unat x \<and> unat x < unat dst + 512"
    "unat dst \<le> unat x \<Longrightarrow> unat (x - dst) = unat x - unat dst" for x
  proof -
    have le: "unat dst \<le> unat x \<Longrightarrow> unat (x - dst) = unat x - unat dst" by (simp add: unat_minus_le word_le_nat_alt)
    then show "unat dst \<le> unat x \<Longrightarrow> unat (x - dst) = unat x - unat dst" .
    have "unat x = unat (x - dst) + unat dst \<or> unat x + 18446744073709551616 = unat (x - dst) + unat dst"
      using unat_add_64 [of "x - dst" dst] by (auto split: if_splits)
    then show "unat (x - dst) < 512 \<longleftrightarrow> unat dst \<le> unat x \<and> unat x < unat dst + 512"
      using le assms(3) by (cases "unat dst \<le> unat x") auto
  qed
  then have "insl d dst 128 (?a\<lparr>polls := k\<rparr>, m) = (?a\<lparr>polls := k\<rparr>, sectors_read d (unat dst) (unat dst + 512) (unat sect) m)"
    using s by (auto simp: insl_def sectors_read_def SECTORSIZE_def fun_eq_iff)
  then show ?thesis using n k by (simp add: boot_readsect_def outb_def Let_def SECTORSIZE_def)
qed

section \<open>Segments\<close>

lemma sectors_read_append: "p \<le> e \<Longrightarrow> 512 dvd e - p \<Longrightarrow> e \<le> f \<Longrightarrow>
    sectors_read d e f (q + (e - p) div 512) (sectors_read d p e q m) = sectors_read d p f q m"
  by (auto simp: sectors_read_def fun_eq_iff elim!: dvdE)

lemma sectors_read_empty: "e \<le> p \<Longrightarrow> sectors_read d p e q m = m"
  by (auto simp: sectors_read_def fun_eq_iff)

lemma readseg_loop_result:
  assumes "drive_ready d"
  shows "unat end_ptr \<le> unat ptr + 512 * n \<Longrightarrow> n \<noteq> 0 \<longrightarrow> unat ptr + 512 * n < unat end_ptr + 512 \<Longrightarrow>
    unat ptr + 512 * n < 18446744073709551616 \<Longrightarrow> unat sect + n \<le> 268435456 \<Longrightarrow>
    \<exists>a'. readseg_loop d ptr end_ptr sect (a, m) = Some (a', sectors_read d (unat ptr) (unat ptr + 512 * n) (unat sect) m)"
proof (induction n arbitrary: ptr sect a m)
  case 0
  then show ?case by (subst readseg_loop.simps) (simp add: word_less_nat_alt sectors_read_empty)
next
  case (Suc n)
  have lt: "ptr < end_ptr" using Suc.prems(2) by (simp add: word_less_nat_alt)
  have u: "unat (ptr + 512) = unat ptr + 512" "unat (sect + 1) = unat sect + 1"
    using Suc.prems(3,4) by (simp_all add: unat_word_ariths)
  let ?m = "sectors_read d (unat ptr) (unat ptr + 512) (unat sect) m"
  obtain a1 where a1: "boot_readsect d ptr sect (a, m) = Some (a1, ?m)"
    using readsect_result [OF assms, of sect ptr a m] Suc.prems(3,4) by auto
  have n0: "n \<noteq> 0 \<longrightarrow> unat (ptr + 512) + 512 * n < unat end_ptr + 512" using Suc.prems(2) u by simp
  obtain a2 where a2: "readseg_loop d (ptr + 512) end_ptr (sect + 1) (a1, ?m) =
      Some (a2, sectors_read d (unat ptr + 512) (unat ptr + 512 + 512 * n) (unat sect + 1) ?m)"
    using Suc.IH [of "ptr + 512" "sect + 1" a1 ?m, OF _ n0] Suc.prems u by auto
  have "sectors_read d (unat ptr + 512) (unat ptr + 512 + 512 * n) (unat sect + 1) ?m =
      sectors_read d (unat ptr) (unat ptr + 512 * Suc n) (unat sect) m"
    using sectors_read_append [of "unat ptr" "unat ptr + 512" "unat ptr + 512 + 512 * n" d "unat sect" m] by (simp add: algebra_simps)
  then show ?case using lt a1 a2 by (subst readseg_loop.simps) (simp add: SECTORSIZE_def)
qed

lemma clear_bss_eq: "clear_bss e n m = (\<lambda>x. if unat e \<le> unat x \<and> unat x < unat n then 0 else m x)"
proof (induction e n m rule: clear_bss.induct)
  case (1 e n m)
  show ?case
  proof (cases "e < n")
    case True
    then have "unat (e + 1) = unat e + 1" using unat_lt_64 [of n] by (simp add: unat_add_64 word_less_nat_alt)
    then have "(if unat (e + 1) \<le> unat x \<and> unat x < unat n then 0 else (m(e := 0)) x) =
        (if unat e \<le> unat x \<and> unat x < unat n then 0 else m x)" for x
      using True by (cases "x = e") (auto simp: word_less_nat_alt Suc_le_eq le_less word_unat_eq_iff)
    moreover have "clear_bss e n m = clear_bss (e + 1) n (m(e := 0))" using True by (subst clear_bss.simps) simp
    ultimately show ?thesis unfolding "1.IH" [OF True] by presburger
  next
    case False
    then show ?thesis by (subst clear_bss.simps) (auto simp: fun_eq_iff word_less_nat_alt)
  qed
qed

lemma unat_sector_base: "unat (a AND NOT (of_nat SECTORSIZE - 1) :: u64) = 512 * (unat a div 512)"
proof -
  have "(of_nat SECTORSIZE - 1 :: u64) = mask 9" by (simp add: SECTORSIZE_def mask_eq_exp_minus_1)
  moreover have "unat (a AND NOT (mask 9)) = push_bit 9 (drop_bit 9 (unat a))"
    by (rule bit_eqI) (auto simp: bit_simps possible_bit_def dest: bit_imp_le_length)
  ultimately show ?thesis by (simp add: push_bit_eq_mult drop_bit_eq_div)
qed

text \<open>The range of memory a segment overwrites: whole sectors up to the end of its data, then the cleared part.\<close>

definition extent :: "nat \<Rightarrow> nat \<Rightarrow> nat \<Rightarrow> nat set" where
  "extent va filesz memsz = {512 * (va div 512) ..< max (512 * ((va + filesz + 511) div 512)) (va + memsz)}"

lemma boot_readseg_result:
  fixes va :: u64 and off :: nat
  assumes d: "drive_ready d" and sz: "unat filesz \<le> unat memsz" and small: "unat va + unat memsz < 2 ^ 48"
    and mod: "unat va mod 512 = off mod 512" and sect: "unat sect = 1 + off div 512" and far: "off + unat filesz < 2 ^ 35"
  shows "\<exists>a' m'. boot_readseg d va sect filesz memsz (a, m) = Some (a', m') \<and>
    (\<forall>k < unat memsz. m' (va + word_of_nat k) = (if k < unat filesz then disk d (512 + off + k) else 0)) \<and>
    (\<forall>x. unat x \<notin> extent (unat va) (unat filesz) (unat memsz) \<longrightarrow> m' x = m x)"
proof -
  define p where "p = va AND NOT (of_nat SECTORSIZE - 1)"
  have p: "unat p = 512 * (unat va div 512)" unfolding p_def by (rule unat_sector_base)
  define n where "n = (unat va + unat filesz + 511) div 512 - unat va div 512"
  have e: "unat (va + filesz) = unat va + unat filesz" "unat (memsz + va) = unat va + unat memsz"
    using sz small by (simp_all add: unat_add_64)
  have le: "unat va div 512 \<le> (unat va + unat filesz + 511) div 512" by (rule div_le_mono) simp
  have pn: "unat p + 512 * n = 512 * ((unat va + unat filesz + 511) div 512)" using le by (simp add: p n_def diff_mult_distrib2)
  have up: "unat va + unat filesz \<le> 512 * ((unat va + unat filesz + 511) div 512)"
    "512 * ((unat va + unat filesz + 511) div 512) \<le> unat va + unat filesz + 511"
    using mult_div_mod_eq [of 512 "unat va + unat filesz + 511"] mod_less_divisor [of 512 "unat va + unat filesz + 511"] by linarith+
  have "512 * n \<le> unat filesz + 1022"
    using pn up(2) p mult_div_mod_eq [of 512 "unat va"] mod_less_divisor [of 512 "unat va"] by linarith
  moreover have "512 * (off div 512) \<le> off" by simp
  ultimately have n: "1 + off div 512 + n \<le> 268435456" using far by simp
  have n0: "n \<noteq> 0 \<longrightarrow> unat p + 512 * n < unat (va + filesz) + 512" unfolding pn e using up by linarith
  have b: "unat p + 512 * n < 18446744073709551616" unfolding pn using up(2) small sz by simp
  obtain a' where a': "readseg_loop d p (va + filesz) sect (a, m) = Some (a', sectors_read d (unat p) (unat p + 512 * n) (1 + off div 512) m)"
    using readseg_loop_result [OF d _ n0 b, of sect a m] n up(1) unfolding sect e pn by auto
  let ?m = "clear_bss (va + filesz) (memsz + va) (sectors_read d (unat p) (unat p + 512 * n) (1 + off div 512) m)"
  have r: "boot_readseg d va sect filesz memsz (a, m) = Some (a', ?m)"
    using a' unfolding boot_readseg_def Let_def p_def [symmetric] by simp
  have "?m (va + word_of_nat k) = (if k < unat filesz then disk d (512 + off + k) else 0)" if k: "k < unat memsz" for k
  proof -
    have ku: "unat (word_of_nat k :: u64) = k" using k unat_lt_64 [of memsz] by (intro unat_of_nat_small) simp
    then have u: "unat (va + word_of_nat k) = unat va + k" using k small by (simp add: unat_add_64)
    have "unat va = 512 * (unat va div 512) + off mod 512" using mod mult_div_mod_eq [of 512 "unat va"] by simp
    then have "unat va + k - unat p = off mod 512 + k" unfolding p by linarith
    moreover have "512 * (off div 512) + off mod 512 = off" by simp
    ultimately have ix: "512 * (1 + off div 512) + (unat va + k - unat p) = 512 + off + k" by simp
    have "unat p \<le> unat va + k" unfolding p by simp
    then show ?thesis using k up(1) ix by (simp add: clear_bss_eq sectors_read_def u e pn)
  qed
  moreover have "?m x = m x" if "unat x \<notin> extent (unat va) (unat filesz) (unat memsz)" for x
    using that sz by (auto simp: clear_bss_eq sectors_read_def extent_def e p pn [unfolded p])
  ultimately show ?thesis using r by blast
qed

section \<open>The boot loader loads the kernel\<close>

text \<open>The kernel's executable on the disk, as the memory it would be at address 0.\<close>

definition kernel_file :: "drive \<Rightarrow> memory" where
  "kernel_file d = (\<lambda>a. disk d (512 + unat a))"

definition kernel_program :: "drive \<Rightarrow> nat \<Rightarrow> elf_program" where
  "kernel_program d i = program_at (kernel_file d) (eh_phoff (kernel_file d) 0 + 56 * word_of_nat i)"

definition kernel_programs :: "drive \<Rightarrow> elf_program list" where
  "kernel_programs d = map (kernel_program d) [0..<unat (eh_phnum (kernel_file d) 0)]"

definition program_extent :: "elf_program \<Rightarrow> nat set" where
  "program_extent p = extent (unat (p_va p)) (unat (p_filesz p)) (unat (p_memsz p))"

text \<open>The loaded segment of a program header.\<close>

definition segment_loaded :: "drive \<Rightarrow> elf_program \<Rightarrow> memory \<Rightarrow> bool" where
  "segment_loaded d p m =
     (\<forall>k < unat (p_memsz p). m (p_va p + word_of_nat k) = (if k < unat (p_filesz p) then disk d (512 + unat (p_offset p) + k) else 0))"

definition segment_ok :: "elf_program \<Rightarrow> bool" where
  "segment_ok p =
     (unat (p_filesz p) \<le> unat (p_memsz p) \<and> unat (p_va p) + unat (p_memsz p) < 2 ^ 48 \<and>
      unat (p_offset p) + unat (p_filesz p) < 2 ^ 35 \<and> unat (p_va p) mod 512 = unat (p_offset p) mod 512 \<and>
      program_extent p \<inter> {0x3000..<0x4000} = {})"

text \<open>
  What the disk has to hold: an executable whose headers lie in the first page and whose segments are congruent to
  their file offsets modulo the sector size and occupy disjoint sectors of memory.
\<close>

definition bootable :: "drive \<Rightarrow> bool" where
  "bootable d =
     (read32 (kernel_file d) 0 = ELF_MAGIC \<and>
      unat (eh_phoff (kernel_file d) 0) + 56 * unat (eh_phnum (kernel_file d) 0) \<le> 4096 \<and>
      (\<forall>p \<in> set (kernel_programs d). segment_ok p) \<and>
      sorted_wrt (\<lambda>p q. program_extent p \<inter> program_extent q = {}) (kernel_programs d))"

lemma segment_in_extent: "segment_ok p \<Longrightarrow> k < unat (p_memsz p) \<Longrightarrow> unat (p_va p + word_of_nat k) \<in> program_extent p"
proof -
  assume p: "segment_ok p" and k: "k < unat (p_memsz p)"
  then have "unat (word_of_nat k :: u64) = k" using unat_lt_64 [of "p_memsz p"] by (intro unat_of_nat_small) simp
  then have "unat (p_va p + word_of_nat k) = unat (p_va p) + k" using p k by (simp add: segment_ok_def unat_add_64)
  moreover have "512 * (unat (p_va p) div 512) \<le> unat (p_va p) + k" by (rule order_trans [OF _ le_add1]) simp
  ultimately show ?thesis using k by (simp add: program_extent_def extent_def less_max_iff_disj)
qed

lemma segment_loaded_cong:
  "segment_ok p \<Longrightarrow> (\<And>x. unat x \<in> program_extent p \<Longrightarrow> m' x = m x) \<Longrightarrow> segment_loaded d p m' = segment_loaded d p m"
  using segment_in_extent by (auto simp: segment_loaded_def)

lemma boot_readseg_program:
  assumes "drive_ready d" and "segment_ok p"
  shows "\<exists>a' m'. boot_readseg d (p_va p) (ucast (KERNEL_START_SECTOR + p_offset p div of_nat SECTORSIZE)) (p_filesz p) (p_memsz p) (a, m) = Some (a', m') \<and>
    segment_loaded d p m' \<and> (\<forall>x. unat x \<notin> program_extent p \<longrightarrow> m' x = m x)"
proof -
  have s: "unat (p_offset p) + unat (p_filesz p) < 2 ^ 35" using assms(2) by (simp add: segment_ok_def)
  then have q: "unat (p_offset p) div 512 < 67108864" by simp
  have "unat (KERNEL_START_SECTOR + p_offset p div of_nat SECTORSIZE) = 1 + unat (p_offset p) div 512"
    using q by (simp add: KERNEL_START_SECTOR_def SECTORSIZE_def unat_add_64 unat_div)
  then have "unat (ucast (KERNEL_START_SECTOR + p_offset p div of_nat SECTORSIZE) :: u32) = 1 + unat (p_offset p) div 512"
    using q by (simp only: unsigned_ucast_eq take_bit_nat_def) simp
  from boot_readseg_result [OF assms(1) _ _ _ this, of "p_filesz p" "p_memsz p" "p_va p" a m] assms(2) show ?thesis
    by (simp add: segment_ok_def segment_loaded_def program_extent_def)
qed

text \<open>The headers as the first page of memory at \<open>ELFHDR\<close> shows them.\<close>

definition header_page :: "drive \<Rightarrow> memory \<Rightarrow> bool" where
  "header_page d m = (\<forall>a. unat a < 4096 \<longrightarrow> m (ELFHDR + a) = kernel_file d a)"

lemma header_page_offset:
  assumes "header_page d m" and "unat a + 8 \<le> 4096" and "k < 8"
  shows "m (ELFHDR + a + word_of_nat k) = kernel_file d (a + word_of_nat k)"
proof -
  have "unat (word_of_nat k :: u64) = k" using assms(3) by (intro unat_of_nat_small) simp
  then have "unat (a + word_of_nat k) < 4096" using assms(2,3) by (simp add: unat_add_64)
  then have "m (ELFHDR + (a + word_of_nat k)) = kernel_file d (a + word_of_nat k)" using assms(1) by (auto simp: header_page_def)
  then show ?thesis by (simp add: add.assoc)
qed

lemma header_page_reads:
  assumes "header_page d m" and "unat a + 8 \<le> 4096"
  shows "read64 m (ELFHDR + a) = read64 (kernel_file d) a" "read32 m (ELFHDR + a) = read32 (kernel_file d) a"
    "read16 m (ELFHDR + a) = read16 (kernel_file d) a"
  using header_page_offset [OF assms, of 0] header_page_offset [OF assms, of 1] header_page_offset [OF assms, of 2]
    header_page_offset [OF assms, of 3] header_page_offset [OF assms, of 4] header_page_offset [OF assms, of 5]
    header_page_offset [OF assms, of 6] header_page_offset [OF assms, of 7]
  by (simp_all add: read64_def read32_def read16_def)

lemma program_at_page:
  assumes "header_page d m" and "unat a + 56 \<le> 4096"
  shows "program_at m (ELFHDR + a) = program_at (kernel_file d) a"
proof -
  have u: "unat (a + c) + 8 \<le> 4096" if "unat c \<le> 48" for c using assms(2) that by (simp add: unat_add_64)
  have "read64 m (ELFHDR + a + c) = read64 (kernel_file d) (a + c)" "read32 m (ELFHDR + a + c) = read32 (kernel_file d) (a + c)"
    if "unat c \<le> 48" for c
    using header_page_reads [OF assms(1) u [OF that]] by (simp_all add: add.assoc)
  from this [of 0] this [of 4] this [of 8] this [of 16] this [of 24] this [of 32] this [of 40] this [of 48]
  show ?thesis by (simp add: program_at_def)
qed

lemma header_page_kept:
  assumes "header_page d m" and "\<And>x. 0x3000 \<le> unat x \<Longrightarrow> unat x < 0x4000 \<Longrightarrow> m' x = m x"
  shows "header_page d m'"
proof -
  have "m' (ELFHDR + a) = m (ELFHDR + a)" if "unat a < 4096" for a
    using that by (intro assms(2)) (simp_all add: ELFHDR_def unat_add_64)
  with assms(1) show ?thesis by (simp add: header_page_def)
qed

lemma boot_segments_result:
  assumes d: "drive_ready d" and ok: "\<forall>p \<in> set ps. segment_ok p" and dis: "sorted_wrt (\<lambda>p q. program_extent p \<inter> program_extent q = {}) ps"
    and ps: "\<forall>j < length ps. ps ! j = program_at (kernel_file d) (b + 56 * word_of_nat j)"
    and page: "header_page d m" and fits: "unat b + 56 * length ps \<le> 4096"
  shows "\<exists>a' m'. boot_segments d (ELFHDR + b) (ELFHDR + b + 56 * word_of_nat (length ps)) (a, m) = Some (a', m') \<and>
    header_page d m' \<and> (\<forall>p \<in> set ps. segment_loaded d p m') \<and> (\<forall>x. (\<forall>p \<in> set ps. unat x \<notin> program_extent p) \<longrightarrow> m' x = m x)"
  using ok dis ps page fits
proof (induction ps arbitrary: b a m)
  case Nil
  then show ?case by (subst boot_segments.simps) simp
next
  case (Cons p ps)
  have b: "unat b + 56 \<le> 4096" using Cons.prems(5) by simp
  have p: "p = program_at (kernel_file d) b"
    using Cons.prems(3) [rule_format, of 0] by simp
  have at: "program_at m (ELFHDR + b) = p" using program_at_page [OF Cons.prems(4) b] p by simp
  have n: "unat (word_of_nat (length (p # ps)) :: u64) = length (p # ps)" using Cons.prems(5) by (intro unat_of_nat_small) simp
  have e: "unat (56 * word_of_nat (length (p # ps)) :: u64) = 56 * length (p # ps)"
    using Cons.prems(5) n by (simp only: unat_mult_lem [THEN iffD1] unat_word_ariths) simp
  have lt: "ELFHDR + b < ELFHDR + b + 56 * word_of_nat (length (p # ps))"
    using Cons.prems(5) e unfolding word_less_nat_alt by (simp only: unat_add_64) (simp add: ELFHDR_def)
  obtain a1 m1 where r: "boot_readseg d (p_va p) (ucast (KERNEL_START_SECTOR + p_offset p div of_nat SECTORSIZE)) (p_filesz p) (p_memsz p) (a, m) = Some (a1, m1)"
    "segment_loaded d p m1" "\<forall>x. unat x \<notin> program_extent p \<longrightarrow> m1 x = m x"
    using boot_readseg_program [OF d, of p a m] Cons.prems(1) by auto
  have page1: "header_page d m1"
    using Cons.prems(1) r(3) by (intro header_page_kept [OF Cons.prems(4)]) (auto simp: segment_ok_def disjoint_iff)
  have tl: "\<forall>j < length ps. ps ! j = program_at (kernel_file d) (b + 56 + 56 * word_of_nat j)"
    using Cons.prems(3) [rule_format, of "Suc _"] by (auto simp: algebra_simps)
  have b': "unat (b + 56) = unat b + 56" using b by (simp add: unat_add_64)
  obtain a2 m2 where i: "boot_segments d (ELFHDR + (b + 56)) (ELFHDR + (b + 56) + 56 * word_of_nat (length ps)) (a1, m1) = Some (a2, m2)"
    "header_page d m2" "\<forall>q \<in> set ps. segment_loaded d q m2" "\<forall>x. (\<forall>q \<in> set ps. unat x \<notin> program_extent q) \<longrightarrow> m2 x = m1 x"
    using Cons.IH [OF _ _ tl page1, of a1] Cons.prems b' by auto
  have "segment_loaded d p m2"
  proof -
    have "m2 x = m1 x" if "unat x \<in> program_extent p" for x
      using i(4) Cons.prems(2) that by (auto simp: disjoint_iff)
    then show ?thesis using segment_loaded_cong [of p m2 m1 d] Cons.prems(1) r(2) by auto
  qed
  moreover have "boot_segments d (ELFHDR + b) (ELFHDR + b + 56 * word_of_nat (length (p # ps))) (a, m) = Some (a2, m2)"
    using lt at r(1) i(1) by (subst boot_segments.simps) (simp add: Let_def ELF_PROGRAM_SIZE_def algebra_simps)
  moreover have "m2 x = m x" if "\<forall>q \<in> set (p # ps). unat x \<notin> program_extent q" for x
    using i(4) r(3) that by simp
  ultimately show ?case using i(2,3) by auto
qed

lemma boot_reads_header:
  assumes "drive_ready d"
  shows "\<exists>a' m'. boot_readseg d ELFHDR (ucast KERNEL_START_SECTOR) PAGESIZE PAGESIZE (a, m) = Some (a', m') \<and> header_page d m'"
proof -
  have "unat PAGESIZE \<le> unat PAGESIZE" "unat ELFHDR + unat PAGESIZE < 2 ^ 48" "unat ELFHDR mod 512 = 0 mod 512"
    "unat (ucast KERNEL_START_SECTOR :: u32) = 1 + 0 div 512" "0 + unat PAGESIZE < 2 ^ 35"
    by (simp_all add: ELFHDR_def page_consts KERNEL_START_SECTOR_def)
  from boot_readseg_result [OF assms this, of a m] obtain a' m' where
    r: "boot_readseg d ELFHDR (ucast KERNEL_START_SECTOR) PAGESIZE PAGESIZE (a, m) = Some (a', m')"
    "\<forall>k < 4096. m' (ELFHDR + word_of_nat k) = disk d (512 + k)" by (auto simp: page_consts)
  have "m' (ELFHDR + x) = kernel_file d x" if "unat x < 4096" for x
    using r(2) [rule_format, OF that] by (simp add: kernel_file_def)
  with r(1) show ?thesis by (auto simp: header_page_def)
qed

lemma boot_loads:
  assumes "drive_ready d" and "bootable d"
  shows "\<exists>a' m'. boot d (a, m) = Some (eh_entry (kernel_file d) 0, a', m') \<and> (\<forall>p \<in> set (kernel_programs d). segment_loaded d p m')"
proof -
  from boot_reads_header [OF assms(1), of a m] obtain a1 m1 where
    h: "boot_readseg d ELFHDR (ucast KERNEL_START_SECTOR) PAGESIZE PAGESIZE (a, m) = Some (a1, m1)" "header_page d m1" by blast
  have f: "eh_phoff m1 ELFHDR = eh_phoff (kernel_file d) 0" "eh_phnum m1 ELFHDR = eh_phnum (kernel_file d) 0"
    "read32 m1 ELFHDR = read32 (kernel_file d) 0"
    using header_page_reads [OF h(2), of 0] header_page_reads [OF h(2), of "0x20"] header_page_reads [OF h(2), of "0x38"]
    by (simp_all add: eh_phoff_def eh_phnum_def)
  let ?b = "eh_phoff (kernel_file d) 0" and ?ps = "kernel_programs d"
  have n: "length ?ps = unat (eh_phnum (kernel_file d) 0)" by (simp add: kernel_programs_def)
  have "\<exists>a' m'. boot_segments d (ELFHDR + ?b) (ELFHDR + ?b + 56 * word_of_nat (length ?ps)) (a1, m1) = Some (a', m') \<and>
    header_page d m' \<and> (\<forall>p \<in> set ?ps. segment_loaded d p m') \<and> (\<forall>x. (\<forall>p \<in> set ?ps. unat x \<notin> program_extent p) \<longrightarrow> m' x = m1 x)"
    using assms(2) h(2) by (intro boot_segments_result [OF assms(1)]) (simp_all add: bootable_def n kernel_programs_def kernel_program_def)
  then obtain a2 m2 where r: "boot_segments d (ELFHDR + ?b) (ELFHDR + ?b + 56 * word_of_nat (length ?ps)) (a1, m1) = Some (a2, m2)"
    "header_page d m2" "\<forall>p \<in> set ?ps. segment_loaded d p m2" by blast
  have "eh_entry m2 ELFHDR = eh_entry (kernel_file d) 0"
    using header_page_reads [OF r(2), of "0x18"] by (simp add: eh_entry_def)
  with r assms(2) show ?thesis
    unfolding boot_def h(1) by (simp add: f Let_def bootable_def ELF_PROGRAM_SIZE_def n)
qed

text \<open>
  C26. The boot loader loads the kernel: if the disk controller becomes ready again and again and the disk holds, from its
  second sector on, an executable with its headers in the first page and segments in disjoint sectors, congruent to
  their offsets, then \<open>boot\<close> returns the entry point of the header, with the file's bytes of every segment at their
  addresses in memory and the rest of each segment cleared.
\<close>

theorem boot_loads_kernel:
  assumes "drive_ready d" and "bootable d"
  shows "\<exists>a' m'. boot d (a, m) = Some (eh_entry (kernel_file d) 0, a', m') \<and> (\<forall>p \<in> set (kernel_programs d). segment_loaded d p m')"
  by (rule boot_loads [OF assms])

text \<open>A disk with a kernel of one segment, at address 0x40000.\<close>

definition sample_disk :: "(nat \<times> u8) list" where
  "sample_disk =
     [(512, 0x7F), (513, 0x45), (514, 0x4C), (515, 0x46), (0x21A, 0x04), (0x220, 64), (0x238, 1),
      (0x240, 1), (0x249, 0x10), (0x252, 0x04), (0x260, 4), (0x268, 8), (0x1200, 0x90), (0x1201, 0x90), (0x1202, 0x90), (0x1203, 0xF4)]"

definition sample_drive :: drive where
  "sample_drive = \<lparr>status = (\<lambda>_. 0x50), disk = (\<lambda>n. case map_of sample_disk n of Some b \<Rightarrow> b | None \<Rightarrow> 0)\<rparr>"

lemma sample_kernel_file: "kernel_file sample_drive a = (case map_of sample_disk (512 + unat a) of Some b \<Rightarrow> b | None \<Rightarrow> 0)"
  by (simp add: kernel_file_def sample_drive_def)

lemma sample_headers:
  "read32 (kernel_file sample_drive) 0 = ELF_MAGIC" "eh_phoff (kernel_file sample_drive) 0 = 64"
  "eh_phnum (kernel_file sample_drive) 0 = 1" "eh_entry (kernel_file sample_drive) 0 = 0x40000"
  by (simp_all add: read32_def eh_phoff_def eh_phnum_def eh_entry_def read64_def read16_def sample_kernel_file sample_disk_def ELF_MAGIC_def)

lemma sample_programs: "kernel_programs sample_drive = [kernel_program sample_drive 0]"
  by (simp add: kernel_programs_def sample_headers)

lemma sample_segment:
  "p_va (kernel_program sample_drive 0) = 0x40000" "p_offset (kernel_program sample_drive 0) = 0x1000"
  "p_filesz (kernel_program sample_drive 0) = 4" "p_memsz (kernel_program sample_drive 0) = 8"
  by (simp_all add: kernel_program_def program_at_def sample_headers read64_def sample_kernel_file sample_disk_def)

lemma sample_bootable: "drive_ready sample_drive" "bootable sample_drive"
proof -
  show "drive_ready sample_drive" by (auto simp: drive_ready_def sample_drive_def)
  have "0x4000 \<le> 512 * ((0x40000 :: nat) div 512)" by simp
  then have "program_extent (kernel_program sample_drive 0) \<inter> {0x3000..<0x4000} = {}"
    unfolding program_extent_def sample_segment extent_def disjoint_iff atLeastLessThan_iff by simp
  then have "segment_ok (kernel_program sample_drive 0)" by (simp add: segment_ok_def sample_segment)
  then show "bootable sample_drive" by (simp add: bootable_def sample_headers sample_programs)
qed

theorem boot_loads_kernel_witness:
  "\<exists>a' m'. boot sample_drive (\<lparr>sector_count = 0, lba_low = 0, lba_mid = 0, lba_high = 0, drive_head = 0, polls = 0\<rparr>, \<lambda>_. 0xEE) =
     Some (0x40000, a', m') \<and> m' 0x40003 = 0xF4 \<and> m' 0x40004 = 0"
proof -
  obtain a' m' where b: "boot sample_drive (\<lparr>sector_count = 0, lba_low = 0, lba_mid = 0, lba_high = 0, drive_head = 0, polls = 0\<rparr>, \<lambda>_. 0xEE) =
      Some (eh_entry (kernel_file sample_drive) 0, a', m')" "\<forall>p \<in> set (kernel_programs sample_drive). segment_loaded sample_drive p m'"
    using boot_loads_kernel [OF sample_bootable] by blast
  then have l: "\<forall>k < 8. m' (0x40000 + word_of_nat k) = (if k < 4 then disk sample_drive (512 + 0x1000 + k) else 0)"
    by (simp add: sample_programs segment_loaded_def sample_segment)
  from l [rule_format, of 3] l [rule_format, of 4] have "m' 0x40003 = 0xF4 \<and> m' 0x40004 = 0"
    by (simp add: sample_drive_def sample_disk_def)
  with b(1) sample_headers(4) show ?thesis by auto
qed

end
