(* ===== verification/HostIO.thy ===== *)
theory HostIO
  imports Prelude
begin

unbundle bit_operations_syntax

text \<open>
  What the host system answers to the \<open>read\<close> and \<open>write\<close> calls of the build tools. A program that loops over a call
  consumes a list of answers; when the list is used up it is still in the loop, and its result is \<open>None\<close>.
\<close>

text \<open>One \<open>read\<close>: some bytes (none at the end of the file), an interruption that is retried, or an error.\<close>

datatype read_result = Chunk "u8 list" | ReadAgain | ReadFailed

text \<open>One \<open>write\<close>: how many bytes were written, an interruption that is retried, or an error.\<close>

datatype write_result = Wrote nat | WriteAgain | WriteFailed

text \<open>The byte at a position of a file, 0 beyond its end.\<close>

definition byte_of :: "u8 list \<Rightarrow> nat \<Rightarrow> u8" where
  "byte_of bs n = (if n < length bs then bs ! n else 0)"

lemma byte_of_append [simp]: "byte_of (xs @ ys) n = (if n < length xs then byte_of xs n else byte_of ys (n - length xs))"
  by (auto simp: byte_of_def nth_append)

lemma byte_of_zeros [simp]: "byte_of (replicate k 0) n = 0"
  by (simp add: byte_of_def)

text \<open>Little-endian numbers in a byte list.\<close>

definition le_value :: "u8 list \<Rightarrow> u64" where
  "le_value bs = foldr (\<lambda>b v. ucast b OR push_bit 8 v) bs 0"

definition le_bytes :: "nat \<Rightarrow> u64 \<Rightarrow> u8 list" where
  "le_bytes n v = map (\<lambda>k. ucast (drop_bit (8 * k) v)) [0..<n]"

definition bytes_at :: "u8 list \<Rightarrow> nat \<Rightarrow> nat \<Rightarrow> u8 list" where
  "bytes_at bs off n = take n (drop off bs)"

end
