(* ===== verification/Symtab.thy ===== *)
theory Symtab
  imports Loader HostIO
begin

unbundle bit_operations_syntax

text \<open>
  The host tool \<open>weensyos/build/mkchickadeesymtab.cc\<close>, which prepares the kernel's executable for \<open>lookup_symbol\<close>: it
  checks the ELF file, moves the symbol table to a page boundary, fills in the kernel's \<open>symtab\<close> structure, sorts the
  symbols and adds a program header that loads them. The file is held parsed: its bytes, its header, its program and section
  headers, and the symbols of each symbol section; writing through the tool's pointers updates these.
\<close>

section \<open>The file\<close>

record elf_section =
  sh_name :: u32
  sh_type :: u32
  sh_flags :: u64
  sh_addr :: u64
  sh_offset :: u64
  sh_size :: u64
  sh_link :: u32
  sh_info :: u32
  sh_addralign :: u64
  sh_entsize :: u64

record elf_hdr =
  h_magic :: u32
  h_phoff :: u64
  h_shoff :: u64
  h_phentsize :: u16
  h_phnum :: u16
  h_shentsize :: u16
  h_shnum :: u16
  h_shstrndx :: u16

definition ELF_PFLAG_READ :: u32 where "ELF_PFLAG_READ = 4"
definition ELF_SHT_NULL :: u32 where "ELF_SHT_NULL = 0"
definition ELF_SHT_PROGBITS :: u32 where "ELF_SHT_PROGBITS = 1"
definition ELF_SHT_SYMTAB :: u32 where "ELF_SHT_SYMTAB = 2"
definition ELF_SHT_STRTAB :: u32 where "ELF_SHT_STRTAB = 3"
definition ELF_SHT_NOBITS :: u32 where "ELF_SHT_NOBITS = 8"
definition ELF_SHF_ALLOC :: u64 where "ELF_SHF_ALLOC = 2"
definition ELF_STT_MASK :: u8 where "ELF_STT_MASK = 0x0F"
definition ELF_STT_OBJECT :: u8 where "ELF_STT_OBJECT = 0x01"
definition ELF_STT_FUNC :: u8 where "ELF_STT_FUNC = 0x02"

lemmas sht_consts = ELF_SHT_NULL_def ELF_SHT_PROGBITS_def ELF_SHT_SYMTAB_def ELF_SHT_STRTAB_def ELF_SHT_NOBITS_def

text \<open>
  \<open>data\<close> is \<open>data_[0..size_)\<close>; \<open>cached\<close> is the section \<open>symtab_\<close> points into, if it is not null.
\<close>

record elf_info =
  data :: "u8 list"
  capacity :: nat
  changed :: bool
  ok :: bool
  eh :: elf_hdr
  pht :: "elf_program list"
  sht :: "elf_section list"
  sec_symbols :: "nat \<Rightarrow> elf_symbol list"
  cached :: "nat option"

text \<open>Everything that ends the tool: a rejected file, a failed assertion, or an access outside the file's bytes.\<close>

datatype tool_error = NotElf | ComponentSizes | EmptyComponents | BadOffsets | NoStringTable | BadStringTable | BadSection nat
  | NoSymtab | BadLinks | HeaderSpans | ProgramSpans nat | SectionSpans nat | BadSymbolSize | BadReference | NoSymbol | BadProgramHeaders
  | AssertFailed | OutOfBounds

definition size_of :: "elf_info \<Rightarrow> nat" where
  "size_of ei = length (data ei)"

definition grow :: "nat \<Rightarrow> elf_info \<Rightarrow> elf_info" where
  "grow cap ei =
     (if cap > capacity ei then
        let ei = ei\<lparr>capacity := max cap (capacity ei + 32768)\<rparr> in if ok ei then ei\<lparr>cached := None\<rparr> else ei
      else ei)"

text \<open>The string at an offset: the bytes before the next zero byte.\<close>

definition cstring_at :: "u8 list \<Rightarrow> nat \<Rightarrow> u8 list" where
  "cstring_at bs n = takeWhile (\<lambda>b. b \<noteq> 0) (drop n bs)"

definition bytes_of :: "string \<Rightarrow> u8 list" where
  "bytes_of = map of_char"

section \<open>Checking the file\<close>

definition has_contents :: "elf_section \<Rightarrow> bool" where
  "has_contents sh = (sh_type sh \<noteq> ELF_SHT_NULL \<and> sh_type sh \<noteq> ELF_SHT_NOBITS)"

definition section_valid :: "elf_info \<Rightarrow> u64 \<Rightarrow> nat \<Rightarrow> bool" where
  "section_valid ei shstrtab_size i =
     (let sh = sht ei ! i; sz = size_of ei in
      \<not> (i = 0 \<and> sh_type sh \<noteq> ELF_SHT_NULL) \<and>
      unat (sh_name sh) < unat shstrtab_size \<and>
      \<not> (has_contents sh \<and> (unat (sh_offset sh) \<ge> sz \<or> unat (sh_size sh) > sz - unat (sh_offset sh))) \<and>
      (sh_type sh = ELF_SHT_SYMTAB \<longrightarrow>
         \<not> (sh_link sh \<ge> ucast (h_shnum (eh ei)) \<or> sh_type (sht ei ! unat (sh_link sh)) \<noteq> ELF_SHT_STRTAB) \<and>
         list_all (\<lambda>y. unat (st_name y) < unat (sh_size (sht ei ! unat (sh_link sh)))) (sec_symbols ei i)) \<and>
      (sh_type sh = ELF_SHT_STRTAB \<longrightarrow>
         \<not> (sh_size sh = 0 \<or> data ei ! unat (sh_offset sh) \<noteq> 0 \<or> data ei ! (unat (sh_offset sh) + unat (sh_size sh) - 1) \<noteq> 0)))"

text \<open>
  The string table of the section names is looked at before the loop has checked that sections lie inside the file; the
  model makes the access visible.
\<close>

definition validate :: "elf_info \<Rightarrow> tool_error + elf_info" where
  "validate ei =
     (let h = eh ei; sz = size_of ei; sh = sht ei ! unat (h_shstrndx h); off = unat (sh_offset sh); n = unat (sh_size sh) in
      if ok ei then Inr ei
      else if sz < 64 \<or> h_magic h \<noteq> ELF_MAGIC then Inl NotElf
      else if h_phentsize h \<noteq> 56 \<or> h_shentsize h \<noteq> 64 then Inl ComponentSizes
      else if h_phnum h = 0 \<or> h_shnum h = 0 then Inl EmptyComponents
      else if unat (h_phoff h) \<ge> sz \<or> (sz - unat (h_phoff h)) div 56 < unat (h_phnum h) \<or>
              unat (h_shoff h) \<ge> sz \<or> (sz - unat (h_shoff h)) div 64 < unat (h_shnum h) then Inl BadOffsets
      else if h_shstrndx h = 0 \<or> h_shstrndx h \<ge> h_shnum h \<or> sh_type sh \<noteq> ELF_SHT_STRTAB \<or> sh_size sh = 0 then Inl NoStringTable
      else if off \<ge> sz \<or> off + n > sz then Inl OutOfBounds
      else if data ei ! off \<noteq> 0 \<or> data ei ! (off + n - 1) \<noteq> 0 then Inl BadStringTable
      else (case List.find (\<lambda>i. \<not> section_valid ei (sh_size sh) i) [0..<unat (h_shnum h)] of
              Some i \<Rightarrow> Inl (BadSection i) | None \<Rightarrow> Inr (ei\<lparr>ok := True\<rparr>)))"

section \<open>Sections and symbols\<close>

definition shstrtab :: "elf_info \<Rightarrow> nat" where
  "shstrtab ei = unat (sh_offset (sht ei ! unat (h_shstrndx (eh ei))))"

definition section_name :: "elf_info \<Rightarrow> nat \<Rightarrow> u8 list" where
  "section_name ei i = cstring_at (data ei) (shstrtab ei + unat (sh_name (sht ei ! i)))"

definition find_section :: "string \<Rightarrow> elf_info \<Rightarrow> nat" where
  "find_section name ei =
     (case List.find (\<lambda>i. section_name ei i = bytes_of name) [0..<unat (h_shnum (eh ei))] of Some i \<Rightarrow> i | None \<Rightarrow> 0)"

definition first_offset :: "elf_info \<Rightarrow> u64" where
  "first_offset ei = fold (\<lambda>sh off. if has_contents sh then min off (sh_offset sh) else off) (sht ei) (NOT 0)"

definition fetch_symtab :: "elf_info \<Rightarrow> elf_info" where
  "fetch_symtab ei =
     (if cached ei = None then
        let i = find_section ''.symtab'' ei
        in if i \<noteq> 0 \<and> sh_type (sht ei ! i) = ELF_SHT_SYMTAB then ei\<lparr>cached := Some i\<rparr> else ei
      else ei)"

definition symtab :: "elf_info \<Rightarrow> elf_symbol list" where
  "symtab ei = (case cached ei of None \<Rightarrow> [] | Some i \<Rightarrow> sec_symbols ei i)"

definition symbol_name :: "elf_info \<Rightarrow> elf_symbol \<Rightarrow> u8 list" where
  "symbol_name ei y =
     (case cached ei of
        None \<Rightarrow> [] | Some i \<Rightarrow> cstring_at (data ei) (unat (sh_offset (sht ei ! unat (sh_link (sht ei ! i)))) + unat (st_name y)))"

text \<open>\<open>find_symbol\<close>: the first symbol of that name from index \<open>i\<close> on.\<close>

definition find_symbol :: "string \<Rightarrow> nat \<Rightarrow> elf_info \<Rightarrow> nat option" where
  "find_symbol name i ei = List.find (\<lambda>j. symbol_name ei (symtab ei ! j) = bytes_of name) [i..<length (symtab ei)]"

definition is_special :: "elf_symbol \<Rightarrow> bool" where
  "is_special y = (st_info y AND ELF_STT_MASK > ELF_STT_FUNC)"

definition symbol_less :: "elf_symbol \<Rightarrow> elf_symbol \<Rightarrow> bool" where
  "symbol_less a b =
     (if is_special a \<or> is_special b then is_special a \<and> \<not> is_special b
      else st_value a < st_value b \<or> st_value a = st_value b \<and> st_size a < st_size b)"

text \<open>The scan for the first symbol out of order starts at index 2: the null symbol at index 0 is left alone.\<close>

function first_unsorted :: "elf_symbol list \<Rightarrow> nat \<Rightarrow> nat" where
  "first_unsorted syms i = (if i < length syms \<and> \<not> symbol_less (syms ! i) (syms ! (i - 1)) then first_unsorted syms (i + 1) else i)"
  by pat_completeness auto

termination
  by (relation "measure (\<lambda>(syms, i). length syms - i)") auto

declare first_unsorted.simps [simp del]

definition sort_symtab :: "elf_info \<Rightarrow> elf_info" where
  "sort_symtab ei =
     (let ei = fetch_symtab ei; syms = symtab ei; i = first_unsorted syms 2
      in case cached ei of
           None \<Rightarrow> ei
         | Some k \<Rightarrow>
             if i < length syms
             then ei\<lparr>sec_symbols := (sec_symbols ei)(k := take 1 syms @ std_sort symbol_less (drop 1 syms)), changed := True\<rparr>
             else ei)"

section \<open>Moving sections\<close>

text \<open>The loops over the headers, which stop the tool at the first header that spans the boundary.\<close>

fun shift_programs :: "nat \<Rightarrow> u64 \<Rightarrow> u64 \<Rightarrow> elf_program list \<Rightarrow> tool_error + elf_program list" where
  "shift_programs i offset diff [] = Inr []"
| "shift_programs i offset diff (p # ps) =
     (if p_offset p \<ge> offset then map_sum id (Cons (p\<lparr>p_offset := p_offset p + diff\<rparr>)) (shift_programs (i + 1) offset diff ps)
      else if p_offset p + p_filesz p > offset then Inl (ProgramSpans i)
      else map_sum id (Cons p) (shift_programs (i + 1) offset diff ps))"

fun shift_headers :: "nat \<Rightarrow> u64 \<Rightarrow> u64 \<Rightarrow> elf_section list \<Rightarrow> tool_error + elf_section list" where
  "shift_headers i offset diff [] = Inr []"
| "shift_headers i offset diff (s # ss) =
     (if sh_offset s \<ge> offset then map_sum id (Cons (s\<lparr>sh_offset := sh_offset s + diff\<rparr>)) (shift_headers (i + 1) offset diff ss)
      else if has_contents s \<and> sh_offset s + sh_size s > offset then Inl (SectionSpans i)
      else map_sum id (Cons s) (shift_headers (i + 1) offset diff ss))"

definition shift_sections :: "u64 \<Rightarrow> u64 \<Rightarrow> elf_info \<Rightarrow> tool_error + elf_info" where
  "shift_sections offset diff ei =
     (if \<not> (unat offset < size_of ei \<and> diff > 0) then Inl AssertFailed
      else if h_phoff (eh ei) + ucast (h_phnum (eh ei)) * 56 \<ge> offset then Inl HeaderSpans
      else case shift_programs 0 offset diff (pht ei) of
        Inl e \<Rightarrow> Inl e
      | Inr ps \<Rightarrow>
          (case shift_headers 0 offset diff (sht ei) of
             Inl e \<Rightarrow> Inl e
           | Inr ss \<Rightarrow>
               let ei = grow (size_of ei + unat diff) (ei\<lparr>pht := ps, sht := ss\<rparr>);
                   ei = ei\<lparr>data := take (unat offset) (data ei) @ replicate (unat diff) 0 @ drop (unat offset) (data ei), changed := True\<rparr>
               in Inr (if h_shoff (eh ei) \<ge> offset then ei\<lparr>eh := (eh ei)\<lparr>h_shoff := h_shoff (eh ei) + diff\<rparr>\<rparr> else ei)))"

section \<open>Filling in the reference to the table\<close>

definition patch :: "nat \<Rightarrow> u8 list \<Rightarrow> u8 list \<Rightarrow> u8 list" where
  "patch off new bs = take off bs @ new @ drop (off + length new) bs"

text \<open>One symbol of the wanted name: the load address so far, the file, and the number of references filled in.\<close>

definition rewrite_one :: "u64 \<Rightarrow> u64 \<Rightarrow> nat \<Rightarrow> u64 \<times> elf_info \<times> nat \<Rightarrow> tool_error + u64 \<times> elf_info \<times> nat" where
  "rewrite_one strtab_off sz j = (\<lambda>(loadaddr, ei, n).
     let y = symtab ei ! j in
     if st_info y AND ELF_STT_MASK = ELF_STT_OBJECT \<and> st_shndx y < h_shnum (eh ei) then
       let sh = sht ei ! unat (st_shndx y); off = unat (sh_offset sh + (st_value y - sh_addr sh)) in
       if st_size y \<noteq> 32 then Inl BadSymbolSize
       else if sh_type sh \<noteq> ELF_SHT_PROGBITS \<or> st_value y < sh_addr sh \<or> st_value y \<ge> sh_addr sh + sh_size sh - 32 then Inl BadReference
       else if off + 32 > size_of ei then Inl OutOfBounds
       else
         let loadaddr = (if loadaddr = 0 then le_value (bytes_at (data ei) off 8) else loadaddr);
             xstref = le_bytes 8 loadaddr @ le_bytes 8 (word_of_nat (length (symtab ei))) @ le_bytes 8 (loadaddr + strtab_off) @ le_bytes 8 sz
         in Inr (loadaddr, if bytes_at (data ei) off 32 \<noteq> xstref then ei\<lparr>data := patch off xstref (data ei), changed := True\<rparr> else ei, n + 1)
     else Inr (loadaddr, ei, n))"

lemma find_symbol_bounds: "find_symbol name i ei = Some j \<Longrightarrow> i \<le> j \<and> j < length (symtab ei)"
  by (auto simp: find_symbol_def find_Some_iff)

lemma rewrite_one_symtab: "rewrite_one strtab_off sz j (a, ei, n) = Inr (a', ei', n') \<Longrightarrow> symtab ei' = symtab ei"
  by (auto simp: rewrite_one_def Let_def symtab_def split: if_splits option.splits)

function rewrite_loop :: "string \<Rightarrow> u64 \<Rightarrow> u64 \<Rightarrow> nat \<Rightarrow> u64 \<times> elf_info \<times> nat \<Rightarrow> tool_error + u64 \<times> elf_info \<times> nat" where
  "rewrite_loop name strtab_off sz i (a, ei, n) =
     (case find_symbol name i ei of
        None \<Rightarrow> Inr (a, ei, n)
      | Some j \<Rightarrow>
          (case rewrite_one strtab_off sz j (a, ei, n) of
             Inl e \<Rightarrow> Inl e | Inr (a, ei, n) \<Rightarrow> rewrite_loop name strtab_off sz (j + 1) (a, ei, n)))"
  by pat_completeness auto

termination
  by (relation "measure (\<lambda>(name, o', sz, i, (a, ei, n)). length (symtab ei) - i)")
    (auto dest!: find_symbol_bounds rewrite_one_symtab)

declare rewrite_loop.simps [simp del]

definition rewrite_symtabref :: "string \<Rightarrow> u64 \<Rightarrow> u64 \<Rightarrow> u64 \<Rightarrow> elf_info \<Rightarrow> tool_error + u64 \<times> elf_info \<times> nat" where
  "rewrite_symtabref name loadaddr strtab_off sz ei = rewrite_loop name strtab_off sz 0 (loadaddr, fetch_symtab ei, 0)"

section \<open>Preparing the file\<close>

definition align_symtab :: "nat \<Rightarrow> elf_info \<Rightarrow> tool_error + elf_info" where
  "align_symtab k ei =
     (let s = sht ei ! k in
      if sh_offset s AND 0xFFF \<noteq> 0 then
        if \<not> sh_addralign s < 0x1000 then Inl AssertFailed
        else shift_sections (sh_offset s) (0x1000 - (sh_offset s AND 0xFFF))
               (ei\<lparr>sht := (sht ei)[k := s\<lparr>sh_addralign := 0x1000\<rparr>], changed := True\<rparr>)
      else Inr ei)"

definition mark_allocated :: "nat \<Rightarrow> u64 \<Rightarrow> u64 \<Rightarrow> elf_info \<Rightarrow> elf_info" where
  "mark_allocated k loadaddr addr ei =
     (let s = sht ei ! k in
      if loadaddr \<noteq> 0 \<and> sh_flags s AND ELF_SHF_ALLOC = 0
      then ei\<lparr>sht := (sht ei)[k := s\<lparr>sh_flags := sh_flags s OR ELF_SHF_ALLOC, sh_addr := addr\<rparr>], changed := True\<rparr>
      else ei)"

definition header_index :: "u64 \<Rightarrow> elf_program list \<Rightarrow> nat" where
  "header_index loadaddr ps = length (takeWhile (\<lambda>p. p_va p + p_filesz p < loadaddr) ps)"

definition add_program_header :: "u64 \<Rightarrow> u64 \<Rightarrow> u64 \<Rightarrow> elf_info \<Rightarrow> tool_error + elf_info" where
  "add_program_header loadaddr first end_off ei =
     (let i = header_index loadaddr (pht ei); p = pht ei ! i in
      if loadaddr = 0 \<or> i \<noteq> length (pht ei) \<and> p_va p = loadaddr \<and> p_offset p = first \<and> p_filesz p \<ge> end_off - first then Inr ei
      else
        let offset0 = first_offset ei in
        if h_phoff (eh ei) + (ucast (h_phnum (eh ei)) + 1) * 56 > offset0 \<or> h_shoff (eh ei) \<le> offset0 then Inl BadProgramHeaders
        else
          let q = \<lparr>p_type = ELF_PTYPE_LOAD, p_flags = ELF_PFLAG_READ, p_offset = first, p_va = loadaddr, p_pa = loadaddr,
                    p_filesz = end_off - first, p_memsz = end_off - first, p_align = 0x1000\<rparr>
          in Inr (ei\<lparr>pht := take i (pht ei) @ q # drop i (pht ei), eh := (eh ei)\<lparr>h_phnum := h_phnum (eh ei) + 1\<rparr>, changed := True\<rparr>))"

text \<open>The body of \<open>main\<close> between reading and writing; \<open>required\<close> says that the name was given on the command line.\<close>

definition prepare :: "string \<Rightarrow> bool \<Rightarrow> u64 \<Rightarrow> elf_info \<Rightarrow> tool_error + elf_info" where
  "prepare name required loadaddr ei =
     (case validate ei of Inl e \<Rightarrow> Inl e | Inr ei \<Rightarrow>
      let k = find_section ''.symtab'' ei in
      if k = 0 \<or> sh_type (sht ei ! k) \<noteq> ELF_SHT_SYMTAB then Inl NoSymtab
      else if unat (sh_link (sht ei ! k)) \<ge> unat (h_shnum (eh ei)) \<or> unat (sh_link (sht ei ! k)) \<noteq> k + 1 \<or>
              sh_type (sht ei ! (k + 1)) \<noteq> ELF_SHT_STRTAB then Inl BadLinks
      else case align_symtab k ei of Inl e \<Rightarrow> Inl e | Inr ei \<Rightarrow>
      let first = sh_offset (sht ei ! k); strtab = sh_offset (sht ei ! (k + 1)); end_off = strtab + sh_size (sht ei ! (k + 1)) in
      case rewrite_symtabref name loadaddr (strtab - first) (end_off - first) ei of Inl e \<Rightarrow> Inl e | Inr (loadaddr, ei, n) \<Rightarrow>
      if n = 0 \<and> required then Inl NoSymbol
      else
        let ei = sort_symtab ei;
            ei = mark_allocated k loadaddr loadaddr ei;
            ei = mark_allocated (k + 1) loadaddr (loadaddr + strtab - first) ei
        in add_program_header loadaddr first end_off ei)"

section \<open>Reading and writing files\<close>

text \<open>\<open>None\<close>: still reading when the given results are used up. An empty chunk is the end of the file.\<close>

fun read_file :: "read_result list \<Rightarrow> elf_info \<Rightarrow> (unit + elf_info) option" where
  "read_file [] ei = None"
| "read_file (r # rs) ei =
     (let ei = (if size_of ei = capacity ei then grow (capacity ei * 2) ei else ei)
      in case r of
           Chunk [] \<Rightarrow> Some (Inr ei)
         | Chunk bs \<Rightarrow> read_file rs (ei\<lparr>data := data ei @ take (capacity ei - size_of ei) bs\<rparr>)
         | ReadAgain \<Rightarrow> read_file rs ei
         | ReadFailed \<Rightarrow> Some (Inl ()))"

fun write_file :: "write_result list \<Rightarrow> u8 list \<Rightarrow> u8 list \<Rightarrow> (unit + u8 list) option" where
  "write_file rs [] out = Some (Inr out)"
| "write_file [] (b # bs) out = None"
| "write_file (r # rs) (b # bs) out =
     (case r of
        Wrote w \<Rightarrow> write_file rs (drop w (b # bs)) (out @ take w (b # bs))
      | WriteAgain \<Rightarrow> write_file rs (b # bs) out
      | WriteFailed \<Rightarrow> Some (Inl ()))"

section \<open>The sorted table\<close>



















definition sample_symbol :: "u32 \<Rightarrow> u64 \<Rightarrow> u64 \<Rightarrow> elf_symbol" where
  "sample_symbol name v sz = \<lparr>st_name = name, st_info = 2, st_other = 0, st_shndx = 1, st_value = v, st_size = sz\<rparr>"

text \<open>A file of 4608 bytes whose third section, at offset 0x1100, is an unsorted symbol table.\<close>

definition sample_section :: "u32 \<Rightarrow> u32 \<Rightarrow> u64 \<Rightarrow> u64 \<Rightarrow> u32 \<Rightarrow> elf_section" where
  "sample_section name ty off sz link = \<lparr>sh_name = name, sh_type = ty, sh_flags = 0, sh_addr = 0, sh_offset = off, sh_size = sz, sh_link = link,
     sh_info = 0, sh_addralign = 8, sh_entsize = 0\<rparr>"

definition sample_data :: "u8 list" where
  "sample_data = replicate 4608 0"

lemma sample_data [simp]: "length sample_data = 4608" "i < 4608 \<Longrightarrow> sample_data ! i = 0"
  unfolding sample_data_def by (simp_all only: length_replicate nth_replicate)

definition sample_info :: elf_info where
  "sample_info =
     \<lparr>data = sample_data, capacity = 32768, changed = False, ok = False,
      eh = \<lparr>h_magic = ELF_MAGIC, h_phoff = 64, h_shoff = 0x200, h_phentsize = 56, h_phnum = 1, h_shentsize = 64, h_shnum = 4, h_shstrndx = 1\<rparr>,
      pht = [\<lparr>p_type = 1, p_flags = 5, p_offset = 0x1000, p_va = 0x40000, p_pa = 0, p_filesz = 0x100, p_memsz = 0x100, p_align = 0\<rparr>],
      sht = [sample_section 0 0 0 0 0, sample_section 0 3 0x1180 8 0, sample_section 0 2 0x1100 72 3, sample_section 0 3 0x1190 16 0],
      sec_symbols = (\<lambda>_. [sample_symbol 0 0 0, sample_symbol 5 0x40200 0x10, sample_symbol 1 0x40000 0x100]),
      cached = Some 2\<rparr>"

text \<open>The same file with a section symbol in its table.\<close>

definition section_symbol :: "u64 \<Rightarrow> elf_symbol" where
  "section_symbol v = (sample_symbol 0 v 0)\<lparr>st_info := 3\<rparr>"



lemma sample_special [simp]: "\<not> is_special (sample_symbol name v sz)" "is_special (section_symbol v)"
  by (simp_all add: is_special_def sample_symbol_def section_symbol_def ELF_STT_MASK_def ELF_STT_FUNC_def)


text \<open>A section symbol above the address leads the search astray: here it answers with the null symbol.\<close>

lemma section_symbol_misleads:
  "fst (lookup_symbol 0 [sample_symbol 0 0 0, section_symbol 0x70000, sample_symbol 1 0x40000 0x100] 0x40080 m) = Some (0, 0)"
  by (simp add: lookup_symbol_def lookup_loop.simps covers_def Let_def) (simp add: sample_symbol_def section_symbol_def)

section \<open>Aligning the symbol table keeps all contents\<close>

text \<open>The parsed tables have the lengths the header says.\<close>

definition views_ok :: "elf_info \<Rightarrow> bool" where
  "views_ok ei = (length (sht ei) = unat (h_shnum (eh ei)) \<and> length (pht ei) = unat (h_phnum (eh ei)))"

lemma validate_sections:
  assumes "validate ei0 = Inr ei" and "\<not> ok ei0" and "views_ok ei0" and "i < length (sht ei)" and "has_contents (sht ei ! i)"
  shows "unat (sh_offset (sht ei ! i)) + unat (sh_size (sht ei ! i)) \<le> size_of ei"
proof -
  have e: "ei = ei0\<lparr>ok := True\<rparr>" "List.find (\<lambda>i. \<not> section_valid ei0 (sh_size (sht ei0 ! unat (h_shstrndx (eh ei0)))) i) [0..<unat (h_shnum (eh ei0))] = None"
    using assms(1,2) by (auto simp: validate_def Let_def split: if_splits option.splits)
  then have "section_valid ei0 (sh_size (sht ei0 ! unat (h_shstrndx (eh ei0)))) i"
    using assms(3,4) by (auto simp: find_None_iff views_ok_def)
  with assms(5) e(1) show ?thesis by (auto simp: section_valid_def Let_def size_of_def)
qed

definition section_bytes :: "elf_info \<Rightarrow> nat \<Rightarrow> u8 list" where
  "section_bytes ei i = bytes_at (data ei) (unat (sh_offset (sht ei ! i))) (unat (sh_size (sht ei ! i)))"

definition program_bytes :: "elf_info \<Rightarrow> nat \<Rightarrow> u8 list" where
  "program_bytes ei i = bytes_at (data ei) (unat (p_offset (pht ei ! i))) (unat (p_filesz (pht ei ! i)))"

lemma bytes_at_gap:
  "off \<le> length bs \<Longrightarrow> p + n \<le> off \<Longrightarrow> bytes_at (take off bs @ gap @ drop off bs) p n = bytes_at bs p n"
  "off \<le> p \<Longrightarrow> off \<le> length bs \<Longrightarrow> bytes_at (take off bs @ gap @ drop off bs) (p + length gap) n = bytes_at bs p n"
  by (auto simp: bytes_at_def drop_take min_def)

lemma shift_headers_result:
  "shift_headers i off diff ss = Inr ss' \<Longrightarrow> length ss' = length ss \<and>
     (\<forall>k < length ss. ss' ! k = (if sh_offset (ss ! k) \<ge> off then (ss ! k)\<lparr>sh_offset := sh_offset (ss ! k) + diff\<rparr> else ss ! k) \<and>
        (has_contents (ss ! k) \<longrightarrow> sh_offset (ss ! k) \<ge> off \<or> sh_offset (ss ! k) + sh_size (ss ! k) \<le> off))"
proof (induction i off diff ss arbitrary: ss' rule: shift_headers.induct)
  case (2 i off diff s ss)
  then obtain t where t: "shift_headers (i + 1) off diff ss = Inr t"
    "ss' = (if sh_offset s \<ge> off then s\<lparr>sh_offset := sh_offset s + diff\<rparr> else s) # t"
    "has_contents s \<longrightarrow> sh_offset s \<ge> off \<or> sh_offset s + sh_size s \<le> off"
    by (cases "shift_headers (i + 1) off diff ss") (auto simp: not_less split: if_splits)
  have "length t = length ss \<and>
     (\<forall>k < length ss. t ! k = (if sh_offset (ss ! k) \<ge> off then (ss ! k)\<lparr>sh_offset := sh_offset (ss ! k) + diff\<rparr> else ss ! k) \<and>
        (has_contents (ss ! k) \<longrightarrow> sh_offset (ss ! k) \<ge> off \<or> sh_offset (ss ! k) + sh_size (ss ! k) \<le> off))"
    using 2 t(1) by (cases "sh_offset s \<ge> off") (auto split: if_splits)
  then show ?case using t(2,3) by (auto simp: less_Suc_eq_0_disj)
qed simp

lemma shift_programs_result:
  "shift_programs i off diff ps = Inr ps' \<Longrightarrow> length ps' = length ps \<and>
     (\<forall>k < length ps. ps' ! k = (if p_offset (ps ! k) \<ge> off then (ps ! k)\<lparr>p_offset := p_offset (ps ! k) + diff\<rparr> else ps ! k) \<and>
        (p_offset (ps ! k) \<ge> off \<or> p_offset (ps ! k) + p_filesz (ps ! k) \<le> off))"
proof (induction i off diff ps arbitrary: ps' rule: shift_programs.induct)
  case (2 i off diff p ps)
  then obtain t where t: "shift_programs (i + 1) off diff ps = Inr t"
    "ps' = (if p_offset p \<ge> off then p\<lparr>p_offset := p_offset p + diff\<rparr> else p) # t"
    "p_offset p \<ge> off \<or> p_offset p + p_filesz p \<le> off"
    by (cases "shift_programs (i + 1) off diff ps") (auto split: if_splits)
  have "length t = length ps \<and>
     (\<forall>k < length ps. t ! k = (if p_offset (ps ! k) \<ge> off then (ps ! k)\<lparr>p_offset := p_offset (ps ! k) + diff\<rparr> else ps ! k) \<and>
        (p_offset (ps ! k) \<ge> off \<or> p_offset (ps ! k) + p_filesz (ps ! k) \<le> off))"
    using 2 t(1) by (cases "p_offset p \<ge> off") (auto split: if_splits)
  then show ?case using t(2,3) by (auto simp: less_Suc_eq_0_disj)
qed simp

text \<open>A range of the file, wherever it is, is found at its shifted offset.\<close>

lemma moved_range:
  fixes p n off diff :: u64
  assumes "bs' = take (unat off) bs @ replicate (unat diff) 0 @ drop (unat off) bs" and "unat p + unat n \<le> length bs"
    and "length bs + unat diff < 2 ^ 63" and "unat off \<le> length bs" and "p \<ge> off \<or> p + n \<le> off"
  shows "bytes_at bs' (unat (if p \<ge> off then p + diff else p)) (unat n) = bytes_at bs (unat p) (unat n)"
proof (cases "p \<ge> off")
  case True
  have "unat (p + diff) = unat p + unat diff" using assms(2,3) by (simp add: unat_add_64)
  moreover have "bytes_at bs' (unat p + length (replicate (unat diff) (0 :: u8))) (unat n) = bytes_at bs (unat p) (unat n)"
    unfolding assms(1) using True assms(4) by (intro bytes_at_gap(2)) (simp_all add: word_le_nat_alt)
  ultimately show ?thesis using True by simp
next
  case False
  have "unat (p + n) = unat p + unat n" using assms(2,3) by (simp add: unat_add_64)
  then have "unat p + unat n \<le> unat off" using False assms(5) by (simp add: word_le_nat_alt)
  then show ?thesis unfolding assms(1) using False assms(4) by (simp add: bytes_at_gap(1))
qed

lemma grow_frame [simp]: "data (grow c ei) = data ei" "sht (grow c ei) = sht ei" "pht (grow c ei) = pht ei" "eh (grow c ei) = eh ei"
  by (simp_all add: grow_def Let_def)

lemma shift_sections_result:
  assumes "shift_sections off diff ei = Inr ei'"
  shows "unat off < size_of ei \<and> shift_programs 0 off diff (pht ei) = Inr (pht ei') \<and> shift_headers 0 off diff (sht ei) = Inr (sht ei') \<and>
    data ei' = take (unat off) (data ei) @ replicate (unat diff) 0 @ drop (unat off) (data ei)"
  using assms by (auto simp: shift_sections_def Let_def split: if_splits sum.splits)

lemma page_gap: "(off + (0x1000 - (off AND 0xFFF))) AND 0xFFF = (0 :: u64)"
proof -
  have m: "w AND 0xFFF = take_bit 12 w" for w :: u64 by (simp only: take_bit_eq_mask) (simp add: mask_eq_exp_minus_1)
  have one: "(0x1000 :: u64) = push_bit 12 1" by simp
  have cancel: "a + t + (c - t) = a + c" for a t c :: u64 by simp
  have "off + (0x1000 - take_bit 12 off) = push_bit 12 (drop_bit 12 off) + take_bit 12 off + (0x1000 - take_bit 12 off)"
    by (simp only: bits_ident)
  also have "\<dots> = push_bit 12 (drop_bit 12 off) + 0x1000" by (rule cancel)
  also have "\<dots> = push_bit 12 (drop_bit 12 off + 1)" unfolding one by (simp only: push_bit_add)
  finally have "off + (0x1000 - take_bit 12 off) = push_bit 12 (drop_bit 12 off + 1)" .
  then show ?thesis unfolding m by (simp only: take_bit_push_bit) simp
qed

text \<open>
  C29. Aligning the symbol table moves bytes but changes no contents: for a file that passed \<open>validate\<close>, when \<open>align_symtab\<close>
  succeeds the symbol table starts on a page boundary, and every section with contents and every program segment inside
  the file has the same bytes at its new offset as it had at the old one.
\<close>

theorem align_symtab_keeps_contents:
  assumes "validate ei0 = Inr ei" and "\<not> ok ei0" and "views_ok ei0" and "k < length (sht ei)" and "align_symtab k ei = Inr ei'"
    and "size_of ei + 4096 < 2 ^ 63"
  shows "sh_offset (sht ei' ! k) AND 0xFFF = 0 \<and>
    (\<forall>i < length (sht ei). has_contents (sht ei ! i) \<longrightarrow> section_bytes ei' i = section_bytes ei i) \<and>
    (\<forall>i < length (pht ei). unat (p_offset (pht ei ! i)) + unat (p_filesz (pht ei ! i)) \<le> size_of ei \<longrightarrow> program_bytes ei' i = program_bytes ei i)"
proof (cases "sh_offset (sht ei ! k) AND 0xFFF = 0")
  case True
  then show ?thesis using assms(5) by (simp add: align_symtab_def)
next
  case False
  define off where "off = sh_offset (sht ei ! k)"
  define diff where "diff = 0x1000 - (off AND 0xFFF)"
  let ?s = "(sht ei ! k)\<lparr>sh_addralign := 0x1000\<rparr>"
  let ?ei = "ei\<lparr>sht := (sht ei)[k := ?s], changed := True\<rparr>"
  have sh: "shift_sections off diff ?ei = Inr ei'"
    using assms(5) False by (simp add: align_symtab_def Let_def off_def diff_def split: if_splits)
  note r = shift_sections_result [OF sh, simplified]
  have le: "unat off \<le> length (data ei)" using r by (simp add: size_of_def)
  have "off AND 0xFFF \<le> 0xFFF" by (rule word_and_le1)
  then have "unat (off AND 0xFFF) \<le> 4095" by (simp add: word_le_nat_alt)
  then have "unat diff \<le> 4096" unfolding diff_def by (subst unat_minus_le) (simp_all add: word_le_nat_alt)
  then have small: "length (data ei) + unat diff < 2 ^ 63" using assms(6) by (simp add: size_of_def)
  have same: "sh_offset ((sht ei)[k := ?s] ! i) = sh_offset (sht ei ! i)" "sh_size ((sht ei)[k := ?s] ! i) = sh_size (sht ei ! i)"
    "has_contents ((sht ei)[k := ?s] ! i) = has_contents (sht ei ! i)" for i
    using assms(4) by (cases "i = k"; simp add: has_contents_def)+
  have hs: "sh_offset (sht ei' ! i) = (if off \<le> sh_offset (sht ei ! i) then sh_offset (sht ei ! i) + diff else sh_offset (sht ei ! i))"
    "sh_size (sht ei' ! i) = sh_size (sht ei ! i)"
    "has_contents (sht ei ! i) \<Longrightarrow> off \<le> sh_offset (sht ei ! i) \<or> sh_offset (sht ei ! i) + sh_size (sht ei ! i) \<le> off"
    if "i < length (sht ei)" for i
    using shift_headers_result [of 0 off diff "(sht ei)[k := ?s]" "sht ei'"] r that same [of i] by auto
  have ps: "p_offset (pht ei' ! i) = (if off \<le> p_offset (pht ei ! i) then p_offset (pht ei ! i) + diff else p_offset (pht ei ! i))"
    "p_filesz (pht ei' ! i) = p_filesz (pht ei ! i)"
    "off \<le> p_offset (pht ei ! i) \<or> p_offset (pht ei ! i) + p_filesz (pht ei ! i) \<le> off"
    if "i < length (pht ei)" for i
    using shift_programs_result [of 0 off diff "pht ei" "pht ei'"] r that by auto
  have d: "data ei' = take (unat off) (data ei) @ replicate (unat diff) 0 @ drop (unat off) (data ei)" using r by simp
  have "sh_offset (sht ei' ! k) AND 0xFFF = 0" using hs(1) [OF assms(4)] page_gap [of off] by (simp add: off_def diff_def)
  moreover have "section_bytes ei' i = section_bytes ei i" if i: "i < length (sht ei)" "has_contents (sht ei ! i)" for i
    unfolding section_bytes_def hs(1,2) [OF i(1)]
    using validate_sections [OF assms(1-3) i] by (intro moved_range [OF d _ small le hs(3) [OF i]]) (simp add: size_of_def)
  moreover have "program_bytes ei' i = program_bytes ei i"
    if i: "i < length (pht ei)" "unat (p_offset (pht ei ! i)) + unat (p_filesz (pht ei ! i)) \<le> size_of ei" for i
    unfolding program_bytes_def ps(1,2) [OF i(1)]
    using i(2) by (intro moved_range [OF d _ small le ps(3) [OF i(1)]]) (simp add: size_of_def)
  ultimately show ?thesis by blast
qed

theorem align_symtab_keeps_contents_witness:
  "\<exists>ei ei'. validate sample_info = Inr ei \<and> align_symtab 2 ei = Inr ei' \<and> sh_offset (sht ei' ! 2) AND 0xFFF = 0 \<and>
     section_bytes ei' 3 = section_bytes ei 3"
proof -
  note defs = sample_info_def sample_section_def sht_consts has_contents_def size_of_def
  have f: "data sample_info = sample_data" "\<not> ok sample_info" "h_magic (eh sample_info) = ELF_MAGIC" "h_phentsize (eh sample_info) = 56"
    "h_shentsize (eh sample_info) = 64" "h_phnum (eh sample_info) = 1" "h_shnum (eh sample_info) = 4" "h_phoff (eh sample_info) = 64"
    "h_shoff (eh sample_info) = 0x200" "h_shstrndx (eh sample_info) = 1" "sh_type (sht sample_info ! Suc 0) = ELF_SHT_STRTAB"
    "sh_size (sht sample_info ! Suc 0) = 8" "sh_offset (sht sample_info ! Suc 0) = 0x1180"
    by (simp_all add: defs)
  have "section_valid sample_info 8 i" if "i < 4" for i
  proof -
    have "i = 0 \<or> i = 1 \<or> i = 2 \<or> i = 3" using that by linarith
    then show ?thesis by (elim disjE) (simp_all add: section_valid_def defs sample_symbol_def Let_def)
  qed
  then have "List.find (\<lambda>i. \<not> section_valid sample_info 8 i) [0..<4] = None" by (auto simp: find_None_iff)
  then have v: "validate sample_info = Inr (sample_info\<lparr>ok := True\<rparr>)"
    by (simp add: validate_def Let_def size_of_def ELF_MAGIC_def word_le_nat_alt f)
  let ?ei = "sample_info\<lparr>ok := True\<rparr>"
  obtain ei' where a: "align_symtab 2 ?ei = Inr ei'"
    by (simp add: align_symtab_def shift_sections_def defs Let_def)
  have p: "\<not> ok sample_info" "views_ok sample_info" "2 < length (sht ?ei)" "size_of ?ei + 4096 < 2 ^ 63" "3 < length (sht ?ei)"
    "has_contents (sht ?ei ! 3)"
    by (simp_all add: views_ok_def defs)
  from align_symtab_keeps_contents [OF v p(1-3) a p(4)] p(5,6) have "sh_offset (sht ei' ! 2) AND 0xFFF = 0 \<and> section_bytes ei' 3 = section_bytes ?ei 3"
    by blast
  with v a show ?thesis by blast
qed

end
