(* ===== verification/Mkdisk.thy ===== *)
theory Mkdisk
  imports HostIO Loader
begin

unbundle bit_operations_syntax

text \<open>
  The host tool \<open>weensyos/build/mkbootdisk.cc\<close>, which writes the disk image: the boot sector with its signature, then
  the given files, each padded to whole sectors, up to 1024 sectors; alternatively into an existing partition (\<open>-p\<close>), or
  a multiboot header into a kernel file (\<open>-m\<close>). The files and the answers of the \<open>write\<close> calls are parameters.
\<close>

section \<open>Writing to the disk\<close>

datatype mk_error = Usage | CannotOpen | NoPartition | BootBlockTooLarge nat | CannotSkip nat nat | TooMuchData | WriteError | WriteEnd
  | ReadError | SeekError | NotExecutable | HeaderTooLarge

text \<open>
  The file behind \<open>diskfd\<close> with its position, the variables \<open>curoff\<close> and \<open>maxoff\<close>, and the answers the coming \<open>write\<close> calls will give.
\<close>

record disk_state =
  contents :: "u8 list"
  position :: nat
  curoff :: nat
  maxoff :: nat
  answers :: "write_result list"

type_synonym 'a disk_result = "(mk_error + 'a \<times> disk_state) option"

definition disk_bind :: "'a disk_result \<Rightarrow> ('a \<Rightarrow> disk_state \<Rightarrow> 'b disk_result) \<Rightarrow> 'b disk_result" where
  "disk_bind r f = Option.bind r (case_sum (\<lambda>e. Some (Inl e)) (\<lambda>(x, d). f x d))"

lemma disk_bind_Inr: "disk_bind r f = Some (Inr z) \<longleftrightarrow> (\<exists>x d. r = Some (Inr (x, d)) \<and> f x d = Some (Inr z))"
  by (cases r) (auto simp: disk_bind_def split: sum.splits)

lemma disk_bind_simps [simp]: "disk_bind (Some (Inr (x, d))) f = f x d" "disk_bind (Some (Inl e)) f = Some (Inl e)" "disk_bind None f = None"
  by (simp_all add: disk_bind_def)

text \<open>Writing at the position; a gap before it reads as zeros.\<close>

definition write_at :: "u8 list \<Rightarrow> disk_state \<Rightarrow> disk_state" where
  "write_at bs d =
     d\<lparr>contents := take (position d) (contents d) @ replicate (position d - length (contents d)) 0 @ bs @
                     drop (position d + length bs) (contents d),
       position := position d + length bs, curoff := curoff d + length bs\<rparr>"

function write_loop :: "u8 list \<Rightarrow> disk_state \<Rightarrow> unit disk_result" where
  "write_loop bs d =
     (if bs = [] then Some (Inr ((), d))
      else case answers d of
        [] \<Rightarrow> None
      | r # rs \<Rightarrow>
          (case r of
             WriteFailed \<Rightarrow> Some (Inl WriteError)
           | WriteAgain \<Rightarrow> write_loop bs (d\<lparr>answers := rs\<rparr>)
           | Wrote w \<Rightarrow>
               if w = 0 then Some (Inl WriteEnd)
               else write_loop (drop w bs) (write_at (take w bs) (d\<lparr>answers := rs\<rparr>))))"
  by pat_completeness auto

termination
  by (relation "measure (\<lambda>(bs, d). length (answers d))") (auto simp: write_at_def)

declare write_loop.simps [simp del]

definition diskwrite :: "u8 list \<Rightarrow> disk_state \<Rightarrow> unit disk_result" where
  "diskwrite bs d =
     (if maxoff d \<noteq> 0 \<and> curoff d + length bs > maxoff d then Some (Inl TooMuchData) else write_loop bs d)"

section \<open>Writing the image\<close>

text \<open>\<open>fread\<close> in blocks of 4096 bytes.\<close>

function write_blocks :: "u8 list \<Rightarrow> disk_state \<Rightarrow> unit disk_result" where
  "write_blocks bs d =
     (if bs = [] then Some (Inr ((), d))
      else disk_bind (diskwrite (take 4096 bs) d) (\<lambda>_ d. write_blocks (drop 4096 bs) d))"
  by pat_completeness auto

termination
  by (relation "measure (\<lambda>(bs, d). length bs)") auto

declare write_blocks.simps [simp del]

definition zerobuf :: "u8 list" where "zerobuf = replicate 512 0"

text \<open>A file, padded to a multiple of the sector size; the result is the number of sectors.\<close>

definition write_padded :: "u8 list \<Rightarrow> disk_state \<Rightarrow> nat disk_result" where
  "write_padded bs d =
     disk_bind (write_blocks bs d) (\<lambda>_ d.
     if length bs mod 512 \<noteq> 0
     then disk_bind (diskwrite (take (512 - length bs mod 512) zerobuf) d) (\<lambda>_ d. Some (Inr ((length bs + (512 - length bs mod 512)) div 512, d)))
     else Some (Inr (length bs div 512, d)))"

fun write_zero_sectors :: "nat \<Rightarrow> disk_state \<Rightarrow> unit disk_result" where
  "write_zero_sectors 0 d = Some (Inr ((), d))"
| "write_zero_sectors (Suc n) d = disk_bind (diskwrite zerobuf d) (\<lambda>_ d. write_zero_sectors n d)"

definition boot_sector :: "u8 list \<Rightarrow> u8 list" where
  "boot_sector bs = bs @ replicate (510 - length bs) 0 @ [0x55, 0xAA]"

definition write_boot_sector :: "u8 list \<Rightarrow> disk_state \<Rightarrow> unit disk_result" where
  "write_boot_sector file d =
     (let buf = take 4096 file
      in if length buf > 510 then Some (Inl (BootBlockTooLarge (length buf))) else diskwrite (boot_sector buf) d)"

text \<open>Host \<open>strtoul\<close> with base 0, on a whole string: hexadecimal, octal or decimal, saturating.\<close>

definition digit_value :: "char \<Rightarrow> nat option" where
  "digit_value c =
     (let n = of_char c :: nat
      in if 48 \<le> n \<and> n \<le> 57 then Some (n - 48) else if 97 \<le> n \<and> n \<le> 122 then Some (n - 87)
         else if 65 \<le> n \<and> n \<le> 90 then Some (n - 55) else None)"

fun digits_value :: "nat \<Rightarrow> nat \<Rightarrow> string \<Rightarrow> nat option" where
  "digits_value base acc [] = Some acc"
| "digits_value base acc (c # cs) =
     (case digit_value c of Some d \<Rightarrow> if d < base then digits_value base (base * acc + d) cs else None | None \<Rightarrow> None)"

definition strtoul_all :: "string \<Rightarrow> nat option" where
  "strtoul_all cs =
     map_option (min (2 ^ 64 - 1))
       (if length cs > 2 \<and> cs ! 0 = CHR ''0'' \<and> (cs ! 1 = CHR ''x'' \<or> cs ! 1 = CHR ''X'') then digits_value 16 0 (drop 2 cs)
        else if cs \<noteq> [] \<and> hd cs = CHR ''0'' then digits_value 8 0 cs else digits_value 10 0 cs)"

text \<open>An argument \<open>@X\<close> with \<open>X\<close> starting with a digit means skipping to that sector.\<close>

definition skip_argument :: "string \<Rightarrow> nat option" where
  "skip_argument arg =
     (case arg of
        c # e # cs \<Rightarrow> if c = CHR ''@'' \<and> 48 \<le> (of_char e :: nat) \<and> (of_char e :: nat) \<le> 57 then strtoul_all (e # cs) else None
      | _ \<Rightarrow> None)"

fun write_arguments :: "(string \<Rightarrow> u8 list option) \<Rightarrow> string list \<Rightarrow> nat \<Rightarrow> disk_state \<Rightarrow> nat disk_result" where
  "write_arguments fs [] nsectors d = Some (Inr (nsectors, d))"
| "write_arguments fs (arg # args) nsectors d =
     (case skip_argument arg of
        Some to \<Rightarrow>
          if nsectors > to then Some (Inl (CannotSkip to nsectors))
          else disk_bind (write_zero_sectors (to - nsectors) d) (\<lambda>_ d. write_arguments fs args to d)
      | None \<Rightarrow>
          (case fs arg of
             None \<Rightarrow> Some (Inl CannotOpen)
           | Some bs \<Rightarrow> disk_bind (write_padded bs d) (\<lambda>n d. write_arguments fs args (nsectors + n) d)))"

definition fill_image :: "nat \<Rightarrow> disk_state \<Rightarrow> unit disk_result" where
  "fill_image nsectors d = write_zero_sectors (1024 - nsectors) d"

section \<open>Partitions\<close>

text \<open>The sector number is passed in 32 bits.\<close>

definition readsect :: "disk_state \<Rightarrow> nat \<Rightarrow> (u8 list) option" where
  "readsect d sectno = (let s = bytes_at (contents d) (sectno mod 4294967296 * 512) 512 in if length s = 512 then Some s else None)"

record partition =
  ptype :: u8
  lba_start :: nat
  lba_length :: nat

definition partition_at :: "u8 list \<Rightarrow> nat \<Rightarrow> partition" where
  "partition_at buf i =
     (let e = bytes_at buf (446 + 16 * i) 16
      in \<lparr>ptype = e ! 4, lba_start = unat (le_value (bytes_at e 8 4)), lba_length = unat (le_value (bytes_at e 12 4))\<rparr>)"

definition PTYPE_JOS_KERN :: u8 where "PTYPE_JOS_KERN = 0x27"

definition is_extended :: "u8 \<Rightarrow> bool" where
  "is_extended t \<longleftrightarrow> t = 0x05 \<or> t = 0x0F \<or> t = 0x85"

text \<open>
  \<open>find_partition\<close>: the loop over the four entries \<open>i, \<dots>, 3\<close> of the sector in \<open>buf\<close>. The result is the partition used, as start sector
  and length, or none. A chain of extended partitions that leads back to itself is searched forever.
\<close>

partial_function (option) search_partitions ::
    "disk_state \<Rightarrow> u8 list \<Rightarrow> nat \<Rightarrow> nat \<Rightarrow> nat \<Rightarrow> nat \<Rightarrow> (mk_error + (nat \<times> nat) option) option" where
  "search_partitions d buf sect extended partoff i =
     (if i \<ge> 4 then Some (Inr None)
      else
        let p = partition_at buf i
        in if lba_length p = 0 then search_partitions d buf sect extended partoff (i + 1)
           else if ptype p = PTYPE_JOS_KERN then Some (Inr (Some (sect + lba_start p, lba_length p)))
           else if is_extended (ptype p) then
             let inner = (if extended = 0 then lba_start p else extended); sect' = lba_start p + extended
             in Option.bind
                  (case readsect d sect' of
                     None \<Rightarrow> Some (Inl ReadError)
                   | Some buf' \<Rightarrow>
                       if buf' ! 510 \<noteq> 0x55 \<or> buf' ! 511 \<noteq> 0xAA then Some (Inr None)
                       else search_partitions d buf' sect' inner (if partoff \<noteq> 0 then partoff + 1 else 4) 0)
                  (\<lambda>r. if r = Inr None then search_partitions d buf sect extended partoff (i + 1) else Some r)
           else search_partitions d buf sect extended partoff (i + 1))"

definition find_partition :: "disk_state \<Rightarrow> nat \<Rightarrow> nat \<Rightarrow> nat \<Rightarrow> (mk_error + (nat \<times> nat) option) option" where
  "find_partition d sect extended partoff =
     (case readsect d sect of
        None \<Rightarrow> Some (Inl ReadError)
      | Some buf \<Rightarrow>
          if buf ! 510 \<noteq> 0x55 \<or> buf ! 511 \<noteq> 0xAA then Some (Inr None) else search_partitions d buf sect extended partoff 0)"

text \<open>Opening a disk and positioning at its kernel partition.\<close>

definition use_partition :: "disk_state \<Rightarrow> unit disk_result" where
  "use_partition d =
     Option.bind (find_partition d 0 0 0) (\<lambda>r.
       case r of
         Inl e \<Rightarrow> Some (Inl e)
       | Inr None \<Rightarrow> Some (Inl NoPartition)
       | Inr (Some (start, n)) \<Rightarrow> Some (Inr ((), d\<lparr>position := start * 512, maxoff := n * 512\<rparr>)))"

section \<open>Multiboot\<close>

definition multiboot_header :: "u8 list" where
  "multiboot_header = le_bytes 4 0x1BADB002 @ le_bytes 4 0 @ le_bytes 4 (- 0x1BADB002)"

definition do_multiboot :: "disk_state \<Rightarrow> unit disk_result" where
  "do_multiboot d =
     (case readsect d 0 of
        None \<Rightarrow> Some (Inl ReadError)
      | Some buf \<Rightarrow>
          if le_value (bytes_at buf 0 4) \<noteq> ucast ELF_MAGIC then Some (Inl NotExecutable)
          else
            let o' = le_value (bytes_at buf 0x20 8) + 56 * le_value (bytes_at buf 0x38 2)
            in if o' \<ge> 4096 - 12 then Some (Inl HeaderTooLarge)
               else diskwrite multiboot_header (d\<lparr>position := unat o'\<rparr>))"

section \<open>The program\<close>

text \<open>
  \<open>fs\<close> are the files, \<open>out\<close> is standard output. The result is the state of the disk written to when the program exits successfully.
\<close>

definition open_disk :: "(string \<Rightarrow> u8 list option) \<Rightarrow> write_result list \<Rightarrow> string \<Rightarrow> disk_state option" where
  "open_disk fs ws name = map_option (\<lambda>bs. \<lparr>contents = bs, position = 0, curoff = 0, maxoff = 0, answers = ws\<rparr>) (fs name)"

definition standard_output :: "write_result list \<Rightarrow> disk_state" where
  "standard_output ws = \<lparr>contents = [], position = 0, curoff = 0, maxoff = 0, answers = ws\<rparr>"

definition write_image :: "(string \<Rightarrow> u8 list option) \<Rightarrow> bool \<Rightarrow> string list \<Rightarrow> disk_state \<Rightarrow> unit disk_result" where
  "write_image fs bootsector_special args d =
     (if args = [] then Some (Inl Usage)
      else if bootsector_special then
        (case fs (hd args) of
           None \<Rightarrow> Some (Inl CannotOpen)
         | Some bs \<Rightarrow>
             disk_bind (write_boot_sector bs d) (\<lambda>_ d. disk_bind (write_arguments fs (tl args) 1 d) fill_image))
      else disk_bind (write_arguments fs args 0 d) fill_image)"

definition mkbootdisk :: "(string \<Rightarrow> u8 list option) \<Rightarrow> write_result list \<Rightarrow> string list \<Rightarrow> unit disk_result" where
  "mkbootdisk fs ws args =
     (if args \<noteq> [] \<and> hd args = ''-p'' then
        if length args < 2 then Some (Inl Usage)
        else case open_disk fs ws (args ! 1) of
          None \<Rightarrow> Some (Inl CannotOpen)
        | Some d \<Rightarrow>
            disk_bind (use_partition d) (\<lambda>_ d.
              let args = drop 2 args
              in if args \<noteq> [] \<and> hd args = ''-m'' then
                   if length args < 2 then Some (Inl Usage)
                   else (case open_disk fs (answers d) (args ! 1) of None \<Rightarrow> Some (Inl CannotOpen) | Some k \<Rightarrow> do_multiboot (k\<lparr>maxoff := maxoff d\<rparr>))
                 else write_image fs False args d)
      else if args \<noteq> [] \<and> hd args = ''-m'' then
        if length args < 2 then Some (Inl Usage)
        else (case open_disk fs ws (args ! 1) of None \<Rightarrow> Some (Inl CannotOpen) | Some d \<Rightarrow> do_multiboot d)
      else write_image fs True args (standard_output ws))"

section \<open>What is written\<close>

text \<open>Appending bytes at the end of the disk, however many calls it takes.\<close>

definition appended :: "disk_state \<Rightarrow> u8 list \<Rightarrow> disk_state \<Rightarrow> bool" where
  "appended d bs d' = (position d = length (contents d) \<longrightarrow> contents d' = contents d @ bs \<and> position d' = length (contents d'))"

lemma appended_refl [simp]: "appended d [] d"
  by (simp add: appended_def)

lemma appended_trans: "appended d xs d1 \<Longrightarrow> appended d1 ys d2 \<Longrightarrow> appended d (xs @ ys) d2"
  by (simp add: appended_def)

lemma appended_answers [simp]: "appended (d\<lparr>answers := ws\<rparr>) bs d' = appended d bs d'"
  by (simp add: appended_def)

lemma appended_write_at: "appended d bs (write_at bs d)"
  by (simp add: appended_def write_at_def)

lemma write_loop_appends: "write_loop bs d = Some (Inr (x, d')) \<Longrightarrow> appended d bs d'"
proof (induction bs d rule: write_loop.induct)
  case (1 bs d)
  show ?case
  proof (cases "bs = []")
    case True
    then show ?thesis using "1.prems" by (simp add: write_loop.simps [of "[]" d])
  next
    case False
    then obtain r rs where a: "answers d = r # rs" using "1.prems" by (cases "answers d") (simp_all add: write_loop.simps [of bs d])
    show ?thesis
    proof (cases r)
      case (Wrote w)
      then have w: "w \<noteq> 0" and n: "write_loop (drop w bs) (write_at (take w bs) (d\<lparr>answers := rs\<rparr>)) = Some (Inr (x, d'))"
        using "1.prems" False a by (auto simp: write_loop.simps [of bs d] split: if_splits)
      have "appended (write_at (take w bs) (d\<lparr>answers := rs\<rparr>)) (drop w bs) d'" by (rule "1.IH"(1) [OF False a Wrote w n])
      moreover have "appended d (take w bs) (write_at (take w bs) (d\<lparr>answers := rs\<rparr>))"
        using appended_write_at [of "d\<lparr>answers := rs\<rparr>" "take w bs"] by simp
      ultimately show ?thesis using appended_trans [of d "take w bs" _ "drop w bs"] by simp
    next
      case WriteAgain
      then have n: "write_loop bs (d\<lparr>answers := rs\<rparr>) = Some (Inr (x, d'))" using "1.prems" False a by (simp add: write_loop.simps [of bs d])
      from "1.IH"(2) [OF False a WriteAgain n] show ?thesis by simp
    next
      case WriteFailed
      then show ?thesis using "1.prems" False a by (simp add: write_loop.simps [of bs d])
    qed
  qed
qed

lemma diskwrite_appends: "diskwrite bs d = Some (Inr (x, d')) \<Longrightarrow> appended d bs d'"
  by (auto simp: diskwrite_def dest: write_loop_appends split: if_splits)

lemma write_blocks_appends: "write_blocks bs d = Some (Inr (x, d')) \<Longrightarrow> appended d bs d'"
proof (induction bs d rule: write_blocks.induct)
  case (1 bs d)
  show ?case
  proof (cases "bs = []")
    case True
    then show ?thesis using "1.prems" by (simp add: write_blocks.simps [of "[]" d])
  next
    case False
    with "1.prems" obtain d1 where d1: "diskwrite (take 4096 bs) d = Some (Inr ((), d1))" "write_blocks (drop 4096 bs) d1 = Some (Inr (x, d'))"
      by (auto simp: write_blocks.simps [of bs d] disk_bind_Inr)
    from appended_trans [OF diskwrite_appends [OF d1(1)] "1.IH" [OF False d1(2)]] show ?thesis by simp
  qed
qed

text \<open>Padding to whole sectors.\<close>

definition padded :: "u8 list \<Rightarrow> u8 list" where
  "padded bs = bs @ replicate ((512 - length bs mod 512) mod 512) 0"

lemma split_512: obtains q r :: nat where "n = 512 * q + r" "r < 512" "n div 512 = q" "n mod 512 = r"
  by (rule that [of "n div 512" "n mod 512"]) simp_all

lemma length_padded: "length (padded bs) = 512 * ((length bs + 511) div 512)"
proof -
  obtain q r where q: "length bs = 512 * q + r" "r < 512" "length bs mod 512 = r" by (rule split_512)
  show ?thesis
  proof (cases "r = 0")
    case True
    then have "(length bs + 511) div 512 = q" unfolding q(1) by (intro div_nat_eqI) simp_all
    then show ?thesis using True by (simp add: padded_def q(1,3))
  next
    case False
    then have "(length bs + 511) div 512 = q + 1" unfolding q(1) using q(2) by (intro div_nat_eqI) simp_all
    moreover have "(512 - r) mod 512 = 512 - r" using False by simp
    ultimately show ?thesis using q(2) by (simp only: padded_def length_append length_replicate q(3)) (simp add: q(1))
  qed
qed

lemma write_padded_appends: "write_padded bs d = Some (Inr (n, d')) \<Longrightarrow> appended d (padded bs) d' \<and> 512 * n = length (padded bs)"
proof -
  assume w: "write_padded bs d = Some (Inr (n, d'))"
  then obtain d1 where d1: "write_blocks bs d = Some (Inr ((), d1))" by (auto simp: write_padded_def disk_bind_Inr)
  show ?thesis
  proof (cases "length bs mod 512 = 0")
    case True
    then have "padded bs = bs" "512 * (length bs div 512) = length bs" by (auto simp: padded_def)
    then show ?thesis using w d1 True write_blocks_appends [OF d1] by (simp add: write_padded_def)
  next
    case False
    define k where "k = 512 - length bs mod 512"
    obtain q r where q: "length bs = 512 * q + r" "r < 512" "length bs mod 512 = r" by (rule split_512)
    with False have k: "0 < k" "k < 512" "k mod 512 = k" "r + k = 512" by (simp_all add: k_def)
    have z: "take k zerobuf = replicate k 0" using k(2) by (simp add: zerobuf_def min_def)
    have p: "padded bs = bs @ take k zerobuf" using k(3) by (simp add: padded_def z flip: k_def)
    have "diskwrite (take k zerobuf) d1 = Some (Inr ((), d'))" and n: "n = (length bs + k) div 512"
      using w d1 False by (auto simp: write_padded_def disk_bind_Inr k_def)
    then have "appended d (padded bs) d'" using appended_trans [OF write_blocks_appends [OF d1] diskwrite_appends] p by simp
    moreover have "length bs + k = 512 * (q + 1)" using k(4) q(1) by simp
    then have "512 * n = length bs + k" unfolding n by simp
    ultimately show ?thesis using k(2) by (simp add: p z)
  qed
qed

lemma write_zero_sectors_appends: "write_zero_sectors n d = Some (Inr (x, d')) \<Longrightarrow> appended d (replicate (512 * n) 0) d'"
proof (induction n arbitrary: d)
  case (Suc n)
  then obtain d1 where d1: "diskwrite zerobuf d = Some (Inr ((), d1))" "write_zero_sectors n d1 = Some (Inr (x, d'))" by (auto simp: disk_bind_Inr)
  have "replicate (512 * Suc n) 0 = zerobuf @ replicate (512 * n) (0 :: u8)" by (simp add: zerobuf_def replicate_add flip: replicate_add)
  with appended_trans [OF diskwrite_appends [OF d1(1)] Suc.IH [OF d1(2)]] show ?case by simp
qed simp

section \<open>The image\<close>

text \<open>The image the arguments describe, independently of how it is written.\<close>

fun image_of :: "(string \<Rightarrow> u8 list option) \<Rightarrow> string list \<Rightarrow> u8 list \<Rightarrow> u8 list" where
  "image_of fs [] img = img"
| "image_of fs (arg # args) img =
     (case skip_argument arg of
        Some to \<Rightarrow> image_of fs args (img @ replicate (512 * to - length img) 0)
      | None \<Rightarrow> image_of fs args (img @ padded (the (fs arg))))"

lemma write_arguments_appends:
  assumes "write_arguments fs args n d = Some (Inr (k, d'))" and "position d = length (contents d)" and "length (contents d) = 512 * n"
  shows "contents d' = image_of fs args (contents d) \<and> position d' = length (contents d') \<and> length (contents d') = 512 * k"
  using assms
proof (induction args arbitrary: n d)
  case (Cons arg args)
  show ?case
  proof (cases "skip_argument arg")
    case None
    then obtain bs m d1 where d1: "fs arg = Some bs" "write_padded bs d = Some (Inr (m, d1))" "write_arguments fs args (n + m) d1 = Some (Inr (k, d'))"
      using Cons.prems(1) by (auto simp: disk_bind_Inr split: option.splits)
    from write_padded_appends [OF d1(2)] Cons.prems(2,3) have
      c: "contents d1 = contents d @ padded bs" "position d1 = length (contents d1)" "length (contents d1) = 512 * (n + m)"
      by (simp_all add: appended_def)
    from Cons.IH [OF d1(3) c(2,3)] show ?thesis by (simp add: c(1) d1(1) None) metis
  next
    case (Some to)
    then obtain d1 where d1: "n \<le> to" "write_zero_sectors (to - n) d = Some (Inr ((), d1))" "write_arguments fs args to d1 = Some (Inr (k, d'))"
      using Cons.prems(1) by (auto simp: disk_bind_Inr split: if_splits)
    from write_zero_sectors_appends [OF d1(2)] Cons.prems(2,3) d1(1) have
      c: "contents d1 = contents d @ replicate (512 * to - length (contents d)) 0" "position d1 = length (contents d1)" "length (contents d1) = 512 * to"
      by (simp_all add: appended_def diff_mult_distrib2)
    from Cons.IH [OF d1(3) c(2,3)] show ?thesis by (simp add: c(1) Some) metis
  qed
qed simp

lemma length_boot_sector: "length bs \<le> 510 \<Longrightarrow> length (boot_sector bs) = 512"
  by (simp add: boot_sector_def)

lemma mkbootdisk_contents:
  assumes "mkbootdisk fs ws (boot # args) = Some (Inr ((), d))" and "boot \<noteq> ''-p''" and "boot \<noteq> ''-m''"
  shows "\<exists>bs. fs boot = Some bs \<and> length bs \<le> 510 \<and>
    contents d = (let img = image_of fs args (boot_sector bs) in img @ replicate (524288 - length img) 0)"
proof -
  have "write_image fs True (boot # args) (standard_output ws) = Some (Inr ((), d))" using assms by (simp add: mkbootdisk_def)
  then obtain bs d1 k d2 where bs: "fs boot = Some bs" "write_boot_sector bs (standard_output ws) = Some (Inr ((), d1))"
    "write_arguments fs args 1 d1 = Some (Inr (k, d2))" "fill_image k d2 = Some (Inr ((), d))"
    by (auto simp: write_image_def disk_bind_Inr split: option.splits)
  from bs(2) have l: "length bs \<le> 510" and w: "diskwrite (boot_sector bs) (standard_output ws) = Some (Inr ((), d1))"
    by (auto simp: write_boot_sector_def Let_def split: if_splits)
  from diskwrite_appends [OF w] have c1: "contents d1 = boot_sector bs" "position d1 = length (contents d1)"
    by (simp_all add: appended_def standard_output_def)
  from write_arguments_appends [OF bs(3) c1(2)] c1 length_boot_sector [OF l] have
    c2: "contents d2 = image_of fs args (boot_sector bs)" "position d2 = length (contents d2)" "length (contents d2) = 512 * k" by auto
  from write_zero_sectors_appends [OF bs(4) [unfolded fill_image_def]] c2 have
    "contents d = contents d2 @ replicate (512 * (1024 - k)) 0" by (simp add: appended_def)
  moreover have "512 * (1024 - k) = 524288 - length (contents d2)" using c2(3) by (simp add: diff_mult_distrib2)
  ultimately show ?thesis using bs(1) l c2(1) by (auto simp: Let_def)
qed

text \<open>
  The disk image does not depend on how the system splits the writes: whenever \<open>mkbootdisk\<close> succeeds on a boot sector file and
  further arguments, the boot file fits in 510 bytes and the output is exactly its signed sector, the files padded to whole
  sectors, the skipped sectors as zeros, and zeros up to 1024 sectors.
\<close>

theorem mkbootdisk_image:
  assumes "mkbootdisk fs ws (boot # args) = Some (Inr ((), d))" and "boot \<noteq> ''-p''" and "boot \<noteq> ''-m''"
  shows "\<exists>bs. fs boot = Some bs \<and> length bs \<le> 510 \<and>
    contents d = (let img = image_of fs args (boot_sector bs) in img @ replicate (524288 - length img) 0)"
  by (rule mkbootdisk_contents [OF assms])

text \<open>Success: with whole blocks written each time, only missing files stop the program.\<close>

definition plenty :: "disk_state \<Rightarrow> nat \<Rightarrow> bool" where
  "plenty d k = (maxoff d = 0 \<and> (\<exists>n \<ge> k. answers d = replicate n (Wrote 4096)))"

lemma plenty_le: "plenty d k \<Longrightarrow> j \<le> k \<Longrightarrow> plenty d j"
  by (auto simp: plenty_def)

lemma diskwrite_plenty: "plenty d (Suc k) \<Longrightarrow> length bs \<le> 4096 \<Longrightarrow> \<exists>d'. diskwrite bs d = Some (Inr ((), d')) \<and> plenty d' k"
proof -
  assume p: "plenty d (Suc k)" and l: "length bs \<le> 4096"
  then obtain i where i: "Suc k \<le> i" "answers d = replicate i (Wrote 4096)" "maxoff d = 0" by (auto simp: plenty_def)
  then obtain n where n: "k \<le> n" "answers d = Wrote 4096 # replicate n (Wrote 4096)" "maxoff d = 0" by (cases i) auto
  show ?thesis
  proof (cases "bs = []")
    case True
    then show ?thesis using p plenty_le by (auto simp: diskwrite_def plenty_def write_loop.simps [of "[]" d])
  next
    case False
    have "write_loop bs d = write_loop [] (write_at bs (d\<lparr>answers := replicate n (Wrote 4096)\<rparr>))"
      using False n l by (subst write_loop.simps) simp
    then have "write_loop bs d = Some (Inr ((), write_at bs (d\<lparr>answers := replicate n (Wrote 4096)\<rparr>)))" by (subst (asm) (2) write_loop.simps) simp
    then show ?thesis using n(1,3) by (auto simp: diskwrite_def plenty_def write_at_def)
  qed
qed

lemma write_blocks_plenty: "plenty d (length bs + k) \<Longrightarrow> \<exists>d'. write_blocks bs d = Some (Inr ((), d')) \<and> plenty d' k"
proof (induction bs d rule: write_blocks.induct)
  case (1 bs d)
  show ?case
  proof (cases "bs = []")
    case True
    then show ?thesis using "1.prems" by (simp add: write_blocks.simps [of "[]" d])
  next
    case False
    then have "Suc (length (drop 4096 bs) + k) \<le> length bs + k" by (cases bs) simp_all
    from diskwrite_plenty [OF plenty_le [OF "1.prems" this], of "take 4096 bs"] obtain d1 where
      d1: "diskwrite (take 4096 bs) d = Some (Inr ((), d1))" "plenty d1 (length (drop 4096 bs) + k)" by auto
    from "1.IH" [OF False d1(2)] d1(1) False show ?thesis by (simp add: write_blocks.simps [of bs d])
  qed
qed

lemma write_padded_plenty: "plenty d (Suc (length bs + k)) \<Longrightarrow> \<exists>n d'. write_padded bs d = Some (Inr (n, d')) \<and> plenty d' k"
proof -
  assume "plenty d (Suc (length bs + k))"
  then obtain d1 where d1: "write_blocks bs d = Some (Inr ((), d1))" "plenty d1 (Suc k)"
    using write_blocks_plenty [of d bs "Suc k"] by auto
  have "length (take n zerobuf) \<le> 4096" for n by (simp add: zerobuf_def min_def)
  from diskwrite_plenty [OF d1(2) this] obtain d2 where
    d2: "diskwrite (take (512 - length bs mod 512) zerobuf) d1 = Some (Inr ((), d2))" "plenty d2 k" by blast
  from d1 d2 plenty_le [OF d1(2), of k] show ?thesis by (simp add: write_padded_def)
qed

lemma write_zero_sectors_plenty: "plenty d (n + k) \<Longrightarrow> \<exists>d'. write_zero_sectors n d = Some (Inr ((), d')) \<and> plenty d' k"
proof (induction n arbitrary: d)
  case (Suc n)
  then obtain d1 where "diskwrite zerobuf d = Some (Inr ((), d1))" "plenty d1 (n + k)"
    using diskwrite_plenty [of d "n + k" zerobuf] by (auto simp: zerobuf_def)
  with Suc.IH [of d1] show ?case by simp
qed simp

text \<open>The number of blocks the arguments take at most.\<close>

fun effort :: "(string \<Rightarrow> u8 list option) \<Rightarrow> string list \<Rightarrow> nat" where
  "effort fs [] = 0"
| "effort fs (arg # args) = Suc (length (the (fs arg))) + effort fs args"

lemma write_arguments_plenty:
  assumes "plenty d (effort fs args + k)" and "\<forall>arg \<in> set args. skip_argument arg = None \<and> fs arg \<noteq> None"
  shows "\<exists>n' d'. write_arguments fs args n d = Some (Inr (n', d')) \<and> plenty d' k"
  using assms
proof (induction args arbitrary: n d)
  case (Cons arg args)
  then obtain bs where bs: "fs arg = Some bs" "skip_argument arg = None" by auto
  with Cons.prems(1) have "plenty d (Suc (length bs + (effort fs args + k)))" by (simp add: add.assoc)
  from write_padded_plenty [OF this] obtain m d1 where d1: "write_padded bs d = Some (Inr (m, d1))" "plenty d1 (effort fs args + k)" by blast
  from Cons.IH [OF d1(2)] Cons.prems(2) obtain n' d' where "write_arguments fs args (n + m) d1 = Some (Inr (n', d'))" "plenty d' k" by fastforce
  with bs d1(1) show ?case by simp
qed simp

lemma mkbootdisk_succeeds:
  assumes "boot \<noteq> ''-p''" and "boot \<noteq> ''-m''" and "fs boot = Some bs" and "length bs \<le> 510"
    and "\<forall>arg \<in> set args. skip_argument arg = None \<and> fs arg \<noteq> None" and "n \<ge> effort fs args + 1025"
  shows "\<exists>d. mkbootdisk fs (replicate n (Wrote 4096)) (boot # args) = Some (Inr ((), d))"
proof -
  let ?d = "standard_output (replicate n (Wrote 4096))"
  have "plenty ?d (Suc (effort fs args + 1024))" using assms(6) by (auto simp: plenty_def standard_output_def)
  from diskwrite_plenty [OF this, of "boot_sector bs"] obtain d1 where
    d1: "write_boot_sector bs ?d = Some (Inr ((), d1))" "plenty d1 (effort fs args + 1024)"
    using assms(4) by (auto simp: write_boot_sector_def length_boot_sector)
  from write_arguments_plenty [OF d1(2) assms(5), of 1] obtain k d2 where
    d2: "write_arguments fs args 1 d1 = Some (Inr (k, d2))" "plenty d2 1024" by blast
  have "plenty d2 ((1024 - k) + 0)" by (rule plenty_le [OF d2(2)]) simp
  from write_zero_sectors_plenty [OF this] obtain d3 where "fill_image k d2 = Some (Inr ((), d3))" by (auto simp: fill_image_def)
  with assms(1-3) d1(1) d2(1) show ?thesis by (simp add: mkbootdisk_def write_image_def)
qed

definition sample_files :: "string \<Rightarrow> u8 list option" where
  "sample_files = [''bootsector'' \<mapsto> [0xEB, 0xFE], ''kernel'' \<mapsto> [0x7F, 0x45, 0x4C, 0x46]]"

theorem mkbootdisk_image_witness:
  "\<exists>ws d. mkbootdisk sample_files ws [''bootsector'', ''kernel''] = Some (Inr ((), d)) \<and>
     contents d = (let img = boot_sector [0xEB, 0xFE] @ padded [0x7F, 0x45, 0x4C, 0x46] in img @ replicate (524288 - length img) 0)"
proof -
  let ?ws = "replicate 2000 (Wrote 4096)"
  have "\<exists>d. mkbootdisk sample_files ?ws [''bootsector'', ''kernel''] = Some (Inr ((), d))"
  proof (rule mkbootdisk_succeeds)
    show "sample_files ''bootsector'' = Some [0xEB, 0xFE]" by (simp add: sample_files_def)
  qed (simp_all add: sample_files_def skip_argument_def)
  then obtain d where d: "mkbootdisk sample_files ?ws [''bootsector'', ''kernel''] = Some (Inr ((), d))" ..
  from mkbootdisk_image [OF d] have "contents d = (let img = boot_sector [0xEB, 0xFE] @ padded [0x7F, 0x45, 0x4C, 0x46] in img @ replicate (524288 - length img) 0)"
    by (simp add: sample_files_def skip_argument_def)
  with d show ?thesis by blast
qed

end
