(* ===== verification/Image.thy ===== *)
theory Image
  imports Boot Mkdisk
begin

text \<open>
  The build and the boot together: a disk image written by \<open>mkbootdisk\<close> from a boot sector and a kernel file boots that kernel.
\<close>

section \<open>The kernel on the image\<close>

text \<open>A drive holding the given bytes, and the drive that holds nothing but the kernel file after an empty boot sector.\<close>

definition image_drive :: "(nat \<Rightarrow> u8) \<Rightarrow> u8 list \<Rightarrow> drive" where
  "image_drive st img = \<lparr>status = st, disk = byte_of img\<rparr>"

definition kernel_drive :: "(nat \<Rightarrow> u8) \<Rightarrow> u8 list \<Rightarrow> drive" where
  "kernel_drive st bs = image_drive st (replicate 512 0 @ bs)"

lemma kernel_drive_disk: "disk (kernel_drive st bs) (512 + n) = byte_of bs n"
  by (simp add: kernel_drive_def image_drive_def)

lemma image_of_prefix: "\<exists>rest. image_of fs args img = img @ rest"
proof (induction args arbitrary: img)
  case (Cons arg args)
  show ?case
  proof (cases "skip_argument arg")
    case None
    then show ?thesis using Cons.IH [of "img @ padded (the (fs arg))"] by auto
  next
    case (Some to)
    then show ?thesis using Cons.IH [of "img @ replicate (512 * to - length img) 0"] by auto
  qed
qed simp

text \<open>Two drives that agree on the first page of the kernel have the same headers.\<close>

lemma same_headers:
  assumes "\<And>n. n < 4096 \<Longrightarrow> disk d' (512 + n) = disk d (512 + n)"
    and "unat (eh_phoff (kernel_file d) 0) + 56 * unat (eh_phnum (kernel_file d) 0) \<le> 4096"
  shows "read32 (kernel_file d') 0 = read32 (kernel_file d) 0" "eh_phoff (kernel_file d') 0 = eh_phoff (kernel_file d) 0"
    "eh_phnum (kernel_file d') 0 = eh_phnum (kernel_file d) 0" "eh_entry (kernel_file d') 0 = eh_entry (kernel_file d) 0"
    "kernel_programs d' = kernel_programs d"
proof -
  let ?m = "\<lambda>x. kernel_file d' (x - ELFHDR)"
  have p: "header_page d ?m" using assms(1) by (simp add: header_page_def kernel_file_def)
  have r: "read64 ?m (ELFHDR + a) = read64 (kernel_file d') a" "read32 ?m (ELFHDR + a) = read32 (kernel_file d') a"
    "read16 ?m (ELFHDR + a) = read16 (kernel_file d') a" for a
    by (simp_all add: read64_def read32_def read16_def add.assoc)
  have e: "read64 (kernel_file d') a = read64 (kernel_file d) a" "read32 (kernel_file d') a = read32 (kernel_file d) a"
    "read16 (kernel_file d') a = read16 (kernel_file d) a" if "unat a + 8 \<le> 4096" for a
    using header_page_reads [OF p that] by (simp_all only: r)
  show h: "read32 (kernel_file d') 0 = read32 (kernel_file d) 0" "eh_phoff (kernel_file d') 0 = eh_phoff (kernel_file d) 0"
    "eh_phnum (kernel_file d') 0 = eh_phnum (kernel_file d) 0" "eh_entry (kernel_file d') 0 = eh_entry (kernel_file d) 0"
    using e [of 0] e [of "0x20"] e [of "0x38"] e [of "0x18"] by (simp_all add: eh_phoff_def eh_phnum_def eh_entry_def)
  have "kernel_program d' i = kernel_program d i" if i: "i < unat (eh_phnum (kernel_file d) 0)" for i
  proof -
    let ?a = "eh_phoff (kernel_file d) 0 + 56 * word_of_nat i"
    have i': "unat (eh_phoff (kernel_file d) 0) + 56 * i + 56 \<le> 4096" using i assms(2) by simp
    have "unat (word_of_nat i :: u64) = i" using i' by (intro unat_of_nat_small) simp
    then have "unat (56 * word_of_nat i :: u64) = 56 * i" using i' by (simp only: unat_word_ariths) simp
    then have "unat ?a = unat (eh_phoff (kernel_file d) 0) + 56 * i" using i' by (simp add: unat_add_64)
    then have "program_at ?m (ELFHDR + ?a) = program_at (kernel_file d) ?a" using i' by (intro program_at_page [OF p]) simp
    moreover have "program_at ?m (ELFHDR + ?a) = program_at (kernel_file d') ?a"
      by (simp only: program_at_def add.assoc r)
    ultimately show ?thesis by (simp add: kernel_program_def h(2))
  qed
  then show "kernel_programs d' = kernel_programs d" by (simp add: kernel_programs_def h(3))
qed

text \<open>
  C27. A built image boots the kernel it was built from: if \<open>mkbootdisk\<close> wrote an image from a boot sector, a kernel file and
  whatever else, the kernel file is a well-formed executable of at least a page, and the disk becomes ready again and again,
  then the boot loader reading that image returns the kernel's entry point, with the bytes of the kernel file in memory at the
  addresses of its segments and the rest of each segment cleared.
\<close>

theorem built_image_boots:
  assumes "mkbootdisk fs ws (bootfile # kfile # args) = Some (Inr ((), d))" and "bootfile \<noteq> ''-p''" and "bootfile \<noteq> ''-m''"
    and "skip_argument kfile = None" and "fs kfile = Some bs" and "4096 \<le> length bs" and "bootable (kernel_drive st bs)"
    and "drive_ready (image_drive st (contents d))"
  shows "\<exists>a' m'. boot (image_drive st (contents d)) (a, m) = Some (eh_entry (kernel_file (kernel_drive st bs)) 0, a', m') \<and>
    (\<forall>p \<in> set (kernel_programs (kernel_drive st bs)). unat (p_offset p) + unat (p_filesz p) \<le> length bs \<longrightarrow>
       (\<forall>k < unat (p_memsz p). m' (p_va p + word_of_nat k) = (if k < unat (p_filesz p) then bs ! (unat (p_offset p) + k) else 0)))"
proof -
  from mkbootdisk_contents [OF assms(1-3)] obtain b where b: "length b \<le> 510"
    "contents d = (let img = image_of fs (kfile # args) (boot_sector b) in img @ replicate (524288 - length img) 0)" by blast
  obtain rest where "image_of fs (kfile # args) (boot_sector b) = boot_sector b @ bs @ rest"
    using image_of_prefix [of fs args "boot_sector b @ padded bs"] assms(4,5) by (auto simp: padded_def)
  then have c: "byte_of (contents d) (512 + n) = bs ! n" if "n < length bs" for n
    using b that length_boot_sector [OF b(1)] by (simp add: Let_def) (simp add: byte_of_def)
  have k: "disk (image_drive st (contents d)) (512 + n) = disk (kernel_drive st bs) (512 + n)" if "n < length bs" for n
    using c [OF that] that unfolding kernel_drive_disk by (simp add: image_drive_def byte_of_def)
  note same = same_headers [of "image_drive st (contents d)" "kernel_drive st bs"]
  have fit: "unat (eh_phoff (kernel_file (kernel_drive st bs)) 0) + 56 * unat (eh_phnum (kernel_file (kernel_drive st bs)) 0) \<le> 4096"
    using assms(7) by (simp add: bootable_def)
  have eq: "read32 (kernel_file (image_drive st (contents d))) 0 = read32 (kernel_file (kernel_drive st bs)) 0"
    "eh_phoff (kernel_file (image_drive st (contents d))) 0 = eh_phoff (kernel_file (kernel_drive st bs)) 0"
    "eh_phnum (kernel_file (image_drive st (contents d))) 0 = eh_phnum (kernel_file (kernel_drive st bs)) 0"
    "eh_entry (kernel_file (image_drive st (contents d))) 0 = eh_entry (kernel_file (kernel_drive st bs)) 0"
    "kernel_programs (image_drive st (contents d)) = kernel_programs (kernel_drive st bs)"
    using k assms(6) fit by (intro same; simp)+
  then have "bootable (image_drive st (contents d))" using assms(7) by (simp add: bootable_def)
  from boot_loads [OF assms(8) this, of a m] obtain a' m' where
    r: "boot (image_drive st (contents d)) (a, m) = Some (eh_entry (kernel_file (kernel_drive st bs)) 0, a', m')"
    "\<forall>p \<in> set (kernel_programs (kernel_drive st bs)). segment_loaded (image_drive st (contents d)) p m'" by (auto simp: eq)
  have "m' (p_va p + word_of_nat j) = (if j < unat (p_filesz p) then bs ! (unat (p_offset p) + j) else 0)"
    if "p \<in> set (kernel_programs (kernel_drive st bs))" "unat (p_offset p) + unat (p_filesz p) \<le> length bs" "j < unat (p_memsz p)" for p j
    using r(2) that c [of "unat (p_offset p) + j"] by (auto simp: segment_loaded_def image_drive_def add.assoc)
  with r(1) show ?thesis by blast
qed

text \<open>The sample kernel of the boot loader as a file of 4104 bytes.\<close>

definition sample_kernel :: "u8 list" where
  "sample_kernel = map (\<lambda>i. case map_of sample_disk (512 + i) of Some b \<Rightarrow> b | None \<Rightarrow> 0) [0..<4104]"

lemma sample_kernel: "length sample_kernel = 4104" "i < 4104 \<Longrightarrow> sample_kernel ! i = (case map_of sample_disk (512 + i) of Some b \<Rightarrow> b | None \<Rightarrow> 0)"
  unfolding sample_kernel_def by (simp_all only: length_map length_upt nth_map nth_upt) simp_all

lemma sample_kernel_drive: "kernel_file (kernel_drive st sample_kernel) = kernel_file sample_drive"
proof
  fix a
  have "map_of sample_disk (512 + n) = None" if "\<not> n < 4104" for n using that by (simp add: sample_disk_def)
  then have "byte_of sample_kernel n = (case map_of sample_disk (512 + n) of Some b \<Rightarrow> b | None \<Rightarrow> 0)" for n
    using sample_kernel by (cases "n < 4104") (simp_all add: byte_of_def)
  then show "kernel_file (kernel_drive st sample_kernel) a = kernel_file sample_drive a"
    unfolding sample_kernel_file by (simp add: kernel_file_def kernel_drive_disk)
qed

definition kernel_files :: "string \<Rightarrow> u8 list option" where
  "kernel_files = [''bootsector'' \<mapsto> [0xEB, 0xFE], ''kernel'' \<mapsto> sample_kernel]"

theorem built_image_boots_witness:
  "\<exists>ws d. mkbootdisk kernel_files ws [''bootsector'', ''kernel''] = Some (Inr ((), d)) \<and>
     (\<exists>a' m'. boot (image_drive (\<lambda>_. 0x50) (contents d)) (\<lparr>sector_count = 0, lba_low = 0, lba_mid = 0, lba_high = 0, drive_head = 0, polls = 0\<rparr>, \<lambda>_. 0xEE) =
        Some (0x40000, a', m') \<and> m' 0x40003 = 0xF4 \<and> m' 0x40004 = 0)"
proof -
  let ?ws = "replicate (effort kernel_files [''kernel''] + 1025) (Wrote 4096)" and ?kd = "kernel_drive (\<lambda>_. 0x50) sample_kernel"
  have f: "kernel_files ''bootsector'' = Some [0xEB, 0xFE]" "kernel_files ''kernel'' = Some sample_kernel" "skip_argument ''kernel'' = None"
    by (simp_all add: kernel_files_def skip_argument_def)
  have "\<exists>d. mkbootdisk kernel_files ?ws [''bootsector'', ''kernel''] = Some (Inr ((), d))"
    using f by (intro mkbootdisk_succeeds [where boot = "''bootsector''" and fs = kernel_files and bs = "[0xEB, 0xFE]"]) simp_all
  then obtain d where d: "mkbootdisk kernel_files ?ws [''bootsector'', ''kernel''] = Some (Inr ((), d))" ..
  have same: "kernel_program ?kd = kernel_program sample_drive" by (rule ext) (simp add: kernel_program_def sample_kernel_drive)
  have p: "kernel_programs ?kd = [kernel_program sample_drive 0]" "eh_entry (kernel_file ?kd) 0 = 0x40000"
    using sample_programs sample_headers(4) by (simp_all add: kernel_programs_def same sample_kernel_drive)
  have "bootable ?kd" using sample_bootable(2) sample_programs p(1) by (simp add: bootable_def sample_kernel_drive)
  moreover have "drive_ready (image_drive (\<lambda>_. 0x50) (contents d))" by (auto simp: drive_ready_def image_drive_def)
  moreover have "4096 \<le> length sample_kernel" by (simp add: sample_kernel)
  ultimately have "\<exists>a' m'. boot (image_drive (\<lambda>_. 0x50) (contents d))
      (\<lparr>sector_count = 0, lba_low = 0, lba_mid = 0, lba_high = 0, drive_head = 0, polls = 0\<rparr>, \<lambda>_. 0xEE) = Some (0x40000, a', m') \<and>
    (\<forall>q \<in> set (kernel_programs ?kd). unat (p_offset q) + unat (p_filesz q) \<le> length sample_kernel \<longrightarrow>
       (\<forall>k < unat (p_memsz q). m' (p_va q + word_of_nat k) = (if k < unat (p_filesz q) then sample_kernel ! (unat (p_offset q) + k) else 0)))"
    using built_image_boots [OF d _ _ f(3,2), of "\<lambda>_. 0x50"] p(2) by simp
  then obtain a' m' where b: "boot (image_drive (\<lambda>_. 0x50) (contents d))
      (\<lparr>sector_count = 0, lba_low = 0, lba_mid = 0, lba_high = 0, drive_head = 0, polls = 0\<rparr>, \<lambda>_. 0xEE) = Some (0x40000, a', m')"
    and q: "unat (p_offset q) + unat (p_filesz q) \<le> length sample_kernel \<Longrightarrow> j < unat (p_memsz q) \<Longrightarrow>
      m' (p_va q + word_of_nat j) = (if j < unat (p_filesz q) then sample_kernel ! (unat (p_offset q) + j) else 0)"
      if "q = kernel_program sample_drive 0" for q j
    unfolding p(1) by (elim exE conjE) auto
  have m: "m' (0x40000 + word_of_nat j) = (if j < 4 then sample_kernel ! (4096 + j) else 0)" if "j < 8" for j
    using q [OF refl, of j] that by (simp add: sample_segment sample_kernel(1))
  have "sample_kernel ! 4099 = 0xF4" by (simp only: sample_kernel(2)) (simp add: sample_kernel(2) sample_disk_def)
  then have "m' 0x40003 = 0xF4 \<and> m' 0x40004 = 0" using m [of 3] m [of 4] by simp
  with d b show ?thesis by blast
qed

end
