(* ===== verification/Devices.thy ===== *)
theory Devices
  imports X86
begin

unbundle bit_operations_syntax

text \<open>
  The PCI bus of \<open>weensyos/k-pci.hh\<close>, the enumeration of its functions and \<open>poweroff\<close> of \<open>weensyos/k-hardware.cc\<close>.
  The configuration space is reached through an address port and a data port.
\<close>

section \<open>The PCI configuration space\<close>

definition reg_host_bridge_config_addr :: int where "reg_host_bridge_config_addr = 0xCF8"
definition reg_host_bridge_config_data :: int where "reg_host_bridge_config_data = 0xCFC"
definition config_vendor :: int where "config_vendor = 0"
definition config_command :: int where "config_command = 4"
definition config_lthb :: int where "config_lthb = 12"
definition addr_end :: int where "addr_end = 0x80000"

lemmas pci_consts = reg_host_bridge_config_addr_def reg_host_bridge_config_data_def config_vendor_def config_command_def
  config_lthb_def addr_end_def

text \<open>The selected address, the bytes of the configuration space, and what was written to other ports.\<close>

record pci =
  selected :: u32
  config :: "u32 \<Rightarrow> u8"
  outw_log :: "(int \<times> u16) list"

text \<open>The data ports reach the aligned doubleword the address port selects.\<close>

definition data_addr :: "int \<Rightarrow> pci \<Rightarrow> u32" where
  "data_addr port b = (selected b AND 0x7FFFFFFC) + word_of_int (port - reg_host_bridge_config_data)"

definition is_data_port :: "int \<Rightarrow> bool" where
  "is_data_port port \<longleftrightarrow> reg_host_bridge_config_data \<le> port \<and> port < reg_host_bridge_config_data + 4"

definition config32 :: "pci \<Rightarrow> u32 \<Rightarrow> u32" where
  "config32 b a = ucast (config b a) OR push_bit 8 (ucast (config b (a + 1))) OR push_bit 16 (ucast (config b (a + 2))) OR
     push_bit 24 (ucast (config b (a + 3)))"

definition outl :: "int \<Rightarrow> u32 \<Rightarrow> pci \<Rightarrow> pci" where
  "outl port v b =
     (if port = reg_host_bridge_config_addr then b\<lparr>selected := v\<rparr>
      else if is_data_port port then
        let a = data_addr port b
        in b\<lparr>config := (config b)(a := ucast v, a + 1 := ucast (drop_bit 8 v), a + 2 := ucast (drop_bit 16 v), a + 3 := ucast (drop_bit 24 v))\<rparr>
      else b)"

definition outw :: "int \<Rightarrow> u16 \<Rightarrow> pci \<Rightarrow> pci" where
  "outw port v b =
     (if is_data_port port then
        let a = data_addr port b in b\<lparr>config := (config b)(a := ucast v, a + 1 := ucast (drop_bit 8 v))\<rparr>
      else b\<lparr>outw_log := outw_log b @ [(port, v)]\<rparr>)"

definition outb :: "int \<Rightarrow> u8 \<Rightarrow> pci \<Rightarrow> pci" where
  "outb port v b = (if is_data_port port then b\<lparr>config := (config b)(data_addr port b := v)\<rparr> else b)"

definition inl :: "int \<Rightarrow> pci \<Rightarrow> u32" where
  "inl port b = config32 b (data_addr port b)"

definition inw :: "int \<Rightarrow> pci \<Rightarrow> u16" where
  "inw port b = ucast (config b (data_addr port b)) OR push_bit 8 (ucast (config b (data_addr port b + 1)))"

definition inb :: "int \<Rightarrow> pci \<Rightarrow> u8" where
  "inb port b = config b (data_addr port b)"

section \<open>Addresses of functions\<close>

text \<open>\<open>None\<close> is a failed assertion.\<close>

definition make_addr :: "int \<Rightarrow> int \<Rightarrow> int \<Rightarrow> int option" where
  "make_addr bus slot func =
     (if bus \<ge> 0 \<and> bus < 256 \<and> slot \<ge> 0 \<and> slot < 32 \<and> func \<ge> 0 \<and> func < 8
      then Some (push_bit 16 bus OR push_bit 11 slot OR push_bit 8 func) else None)"

definition addr_bus :: "int \<Rightarrow> int option" where
  "addr_bus addr = (if addr \<ge> 0 \<and> addr < 0x1000000 then Some (drop_bit 16 addr) else None)"

definition addr_slot :: "int \<Rightarrow> int option" where
  "addr_slot addr = (if addr \<ge> 0 \<and> addr < 0x1000000 then Some (drop_bit 11 addr AND 0x1F) else None)"

definition addr_func :: "int \<Rightarrow> int option" where
  "addr_func addr = (if addr \<ge> 0 \<and> addr < 0x1000000 then Some (drop_bit 8 addr AND 0x7) else None)"

section \<open>Access to a function's registers\<close>

definition select :: "int \<Rightarrow> pci \<Rightarrow> pci" where
  "select addr b = outl reg_host_bridge_config_addr (0x80000000 OR word_of_int addr) b"

definition readl :: "int \<Rightarrow> pci \<Rightarrow> (u32 \<times> pci) option" where
  "readl addr b =
     (if addr \<ge> 0 \<and> addr AND 3 = 0 then let b = select addr b in Some (inl reg_host_bridge_config_data b, b) else None)"

definition readw :: "int \<Rightarrow> pci \<Rightarrow> (u16 \<times> pci) option" where
  "readw addr b =
     (if addr \<ge> 0 \<and> addr AND 1 = 0
      then let b = select addr b in Some (inw (reg_host_bridge_config_data + (addr AND 3)) b, b) else None)"

definition readb :: "int \<Rightarrow> pci \<Rightarrow> (u8 \<times> pci) option" where
  "readb addr b =
     (if addr \<ge> 0 then let b = select addr b in Some (inb (reg_host_bridge_config_data + (addr AND 3)) b, b) else None)"

definition writel :: "int \<Rightarrow> u32 \<Rightarrow> pci \<Rightarrow> pci option" where
  "writel addr v b =
     (if addr \<ge> 0 \<and> addr AND 3 = 0 then Some (outl reg_host_bridge_config_data v (select addr b)) else None)"

text \<open>The two narrow writes add the offset within the doubleword to the data instead of the port.\<close>

definition writew :: "int \<Rightarrow> u16 \<Rightarrow> pci \<Rightarrow> pci option" where
  "writew addr v b =
     (if addr \<ge> 0 \<and> addr AND 1 = 0
      then Some (outw reg_host_bridge_config_data (v + word_of_int (addr AND 3)) (select addr b)) else None)"

definition writeb :: "int \<Rightarrow> u8 \<Rightarrow> pci \<Rightarrow> pci option" where
  "writeb addr v b =
     (if addr \<ge> 0 then Some (outb reg_host_bridge_config_data (v + word_of_int (addr AND 3)) (select addr b)) else None)"

definition enable :: "int \<Rightarrow> pci \<Rightarrow> pci option" where
  "enable addr b = writew (addr + config_command) 0x0007 b"

section \<open>Enumerating functions\<close>

text \<open>The loop of \<open>next\<close>: \<open>x\<close> is the header register of the function at \<open>addr\<close>.\<close>

lemma make_addr_steps: "make_addr 0 1 0 = Some 0x800" "make_addr 0 0 1 = Some 0x100"
  by (simp_all add: make_addr_def)

definition next_step :: "int \<Rightarrow> u32 \<Rightarrow> int option" where
  "next_step addr x =
     Option.bind (addr_func addr) (\<lambda>f.
       if f = 0 \<and> (x = - 1 \<or> x AND 0x800000 = 0) then map_option ((+) addr) (make_addr 0 1 0)
       else map_option ((+) addr) (make_addr 0 0 1))"

lemma next_step_cases: "next_step addr x = Some a \<Longrightarrow> 0 \<le> addr \<and> (a = addr + 0x800 \<or> a = addr + 0x100)"
  by (auto simp: next_step_def addr_func_def make_addr_steps split: if_splits)

function next_loop :: "int \<Rightarrow> u32 \<Rightarrow> pci \<Rightarrow> (int \<times> pci) option" where
  "next_loop addr x b =
     (case next_step addr x of
        None \<Rightarrow> None
      | Some addr \<Rightarrow>
          if addr \<ge> addr_end then Some (- 1, b)
          else (case readl (addr + config_lthb) b of
                  None \<Rightarrow> None
                | Some (x, b) \<Rightarrow> if x \<noteq> - 1 then Some (addr, b) else next_loop addr x b))"
  by pat_completeness auto

termination
  by (relation "measure (\<lambda>(addr, x, b). nat (0x80000 - addr))") (auto simp: addr_end_def dest!: next_step_cases)

declare next_loop.simps [simp del]

definition pci_next :: "int \<Rightarrow> pci \<Rightarrow> (int \<times> pci) option" where
  "pci_next addr b = Option.bind (readl (addr + config_lthb) b) (\<lambda>(x, b). next_loop addr x b)"

lemma next_loop_range: "next_loop addr x b = Some (a, b') \<Longrightarrow> a = - 1 \<or> addr < a \<and> a < addr_end"
proof (induction addr x b rule: next_loop.induct)
  case (1 addr x b)
  show ?case
  proof (cases "next_step addr x")
    case (Some c)
    then have "addr < c" using next_step_cases [OF Some] by auto
    then show ?thesis using 1 Some
      by (fastforce simp: next_loop.simps [of addr x b] split: if_splits option.splits)
  qed (use 1 in \<open>simp add: next_loop.simps\<close>)
qed

lemma pci_next_range: "pci_next addr b = Some (a, b') \<Longrightarrow> a = - 1 \<or> addr < a \<and> a < addr_end"
  by (auto simp: pci_next_def split: option.splits bind_splits dest: next_loop_range)

text \<open>\<open>find\<close>: the predicate may read the bus too.\<close>

function pci_find :: "(int \<Rightarrow> pci \<Rightarrow> (bool \<times> pci) option) \<Rightarrow> int \<Rightarrow> pci \<Rightarrow> (int \<times> pci) option" where
  "pci_find predicate addr b =
     (if addr < 0 then Some (addr, b)
      else case predicate addr b of
        None \<Rightarrow> None
      | Some (found, b) \<Rightarrow>
          if found then Some (addr, b)
          else (case pci_next addr b of None \<Rightarrow> None | Some (addr, b) \<Rightarrow> pci_find predicate addr b))"
  by pat_completeness auto

termination
  by (relation "measure (\<lambda>(predicate, addr, b). if addr < 0 then 0 else nat (0x80000 - addr) + 1)")
    (auto simp: addr_end_def dest!: pci_next_range)

declare pci_find.simps [simp del]

definition is_power_management :: "int \<Rightarrow> pci \<Rightarrow> (bool \<times> pci) option" where
  "is_power_management a b = map_option (\<lambda>(vd, b). (vd = 0x71138086 \<or> vd = 0x29188086, b)) (readl (a + config_vendor) b)"

text \<open>\<open>poweroff\<close> up to the message and the endless loop that follow if the machine is still on.\<close>

definition poweroff :: "pci \<Rightarrow> pci option" where
  "poweroff b =
     Option.bind (pci_find is_power_management 0 b) (\<lambda>(addr, b).
       if addr \<ge> 0 then
         Option.bind (readl (addr + 0x40) b) (\<lambda>(r, b).
           let pm_io_base = uint (r AND 0xFFC0) in Some (outw (pm_io_base + 4) 0x2000 b))
       else Some b)"

section \<open>The enumeration is complete\<close>

lemma and_3: "x AND 3 = x mod (4 :: int)"
  using take_bit_eq_mask [of 2 x] by (simp add: take_bit_eq_mod mask_eq_exp_minus_1)

lemma and_7: "x AND 7 = x mod (8 :: int)"
  using take_bit_eq_mask [of 3 x] by (simp add: take_bit_eq_mod mask_eq_exp_minus_1)

lemma selected_addr:
  assumes "0 \<le> addr" and "addr < 0x80000000" and "addr mod 4 = 0"
  shows "(0x80000000 OR word_of_int addr) AND 0x7FFFFFFC = (word_of_int addr :: u32)"
proof (rule bit_word_eqI)
  let ?w = "word_of_int addr :: u32"
  fix n assume "n < LENGTH(32)"
  then have n: "n < 32" by simp
  have hi: "bit (0x80000000 :: u32) n \<longleftrightarrow> n = 31"
  proof -
    have "bit (push_bit 31 1 :: u32) n \<longleftrightarrow> n = 31" using n by (auto simp only: bit_push_bit_iff bit_1_iff) simp_all
    then show ?thesis by simp
  qed
  have lo: "bit (0x7FFFFFFC :: u32) n \<longleftrightarrow> 2 \<le> n \<and> n < 31"
  proof -
    have "bit (push_bit 2 (mask 29) :: u32) n \<longleftrightarrow> 2 \<le> n \<and> n < 31" using n by (auto simp only: bit_push_bit_iff bit_mask_iff) simp_all
    then show ?thesis by (simp add: mask_eq_exp_minus_1)
  qed
  have "take_bit 2 addr = 0" using assms(3) by (simp add: take_bit_eq_mod)
  then have b2: "\<not> bit addr n" if "n < 2" using that by (metis bit_take_bit_iff bit_0_eq bot_apply bot_bool_def)
  have "take_bit 31 addr = addr" using assms(1,2) by (simp add: take_bit_int_eq_self_iff)
  then have b31: "\<not> bit addr n" if "n = 31" using that by (metis bit_take_bit_iff less_irrefl)
  show "bit ((0x80000000 OR ?w) AND 0x7FFFFFFC) n = bit ?w n"
    using n b2 b31 unfolding bit_and_iff bit_or_iff hi lo by (cases "n < 2"; cases "n = 31") (auto simp: bit_simps)
qed

definition header :: "pci \<Rightarrow> int \<Rightarrow> u32" where
  "header b a = config32 b (word_of_int (a + 12))"

lemma readl_aligned:
  assumes "0 \<le> addr" and "addr < 0x80000000" and "addr mod 4 = 0"
  shows "\<exists>v. readl addr b = Some (config32 b (word_of_int addr), b\<lparr>selected := v\<rparr>)"
proof -
  let ?b = "b\<lparr>selected := 0x80000000 OR word_of_int addr\<rparr>"
  have "data_addr 0xCFC ?b = word_of_int addr"
    using selected_addr [OF assms] by (simp add: data_addr_def pci_consts)
  moreover have "config32 ?b = config32 b" by (simp add: config32_def fun_eq_iff)
  moreover have "readl addr b = Some (config32 ?b (data_addr 0xCFC ?b), ?b)"
    using assms by (simp add: readl_def and_3 select_def outl_def inl_def pci_consts Let_def)
  ultimately show ?thesis by auto
qed

text \<open>Functions have addresses that are multiples of 256 below \<open>addr_end\<close>; an absent one reads as all ones.\<close>

definition is_function :: "int \<Rightarrow> bool" where
  "is_function a \<longleftrightarrow> 0 \<le> a \<and> a < addr_end \<and> a mod 0x100 = 0"

definition present :: "pci \<Rightarrow> int \<Rightarrow> bool" where
  "present b a \<longleftrightarrow> is_function a \<and> header b a \<noteq> - 1"

text \<open>A device without function 0, or one not marked as having several functions, has no other function.\<close>

definition bus_ok :: "pci \<Rightarrow> bool" where
  "bus_ok b \<longleftrightarrow> (\<forall>a a'. is_function a \<longrightarrow> a mod 0x800 = 0 \<longrightarrow> header b a = - 1 \<or> header b a AND 0x800000 = 0 \<longrightarrow>
     a < a' \<longrightarrow> a' < a + 0x800 \<longrightarrow> \<not> present b a')"

definition next_function :: "pci \<Rightarrow> int \<Rightarrow> int \<Rightarrow> bool" where
  "next_function b addr r \<longleftrightarrow>
     (if r = - 1 then \<forall>a. addr < a \<longrightarrow> \<not> present b a
      else addr < r \<and> present b r \<and> (\<forall>a. addr < a \<longrightarrow> a < r \<longrightarrow> \<not> present b a))"

lemma select_irrelevant [simp]: "header (b\<lparr>selected := v\<rparr>) = header b" "present (b\<lparr>selected := v\<rparr>) = present b"
    "bus_ok (b\<lparr>selected := v\<rparr>) = bus_ok b" "next_function (b\<lparr>selected := v\<rparr>) = next_function b"
  by (simp_all add: header_def present_def bus_ok_def next_function_def config32_def fun_eq_iff)

lemma next_step_function:
  assumes "is_function addr"
  shows "next_step addr x = Some (addr + (if addr mod 0x800 = 0 \<and> (x = - 1 \<or> x AND 0x800000 = 0) then 0x800 else 0x100))"
proof -
  obtain q where q: "addr = 256 * q" using assms by (auto simp: is_function_def mod_eq_0_iff_dvd)
  then have "addr mod 0x800 = 256 * (q mod 8)" using mod_mult_mult1 [of 256 q 8] by simp
  then have "(addr div 256) mod 8 = 0 \<longleftrightarrow> addr mod 0x800 = 0" using q by simp
  moreover have "addr_func addr = Some ((addr div 256) mod 8)"
    using assms by (simp add: addr_func_def is_function_def addr_end_def and_7 drop_bit_eq_div)
  ultimately show ?thesis by (simp add: next_step_def make_addr_steps)
qed

lemma between_multiples: "a mod 256 = 0 \<Longrightarrow> a < a' \<Longrightarrow> a' < a + 256 \<Longrightarrow> a' mod 256 \<noteq> (0 :: int)"
proof
  assume a: "a mod 256 = 0" "a < a'" "a' < a + 256" "a' mod 256 = 0"
  obtain q q' where "a = 256 * q" "a' = 256 * q'" using a by (metis mod_eq_0_iff_dvd dvdE)
  with a show False by simp
qed

lemma not_present_between: "is_function a \<Longrightarrow> a < a' \<Longrightarrow> a' < a + 0x100 \<Longrightarrow> \<not> present b a'"
  using between_multiples [of a a'] by (simp add: present_def is_function_def)

lemma function_header_aligned: "a mod 256 = 0 \<Longrightarrow> (a + 12) mod 4 = (0 :: int)"
proof -
  assume "a mod 256 = 0"
  then obtain q where "a + 12 = 4 * (64 * q + 3)" by (auto simp: mod_eq_0_iff_dvd)
  then show ?thesis by (simp only: mod_mult_self1_is_0)
qed

lemma next_step_gap:
  assumes "bus_ok b" and "is_function addr"
  shows "\<exists>c. next_step addr (header b addr) = Some c \<and> addr < c \<and> c mod 256 = 0 \<and> (\<forall>a. addr < a \<longrightarrow> a < c \<longrightarrow> \<not> present b a)"
proof (cases "addr mod 0x800 = 0 \<and> (header b addr = - 1 \<or> header b addr AND 0x800000 = 0)")
  case True
  moreover have "\<not> present b a" if "addr < a" "a < addr + 0x800" for a
    using assms(1) [unfolded bus_ok_def, rule_format, OF assms(2) _ _ that] True by blast
  moreover have "(addr + 0x800) mod 256 = 0" using assms(2) by (simp add: is_function_def mod_add_eq [symmetric])
  ultimately show ?thesis by (auto simp: next_step_function [OF assms(2)])
next
  case False
  have "(addr + 0x100) mod 256 = 0" using assms(2) by (simp add: is_function_def)
  with False show ?thesis using not_present_between [OF assms(2)] by (auto simp: next_step_function [OF assms(2)])
qed

lemma next_function_end: "\<forall>a. addr < a \<longrightarrow> a < c \<longrightarrow> \<not> present b a \<Longrightarrow> addr_end \<le> c \<Longrightarrow> next_function b addr (- 1)"
  by (force simp: next_function_def present_def is_function_def)

lemma next_function_found: "\<forall>a. addr < a \<longrightarrow> a < c \<longrightarrow> \<not> present b a \<Longrightarrow> present b c \<Longrightarrow> addr < c \<Longrightarrow> next_function b addr c"
  by (auto simp: next_function_def present_def is_function_def)

lemma next_function_skip:
  assumes "\<forall>a. addr < a \<longrightarrow> a < c \<longrightarrow> \<not> present b a" and "\<not> present b c" and "addr < c" and "next_function b c r"
  shows "next_function b addr r"
proof -
  have "\<not> present b a" if "addr < a" "a \<le> c" for a using assms(1,2) that by (cases "a = c") auto
  with assms(3,4) show ?thesis unfolding next_function_def by (smt (verit))
qed

lemma next_loop_correct:
  "bus_ok b \<Longrightarrow> is_function addr \<Longrightarrow> x = header b addr \<Longrightarrow>
     \<exists>r v. next_loop addr x b = Some (r, b\<lparr>selected := v\<rparr>) \<and> next_function b addr r"
proof (induction addr x b rule: next_loop.induct)
  case (1 addr x b)
  obtain c where s: "next_step addr x = Some c" and c: "addr < c" "c mod 256 = 0" and gap: "\<forall>a. addr < a \<longrightarrow> a < c \<longrightarrow> \<not> present b a"
    using next_step_gap [OF "1.prems"(1,2)] "1.prems"(3) by auto
  show ?case
  proof (cases "c \<ge> addr_end")
    case True
    have "next_loop addr x b = Some (- 1, b\<lparr>selected := selected b\<rparr>)"
      using True by (subst next_loop.simps) (simp add: s)
    with next_function_end [OF gap True] show ?thesis by blast
  next
    case False
    then have f: "is_function c" using c "1.prems"(2) by (simp add: is_function_def)
    then have "0 \<le> c + config_lthb \<and> c + config_lthb < 0x80000000 \<and> (c + config_lthb) mod 4 = 0"
      using function_header_aligned [of c] by (simp add: is_function_def pci_consts)
    then obtain v where r: "readl (c + config_lthb) b = Some (header b c, b\<lparr>selected := v\<rparr>)"
      using readl_aligned [of "c + config_lthb" b] by (auto simp: header_def config_lthb_def)
    show ?thesis
    proof (cases "header b c = - 1")
      case True
      then have p: "\<not> present b c" by (simp add: present_def)
      obtain r' v' where n: "next_loop c (header b c) (b\<lparr>selected := v\<rparr>) = Some (r', b\<lparr>selected := v'\<rparr>)" "next_function b c r'"
        using "1.IH" [OF s False r refl] True "1.prems"(1) f by auto
      moreover have "next_loop addr x b = Some (r', b\<lparr>selected := v'\<rparr>)"
        using False True n(1) r by (subst next_loop.simps) (simp add: s)
      ultimately show ?thesis using next_function_skip [OF gap p c(1)] by blast
    next
      case present: False
      then have "present b c" using f by (simp add: present_def)
      moreover have "next_loop addr x b = Some (c, b\<lparr>selected := v\<rparr>)"
        using False present r by (subst next_loop.simps) (simp add: s)
      ultimately show ?thesis using next_function_found [OF gap _ c(1)] by blast
    qed
  qed
qed

lemma pci_next_correct:
  assumes "bus_ok b" and "is_function addr"
  shows "\<exists>r v. pci_next addr b = Some (r, b\<lparr>selected := v\<rparr>) \<and> next_function b addr r"
proof -
  have "0 \<le> addr + config_lthb \<and> addr + config_lthb < 0x80000000 \<and> (addr + config_lthb) mod 4 = 0"
    using assms(2) function_header_aligned [of addr] by (simp add: is_function_def pci_consts)
  then obtain v where r: "readl (addr + config_lthb) b = Some (header b addr, b\<lparr>selected := v\<rparr>)"
    using readl_aligned [of "addr + config_lthb" b] by (auto simp: header_def config_lthb_def)
  have "\<exists>r v'. next_loop addr (header b addr) (b\<lparr>selected := v\<rparr>) = Some (r, b\<lparr>selected := v'\<rparr>) \<and> next_function b addr r"
    using next_loop_correct [of "b\<lparr>selected := v\<rparr>" addr "header b addr"] assms by simp
  then show ?thesis by (simp add: pci_next_def r)
qed

text \<open>
  The bus enumeration misses nothing: on a bus where single-function devices have one function, \<open>pcistate::next\<close> never fails an
  assertion, changes nothing but the selected address, and returns the lowest function present after the given one, or \<open>-1\<close> exactly
  when there is none.
\<close>

theorem pci_next_enumerates:
  assumes "bus_ok b" and "is_function addr"
  shows "\<exists>r v. pci_next addr b = Some (r, b\<lparr>selected := v\<rparr>) \<and>
    (if r = - 1 then \<forall>a. addr < a \<longrightarrow> \<not> present b a
     else addr < r \<and> present b r \<and> (\<forall>a. addr < a \<longrightarrow> a < r \<longrightarrow> \<not> present b a))"
  using pci_next_correct [OF assms] by (simp add: next_function_def)

section \<open>Powering off\<close>

definition is_pm :: "pci \<Rightarrow> int \<Rightarrow> bool" where
  "is_pm b a \<longleftrightarrow> (a = 0 \<or> present b a) \<and> config32 b (word_of_int a) \<in> {0x71138086, 0x29188086}"

lemma is_pm_select [simp]: "is_pm (b\<lparr>selected := v\<rparr>) = is_pm b"
  by (simp add: is_pm_def fun_eq_iff config32_def)

lemma is_function_aligned: "is_function a \<Longrightarrow> 0 \<le> a \<and> a < 0x80000000 \<and> a mod 4 = 0"
proof -
  assume a: "is_function a"
  then obtain q where "a = 4 * (64 * q)" by (auto simp: is_function_def elim!: dvdE)
  then have "a mod 4 = 0" by (simp only: mod_mult_self1_is_0)
  with a show ?thesis by (simp add: is_function_def addr_end_def)
qed

lemma is_power_management_reads:
  assumes "is_function a" and "a = 0 \<or> present b a"
  shows "\<exists>v. is_power_management a b = Some (is_pm b a, b\<lparr>selected := v\<rparr>)"
proof -
  obtain v where "readl (a + config_vendor) b = Some (config32 b (word_of_int a), b\<lparr>selected := v\<rparr>)"
    using readl_aligned [of a b] is_function_aligned [OF assms(1)] by (auto simp: config_vendor_def)
  then show ?thesis using assms(2) by (auto simp: is_power_management_def is_pm_def)
qed

lemma pci_find_pm:
  "bus_ok b \<Longrightarrow> is_function addr \<Longrightarrow> addr = 0 \<or> present b addr \<Longrightarrow>
     \<exists>r v. pci_find is_power_management addr b = Some (r, b\<lparr>selected := v\<rparr>) \<and>
       (if r = - 1 then \<forall>a. addr \<le> a \<longrightarrow> \<not> is_pm b a
        else is_function r \<and> is_pm b r \<and> (\<forall>a. addr \<le> a \<longrightarrow> a < r \<longrightarrow> \<not> is_pm b a))"
proof (induction "is_power_management" addr b rule: pci_find.induct)
  case (1 addr b)
  obtain v where p: "is_power_management addr b = Some (is_pm b addr, b\<lparr>selected := v\<rparr>)"
    using is_power_management_reads [OF "1.prems"(2,3)] by auto
  have nn: "\<not> addr < 0" using "1.prems"(2) by (simp add: is_function_def)
  show ?case
  proof (cases "is_pm b addr")
    case True
    then have "pci_find is_power_management addr b = Some (addr, b\<lparr>selected := v\<rparr>)"
      using nn p by (subst pci_find.simps) simp
    with True nn "1.prems"(2) show ?thesis by auto
  next
    case False
    obtain r w where n: "pci_next addr (b\<lparr>selected := v\<rparr>) = Some (r, b\<lparr>selected := w\<rparr>)" "next_function b addr r"
      using pci_next_correct [of "b\<lparr>selected := v\<rparr>" addr] "1.prems" by auto
    have between: "\<not> is_pm b a" if "addr \<le> a" "r = - 1 \<or> a < r" for a
    proof (cases "a = addr")
      case False
      with that n(2) nn have "\<not> present b a" by (auto simp: next_function_def split: if_splits)
      with that nn False show ?thesis by (auto simp: is_pm_def)
    qed (simp add: \<open>\<not> is_pm b addr\<close>)
    have step: "pci_find is_power_management addr b = pci_find is_power_management r (b\<lparr>selected := w\<rparr>)"
      using nn p False n(1) by (subst pci_find.simps) simp
    show ?thesis
    proof (cases "r = - 1")
      case True
      then have "pci_find is_power_management addr b = Some (- 1, b\<lparr>selected := w\<rparr>)"
        unfolding step by (subst pci_find.simps) simp
      with True between show ?thesis by auto
    next
      case r: False
      then have "present b r" "addr < r" using n(2) by (auto simp: next_function_def)
      then have "is_function r" by (simp add: present_def)
      have "\<exists>r' v. pci_find is_power_management r (b\<lparr>selected := w\<rparr>) = Some (r', b\<lparr>selected := v\<rparr>) \<and>
         (if r' = - 1 then \<forall>a. r \<le> a \<longrightarrow> \<not> is_pm b a
          else is_function r' \<and> is_pm b r' \<and> (\<forall>a. r \<le> a \<longrightarrow> a < r' \<longrightarrow> \<not> is_pm b a))"
        using "1.hyps" [OF nn p refl _ n(1) refl] False "1.prems"(1) \<open>present b r\<close> \<open>is_function r\<close>
        unfolding is_pm_select select_irrelevant by simp
      with step between \<open>addr < r\<close> show ?thesis by (smt (verit))
    qed
  qed
qed

lemma pm_port: "\<not> is_data_port (uint (r AND 0xFFC0 :: u32) + 4)"
proof
  assume "is_data_port (uint (r AND 0xFFC0 :: u32) + 4)"
  then have "uint (r AND 0xFFC0) \<in> {0xCF8, 0xCF9, 0xCFA, 0xCFB}" by (auto simp: is_data_port_def pci_consts)
  then obtain k where k: "uint (r AND 0xFFC0) = k" "k \<in> {0xCF8, 0xCF9, 0xCFA, 0xCFB}" by blast
  then have "r AND 0xFFC0 = word_of_int k" by (metis word_of_int_uint)
  with k(2) have "r AND 0xFFC0 \<in> {0xCF8, 0xCF9, 0xCFA, 0xCFB}" by auto
  moreover have "(r AND 0xFFC0) AND 0x3F = 0" by (simp add: and.assoc)
  ultimately show False by auto
qed

lemma pm_register_reads:
  assumes "is_function r"
  shows "\<exists>w. readl (r + 0x40) (b\<lparr>selected := v\<rparr>) = Some (config32 b (word_of_int (r + 0x40)), b\<lparr>selected := w\<rparr>)"
proof -
  obtain q where "r + 0x40 = 4 * (64 * q + 16)" using assms by (auto simp: is_function_def elim!: dvdE)
  then have "(r + 0x40) mod 4 = 0" by (simp only: mod_mult_self1_is_0)
  moreover have "0 \<le> r + 0x40" "r + 0x40 < 0x80000000" using assms by (auto simp: is_function_def addr_end_def)
  moreover have "config32 (b\<lparr>selected := v\<rparr>) = config32 b" by (simp add: config32_def fun_eq_iff)
  ultimately show ?thesis using readl_aligned [of "r + 0x40" "b\<lparr>selected := v\<rparr>"] by auto
qed

text \<open>
  Powering off: \<open>poweroff\<close> finds the power-management controller with the lowest address and writes the suspend bit to the control
  register of exactly that controller; without such a controller it writes to no port. The configuration of the devices is unchanged.
\<close>

theorem poweroff_suspends:
  assumes "bus_ok b"
  shows "\<exists>v ws. poweroff b = Some (b\<lparr>selected := v, outw_log := outw_log b @ ws\<rparr>) \<and>
    (if \<forall>a. 0 \<le> a \<longrightarrow> \<not> is_pm b a then ws = []
     else \<exists>a \<ge> 0. is_pm b a \<and> (\<forall>a'. 0 \<le> a' \<longrightarrow> a' < a \<longrightarrow> \<not> is_pm b a') \<and>
       ws = [(uint (config32 b (word_of_int (a + 0x40)) AND 0xFFC0) + 4, 0x2000)])"
proof -
  have "is_function 0" by (simp add: is_function_def addr_end_def)
  from pci_find_pm [OF assms this] obtain r v where f: "pci_find is_power_management 0 b = Some (r, b\<lparr>selected := v\<rparr>)"
    and r: "if r = - 1 then \<forall>a. 0 \<le> a \<longrightarrow> \<not> is_pm b a else is_function r \<and> is_pm b r \<and> (\<forall>a. 0 \<le> a \<longrightarrow> a < r \<longrightarrow> \<not> is_pm b a)"
    by blast
  show ?thesis
  proof (cases "r = - 1")
    case True
    then have "poweroff b = Some (b\<lparr>selected := v, outw_log := outw_log b @ []\<rparr>)" by (simp add: poweroff_def f)
    moreover have "\<forall>a. 0 \<le> a \<longrightarrow> \<not> is_pm b a" using True r by simp
    ultimately show ?thesis by (intro exI [of _ v] exI [of _ "[]"]) simp
  next
    case False
    with r have fr: "is_function r" "is_pm b r" "\<forall>a. 0 \<le> a \<longrightarrow> a < r \<longrightarrow> \<not> is_pm b a" by simp_all
    obtain w where rd: "readl (r + 0x40) (b\<lparr>selected := v\<rparr>) = Some (config32 b (word_of_int (r + 0x40)), b\<lparr>selected := w\<rparr>)"
      using pm_register_reads [OF fr(1)] by blast
    have "0 \<le> r" using fr(1) by (simp add: is_function_def)
    then have "poweroff b = Some (b\<lparr>selected := w, outw_log := outw_log b @
        [(uint (config32 b (word_of_int (r + 0x40)) AND 0xFFC0) + 4, 0x2000)]\<rparr>)"
      by (simp add: poweroff_def f rd outw_def pm_port)
    moreover have "\<not> (\<forall>a. 0 \<le> a \<longrightarrow> \<not> is_pm b a)" using fr(2) \<open>0 \<le> r\<close> by blast
    ultimately show ?thesis using fr(2,3) \<open>0 \<le> r\<close>
      by (intro exI [of _ w] exI [of _ "[(uint (config32 b (word_of_int (r + 0x40)) AND 0xFFC0) + 4, 0x2000)]"]) (simp only: if_False, blast)
  qed
qed

text \<open>A bus with a host bridge and, in slot 1, a power-management controller whose control registers start at port \<open>0xB000\<close>.\<close>

definition sample_config :: "(int \<times> u8) list" where
  "sample_config = [(0, 0x86), (1, 0x80), (2, 0x37), (3, 0x12), (12, 0), (13, 0), (14, 0), (15, 0),
     (0x800, 0x86), (0x801, 0x80), (0x802, 0x13), (0x803, 0x71), (0x80C, 0), (0x80D, 0), (0x80E, 0), (0x80F, 0),
     (0x840, 0x01), (0x841, 0xB0), (0x842, 0), (0x843, 0)]"

definition sample_bus :: pci where
  "sample_bus = \<lparr>selected = 0, config = (\<lambda>a. case map_of sample_config (uint a) of Some v \<Rightarrow> v | None \<Rightarrow> 0xFF), outw_log = []\<rparr>"

lemma sample_config_none:
  assumes "0 \<le> k" "k < 4" "q \<noteq> 0" "q \<noteq> 8"
  shows "map_of sample_config (256 * q + 12 + k) = None"
proof -
  let ?e = "256 * q + 12 + k"
  have "q \<le> - 1 \<or> 1 \<le> q \<and> q \<le> 7 \<or> 9 \<le> q" using assms(3,4) by linarith
  then have "?e < 0 \<or> 268 \<le> ?e \<and> ?e < 1808 \<or> 2316 \<le> ?e" using assms(1,2) by linarith
  then have "?e \<notin> set (map fst sample_config)" by (auto simp: sample_config_def)
  then show ?thesis by (simp add: map_of_eq_None_iff)
qed

lemma sample_header:
  assumes "a = 256 * q" "0 \<le> a" "a < 0x80000" "q \<noteq> 0" "q \<noteq> 8"
  shows "header sample_bus a = - 1"
proof -
  have c: "config sample_bus (word_of_int (a + 12) + word_of_int k) = 0xFF" if "0 \<le> k" "k < 4" for k
  proof -
    have "uint (word_of_int (a + 12 + k) :: u32) = a + 12 + k"
      using assms(2,3) that by (simp add: uint_word_of_int del: of_int_add)
    moreover have "word_of_int (a + 12) + word_of_int k = (word_of_int (a + 12 + k) :: u32)" by (simp only: of_int_add)
    moreover have "map_of sample_config (a + 12 + k) = None"
      using sample_config_none [OF that assms(4,5)] by (simp add: assms(1))
    ultimately show ?thesis by (simp only: sample_bus_def pci.simps option.case)
  qed
  show ?thesis using c [of 0] c [of 1] c [of 2] c [of 3] by (simp add: header_def config32_def)
qed

lemma sample_bus_headers: "header sample_bus 0 = 0" "header sample_bus 0x800 = 0"
  by (simp_all add: header_def config32_def sample_bus_def sample_config_def)

lemma sample_present: "present sample_bus a \<longleftrightarrow> a = 0 \<or> a = 0x800"
proof
  assume p: "present sample_bus a"
  then obtain q where q: "a = 256 * q" "0 \<le> a" "a < 0x80000" by (auto simp: present_def is_function_def addr_end_def elim!: dvdE)
  show "a = 0 \<or> a = 0x800"
  proof (rule ccontr)
    assume "\<not> (a = 0 \<or> a = 0x800)"
    then have "q \<noteq> 0" "q \<noteq> 8" using q(1) by auto
    then have "header sample_bus a = - 1" by (rule sample_header [OF q])
    with p show False by (simp add: present_def)
  qed
qed (auto simp: present_def is_function_def addr_end_def sample_bus_headers)

lemma sample_bus_ok: "bus_ok sample_bus"
  by (auto simp: bus_ok_def sample_present)

theorem pci_next_enumerates_witness:
  "\<exists>v. pci_next 0 sample_bus = Some (0x800, sample_bus\<lparr>selected := v\<rparr>)"
proof -
  have "is_function 0" by (simp add: is_function_def addr_end_def)
  from pci_next_enumerates [OF sample_bus_ok this]
  obtain r v where r: "pci_next 0 sample_bus = Some (r, sample_bus\<lparr>selected := v\<rparr>)"
    "if r = - 1 then \<forall>a. 0 < a \<longrightarrow> \<not> present sample_bus a
     else 0 < r \<and> present sample_bus r \<and> (\<forall>a. 0 < a \<longrightarrow> a < r \<longrightarrow> \<not> present sample_bus a)" by blast
  have "r \<noteq> - 1" using r(2) sample_present by (metis zero_less_numeral)
  then have "0 < r" "present sample_bus r" "\<forall>a. 0 < a \<longrightarrow> a < r \<longrightarrow> \<not> present sample_bus a" using r(2) by simp_all
  then have "r = 0x800" by (simp add: sample_present)
  with r(1) show ?thesis by blast
qed

theorem poweroff_suspends_witness:
  "\<exists>v. poweroff sample_bus = Some (sample_bus\<lparr>selected := v, outw_log := [(0xB004, 0x2000)]\<rparr>)"
proof -
  have pm: "is_pm sample_bus a \<longleftrightarrow> a = 0x800" for a
    by (auto simp: is_pm_def sample_present) (simp_all add: config32_def sample_bus_def sample_config_def)
  have r: "config32 sample_bus 0x840 = 0xB001" by (simp add: config32_def sample_bus_def sample_config_def)
  from poweroff_suspends [OF sample_bus_ok] obtain v ws where p: "poweroff sample_bus = Some (sample_bus\<lparr>selected := v, outw_log := outw_log sample_bus @ ws\<rparr>)"
    and ws: "if \<forall>a. 0 \<le> a \<longrightarrow> \<not> is_pm sample_bus a then ws = []
     else \<exists>a \<ge> 0. is_pm sample_bus a \<and> (\<forall>a'. 0 \<le> a' \<longrightarrow> a' < a \<longrightarrow> \<not> is_pm sample_bus a') \<and>
       ws = [(uint (config32 sample_bus (word_of_int (a + 0x40)) AND 0xFFC0) + 4, 0x2000)]" by blast
  have "\<not> (\<forall>a. 0 \<le> a \<longrightarrow> \<not> is_pm sample_bus a)" using pm by (metis zero_le_numeral)
  with ws have "ws = [(uint (config32 sample_bus (word_of_int (0x800 + 0x40)) AND 0xFFC0) + 4, 0x2000)]" by (auto simp only: if_False pm)
  then have "ws = [(0xB004, 0x2000)]" by (simp add: r)
  with p show ?thesis by (auto simp: sample_bus_def)
qed

text \<open>A narrow write to the upper half of a doubleword changes the lower half instead.\<close>

lemma writew_misplaced:
  "writew 2 0x1234 sample_bus = Some (outw reg_host_bridge_config_data 0x1236 (select 2 sample_bus))"
  by (simp add: writew_def)

end
