(* ===== verification/CpuInit.thy ===== *)
theory CpuInit
  imports Sched
begin

unbundle bit_operations_syntax

text \<open>
  The interrupt controllers of \<open>weensyos/k-apic.hh\<close> and the parts of \<open>init_hardware\<close> that set up the processor:
  \<open>init_interrupts\<close>, \<open>init_cpu_state\<close> and \<open>init_timer\<close> of \<open>weensyos/k-hardware.cc\<close>. The
  controllers' registers are memory-mapped: writes are kept in order, and what a read returns after them is a parameter.
\<close>

section \<open>Local APIC\<close>

type_synonym apic_log = "(int \<times> u32) list"
type_synonym apic = "apic_log \<Rightarrow> int \<Rightarrow> u32"

definition reg_id :: int where "reg_id = 0x02"
definition reg_svr :: int where "reg_svr = 0x0F"
definition reg_esr :: int where "reg_esr = 0x28"
definition reg_eoi :: int where "reg_eoi = 0x0B"
definition reg_lvt_timer :: int where "reg_lvt_timer = 0x32"
definition reg_lvt_lint0 :: int where "reg_lvt_lint0 = 0x35"
definition reg_lvt_lint1 :: int where "reg_lvt_lint1 = 0x36"
definition reg_lvt_error :: int where "reg_lvt_error = 0x37"
definition reg_icr_low :: int where "reg_icr_low = 0x30"
definition reg_timer_initial_count :: int where "reg_timer_initial_count = 0x38"
definition reg_timer_divide :: int where "reg_timer_divide = 0x3E"
definition ipi_delivery_status :: u32 where "ipi_delivery_status = 0x1000"
definition ipi_level_assert :: u32 where "ipi_level_assert = 0x4000"
definition ipi_all_excluding_self :: u32 where "ipi_all_excluding_self = 0xC0000"
definition timer_divide_1 :: u32 where "timer_divide_1 = 0x0B"
definition timer_periodic :: u32 where "timer_periodic = 0x20000"
definition lvt_masked :: u32 where "lvt_masked = 0x10000"
definition lapic_pa :: u64 where "lapic_pa = 0xFEE00000"

lemmas apic_regs = reg_id_def reg_svr_def reg_esr_def reg_eoi_def reg_lvt_timer_def reg_lvt_lint0_def reg_lvt_lint1_def
  reg_lvt_error_def reg_icr_low_def reg_timer_initial_count_def reg_timer_divide_def
lemmas apic_values = timer_divide_1_def timer_periodic_def lvt_masked_def

definition lapic_read :: "apic \<Rightarrow> int \<Rightarrow> apic_log \<Rightarrow> u32" where
  "lapic_read A reg l = A l reg"

definition lapic_write :: "int \<Rightarrow> u32 \<Rightarrow> apic_log \<Rightarrow> apic_log" where
  "lapic_write reg v l = l @ [(reg, v)]"

definition lapic_id :: "apic \<Rightarrow> apic_log \<Rightarrow> u32" where
  "lapic_id A l = drop_bit 24 (lapic_read A reg_id l)"

definition enable_lapic :: "apic \<Rightarrow> u32 \<Rightarrow> apic_log \<Rightarrow> apic_log" where
  "enable_lapic A vector l = lapic_write reg_svr ((lapic_read A reg_svr l AND NOT 0xFF) OR 0x100 OR vector) l"

definition disable_lapic :: "apic \<Rightarrow> apic_log \<Rightarrow> apic_log" where
  "disable_lapic A l = lapic_write reg_svr (lapic_read A reg_svr l AND NOT 0x100) l"

definition lapic_error :: "apic \<Rightarrow> apic_log \<Rightarrow> u32 \<times> apic_log" where
  "lapic_error A l = (let l = lapic_write reg_esr 0 l in (lapic_read A reg_esr l, l))"

definition lapic_ack :: "apic_log \<Rightarrow> apic_log" where
  "lapic_ack l = lapic_write reg_eoi 0 l"

definition ipi_others :: "u32 \<Rightarrow> u32 \<Rightarrow> apic_log \<Rightarrow> apic_log" where
  "ipi_others t vector l = lapic_write reg_icr_low (ipi_all_excluding_self OR ipi_level_assert OR t OR vector) l"

definition ipi_pending :: "apic \<Rightarrow> apic_log \<Rightarrow> bool" where
  "ipi_pending A l = (lapic_read A reg_icr_low l AND ipi_delivery_status \<noteq> 0)"

section \<open>I/O APIC\<close>

text \<open>A select register and a window onto the selected register.\<close>

definition reg_redtbl :: int where "reg_redtbl = 0x10"
definition redtbl_masked :: u32 where "redtbl_masked = 0x10000"

record ioapic =
  io_select :: int
  io_log :: apic_log

definition ioapic_read :: "apic \<Rightarrow> int \<Rightarrow> ioapic \<Rightarrow> u32 \<times> ioapic" where
  "ioapic_read A reg io = (let io = io\<lparr>io_select := reg\<rparr> in (A (io_log io) reg, io))"

definition ioapic_write :: "int \<Rightarrow> u32 \<Rightarrow> ioapic \<Rightarrow> ioapic" where
  "ioapic_write reg v io = (let io = io\<lparr>io_select := reg\<rparr> in io\<lparr>io_log := io_log io @ [(io_select io, v)]\<rparr>)"

definition ioapic_id :: "apic \<Rightarrow> ioapic \<Rightarrow> u32 \<times> ioapic" where
  "ioapic_id A io = apfst (drop_bit 24) (ioapic_read A 0 io)"

definition enable_irq :: "int \<Rightarrow> u32 \<Rightarrow> u32 \<Rightarrow> ioapic \<Rightarrow> ioapic" where
  "enable_irq entry vector cpu_lapicid io =
     ioapic_write (reg_redtbl + 2 * entry + 1) (push_bit 24 cpu_lapicid) (ioapic_write (reg_redtbl + 2 * entry) vector io)"

definition disable_irq :: "int \<Rightarrow> ioapic \<Rightarrow> ioapic" where
  "disable_irq entry io = ioapic_write (reg_redtbl + 2 * entry + 1) 0 (ioapic_write (reg_redtbl + 2 * entry) redtbl_masked io)"

section \<open>The processor\<close>

definition IRQ_ERROR :: u32 where "IRQ_ERROR = 19"
definition IRQ_SPURIOUS :: u32 where "IRQ_SPURIOUS = 31"
definition CR0_PE :: u32 where "CR0_PE = 0x00000001"
definition CR0_MP :: u32 where "CR0_MP = 0x00000002"
definition CR0_NE :: u32 where "CR0_NE = 0x00000020"
definition CR0_WP :: u32 where "CR0_WP = 0x00010000"
definition CR0_AM :: u32 where "CR0_AM = 0x00040000"
definition CR0_PG :: u32 where "CR0_PG = 0x80000000"
definition EFLAGS_TF :: u64 where "EFLAGS_TF = 0x100"
definition EFLAGS_DF :: u64 where "EFLAGS_DF = 0x400"
definition EFLAGS_IOPL_MASK :: u64 where "EFLAGS_IOPL_MASK = 0x3000"
definition EFLAGS_NT :: u64 where "EFLAGS_NT = 0x4000"
definition EFLAGS_AC :: u64 where "EFLAGS_AC = 0x40000"
definition MSR_IA32_STAR :: u32 where "MSR_IA32_STAR = 0xC0000081"
definition MSR_IA32_LSTAR :: u32 where "MSR_IA32_LSTAR = 0xC0000082"
definition MSR_IA32_FMASK :: u32 where "MSR_IA32_FMASK = 0xC0000084"
definition IA32_APIC_BASE_ENABLED :: u64 where "IA32_APIC_BASE_ENABLED = 0x800"

lemmas msr_numbers = MSR_IA32_STAR_def MSR_IA32_LSTAR_def MSR_IA32_FMASK_def

record taskstate =
  ts_rsp :: "u64 list"
  ts_ist :: "u64 list"
  ts_iomap_base :: u16

record pseudodescriptor =
  limit :: u16
  base :: u64

record cpu =
  gates :: "gatedescriptor list"
  pic_log :: "(int \<times> u8) list"
  kernel_taskstate :: taskstate
  gdtr :: pseudodescriptor
  idtr :: pseudodescriptor
  task_register :: u16
  fs_selector :: u16
  gs_selector :: u16
  cr0 :: u32
  msrs :: "u32 \<Rightarrow> u64"
  lapic :: apic_log

definition outb :: "int \<Rightarrow> u8 \<Rightarrow> cpu \<Rightarrow> cpu" where
  "outb port v c = c\<lparr>pic_log := pic_log c @ [(port, v)]\<rparr>"

definition wrmsr :: "u32 \<Rightarrow> u64 \<Rightarrow> cpu \<Rightarrow> cpu" where
  "wrmsr msr v c = c\<lparr>msrs := (msrs c)(msr := v)\<rparr>"

text \<open>\<open>None\<close> is a failed assertion; \<open>edx\<close> and \<open>apic_base\<close> are what the processor reports about its APIC.\<close>

definition init_interrupts :: "u32 \<Rightarrow> u64 \<Rightarrow> u64 list \<Rightarrow> cpu \<Rightarrow> cpu option" where
  "init_interrupts edx apic_base addrs c =
     Option.bind (those (init_interrupt_descriptors addrs)) (\<lambda>gs.
       if edx AND push_bit 9 1 = 0 then None
       else if apic_base AND IA32_APIC_BASE_ENABLED = 0 then None
       else if apic_base AND 0xFFFFFFFFF000 \<noteq> lapic_pa then None
       else Some (outb (0xA0 + 1) 0xFF (outb (0x20 + 1) 0xFF (c\<lparr>gates := gs\<rparr>))))"

text \<open>\<open>gdt\<close>, \<open>idt\<close> and \<open>syscall_entry\<close> are addresses.\<close>

definition init_cpu_state :: "apic \<Rightarrow> u64 \<Rightarrow> u64 \<Rightarrow> u64 \<Rightarrow> cpu \<Rightarrow> cpu" where
  "init_cpu_state A gdt idt syscall_entry c =
     (let c = c\<lparr>kernel_taskstate := \<lparr>ts_rsp = [KERNEL_STACK_TOP, 0, 0], ts_ist = replicate 8 0, ts_iomap_base = 0\<rparr>,
                gdtr := \<lparr>limit = 7 * 8 - 1, base = gdt\<rparr>, idtr := \<lparr>limit = 256 * 16 - 1, base = idt\<rparr>,
                task_register := ucast SEGSEL_TASKSTATE, fs_selector := ucast SEGSEL_KERN_DATA, gs_selector := ucast SEGSEL_KERN_DATA,
                cr0 := cr0 c OR CR0_PE OR CR0_PG OR CR0_WP OR CR0_AM OR CR0_MP OR CR0_NE\<rparr>;
          c = wrmsr MSR_IA32_STAR (push_bit 32 SEGSEL_KERN_CODE OR push_bit 48 SEGSEL_APP_CODE) c;
          c = wrmsr MSR_IA32_LSTAR syscall_entry c;
          c = wrmsr MSR_IA32_FMASK (EFLAGS_TF OR EFLAGS_DF OR EFLAGS_IF OR EFLAGS_IOPL_MASK OR EFLAGS_AC OR EFLAGS_NT) c;
          l = enable_lapic A (INT_IRQ + IRQ_SPURIOUS) (lapic c);
          l = lapic_write reg_timer_divide timer_divide_1 l;
          l = lapic_write reg_lvt_timer (timer_periodic OR (INT_IRQ + IRQ_TIMER)) l;
          l = lapic_write reg_timer_initial_count 0 l;
          l = lapic_write reg_lvt_lint0 lvt_masked l;
          l = lapic_write reg_lvt_lint1 lvt_masked l;
          l = lapic_write reg_lvt_error (INT_IRQ + IRQ_ERROR) l;
          (e, l) = lapic_error A l;
          l = lapic_ack l
      in c\<lparr>lapic := l\<rparr>)"

text \<open>The quotient is an \<open>int\<close> and is truncated.\<close>

definition init_timer :: "int \<Rightarrow> cpu \<Rightarrow> cpu" where
  "init_timer rate c =
     c\<lparr>lapic := lapic_write reg_timer_initial_count (if rate > 0 then word_of_int (1000000000 div rate) else 0) (lapic c)\<rparr>"

section \<open>The timer\<close>

text \<open>
  What the local APIC's timer does after a sequence of register writes, by the processor manual. While the APIC is disabled (bit 8
  of the spurious-vector register) the mask bit of the timer's entry is set and cannot be cleared. The divide
  register divides the clock by 1, 2, 4, ..., 128, encoded in its bits 3, 1 and 0. An enabled, unmasked, periodic timer with
  a non-zero initial count raises the vector of its entry once in divisor times initial count clocks.
\<close>

record apic_timer =
  at_enabled :: bool
  at_entry :: u32
  at_divide :: u32
  at_count :: u32

fun timer_step :: "apic_timer \<Rightarrow> int \<times> u32 \<Rightarrow> apic_timer" where
  "timer_step d (reg, v) =
     (if reg = 0x0F then d\<lparr>at_enabled := bit v 8, at_entry := (if bit v 8 then at_entry d else at_entry d OR 0x10000)\<rparr>
      else if reg = 0x32 then d\<lparr>at_entry := (if at_enabled d then v else v OR 0x10000)\<rparr>
      else if reg = 0x3E then d\<lparr>at_divide := v\<rparr>
      else if reg = 0x38 then d\<lparr>at_count := v\<rparr>
      else d)"

definition timer_divisor :: "u32 \<Rightarrow> nat" where
  "timer_divisor v = (let k = unat (v AND 3) + (if bit v 3 then 4 else 0) in if k = 7 then 1 else 2 ^ (k + 1))"

text \<open>The period in clocks and the vector of a running timer, from any state \<open>d\<close> the APIC was in before the writes.\<close>

definition running_timer :: "apic_timer \<Rightarrow> apic_log \<Rightarrow> (nat \<times> u32) option" where
  "running_timer d l =
     (let d = foldl timer_step d l
      in if at_enabled d \<and> \<not> bit (at_entry d) 16 \<and> bit (at_entry d) 17 \<and> \<not> bit (at_entry d) 18 \<and> at_count d \<noteq> 0
         then Some (timer_divisor (at_divide d) * unat (at_count d), at_entry d AND 0xFF) else None)"

lemma lapic_write_step [simp]: "foldl timer_step d (lapic_write reg v l) = timer_step (foldl timer_step d l) (reg, v)"
  by (simp add: lapic_write_def)

lemma init_cpu_state_lapic:
  "lapic (init_timer rate (init_cpu_state A gdt idt entry c)) =
     lapic_write reg_timer_initial_count (if rate > 0 then word_of_int (1000000000 div rate) else 0)
       (lapic_ack (snd (lapic_error A (lapic_write reg_lvt_error (INT_IRQ + IRQ_ERROR)
         (lapic_write reg_lvt_lint1 lvt_masked (lapic_write reg_lvt_lint0 lvt_masked
           (lapic_write reg_timer_initial_count 0 (lapic_write reg_lvt_timer (timer_periodic OR (INT_IRQ + IRQ_TIMER))
             (lapic_write reg_timer_divide timer_divide_1 (enable_lapic A (INT_IRQ + IRQ_SPURIOUS) (lapic c)))))))))))"
  by (simp add: init_timer_def init_cpu_state_def wrmsr_def Let_def split: prod.split)

lemma init_cpu_state_gates: "gates (init_timer rate (init_cpu_state A gdt idt entry c)) = gates c"
  by (simp add: init_timer_def init_cpu_state_def wrmsr_def Let_def split: prod.split)

lemma those_nth: "those xs = Some ys \<Longrightarrow> i < length xs \<Longrightarrow> xs ! i = Some (ys ! i)"
  by (induction xs arbitrary: ys i) (auto simp: nth_Cons split: option.splits nat.splits)

lemma init_interrupts_gates:
  assumes "init_interrupts edx apic_base addrs c = Some c'" and "i < length addrs"
  shows "init_gate i (addrs ! i) = Some (gates c' ! i)"
proof -
  obtain gs where gs: "those (init_interrupt_descriptors addrs) = Some gs" "gates c' = gs"
    using assms(1) by (auto simp: init_interrupts_def outb_def split: if_splits bind_splits)
  have "init_interrupt_descriptors addrs ! i = Some (gs ! i)"
    using those_nth [OF gs(1)] assms(2) by (simp add: init_interrupt_descriptors_def)
  with gs(2) assms(2) show ?thesis by (simp add: init_interrupt_descriptors_def nth_enumerate_eq)
qed

lemma init_interrupts_pic:
  assumes "init_interrupts edx apic_base addrs c = Some c'"
  shows "pic_log (init_timer rate (init_cpu_state A gdt idt entry c')) = pic_log c @ [(0x21, 0xFF), (0xA1, 0xFF)]"
proof -
  have "pic_log c' = pic_log c @ [(0x21, 0xFF), (0xA1, 0xFF)]"
    using assms by (auto simp: init_interrupts_def outb_def split: if_splits bind_splits)
  then show ?thesis by (simp add: init_timer_def init_cpu_state_def wrmsr_def Let_def split: prod.split)
qed

text \<open>The APIC after the boot sequence: enabled, its timer periodic at the vector of \<open>IRQ_TIMER\<close>, unmasked and undivided.\<close>

lemma running_timer_init:
  assumes "rate > 0" and "rate \<le> 1000000000"
  shows "running_timer d (lapic (init_timer rate (init_cpu_state A gdt idt entry c))) = Some (nat (1000000000 div rate), INT_IRQ + IRQ_TIMER)"
proof -
  let ?n = "word_of_int (1000000000 div rate) :: u32"
  have r: "0 < 1000000000 div rate" using assms by (simp add: pos_imp_zdiv_pos_iff)
  have "1000000000 div rate \<le> 1000000000 div 1" using assms(1) by (intro zdiv_mono2) auto
  then have "uint ?n = 1000000000 div rate" using r by (simp add: uint_word_of_int)
  then have n: "unat ?n = nat (1000000000 div rate)" by (simp only: unat_eq_nat_uint)
  then have "?n \<noteq> 0" using r by auto
  have e: "bit (x OR 0x100 OR y :: u32) 8" for x y by (simp add: bit_or_iff bit_numeral_rec)
  have d: "timer_divisor timer_divide_1 = 1" by (simp add: timer_divisor_def timer_divide_1_def bit_numeral_rec)
  have v: "\<not> bit (timer_periodic OR (INT_IRQ + IRQ_TIMER)) 16" "bit (timer_periodic OR (INT_IRQ + IRQ_TIMER)) 17"
      "\<not> bit (timer_periodic OR (INT_IRQ + IRQ_TIMER)) 18" "(timer_periodic OR (INT_IRQ + IRQ_TIMER)) AND 0xFF = INT_IRQ + IRQ_TIMER"
    by (simp_all add: timer_periodic_def int_numbers bit_numeral_rec)
  show ?thesis
    unfolding init_cpu_state_lapic running_timer_def lapic_ack_def lapic_error_def enable_lapic_def apic_regs snd_conv Let_def lapic_write_step
    using assms(1) \<open>?n \<noteq> 0\<close> by (simp add: e d v n)
qed

text \<open>
  C39. Timer interrupts reach the scheduler. Once \<open>init_interrupts\<close>, \<open>init_cpu_state\<close> and \<open>init_timer(HZ)\<close> have run, and whatever
  state the local APIC was in before, its timer runs: \<open>HZ\<close> of its periods are the 1,000,000,000 clocks the code takes for a
  second, and it raises the vector of \<open>IRQ_TIMER\<close>. The legacy controllers are masked, and every gate leads to the handler of
  its own vector with the kernel's code segment, closed to user mode but for the breakpoint. When no key is pressed, the
  kernel's dispatcher answers that vector by counting one tick, acknowledging one interrupt and resuming the next runnable
  process after the current one in cyclic order.
\<close>

theorem timer_interrupts_schedule:
  assumes "init_interrupts edx apic_base addrs c = Some c1" and "length addrs = 256"
    and "c2 = init_timer (int (unat HZ)) (init_cpu_state A gdt idt entry c1)"
    and "table_ok s" and "keyboard_quiet M" and "k < NPROC" and "j = (current s + 1 + k) mod NPROC"
    and "pstate (ptable s ! j) = P_RUNNABLE" and "\<forall>d < k. pstate (ptable s ! ((current s + 1 + d) mod NPROC)) \<noteq> P_RUNNABLE"
    and "check_pagetable (exc_entry M) (kpt M) (mem s) (pagetable (ptable s ! j)) = Inr ()"
  shows "\<exists>period v. running_timer d (lapic c2) = Some (period, v) \<and> period * unat HZ = 1000000000 \<and>
    pic_log c2 = pic_log c @ [(0x21, 0xFF), (0xA1, 0xFF)] \<and>
    (\<forall>i < 256. gate_addr (gates c2 ! i) = addrs ! i \<and> gate_field 16 16 (gates c2 ! i) = SEGSEL_KERN_CODE \<and>
       gate_field 45 2 (gates c2 ! i) = (if i = INT_BP then 3 else 0)) \<and>
    dispatch M addr (r\<lparr>reg_intno := v\<rparr>) s =
      stop (Resumed j) (s\<lparr>ticks := ticks s + 1, eois := eois s + 1, current := j, reads := reads s + k\<rparr>)"
proof -
  have "running_timer d (lapic c2) = Some (10000000, INT_IRQ + IRQ_TIMER)"
    using running_timer_init [of "int (unat HZ)" d A gdt idt entry c1] assms(3) by (simp add: HZ_def)
  moreover have "(10000000 :: nat) * unat HZ = 1000000000" by (simp add: HZ_def)
  moreover have "pic_log c2 = pic_log c @ [(0x21, 0xFF), (0xA1, 0xFF)]" using init_interrupts_pic [OF assms(1)] assms(3) by simp
  moreover have "gate_addr (gates c2 ! i) = addrs ! i \<and> gate_field 16 16 (gates c2 ! i) = SEGSEL_KERN_CODE \<and>
       gate_field 45 2 (gates c2 ! i) = (if i = INT_BP then 3 else 0)" if "i < 256" for i
  proof -
    have "set_gate (addrs ! i) X86GATE_INTERRUPT (if i = INT_BP then 3 else 0) 0 = Some (gates c2 ! i)"
      using init_interrupts_gates [OF assms(1), of i] that assms(2,3) by (simp add: init_gate_def init_cpu_state_gates)
    then show ?thesis using set_gate_roundtrip [of "addrs ! i" X86GATE_INTERRUPT "if i = INT_BP then 3 else 0" 0] by (auto split: if_splits)
  qed
  moreover have "dispatch M addr (r\<lparr>reg_intno := INT_IRQ + IRQ_TIMER\<rparr>) s =
      stop (Resumed j) (s\<lparr>ticks := ticks s + 1, eois := eois s + 1, current := j, reads := reads s + k\<rparr>)"
  proof -
    let ?s = "s\<lparr>ticks := ticks s + 1, eois := eois s + 1\<rparr>"
    have "schedule M ?s = Some (Inl (Resumed ((current ?s + 1 + k) mod NPROC), ?s\<lparr>current := (current ?s + 1 + k) mod NPROC, reads := reads ?s + k\<rparr>))"
      using assms(4-10) by (intro schedule_finds) (simp_all add: table_ok_def)
    then show ?thesis using assms(7) by (simp add: dispatch_def)
  qed
  ultimately show ?thesis by blast
qed

definition sample_cpu :: cpu where
  "sample_cpu = \<lparr>gates = [], pic_log = [], kernel_taskstate = \<lparr>ts_rsp = [0, 0, 0], ts_ist = replicate 8 0, ts_iomap_base = 0\<rparr>,
     gdtr = \<lparr>limit = 0, base = 0\<rparr>, idtr = \<lparr>limit = 0, base = 0\<rparr>, task_register = 0, fs_selector = 0, gs_selector = 0, cr0 = 0,
     msrs = (\<lambda>_. 0), lapic = []\<rparr>"

definition sample_handlers :: "u64 list" where
  "sample_handlers = map (\<lambda>i. 0x40000 + 16 * word_of_nat i) [0..<256]"

lemma those_init_gates: "\<exists>gs. those (init_interrupt_descriptors addrs) = Some gs"
proof -
  have "\<exists>ys. those xs = Some ys" if "\<forall>x \<in> set xs. x \<noteq> None" for xs :: "gatedescriptor option list"
    using that by (induction xs) auto
  moreover have "init_gate i a \<noteq> None" for i a by (simp add: init_gate_def set_gate_def X86GATE_INTERRUPT_def)
  then have "\<forall>x \<in> set (init_interrupt_descriptors addrs). x \<noteq> None" unfolding init_interrupt_descriptors_def by force
  ultimately show ?thesis by blast
qed

text \<open>An APIC that starts disabled, masked and dividing by 128.\<close>

definition reset_timer :: apic_timer where
  "reset_timer = \<lparr>at_enabled = False, at_entry = 0x10000, at_divide = 0x0A, at_count = 0\<rparr>"

theorem timer_interrupts_schedule_witness:
  "\<exists>c1 c2 m v u. init_interrupts 0x200 0xFEE00900 sample_handlers sample_cpu = Some c1 \<and>
     c2 = init_timer (int (unat HZ)) (init_cpu_state (\<lambda>l reg. 0) 0x60000 0x61000 0x40F00 c1) \<and>
     running_timer reset_timer (lapic c2) = Some (10000000, v) \<and> gate_addr (gates c2 ! 32) = 0x40200 \<and>
     dispatch quiet_machine 0 (zero_regs\<lparr>reg_intno := v\<rparr>) (two_procs m) = stop (Resumed 3) u \<and> ticks u = ticks (two_procs m) + 1"
proof -
  have "\<exists>c1. init_interrupts 0x200 0xFEE00900 sample_handlers sample_cpu = Some c1"
    using those_init_gates [of sample_handlers] by (auto simp: init_interrupts_def IA32_APIC_BASE_ENABLED_def lapic_pa_def)
  then obtain c1 where c1: "init_interrupts 0x200 0xFEE00900 sample_handlers sample_cpu = Some c1" ..
  let ?c2 = "init_timer (int (unat HZ)) (init_cpu_state (\<lambda>l reg. 0) 0x60000 0x61000 0x40F00 c1)"
  have len: "length sample_handlers = 256" by (simp add: sample_handlers_def)
  have h: "sample_handlers ! 32 = 0x40200" unfolding sample_handlers_def by (subst nth_map) simp_all
  from quiet_pagetable obtain m where m: "check_pagetable (exc_entry quiet_machine) (kpt quiet_machine) m (kpt quiet_machine) = Inr ()" by blast
  have "\<exists>period v. running_timer reset_timer (lapic ?c2) = Some (period, v) \<and> period * unat HZ = 1000000000 \<and>
    pic_log ?c2 = pic_log sample_cpu @ [(0x21, 0xFF), (0xA1, 0xFF)] \<and>
    (\<forall>i < 256. gate_addr (gates ?c2 ! i) = sample_handlers ! i \<and> gate_field 16 16 (gates ?c2 ! i) = SEGSEL_KERN_CODE \<and>
       gate_field 45 2 (gates ?c2 ! i) = (if i = INT_BP then 3 else 0)) \<and>
    dispatch quiet_machine 0 (zero_regs\<lparr>reg_intno := v\<rparr>) (two_procs m) =
      stop (Resumed 3) (two_procs m\<lparr>ticks := ticks (two_procs m) + 1, eois := eois (two_procs m) + 1, current := 3, reads := reads (two_procs m) + 1\<rparr>)"
    by (rule timer_interrupts_schedule [OF c1 len refl, of "two_procs m" quiet_machine 1])
      (simp_all add: NPROC_def m free_proc_def)
  with c1 h show ?thesis by (force simp: HZ_def)
qed

end
