(* ===== verification/Guard.thy ===== *)
theory Guard
  imports Prelude
begin

text \<open>
  The guards of function-local static variables, \<open>__cxa_guard_acquire\<close> and \<open>__cxa_guard_release\<close> in
  \<open>weensyos/k-hardware.cc\<close>, as a step relation of any number of threads that interleave at every atomic access to the guard
  byte: 0 is uninitialised, 1 locked, 2 initialised.
\<close>

section \<open>Threads and the guard\<close>

text \<open>
  Where a thread is: before the first load; before the \<open>exchange(1)\<close> of the loop; about to put back a 2 it took; running the
  initialiser, after \<open>acquire\<close> returned 1; past \<open>release\<close>; or past an \<open>acquire\<close> that returned 0.
\<close>

datatype phase = Loading | Exchanging | Restoring | Initialising | Released | Skipped

record guard_state =
  guard :: nat
  phase :: "nat \<Rightarrow> phase"

definition goto :: "nat \<Rightarrow> phase \<Rightarrow> nat \<Rightarrow> guard_state \<Rightarrow> guard_state" where
  "goto t p g s = s\<lparr>guard := g, phase := (phase s)(t := p)\<rparr>"

text \<open>The phase after an \<open>exchange(1)\<close> that returned \<open>old_value\<close>.\<close>

definition after_exchange :: "nat \<Rightarrow> phase" where
  "after_exchange old_value = (if old_value = 2 then Restoring else if old_value = 1 then Exchanging else Initialising)"

inductive guard_step :: "guard_state \<Rightarrow> guard_state \<Rightarrow> bool" where
  load: "phase s t = Loading \<Longrightarrow> guard_step s (goto t (if guard s = 2 then Skipped else Exchanging) (guard s) s)"
| exchange: "phase s t = Exchanging \<Longrightarrow> guard_step s (goto t (after_exchange (guard s)) 1 s)"
| restore: "phase s t = Restoring \<Longrightarrow> guard_step s (goto t Skipped 2 s)"
| release: "phase s t = Initialising \<Longrightarrow> guard_step s (goto t Released 2 s)"

definition unguarded :: guard_state where
  "unguarded = \<lparr>guard = 0, phase = (\<lambda>_. Loading)\<rparr>"

definition guard_reach :: "guard_state \<Rightarrow> bool" where
  "guard_reach = guard_step\<^sup>*\<^sup>* unguarded"

inductive_cases guard_stepE: "guard_step s s'"

section \<open>The invariant\<close>

lemma goto_fields [simp]: "guard (goto t p g s) = g" "phase (goto t p g s) u = (if u = t then p else phase s u)"
  by (simp_all add: goto_def)

text \<open>Nobody has started yet; thread \<open>i\<close> is initialising; thread \<open>i\<close> has finished.\<close>

definition fresh :: "guard_state \<Rightarrow> bool" where
  "fresh s \<longleftrightarrow> guard s = 0 \<and> (\<forall>t. phase s t \<in> {Loading, Exchanging})"

definition busy :: "nat \<Rightarrow> guard_state \<Rightarrow> bool" where
  "busy i s \<longleftrightarrow> guard s = 1 \<and> phase s i = Initialising \<and> (\<forall>t. t \<noteq> i \<longrightarrow> phase s t \<in> {Loading, Exchanging})"

definition initialised :: "nat \<Rightarrow> guard_state \<Rightarrow> bool" where
  "initialised i s \<longleftrightarrow> phase s i = Released \<and> (\<forall>t. t \<noteq> i \<longrightarrow> phase s t \<in> {Loading, Exchanging, Restoring, Skipped}) \<and>
     (guard s = 2 \<or> guard s = 1 \<and> (\<exists>t. phase s t = Restoring))"

lemma fresh_step: "guard_step s s' \<Longrightarrow> fresh s \<Longrightarrow> fresh s' \<or> (\<exists>i. busy i s')"
proof (induction rule: guard_step.induct)
  case (restore s t)
  then show ?case unfolding fresh_def by (metis insert_iff phase.distinct(9,17) singletonD phase.simps)
next
  case (release s t)
  then show ?case unfolding fresh_def by (metis insert_iff singletonD phase.simps)
qed (auto simp: fresh_def busy_def after_exchange_def)

lemma busy_step: "guard_step s s' \<Longrightarrow> busy i s \<Longrightarrow> busy i s' \<or> initialised i s'"
proof (induction rule: guard_step.induct)
  case (load s t)
  then show ?case by (cases "t = i") (auto simp: busy_def)
next
  case (exchange s t)
  then show ?case by (cases "t = i") (auto simp: busy_def after_exchange_def)
next
  case (restore s t)
  then show ?case by (cases "t = i") (auto simp: busy_def)
next
  case (release s t)
  then show ?case by (cases "t = i") (auto simp: busy_def initialised_def)
qed

lemma initialised_goto:
  assumes "initialised i s" and "t \<noteq> i" and "p \<in> {Loading, Exchanging, Restoring, Skipped}"
    and "g = 2 \<or> g = 1 \<and> (p = Restoring \<or> (\<exists>u. u \<noteq> t \<and> phase s u = Restoring))"
  shows "initialised i (goto t p g s)"
proof -
  have "phase s i = Released" "\<forall>u. u \<noteq> i \<longrightarrow> phase s u \<in> {Loading, Exchanging, Restoring, Skipped}"
    using assms(1) by (simp_all add: initialised_def)
  moreover have "g = 2 \<or> g = 1 \<and> (\<exists>u. (if u = t then p else phase s u) = Restoring)" using assms(4) by metis
  ultimately show ?thesis unfolding initialised_def goto_fields using assms(2,3) by simp
qed

lemma initialised_step: "guard_step s s' \<Longrightarrow> initialised i s \<Longrightarrow> initialised i s'"
proof (induction rule: guard_step.induct)
  case (load s t)
  then have "t \<noteq> i" "guard s = 2 \<or> guard s = 1 \<and> (\<exists>u. u \<noteq> t \<and> phase s u = Restoring)" by (force simp: initialised_def)+
  then show ?case using load by (intro initialised_goto) auto
next
  case (exchange s t)
  then have "t \<noteq> i" "guard s = 2 \<or> guard s = 1 \<and> (\<exists>u. u \<noteq> t \<and> phase s u = Restoring)" by (force simp: initialised_def)+
  then show ?case using exchange by (intro initialised_goto) (auto simp: after_exchange_def)
next
  case (restore s t)
  then have "t \<noteq> i" by (auto simp: initialised_def)
  then show ?case using restore by (intro initialised_goto) simp_all
next
  case (release s t)
  then have "t = i" by (auto simp: initialised_def)
  with release show ?case by (simp add: initialised_def)
qed

lemma guard_reach_cases: "guard_reach s \<Longrightarrow> fresh s \<or> (\<exists>i. busy i s) \<or> (\<exists>i. initialised i s)"
  unfolding guard_reach_def
proof (induction rule: rtranclp_induct)
  case base
  show ?case by (simp add: fresh_def unguarded_def)
next
  case (step s s')
  then show ?case using fresh_step busy_step initialised_step by blast
qed

text \<open>
  C40. However the threads interleave, at most one of them ever gets to run the initialiser, none gets past the guard before that one
  has released it, and while the guard is locked some thread is about to set it, so that no thread spins for ever.
\<close>

theorem guard_initialises_once:
  assumes "guard_reach s"
  shows "(\<forall>t t'. phase s t \<in> {Initialising, Released} \<longrightarrow> phase s t' \<in> {Initialising, Released} \<longrightarrow> t = t') \<and>
    (\<forall>t. phase s t = Skipped \<longrightarrow> (\<exists>i. phase s i = Released)) \<and>
    (guard s = 1 \<longrightarrow> (\<exists>t s'. phase s t \<in> {Initialising, Restoring} \<and> guard_step s s' \<and> guard s' = 2))"
proof -
  have next2: "\<exists>t s'. phase s t \<in> {Initialising, Restoring} \<and> guard_step s s' \<and> guard s' = 2" if "phase s t \<in> {Initialising, Restoring}" for t
    using that guard_step.restore [of s t] guard_step.release [of s t] by (metis goto_fields(1) insertE singletonD)
  consider "fresh s" | i where "busy i s" | i where "initialised i s" using guard_reach_cases [OF assms] by blast
  then show ?thesis
  proof cases
    case 1
    then have "phase s t = Loading \<or> phase s t = Exchanging" for t by (simp add: fresh_def)
    then have "phase s t \<notin> {Initialising, Released, Skipped}" for t by (metis insert_iff phase.simps singletonD)
    with 1 show ?thesis by (auto simp: fresh_def)
  next
    case (2 i)
    then have o: "t = i \<or> phase s t = Loading \<or> phase s t = Exchanging" for t by (auto simp: busy_def)
    have "t = i" if "phase s t \<in> {Initialising, Released}" for t using o [of t] that by auto
    moreover have "phase s i = Initialising" using 2 by (simp add: busy_def)
    moreover have "phase s t \<noteq> Skipped" for t using o [of t] \<open>phase s i = Initialising\<close> by auto
    ultimately show ?thesis using next2 [of i] by blast
  next
    case (3 i)
    then have o: "t = i \<or> phase s t = Loading \<or> phase s t = Exchanging \<or> phase s t = Restoring \<or> phase s t = Skipped" for t
      by (auto simp: initialised_def)
    have "t = i" if "phase s t \<in> {Initialising, Released}" for t using o [of t] that by auto
    moreover have "phase s i = Released" "guard s = 1 \<Longrightarrow> \<exists>t. phase s t = Restoring" using 3 by (auto simp: initialised_def)
    ultimately show ?thesis using next2 by blast
  qed
qed

theorem guard_initialises_once_witness:
  "\<exists>s. guard_reach s \<and> phase s 0 = Initialising \<and> guard s = 1 \<and> (\<exists>t s'. guard_step s s' \<and> guard s' = 2 \<and> phase s t = Initialising)"
proof -
  let ?s1 = "goto 0 Exchanging 0 unguarded" and ?s2 = "goto 0 Initialising 1 (goto 0 Exchanging 0 unguarded)"
  have "guard_step unguarded ?s1" using load [of unguarded 0] by (simp add: unguarded_def)
  moreover have "guard_step ?s1 ?s2" using exchange [of ?s1 0] by (simp add: after_exchange_def)
  ultimately have r: "guard_reach ?s2" unfolding guard_reach_def by (meson converse_rtranclp_into_rtranclp rtranclp.rtrancl_refl)
  have p: "phase ?s2 t = Initialising \<longleftrightarrow> t = 0" "phase ?s2 t \<noteq> Restoring" for t by (simp_all add: unguarded_def)
  have "guard ?s2 = 1 \<longrightarrow> (\<exists>t s'. phase ?s2 t \<in> {Initialising, Restoring} \<and> guard_step ?s2 s' \<and> guard s' = 2)"
    using guard_initialises_once [OF r] by blast
  then have "\<exists>t s'. guard_step ?s2 s' \<and> guard s' = 2 \<and> phase ?s2 t = Initialising" using p by auto
  with r show ?thesis using p(1) [of 0] by (intro exI [of _ ?s2]) simp
qed

end
