(* ===== verification/Posix.thy ===== *)
theory Posix
  imports Prelude
begin

text \<open>
  The system calls on regular files that the programs of \<open>fileio\<close> use, as POSIX describes them: files by path, a table of
  descriptors with their offsets, and for every call how it turns out.
\<close>

section \<open>State\<close>

text \<open>A call may do all it can, stop short (after one byte more than the number given), or fail; without an answer left it does all it can.\<close>

datatype answer = Full | Short nat | Fail

record os =
  files :: "string \<Rightarrow> u8 list option"
  fds :: "(string \<times> nat) option list"
  answers :: "answer list"

definition next_answer :: "os \<Rightarrow> answer \<times> os" where
  "next_answer s = (case answers s of [] \<Rightarrow> (Full, s) | a # as \<Rightarrow> (a, s\<lparr>answers := as\<rparr>))"

definition desc :: "nat \<Rightarrow> os \<Rightarrow> (string \<times> nat) option" where
  "desc d s = (if d < length (fds s) then fds s ! d else None)"

definition set_desc :: "nat \<Rightarrow> (string \<times> nat) option \<Rightarrow> os \<Rightarrow> os" where
  "set_desc d x s = s\<lparr>fds := (fds s)[d := x]\<rparr>"

definition contents :: "string \<Rightarrow> os \<Rightarrow> u8 list" where
  "contents p s = (case files s p of None \<Rightarrow> [] | Some c \<Rightarrow> c)"

text \<open>Bytes written over a file at an offset; a gap behind the old end is filled with zeros.\<close>

definition overlay :: "u8 list \<Rightarrow> nat \<Rightarrow> u8 list \<Rightarrow> u8 list" where
  "overlay c off bs =
     (if bs = [] then c else take off (c @ replicate (off - length c) 0) @ bs @ drop (off + length bs) c)"

text \<open>How many of \<open>n\<close> bytes a call transfers.\<close>

definition transferred :: "answer \<Rightarrow> nat \<Rightarrow> nat" where
  "transferred a n = (case a of Short k \<Rightarrow> min n (Suc k) | _ \<Rightarrow> n)"

section \<open>Calls\<close>

definition sys_open :: "string \<Rightarrow> bool \<Rightarrow> os \<Rightarrow> int \<times> os" where
  "sys_open path creat s =
     (let (a, s) = next_answer s
      in if a = Fail \<or> (\<not> creat \<and> files s path = None) then (- 1, s)
         else let d = length (takeWhile (\<lambda>x. x \<noteq> None) (fds s))
              in (int d, s\<lparr>files := (files s)(path := Some (contents path s)),
                           fds := take d (fds s) @ Some (path, 0) # drop (Suc d) (fds s)\<rparr>))"

definition sys_close :: "nat \<Rightarrow> os \<Rightarrow> int \<times> os" where
  "sys_close d s = (case desc d s of None \<Rightarrow> (- 1, s) | Some _ \<Rightarrow> (0, set_desc d None s))"

definition sys_read :: "nat \<Rightarrow> nat \<Rightarrow> os \<Rightarrow> int \<times> u8 list \<times> os" where
  "sys_read d n s =
     (case desc d s of
        None \<Rightarrow> (- 1, [], s)
      | Some (p, off) \<Rightarrow>
          let (a, s) = next_answer s; bs = take (transferred a n) (drop off (contents p s))
          in if a = Fail then (- 1, [], s) else (int (length bs), bs, set_desc d (Some (p, off + length bs)) s))"

definition sys_write :: "nat \<Rightarrow> u8 list \<Rightarrow> os \<Rightarrow> int \<times> os" where
  "sys_write d bs s =
     (case desc d s of
        None \<Rightarrow> (- 1, s)
      | Some (p, off) \<Rightarrow>
          let (a, s) = next_answer s; bs = take (transferred a (length bs)) bs
          in if a = Fail then (- 1, s)
             else (int (length bs), set_desc d (Some (p, off + length bs)) (s\<lparr>files := (files s)(p := Some (overlay (contents p s) off bs))\<rparr>)))"

definition sys_lseek :: "nat \<Rightarrow> int \<Rightarrow> os \<Rightarrow> int \<times> os" where
  "sys_lseek d pos s =
     (case desc d s of
        None \<Rightarrow> (- 1, s)
      | Some (p, off) \<Rightarrow>
          let (a, s) = next_answer s
          in if a = Fail \<or> pos < 0 then (- 1, s) else (pos, set_desc d (Some (p, nat pos)) s))"

text \<open>\<open>fstat\<close>: the size of the file.\<close>

definition sys_fstat :: "nat \<Rightarrow> os \<Rightarrow> int \<times> nat \<times> os" where
  "sys_fstat d s =
     (case desc d s of
        None \<Rightarrow> (- 1, 0, s)
      | Some (p, off) \<Rightarrow> let (a, s) = next_answer s in if a = Fail then (- 1, 0, s) else (0, length (contents p s), s))"

text \<open>\<open>malloc\<close> of a \<open>size_t\<close>: more than \<open>PTRDIFF_MAX\<close> bytes are refused.\<close>

definition sys_malloc :: "nat \<Rightarrow> os \<Rightarrow> bool \<times> os" where
  "sys_malloc n s = (let (a, s) = next_answer s in (a \<noteq> Fail \<and> n < 2 ^ 63, s))"

text \<open>The conversion of a \<open>off_t\<close> or \<open>ssize_t\<close> to \<open>int\<close>.\<close>

definition to_int :: "int \<Rightarrow> int" where
  "to_int x = sint (word_of_int x :: u32)"

section \<open>Facts\<close>

lemma overlay_Nil [simp]: "overlay c off [] = c"
  by (simp add: overlay_def)

lemma length_overlay: "bs \<noteq> [] \<Longrightarrow> length (overlay c off bs) = max (length c) (off + length bs)"
  by (simp add: overlay_def)

lemma overlay_append: "overlay (overlay c off xs) (off + length xs) ys = overlay c off (xs @ ys)"
proof (cases "xs = [] \<or> ys = []")
  case False
  then have "length (overlay c off xs) = max (length c) (off + length xs)" by (simp add: length_overlay)
  moreover have "off - length c + min (length c) off = off" by simp
  moreover have "take (off + length xs) (overlay c off xs) = take off (c @ replicate (off - length c) 0) @ xs"
    using False by (simp add: overlay_def)
  moreover have "drop (off + length xs + length ys) (overlay c off xs) = drop (off + length (xs @ ys)) c"
    using False by (simp add: overlay_def min_def ac_simps)
  ultimately show ?thesis using False by (simp add: overlay_def [of "overlay c off xs"] overlay_def [of c off "xs @ ys"])
qed auto

lemma overlay_0: "overlay c 0 bs = bs @ drop (length bs) c"
  by (simp add: overlay_def)

text \<open>What a call on descriptor \<open>d\<close> of file \<open>p\<close> leaves alone.\<close>

definition sys_frame :: "nat \<Rightarrow> string \<Rightarrow> os \<Rightarrow> os \<Rightarrow> bool" where
  "sys_frame d p s s' \<longleftrightarrow> (\<forall>e. e \<noteq> d \<longrightarrow> desc e s' = desc e s) \<and> (\<forall>q. q \<noteq> p \<longrightarrow> files s' q = files s q) \<and>
     (answers s = [] \<longrightarrow> answers s' = [])"

lemma sys_frame_refl [simp]: "sys_frame d p s s"
  by (simp add: sys_frame_def)

lemma sys_frame_trans: "sys_frame d p s s1 \<Longrightarrow> sys_frame d p s1 s2 \<Longrightarrow> sys_frame d p s s2"
  by (simp add: sys_frame_def)

lemma next_answer_fields:
  assumes "next_answer s = (a, s')"
  shows "files s' = files s" "fds s' = fds s" "answers s = [] \<Longrightarrow> a = Full \<and> answers s' = []"
    "desc d s' = desc d s" "contents p s' = contents p s"
  using assms by (auto simp: next_answer_def desc_def contents_def split: list.splits)

lemma next_answer_frame: "next_answer s = (a, s') \<Longrightarrow> sys_frame d p s s'"
  by (simp add: sys_frame_def next_answer_fields)

lemma set_desc_simps [simp]:
  "desc e (set_desc d x s) = (if e = d \<and> d < length (fds s) then x else desc e s)"
  "files (set_desc d x s) = files s" "answers (set_desc d x s) = answers s" "contents q (set_desc d x s) = contents q s"
  by (auto simp: set_desc_def desc_def contents_def)

lemma files_update [simp]:
  "desc e (s\<lparr>files := F\<rparr>) = desc e s"
  "contents q (s\<lparr>files := (files s')(p := Some c)\<rparr>) = (if q = p then c else contents q (s\<lparr>files := files s'\<rparr>))"
  by (auto simp: contents_def desc_def)

lemma desc_length: "desc d s = Some x \<Longrightarrow> d < length (fds s)"
  by (simp add: desc_def split: if_splits)

lemma sys_read_outcome:
  assumes "desc d s = Some (p, off)" and "sys_read d n s = (r, bs, s')"
  shows "sys_frame d p s s' \<and> files s' = files s \<and>
    (r = - 1 \<and> bs = [] \<and> answers s \<noteq> [] \<and> desc d s' = Some (p, off) \<or>
     r = int (length bs) \<and> desc d s' = Some (p, off + length bs) \<and>
       (\<exists>k \<le> n. bs = take k (drop off (contents p s)) \<and> (n > 0 \<longrightarrow> k > 0) \<and> (answers s = [] \<longrightarrow> k = n)))"
proof -
  obtain a s1 where a: "next_answer s = (a, s1)" by (cases "next_answer s")
  note f = next_answer_fields [OF a] and l = desc_length [OF assms(1)]
  show ?thesis
  proof (cases "a = Fail")
    case True
    then have "r = - 1" "bs = []" "s' = s1" using assms a by (simp_all add: sys_read_def)
    then show ?thesis using True f a assms(1) next_answer_frame [OF a] by auto
  next
    case False
    then have r: "bs = take (transferred a n) (drop off (contents p s))" "r = int (length bs)"
      "s' = set_desc d (Some (p, off + length bs)) s1"
      using assms a f by (auto simp: sys_read_def Let_def)
    moreover have "transferred a n \<le> n" "n > 0 \<longrightarrow> transferred a n > 0" "answers s = [] \<longrightarrow> transferred a n = n"
      using f(3) by (auto simp: transferred_def split: answer.splits)
    ultimately show ?thesis using f l by (auto simp: sys_frame_def)
  qed
qed

lemma sys_write_outcome:
  assumes "desc d s = Some (p, off)" and "sys_write d bs s = (r, s')"
  shows "sys_frame d p s s' \<and>
    (r = - 1 \<and> answers s \<noteq> [] \<and> desc d s' = Some (p, off) \<and> files s' = files s \<or>
     (\<exists>k \<le> length bs. r = int k \<and> (bs \<noteq> [] \<longrightarrow> k > 0) \<and> (answers s = [] \<longrightarrow> k = length bs) \<and>
        desc d s' = Some (p, off + k) \<and> contents p s' = overlay (contents p s) off (take k bs)))"
proof -
  obtain a s1 where a: "next_answer s = (a, s1)" by (cases "next_answer s")
  note f = next_answer_fields [OF a] and l = desc_length [OF assms(1)]
  show ?thesis
  proof (cases "a = Fail")
    case True
    then have "r = - 1" "s' = s1" using assms a by (simp_all add: sys_write_def Let_def)
    then show ?thesis using True f a assms(1) next_answer_frame [OF a] by auto
  next
    case False
    define k where "k = transferred a (length bs)"
    have k: "k \<le> length bs" "bs \<noteq> [] \<longrightarrow> k > 0" "answers s = [] \<longrightarrow> k = length bs"
      using f(3) by (auto simp: k_def transferred_def split: answer.splits)
    have r: "r = int k"
      "s' = set_desc d (Some (p, off + k)) (s1\<lparr>files := (files s1)(p := Some (overlay (contents p s1) off (take k bs)))\<rparr>)"
      using assms a False k(1) by (auto simp: sys_write_def Let_def k_def [symmetric] min_def)
    have "sys_frame d p s s'" using f by (auto simp: sys_frame_def r)
    moreover have "desc d s' = Some (p, off + k)" "contents p s' = overlay (contents p s) off (take k bs)"
      using f l by (simp_all add: r)
    ultimately show ?thesis using k r(1) by blast
  qed
qed

lemma sys_lseek_outcome:
  assumes "desc d s = Some (p, off)" and "sys_lseek d pos s = (r, s')"
  shows "sys_frame d p s s' \<and> files s' = files s \<and>
    (r = - 1 \<and> (answers s \<noteq> [] \<or> pos < 0) \<and> desc d s' = Some (p, off) \<or> r = pos \<and> pos \<ge> 0 \<and> desc d s' = Some (p, nat pos))"
proof -
  obtain a s1 where a: "next_answer s = (a, s1)" by (cases "next_answer s")
  note f = next_answer_fields [OF a] and l = desc_length [OF assms(1)]
  show ?thesis
    using assms a f l by (cases "a = Fail \<or> pos < 0") (auto simp: sys_lseek_def sys_frame_def)
qed

lemma sys_fstat_outcome:
  assumes "desc d s = Some (p, off)" and "sys_fstat d s = (r, n, s')"
  shows "sys_frame d p s s' \<and> files s' = files s \<and> desc d s' = Some (p, off) \<and>
    (r = - 1 \<and> answers s \<noteq> [] \<or> r = 0 \<and> n = length (contents p s))"
proof -
  obtain a s1 where a: "next_answer s = (a, s1)" by (cases "next_answer s")
  note f = next_answer_fields [OF a]
  show ?thesis using assms a f by (cases "a = Fail") (auto simp: sys_fstat_def sys_frame_def)
qed

lemma sys_close_outcome:
  assumes "desc d s = Some (p, off)" and "sys_close d s = (r, s')"
  shows "sys_frame d p s s' \<and> files s' = files s \<and> r = 0"
  using assms by (auto simp: sys_close_def sys_frame_def)

text \<open>A fresh descriptor is one that was not open.\<close>

lemma sys_open_outcome:
  assumes "sys_open path creat s = (r, s')"
  shows "(\<forall>q. q \<noteq> path \<longrightarrow> files s' q = files s q) \<and> (answers s = [] \<longrightarrow> answers s' = []) \<and>
    (r = - 1 \<and> (answers s \<noteq> [] \<or> \<not> creat \<and> files s path = None) \<and> files s' = files s \<and> fds s' = fds s \<or>
     r \<ge> 0 \<and> desc (nat r) s = None \<and> desc (nat r) s' = Some (path, 0) \<and> files s' path = Some (contents path s) \<and>
       (\<forall>e. e \<noteq> nat r \<longrightarrow> desc e s' = desc e s))"
proof -
  obtain a s1 where a: "next_answer s = (a, s1)" by (cases "next_answer s")
  note f = next_answer_fields [OF a]
  show ?thesis
  proof (cases "a = Fail \<or> (\<not> creat \<and> files s path = None)")
    case True
    then show ?thesis using assms a f by (auto simp: sys_open_def)
  next
    case False
    define d where "d = length (takeWhile (\<lambda>x. x \<noteq> None) (fds s))"
    have r: "r = int d" "s' = s1\<lparr>files := (files s1)(path := Some (contents path s1)), fds := take d (fds s1) @ Some (path, 0) # drop (Suc d) (fds s1)\<rparr>"
      using assms a False f by (auto simp: sys_open_def Let_def d_def)
    have le: "d \<le> length (fds s)" unfolding d_def by (rule length_takeWhile_le)
    have "desc d s = None"
      unfolding desc_def d_def using nth_length_takeWhile [of "\<lambda>x. x \<noteq> None" "fds s"] by (simp del: not_None_eq)
    moreover have "desc d s' = Some (path, 0)" using le f by (simp add: r desc_def nth_append)
    moreover have "desc e s' = desc e s" if "e \<noteq> d" for e
      using le f that by (auto simp: r desc_def nth_append nth_Cons' min_def)
    ultimately show ?thesis using f by (simp add: r)
  qed
qed

lemma sys_malloc_outcome:
  assumes "sys_malloc n s = (ok, s')"
  shows "files s' = files s" "fds s' = fds s" "sys_frame d p s s'" "answers s = [] \<Longrightarrow> ok = (n < 2 ^ 63)"
  using assms next_answer_fields [of s] next_answer_frame [of s] by (auto simp: sys_malloc_def split: prod.splits)

end
