(* ===== verification/FileIO.thy ===== *)
theory FileIO
  imports Posix
begin

text \<open>
  The file interface \<open>fileio/io300.h\<close> and two of the implementations that can be linked behind it, \<open>impl/naive.c\<close> and
  \<open>impl/student.c\<close> (the third is in \<open>StdioFile\<close>). An implementation is a record of its operations; the locale \<open>io300_file\<close> states
  what a client may rely on, in terms of the bytes and the offset the file has for the client, and is interpreted for each.
  \<open>None\<close> is a failed assertion or a read through a null pointer. Messages and statistics that are printed are left out.
\<close>

section \<open>The interface\<close>

record 'f io300 =
  open_op :: "string \<Rightarrow> string \<Rightarrow> os \<Rightarrow> ('f option \<times> os) option"
  close_op :: "'f \<Rightarrow> os \<Rightarrow> (int \<times> os) option"
  filesize_op :: "'f \<Rightarrow> os \<Rightarrow> (int \<times> 'f \<times> os) option"
  seek_op :: "'f \<Rightarrow> int \<Rightarrow> os \<Rightarrow> (int \<times> 'f \<times> os) option"
  readc_op :: "'f \<Rightarrow> os \<Rightarrow> (int \<times> 'f \<times> os) option"
  writec_op :: "'f \<Rightarrow> int \<Rightarrow> os \<Rightarrow> (int \<times> 'f \<times> os) option"
  read_op :: "'f \<Rightarrow> nat \<Rightarrow> os \<Rightarrow> (int \<times> u8 list \<times> 'f \<times> os) option"
  write_op :: "'f \<Rightarrow> u8 list \<Rightarrow> os \<Rightarrow> (int \<times> 'f \<times> os) option"
  flush_op :: "'f \<Rightarrow> os \<Rightarrow> (int \<times> 'f \<times> os) option"

section \<open>Without buffering: \<open>naive.c\<close>\<close>

record naive_file =
  naive_fd :: nat

definition naive_open :: "string \<Rightarrow> string \<Rightarrow> os \<Rightarrow> (naive_file option \<times> os) option" where
  "naive_open path name s =
     (let (ok, s) = sys_malloc 4 s
      in if \<not> ok then Some (None, s)
         else let (fd, s) = sys_open path True s
              in if fd = - 1 then Some (None, s) else Some (Some \<lparr>naive_fd = nat fd\<rparr>, s))"

definition naive_flush :: "naive_file \<Rightarrow> os \<Rightarrow> (int \<times> naive_file \<times> os) option" where
  "naive_flush f s = Some (0, f, s)"

definition naive_close :: "naive_file \<Rightarrow> os \<Rightarrow> (int \<times> os) option" where
  "naive_close f s = Option.bind (naive_flush f s) (\<lambda>(_, f, s). Some (0, s))"

definition naive_filesize :: "naive_file \<Rightarrow> os \<Rightarrow> (int \<times> naive_file \<times> os) option" where
  "naive_filesize f s = (let (r, size, s) = sys_fstat (naive_fd f) s in Some (if r \<ge> 0 then int size else - 1, f, s))"

definition naive_seek :: "naive_file \<Rightarrow> int \<Rightarrow> os \<Rightarrow> (int \<times> naive_file \<times> os) option" where
  "naive_seek f pos s = (let (r, s) = sys_lseek (naive_fd f) pos s in Some (to_int r, f, s))"

definition naive_readc :: "naive_file \<Rightarrow> os \<Rightarrow> (int \<times> naive_file \<times> os) option" where
  "naive_readc f s =
     (let (r, c, s) = sys_read (naive_fd f) 1 s in Some (if r = 1 then uint (hd c) else - 1, f, s))"

definition naive_writec :: "naive_file \<Rightarrow> int \<Rightarrow> os \<Rightarrow> (int \<times> naive_file \<times> os) option" where
  "naive_writec f ch s =
     (let (r, s) = sys_write (naive_fd f) [word_of_int ch] s in Some (if r = 1 then ch else - 1, f, s))"

definition naive_read :: "naive_file \<Rightarrow> nat \<Rightarrow> os \<Rightarrow> (int \<times> u8 list \<times> naive_file \<times> os) option" where
  "naive_read f sz s = (let (r, bs, s) = sys_read (naive_fd f) sz s in Some (r, bs, f, s))"

definition naive_write :: "naive_file \<Rightarrow> u8 list \<Rightarrow> os \<Rightarrow> (int \<times> naive_file \<times> os) option" where
  "naive_write f bs s = (let (r, s) = sys_write (naive_fd f) bs s in Some (r, f, s))"

definition naive_io :: "naive_file io300" where
  "naive_io = \<lparr>open_op = naive_open, close_op = naive_close, filesize_op = naive_filesize, seek_op = naive_seek,
     readc_op = naive_readc, writec_op = naive_writec, read_op = naive_read, write_op = naive_write, flush_op = naive_flush\<rparr>"

section \<open>The stencil: \<open>student.c\<close>\<close>

text \<open>The buffer is \<open>None\<close> when its pointer is null. The counters wrap.\<close>

record io300_statistics =
  read_calls :: u32
  write_calls :: u32
  seeks :: u32

record student_file =
  student_fd :: int
  buffer :: "u8 list option"
  description :: string
  stats :: io300_statistics

definition BUFFER_SIZE :: nat where "BUFFER_SIZE = 4096"

definition check_invariants :: "student_file \<Rightarrow> bool" where
  "check_invariants f \<longleftrightarrow> buffer f \<noteq> None \<and> student_fd f \<ge> 0"

text \<open>
  \<open>heap\<close> is what the memory of the structure and of the buffer holds when \<open>malloc\<close> returns it; the statistics keep it.
\<close>

definition student_open :: "student_file \<Rightarrow> string \<Rightarrow> string \<Rightarrow> os \<Rightarrow> (student_file option \<times> os) option" where
  "student_open heap path d s =
     (let (fd, s) = sys_open path True s
      in if fd = - 1 then Some (None, s)
         else let (ok, s) = sys_malloc 40 s
              in if \<not> ok then Some (None, s)
                 else let (ok, s) = sys_malloc BUFFER_SIZE s
                      in if \<not> ok then let (r, s) = sys_close (nat fd) s in Some (None, s)
                         else let ret = heap\<lparr>student_fd := fd, buffer := Some (case buffer heap of None \<Rightarrow> [] | Some b \<Rightarrow> b), description := d\<rparr>
                              in if check_invariants ret then Some (Some ret, s) else None)"

definition student_seek :: "student_file \<Rightarrow> int \<Rightarrow> os \<Rightarrow> (int \<times> student_file \<times> os) option" where
  "student_seek f pos s =
     (if check_invariants f then
        let f = f\<lparr>stats := (stats f)\<lparr>seeks := seeks (stats f) + 1\<rparr>\<rparr>; (r, s) = sys_lseek (nat (student_fd f)) pos s
        in Some (to_int r, f, s)
      else None)"

definition student_close :: "student_file \<Rightarrow> os \<Rightarrow> (int \<times> os) option" where
  "student_close f s =
     (if check_invariants f then let (r, s) = sys_close (nat (student_fd f)) s in Some (0, s) else None)"

definition student_filesize :: "student_file \<Rightarrow> os \<Rightarrow> (int \<times> student_file \<times> os) option" where
  "student_filesize f s =
     (if check_invariants f then
        let (r, size, s) = sys_fstat (nat (student_fd f)) s in Some (if r \<ge> 0 then int size else - 1, f, s)
      else None)"

definition student_readc :: "student_file \<Rightarrow> os \<Rightarrow> (int \<times> student_file \<times> os) option" where
  "student_readc f s =
     (if check_invariants f then
        let (r, c, s) = sys_read (nat (student_fd f)) 1 s in Some (if r = 1 then uint (hd c) else - 1, f, s)
      else None)"

definition student_writec :: "student_file \<Rightarrow> int \<Rightarrow> os \<Rightarrow> (int \<times> student_file \<times> os) option" where
  "student_writec f ch s =
     (if check_invariants f then
        let (r, s) = sys_write (nat (student_fd f)) [word_of_int ch] s in Some (if r = 1 then ch else - 1, f, s)
      else None)"

definition student_read :: "student_file \<Rightarrow> nat \<Rightarrow> os \<Rightarrow> (int \<times> u8 list \<times> student_file \<times> os) option" where
  "student_read f sz s =
     (if check_invariants f then let (r, bs, s) = sys_read (nat (student_fd f)) sz s in Some (r, bs, f, s) else None)"

definition student_write :: "student_file \<Rightarrow> u8 list \<Rightarrow> os \<Rightarrow> (int \<times> student_file \<times> os) option" where
  "student_write f bs s =
     (if check_invariants f then let (r, s) = sys_write (nat (student_fd f)) bs s in Some (r, f, s) else None)"

definition student_flush :: "student_file \<Rightarrow> os \<Rightarrow> (int \<times> student_file \<times> os) option" where
  "student_flush f s = (if check_invariants f then Some (0, f, s) else None)"

definition student_io :: "student_file \<Rightarrow> student_file io300" where
  "student_io heap = \<lparr>open_op = student_open heap, close_op = student_close, filesize_op = student_filesize, seek_op = student_seek,
     readc_op = student_readc, writec_op = student_writec, read_op = student_read, write_op = student_write, flush_op = student_flush\<rparr>"

section \<open>The contract\<close>

type_synonym 'f view = "'f \<Rightarrow> os \<Rightarrow> (string \<times> u8 list \<times> nat) option"

text \<open>Nothing changes for files other than \<open>p\<close>.\<close>

definition others :: "'f view \<Rightarrow> string \<Rightarrow> os \<Rightarrow> os \<Rightarrow> bool" where
  "others view p s s' \<longleftrightarrow> (\<forall>q. q \<noteq> p \<longrightarrow> files s' q = files s q) \<and>
     (\<forall>g q c off. q \<noteq> p \<longrightarrow> view g s = Some (q, c, off) \<longrightarrow> view g s' = Some (q, c, off)) \<and>
     (answers s = [] \<longrightarrow> answers s' = [])"

definition becomes :: "'f view \<Rightarrow> ('f \<Rightarrow> bool) \<Rightarrow> 'f \<Rightarrow> os \<Rightarrow> string \<Rightarrow> u8 list \<Rightarrow> nat \<Rightarrow> 'f \<Rightarrow> os \<Rightarrow> bool" where
  "becomes view clean f s p c off f' s' \<longleftrightarrow> view f' s' = Some (p, c, off) \<and> others view p s s' \<and>
     (answers s = [] \<longrightarrow> clean f \<longrightarrow> clean f')"

locale io300_file =
  fixes I :: "'f io300"
    and view :: "'f view"
    and clean :: "'f \<Rightarrow> bool"
    and openable :: "string \<Rightarrow> os \<Rightarrow> bool"
  assumes open_law: "\<exists>r s'. open_op I p d s = Some (r, s') \<and> others view p s s' \<and> contents p s' = contents p s \<and>
        (case r of None \<Rightarrow> answers s \<noteq> [] \<or> \<not> openable p s | Some f \<Rightarrow> view f s' = Some (p, contents p s, 0) \<and> clean f)"
    and openable_law: "openable p s \<Longrightarrow> files s' p = files s p \<Longrightarrow> openable p s'"
    and close_law: "view f s = Some (p, c, off) \<Longrightarrow>
        \<exists>r s'. close_op I f s = Some (r, s') \<and> others view p s s' \<and> (r = 0 \<longrightarrow> contents p s' = c) \<and> (answers s = [] \<longrightarrow> r = 0)"
    and filesize_law: "view f s = Some (p, c, off) \<Longrightarrow>
        \<exists>r f' s'. filesize_op I f s = Some (r, f', s') \<and> becomes view clean f s p c off f' s' \<and> contents p s' = contents p s \<and>
          (r = - 1 \<and> answers s \<noteq> [] \<or> r = int (length (contents p s)))"
    and seek_law: "view f s = Some (p, c, off) \<Longrightarrow> 0 \<le> pos \<Longrightarrow> pos \<le> INT_MAX \<Longrightarrow>
        \<exists>r f' s'. seek_op I f pos s = Some (r, f', s') \<and>
          (r = - 1 \<and> answers s \<noteq> [] \<and> becomes view clean f s p c off f' s' \<or> r \<ge> 0 \<and> becomes view clean f s p c (nat pos) f' s')"
    and readc_law: "view f s = Some (p, c, off) \<Longrightarrow>
        \<exists>r f' s'. readc_op I f s = Some (r, f', s') \<and>
          (r = - 1 \<and> (answers s = [] \<longrightarrow> length c \<le> off) \<and> becomes view clean f s p c off f' s' \<or>
           off < length c \<and> r = uint (c ! off) \<and> becomes view clean f s p c (Suc off) f' s')"
    and writec_law: "view f s = Some (p, c, off) \<Longrightarrow> 0 \<le> ch \<Longrightarrow> ch < 256 \<Longrightarrow>
        \<exists>r f' s'. writec_op I f ch s = Some (r, f', s') \<and>
          (r = - 1 \<and> answers s \<noteq> [] \<and> becomes view clean f s p c off f' s' \<or>
           r = ch \<and> becomes view clean f s p (overlay c off [word_of_int ch]) (Suc off) f' s')"
    and read_law: "view f s = Some (p, c, off) \<Longrightarrow>
        \<exists>r bs f' s'. read_op I f n s = Some (r, bs, f', s') \<and>
          (r = - 1 \<and> \<not> (answers s = [] \<and> clean f) \<and> becomes view clean f s p c off f' s' \<or>
           r = int (length bs) \<and> becomes view clean f s p c (off + length bs) f' s' \<and>
           (\<exists>k \<le> n. bs = take k (drop off c) \<and> (n > 0 \<longrightarrow> k > 0) \<and> (answers s = [] \<longrightarrow> k = n)))"
    and write_law: "view f s = Some (p, c, off) \<Longrightarrow>
        \<exists>r f' s'. write_op I f bs s = Some (r, f', s') \<and>
          (r = - 1 \<and> \<not> (answers s = [] \<and> clean f) \<and> becomes view clean f s p c off f' s' \<or>
           (\<exists>k \<le> length bs. r = int k \<and> (bs \<noteq> [] \<longrightarrow> k > 0) \<and> (answers s = [] \<longrightarrow> k = length bs) \<and>
              becomes view clean f s p (overlay c off (take k bs)) (off + k) f' s'))"
    and flush_law: "view f s = Some (p, c, off) \<Longrightarrow>
        \<exists>r f' s'. flush_op I f s = Some (r, f', s') \<and> becomes view clean f s p c off f' s' \<and>
          (r = 0 \<longrightarrow> contents p s' = c) \<and> (answers s = [] \<longrightarrow> r = 0)"

text \<open>Without buffering, closing a file cannot fail.\<close>

locale io300_unbuffered = io300_file +
  assumes close_succeeds: "close_op I f s = Some (r, s') \<Longrightarrow> r = 0"
    and contents_view: "view f s = Some (p, c, off) \<Longrightarrow> contents p s = c"

section \<open>The unbuffered implementations keep the contract\<close>

text \<open>A view that rests on one descriptor and the contents of its file.\<close>

definition local_view :: "'f view \<Rightarrow> ('f \<Rightarrow> nat) \<Rightarrow> bool" where
  "local_view view fd \<longleftrightarrow> (\<forall>g s q c off. view g s = Some (q, c, off) \<longrightarrow> (\<exists>x. desc (fd g) s = Some (q, x))) \<and>
     (\<forall>g s s' q c off. view g s = Some (q, c, off) \<longrightarrow> desc (fd g) s' = desc (fd g) s \<longrightarrow> contents q s' = contents q s \<longrightarrow>
        view g s' = Some (q, c, off))"

lemma local_viewD:
  assumes "local_view view fd" and "view g s = Some (q, c, off)"
  shows "\<exists>x. desc (fd g) s = Some (q, x)"
    and "desc (fd g) s' = desc (fd g) s \<Longrightarrow> contents q s' = contents q s \<Longrightarrow> view g s' = Some (q, c, off)"
  using assms unfolding local_view_def by metis+

lemma contents_cong: "files s' q = files s q \<Longrightarrow> contents q s' = contents q s"
  by (simp add: contents_def)

lemma others_frame:
  assumes "local_view view fd" and "sys_frame d p s s'" and "desc d s = Some (p, x)"
  shows "others view p s s'"
  unfolding others_def
proof (intro conjI allI impI)
  fix g q c off assume q: "q \<noteq> p" and v: "view g s = Some (q, c, off)"
  obtain y where "desc (fd g) s = Some (q, y)" using local_viewD(1) [OF assms(1) v] by blast
  then have "fd g \<noteq> d" using assms(3) q by auto
  then have "desc (fd g) s' = desc (fd g) s" "contents q s' = contents q s"
    using assms(2) q by (auto simp: sys_frame_def intro: contents_cong)
  then show "view g s' = Some (q, c, off)" by (rule local_viewD(2) [OF assms(1) v])
qed (use assms(2) in \<open>simp_all add: sys_frame_def\<close>)

lemma others_open:
  assumes "local_view view fd" and "files s1 = files s" "fds s1 = fds s" "answers s = [] \<longrightarrow> answers s1 = []"
    and "sys_open p creat s1 = (r, s')"
  shows "others view p s s' \<and> contents p s' = contents p s"
proof -
  note o = sys_open_outcome [OF assms(5)]
  have d: "desc e s1 = desc e s" for e using assms(3) by (simp add: desc_def)
  have "view g s' = Some (q, c, off)" if "q \<noteq> p" and v: "view g s = Some (q, c, off)" for g q c off
  proof -
    obtain y where y: "desc (fd g) s = Some (q, y)" using local_viewD(1) [OF assms(1) v] by blast
    have "desc (fd g) s' = desc (fd g) s"
    proof (cases "r = - 1")
      case True
      then show ?thesis using o assms(3) by (simp add: desc_def)
    next
      case False
      then have "fd g \<noteq> nat r" using o d [of "nat r"] y by auto
      then show ?thesis using o d False by simp
    qed
    moreover have "contents q s' = contents q s" using o assms(2) that(1) by (auto intro: contents_cong)
    ultimately show ?thesis by (rule local_viewD(2) [OF assms(1) v])
  qed
  moreover have "contents p s' = contents p s" using o assms(2) by (auto simp: contents_def)
  moreover have "\<forall>q. q \<noteq> p \<longrightarrow> files s' q = files s q" "answers s = [] \<longrightarrow> answers s' = []" using o assms(2,4) by simp_all
  ultimately show ?thesis unfolding others_def by blast
qed

lemma others_malloc:
  assumes "local_view view fd" and "sys_malloc n s = (ok, s')"
  shows "others view p s s' \<and> contents p s' = contents p s"
proof -
  note m = sys_malloc_outcome [OF assms(2)]
  have "view g s' = Some (q, c, off)" if "view g s = Some (q, c, off)" for g q c off
    using m by (intro local_viewD(2) [OF assms(1) that]) (simp_all add: desc_def contents_def)
  then show ?thesis using m by (simp add: others_def sys_frame_def contents_def)
qed

definition raw_view :: "nat \<Rightarrow> os \<Rightarrow> (string \<times> u8 list \<times> nat) option" where
  "raw_view d s = (case desc d s of None \<Rightarrow> None | Some (p, off) \<Rightarrow> Some (p, contents p s, off))"

lemma raw_view_iff: "raw_view d s = Some (p, c, off) \<longleftrightarrow> desc d s = Some (p, off) \<and> c = contents p s"
  by (auto simp: raw_view_def split: option.splits prod.splits)

definition naive_view :: "naive_file view" where
  "naive_view f s = raw_view (naive_fd f) s"

definition student_view :: "student_file view" where
  "student_view f s = (if check_invariants f then raw_view (nat (student_fd f)) s else None)"

lemma naive_local: "local_view naive_view naive_fd"
  by (auto simp: local_view_def naive_view_def raw_view_iff)

lemma student_local: "local_view student_view (\<lambda>f. nat (student_fd f))"
  by (auto simp: local_view_def student_view_def raw_view_iff split: if_splits)

lemma to_int_small: "0 \<le> pos \<Longrightarrow> pos \<le> INT_MAX \<Longrightarrow> to_int pos = pos"
  by (simp add: to_int_def signed_of_int signed_take_bit_int_eq_self)

text \<open>One lemma per system call: what it does to a view.\<close>

lemma raw_open:
  assumes "local_view view fd" and "sys_malloc n s = (ok, s1)" and "sys_open p True s1 = (r, s')"
  shows "others view p s s' \<and> contents p s' = contents p s \<and>
    (r = - 1 \<and> answers s \<noteq> [] \<or> r \<ge> 0 \<and> raw_view (nat r) s' = Some (p, contents p s, 0))"
  using others_open [OF assms(1) sys_malloc_outcome(1,2) [OF assms(2)] _ assms(3)] sys_malloc_outcome [OF assms(2)]
    sys_open_outcome [OF assms(3)]
  by (auto simp: sys_frame_def raw_view_iff)

lemma raw_fstat:
  assumes "raw_view d s = Some (p, c, off)" and "sys_fstat d s = (r, n, s')"
  shows "sys_frame d p s s' \<and> raw_view d s' = Some (p, c, off) \<and> contents p s' = c \<and>
    (r = - 1 \<and> answers s \<noteq> [] \<or> r = 0 \<and> n = length c)"
  using sys_fstat_outcome [OF _ assms(2)] assms(1) by (fastforce simp: raw_view_iff contents_def)

lemma raw_seek:
  assumes "raw_view d s = Some (p, c, off)" and "sys_lseek d pos s = (r, s')" and "0 \<le> pos" "pos \<le> INT_MAX"
  shows "sys_frame d p s s' \<and>
    (to_int r = - 1 \<and> answers s \<noteq> [] \<and> raw_view d s' = Some (p, c, off) \<or> to_int r = pos \<and> raw_view d s' = Some (p, c, nat pos))"
proof -
  have "to_int (- 1) = - 1" by (simp add: to_int_def)
  moreover have "desc d s = Some (p, off)" "c = contents p s" using assms(1) by (simp_all add: raw_view_iff)
  moreover note sys_lseek_outcome [OF this(1) assms(2)]
  ultimately show ?thesis using assms(3,4) to_int_small by (auto simp: raw_view_iff contents_def)
qed

lemma raw_read:
  assumes "raw_view d s = Some (p, c, off)" and "sys_read d n s = (r, bs, s')"
  shows "sys_frame d p s s' \<and>
    (r = - 1 \<and> bs = [] \<and> answers s \<noteq> [] \<and> raw_view d s' = Some (p, c, off) \<or>
     r = int (length bs) \<and> raw_view d s' = Some (p, c, off + length bs) \<and>
       (\<exists>k \<le> n. bs = take k (drop off c) \<and> (n > 0 \<longrightarrow> k > 0) \<and> (answers s = [] \<longrightarrow> k = n)))"
proof -
  have v: "desc d s = Some (p, off)" "c = contents p s" using assms(1) by (simp_all add: raw_view_iff)
  note o = sys_read_outcome [OF v(1) assms(2)]
  then have "contents p s' = c" by (auto simp: v(2) contents_def)
  with o v show ?thesis by (simp add: raw_view_iff)
qed

lemma raw_readc:
  assumes "raw_view d s = Some (p, c, off)" and "sys_read d 1 s = (r, bs, s')"
  shows "sys_frame d p s s' \<and>
    (r \<noteq> 1 \<and> (answers s = [] \<longrightarrow> length c \<le> off) \<and> raw_view d s' = Some (p, c, off) \<or>
     r = 1 \<and> off < length c \<and> hd bs = c ! off \<and> raw_view d s' = Some (p, c, Suc off))"
proof -
  note o = raw_read [OF assms]
  show ?thesis
  proof (cases "r = - 1")
    case False
    then obtain k where k: "k \<le> 1" "k > 0" "bs = take k (drop off c)" "r = int (length bs)" "raw_view d s' = Some (p, c, off + length bs)"
      using o by auto
    then have "k = 1" by simp
    then have "if off < length c then bs = [c ! off] else bs = []"
      using k(3) by (auto simp: take_Suc hd_drop_conv_nth)
    then show ?thesis using k o by (cases "off < length c") auto
  qed (use o in auto)
qed

lemma raw_write:
  assumes "raw_view d s = Some (p, c, off)" and "sys_write d bs s = (r, s')"
  shows "sys_frame d p s s' \<and>
    (r = - 1 \<and> answers s \<noteq> [] \<and> raw_view d s' = Some (p, c, off) \<or>
     (\<exists>k \<le> length bs. r = int k \<and> (bs \<noteq> [] \<longrightarrow> k > 0) \<and> (answers s = [] \<longrightarrow> k = length bs) \<and>
        raw_view d s' = Some (p, overlay c off (take k bs), off + k)))"
proof -
  have v: "desc d s = Some (p, off)" "c = contents p s" using assms(1) by (simp_all add: raw_view_iff)
  note o = sys_write_outcome [OF v(1) assms(2)]
  show ?thesis
  proof (cases "r = - 1")
    case True
    then show ?thesis using o v by (auto simp: raw_view_iff contents_def)
  qed (use o v in \<open>auto simp: raw_view_iff\<close>)
qed

lemma raw_writec:
  assumes "raw_view d s = Some (p, c, off)" and "sys_write d [b] s = (r, s')"
  shows "sys_frame d p s s' \<and>
    (r = - 1 \<and> answers s \<noteq> [] \<and> raw_view d s' = Some (p, c, off) \<or> r = 1 \<and> raw_view d s' = Some (p, overlay c off [b], Suc off))"
proof (cases "r = - 1")
  case False
  then obtain k where k: "k \<le> 1" "k > 0" "r = int k" "raw_view d s' = Some (p, overlay c off (take k [b]), off + k)"
    using raw_write [OF assms] by auto
  then have "k = 1" by simp
  then show ?thesis using k raw_write [OF assms] by simp
qed (use raw_write [OF assms] in auto)

lemma becomes_frame:
  assumes "local_view view fd" and "sys_frame (fd f) p s s'" and "view f s = Some (p, c, off)" and "view f' s' = Some (p, c', off')"
  shows "becomes view (\<lambda>_. True) f s p c' off' f' s'"
proof -
  obtain x where "desc (fd f) s = Some (p, x)" using local_viewD(1) [OF assms(1,3)] by blast
  then show ?thesis using others_frame [OF assms(1,2)] assms(4) by (simp add: becomes_def)
qed

lemmas becomes_naive = becomes_frame [OF naive_local]
lemmas becomes_student = becomes_frame [OF student_local]

interpretation naive: io300_unbuffered naive_io naive_view "\<lambda>_. True" "\<lambda>_ _. True"
proof unfold_locales
  fix p d s
  obtain ok s1 where m: "sys_malloc 4 s = (ok, s1)" by (cases "sys_malloc 4 s")
  obtain r s' where o: "sys_open p True s1 = (r, s')" by (cases "sys_open p True s1")
  note raw_open [OF naive_local m o]
  moreover have "others naive_view p s s1 \<and> contents p s1 = contents p s" by (rule others_malloc [OF naive_local m])
  moreover have "\<not> ok \<Longrightarrow> answers s \<noteq> []" using sys_malloc_outcome(4) [OF m] by auto
  ultimately show "\<exists>r s'. open_op naive_io p d s = Some (r, s') \<and> others naive_view p s s' \<and> contents p s' = contents p s \<and>
      (case r of None \<Rightarrow> answers s \<noteq> [] \<or> \<not> True | Some f \<Rightarrow> naive_view f s' = Some (p, contents p s, 0) \<and> True)"
    using m o by (auto simp: naive_io_def naive_open_def naive_view_def)
next
  fix f s p c off assume v: "naive_view f s = Some (p, c, off)"
  note v' = v [unfolded naive_view_def]
  show "contents p s = c" using v' by (simp add: raw_view_iff)
  then show "\<exists>r s'. close_op naive_io f s = Some (r, s') \<and> others naive_view p s s' \<and> (r = 0 \<longrightarrow> contents p s' = c) \<and> (answers s = [] \<longrightarrow> r = 0)"
    by (simp add: naive_io_def naive_close_def naive_flush_def others_def)
  show "\<exists>r f' s'. flush_op naive_io f s = Some (r, f', s') \<and> becomes naive_view (\<lambda>_. True) f s p c off f' s' \<and>
      (r = 0 \<longrightarrow> contents p s' = c) \<and> (answers s = [] \<longrightarrow> r = 0)"
    using v \<open>contents p s = c\<close> by (simp add: naive_io_def naive_flush_def becomes_def others_def)
  obtain r n s' where x: "sys_fstat (naive_fd f) s = (r, n, s')" by (cases "sys_fstat (naive_fd f) s")
  show "\<exists>r f' s'. filesize_op naive_io f s = Some (r, f', s') \<and> becomes naive_view (\<lambda>_. True) f s p c off f' s' \<and>
      contents p s' = contents p s \<and> (r = - 1 \<and> answers s \<noteq> [] \<or> r = int (length (contents p s)))"
    using raw_fstat [OF v' x] \<open>contents p s = c\<close> becomes_naive [OF _ v, of s'] x
    by (auto simp: naive_io_def naive_filesize_def naive_view_def)
next
  fix f s p c off pos assume v: "naive_view f s = Some (p, c, off)" and b: "0 \<le> pos" "pos \<le> INT_MAX"
  obtain r s' where x: "sys_lseek (naive_fd f) pos s = (r, s')" by (cases "sys_lseek (naive_fd f) pos s")
  show "\<exists>r f' s'. seek_op naive_io f pos s = Some (r, f', s') \<and>
      (r = - 1 \<and> answers s \<noteq> [] \<and> becomes naive_view (\<lambda>_. True) f s p c off f' s' \<or>
       r \<ge> 0 \<and> becomes naive_view (\<lambda>_. True) f s p c (nat pos) f' s')"
    using raw_seek [OF v [unfolded naive_view_def] x b] becomes_naive [OF _ v, of s'] x b
    by (auto simp: naive_io_def naive_seek_def naive_view_def)
next
  fix f s p c off assume v: "naive_view f s = Some (p, c, off)"
  obtain r bs s' where x: "sys_read (naive_fd f) 1 s = (r, bs, s')" by (cases "sys_read (naive_fd f) 1 s")
  show "\<exists>r f' s'. readc_op naive_io f s = Some (r, f', s') \<and>
      (r = - 1 \<and> (answers s = [] \<longrightarrow> length c \<le> off) \<and> becomes naive_view (\<lambda>_. True) f s p c off f' s' \<or>
       off < length c \<and> r = uint (c ! off) \<and> becomes naive_view (\<lambda>_. True) f s p c (Suc off) f' s')"
    using raw_readc [OF v [unfolded naive_view_def] x] becomes_naive [OF _ v, of s'] x
    by (auto simp: naive_io_def naive_readc_def naive_view_def)
next
  fix f s p c off ch assume v: "naive_view f s = Some (p, c, off)"
  obtain r s' where x: "sys_write (naive_fd f) [word_of_int ch] s = (r, s')" by (cases "sys_write (naive_fd f) [word_of_int ch] s")
  show "\<exists>r f' s'. writec_op naive_io f ch s = Some (r, f', s') \<and>
      (r = - 1 \<and> answers s \<noteq> [] \<and> becomes naive_view (\<lambda>_. True) f s p c off f' s' \<or>
       r = ch \<and> becomes naive_view (\<lambda>_. True) f s p (overlay c off [word_of_int ch]) (Suc off) f' s')"
    using raw_writec [OF v [unfolded naive_view_def] x] becomes_naive [OF _ v, of s'] x
    by (auto simp: naive_io_def naive_writec_def naive_view_def)
next
  fix f s p c off n assume v: "naive_view f s = Some (p, c, off)"
  obtain r bs s' where x: "sys_read (naive_fd f) n s = (r, bs, s')" by (cases "sys_read (naive_fd f) n s")
  show "\<exists>r bs f' s'. read_op naive_io f n s = Some (r, bs, f', s') \<and>
      (r = - 1 \<and> \<not> (answers s = [] \<and> True) \<and> becomes naive_view (\<lambda>_. True) f s p c off f' s' \<or>
       r = int (length bs) \<and> becomes naive_view (\<lambda>_. True) f s p c (off + length bs) f' s' \<and>
       (\<exists>k \<le> n. bs = take k (drop off c) \<and> (n > 0 \<longrightarrow> k > 0) \<and> (answers s = [] \<longrightarrow> k = n)))"
    using raw_read [OF v [unfolded naive_view_def] x] becomes_naive [OF _ v, of s'] x
    by (simp add: naive_io_def naive_read_def naive_view_def) blast
next
  fix f s p c off bs assume v: "naive_view f s = Some (p, c, off)"
  obtain r s' where x: "sys_write (naive_fd f) bs s = (r, s')" by (cases "sys_write (naive_fd f) bs s")
  show "\<exists>r f' s'. write_op naive_io f bs s = Some (r, f', s') \<and>
      (r = - 1 \<and> \<not> (answers s = [] \<and> True) \<and> becomes naive_view (\<lambda>_. True) f s p c off f' s' \<or>
       (\<exists>k \<le> length bs. r = int k \<and> (bs \<noteq> [] \<longrightarrow> k > 0) \<and> (answers s = [] \<longrightarrow> k = length bs) \<and>
          becomes naive_view (\<lambda>_. True) f s p (overlay c off (take k bs)) (off + k) f' s'))"
    using raw_write [OF v [unfolded naive_view_def] x] becomes_naive [OF _ v, of s'] x
    by (simp add: naive_io_def naive_write_def naive_view_def) blast
qed (simp_all add: naive_io_def naive_close_def naive_flush_def)

text \<open>The stencil does what \<open>naive.c\<close> does with the same descriptor, apart from its checks and statistics.\<close>

definition base_file :: "student_file \<Rightarrow> naive_file" where
  "base_file f = \<lparr>naive_fd = nat (student_fd f)\<rparr>"

lemma student_view_base: "student_view f s = (if check_invariants f then naive_view (base_file f) s else None)"
  by (simp add: student_view_def naive_view_def base_file_def)

lemma student_others: "others naive_view p s s' \<Longrightarrow> others student_view p s s'"
  unfolding others_def student_view_base by (metis option.distinct(1))

lemma student_becomes:
  assumes "becomes naive_view (\<lambda>_. True) (base_file f) s p c off (base_file f') s'" and "check_invariants f'"
  shows "becomes student_view (\<lambda>_. True) f s p c off f' s'"
  using assms student_others by (simp add: becomes_def student_view_base)

lemmas student_ops = student_io_def student_seek_def student_close_def student_filesize_def student_readc_def student_writec_def
  student_read_def student_write_def student_flush_def
lemmas naive_ops = naive_io_def naive_seek_def naive_close_def naive_filesize_def naive_readc_def naive_writec_def
  naive_read_def naive_write_def naive_flush_def

lemma student_base_ops:
  assumes "check_invariants f"
  shows "seek_op naive_io (base_file f) pos s = Some (r, g, s') \<Longrightarrow>
      \<exists>f'. check_invariants f' \<and> base_file f' = g \<and> seek_op (student_io heap) f pos s = Some (r, f', s')"
    and "filesize_op naive_io (base_file f) s = Some (r, g, s') \<Longrightarrow> g = base_file f \<and> filesize_op (student_io heap) f s = Some (r, f, s')"
    and "readc_op naive_io (base_file f) s = Some (r, g, s') \<Longrightarrow> g = base_file f \<and> readc_op (student_io heap) f s = Some (r, f, s')"
    and "writec_op naive_io (base_file f) ch s = Some (r, g, s') \<Longrightarrow> g = base_file f \<and> writec_op (student_io heap) f ch s = Some (r, f, s')"
    and "read_op naive_io (base_file f) n s = Some (r, bs, g, s') \<Longrightarrow> g = base_file f \<and> read_op (student_io heap) f n s = Some (r, bs, f, s')"
    and "write_op naive_io (base_file f) bs s = Some (r, g, s') \<Longrightarrow> g = base_file f \<and> write_op (student_io heap) f bs s = Some (r, f, s')"
    and "flush_op naive_io (base_file f) s = Some (r, g, s') \<Longrightarrow> g = base_file f \<and> flush_op (student_io heap) f s = Some (r, f, s')"
  using assms by (auto simp: student_ops naive_ops base_file_def check_invariants_def Let_def split: prod.splits)

lemma others_trans: "others view p s s1 \<Longrightarrow> others view p s1 s2 \<Longrightarrow> others view p s s2"
  unfolding others_def by metis

lemma student_open_outcome:
  "\<exists>r s'. student_open heap p d s = Some (r, s') \<and> others student_view p s s' \<and> contents p s' = contents p s \<and>
     (case r of None \<Rightarrow> answers s \<noteq> [] | Some f \<Rightarrow> student_view f s' = Some (p, contents p s, 0))"
proof -
  obtain r s1 where o: "sys_open p True s = (r, s1)" by (cases "sys_open p True s")
  obtain ok2 s2 where m2: "sys_malloc 40 s1 = (ok2, s2)" by (cases "sys_malloc 40 s1")
  obtain ok3 s3 where m3: "sys_malloc BUFFER_SIZE s2 = (ok3, s3)" by (cases "sys_malloc BUFFER_SIZE s2")
  obtain r4 s4 where c: "sys_close (nat r) s3 = (r4, s4)" by (cases "sys_close (nat r) s3")
  note oo = sys_open_outcome [OF o] and f2 = sys_malloc_outcome [OF m2] and f3 = sys_malloc_outcome [OF m3]
  have s1: "others student_view p s s1 \<and> contents p s1 = contents p s" using others_open [OF student_local refl refl _ o] by simp
  have s2: "others student_view p s s2 \<and> contents p s2 = contents p s"
    using s1 others_malloc [OF student_local m2] others_trans by metis
  have s3: "others student_view p s s3 \<and> contents p s3 = contents p s"
    using s2 others_malloc [OF student_local m3] others_trans by metis
  have d: "r = - 1 \<or> r \<ge> 0 \<and> desc (nat r) s3 = Some (p, 0)" using oo f2(2) f3(2) by (auto simp: desc_def)
  then have s4: "r = - 1 \<or> others student_view p s s4 \<and> contents p s4 = contents p s"
    using s3 sys_close_outcome [OF _ c] others_frame [OF student_local] others_trans by (metis contents_cong)
  have a: "answers s = [] \<Longrightarrow> r \<noteq> - 1 \<and> ok2 \<and> ok3"
    using oo f2(3,4) f3(3,4) by (auto simp: sys_frame_def BUFFER_SIZE_def)
  show ?thesis
    using o m2 m3 c a s1 s2 s3 s4 d
    by (auto simp: student_open_def Let_def check_invariants_def student_view_def raw_view_iff)
qed

interpretation student: io300_unbuffered "student_io heap" student_view "\<lambda>_. True" "\<lambda>_ _. True" for heap
proof unfold_locales
  fix p d s
  show "\<exists>r s'. open_op (student_io heap) p d s = Some (r, s') \<and> others student_view p s s' \<and> contents p s' = contents p s \<and>
      (case r of None \<Rightarrow> answers s \<noteq> [] \<or> \<not> True | Some f \<Rightarrow> student_view f s' = Some (p, contents p s, 0) \<and> True)"
    using student_open_outcome [of heap p d s] by (simp add: student_io_def cong: option.case_cong)
next
  fix f s p c off assume "student_view f s = Some (p, c, off)"
  then have v: "check_invariants f" "naive_view (base_file f) s = Some (p, c, off)" by (simp_all add: student_view_base split: if_splits)
  note ops = student_base_ops [OF v(1), where heap = heap] and bec = student_becomes [of f s p _ _ f]
  show c: "contents p s = c" using v(2) by (simp add: naive_view_def raw_view_iff)
  have d: "desc (nat (student_fd f)) s = Some (p, off)" using v(2) by (simp add: naive_view_def raw_view_iff base_file_def)
  obtain r s' where x: "sys_close (nat (student_fd f)) s = (r, s')" by (cases "sys_close (nat (student_fd f)) s")
  then show "\<exists>r s'. close_op (student_io heap) f s = Some (r, s') \<and> others student_view p s s' \<and> (r = 0 \<longrightarrow> contents p s' = c) \<and>
      (answers s = [] \<longrightarrow> r = 0)"
    using sys_close_outcome [OF d x] others_frame [OF student_local _ d] c v(1) by (auto simp: student_io_def student_close_def contents_def)
  show "\<exists>r f' s'. flush_op (student_io heap) f s = Some (r, f', s') \<and> becomes student_view (\<lambda>_. True) f s p c off f' s' \<and>
      (r = 0 \<longrightarrow> contents p s' = c) \<and> (answers s = [] \<longrightarrow> r = 0)"
    using naive.flush_law [OF v(2)] ops(7) bec v(1) by blast
  show "\<exists>r f' s'. filesize_op (student_io heap) f s = Some (r, f', s') \<and> becomes student_view (\<lambda>_. True) f s p c off f' s' \<and>
      contents p s' = contents p s \<and> (r = - 1 \<and> answers s \<noteq> [] \<or> r = int (length (contents p s)))"
    using naive.filesize_law [OF v(2)] ops(2) bec v(1) by blast
  show "\<exists>r f' s'. readc_op (student_io heap) f s = Some (r, f', s') \<and>
      (r = - 1 \<and> (answers s = [] \<longrightarrow> length c \<le> off) \<and> becomes student_view (\<lambda>_. True) f s p c off f' s' \<or>
       off < length c \<and> r = uint (c ! off) \<and> becomes student_view (\<lambda>_. True) f s p c (Suc off) f' s')"
    using naive.readc_law [OF v(2)] ops(3) bec v(1) by blast
  fix n
  show "\<exists>r bs f' s'. read_op (student_io heap) f n s = Some (r, bs, f', s') \<and>
      (r = - 1 \<and> \<not> (answers s = [] \<and> True) \<and> becomes student_view (\<lambda>_. True) f s p c off f' s' \<or>
       r = int (length bs) \<and> becomes student_view (\<lambda>_. True) f s p c (off + length bs) f' s' \<and>
       (\<exists>k \<le> n. bs = take k (drop off c) \<and> (n > 0 \<longrightarrow> k > 0) \<and> (answers s = [] \<longrightarrow> k = n)))"
    using naive.read_law [OF v(2), of n] ops(5) bec v(1) by blast
  fix bs
  show "\<exists>r f' s'. write_op (student_io heap) f bs s = Some (r, f', s') \<and>
      (r = - 1 \<and> \<not> (answers s = [] \<and> True) \<and> becomes student_view (\<lambda>_. True) f s p c off f' s' \<or>
       (\<exists>k \<le> length bs. r = int k \<and> (bs \<noteq> [] \<longrightarrow> k > 0) \<and> (answers s = [] \<longrightarrow> k = length bs) \<and>
          becomes student_view (\<lambda>_. True) f s p (overlay c off (take k bs)) (off + k) f' s'))"
    using naive.write_law [OF v(2), of bs] ops(6) bec v(1) by blast
next
  fix f s p c off pos assume "student_view f s = Some (p, c, off)" and b: "0 \<le> pos" "pos \<le> INT_MAX"
  then have v: "check_invariants f" "naive_view (base_file f) s = Some (p, c, off)" by (simp_all add: student_view_base split: if_splits)
  obtain r g s' where x: "seek_op naive_io (base_file f) pos s = Some (r, g, s')" and
    y: "r = - 1 \<and> answers s \<noteq> [] \<and> becomes naive_view (\<lambda>_. True) (base_file f) s p c off g s' \<or>
      r \<ge> 0 \<and> becomes naive_view (\<lambda>_. True) (base_file f) s p c (nat pos) g s'"
    using naive.seek_law [OF v(2) b] by blast
  obtain f' where "check_invariants f'" "base_file f' = g" "seek_op (student_io heap) f pos s = Some (r, f', s')"
    using student_base_ops(1) [OF v(1) x, of heap] by blast
  then show "\<exists>r f' s'. seek_op (student_io heap) f pos s = Some (r, f', s') \<and>
      (r = - 1 \<and> answers s \<noteq> [] \<and> becomes student_view (\<lambda>_. True) f s p c off f' s' \<or>
       r \<ge> 0 \<and> becomes student_view (\<lambda>_. True) f s p c (nat pos) f' s')"
    using y student_becomes by metis
next
  fix f s p c off and ch :: int assume "student_view f s = Some (p, c, off)" and b: "0 \<le> ch" "ch < 256"
  then have v: "check_invariants f" "naive_view (base_file f) s = Some (p, c, off)" by (simp_all add: student_view_base split: if_splits)
  show "\<exists>r f' s'. writec_op (student_io heap) f ch s = Some (r, f', s') \<and>
      (r = - 1 \<and> answers s \<noteq> [] \<and> becomes student_view (\<lambda>_. True) f s p c off f' s' \<or>
       r = ch \<and> becomes student_view (\<lambda>_. True) f s p (overlay c off [word_of_int ch]) (Suc off) f' s')"
    using naive.writec_law [OF v(2) b] student_base_ops(4) [OF v(1), where heap = heap] student_becomes v(1) by metis
qed (auto simp: student_io_def student_close_def split: if_splits prod.splits)

end
