(* ===== verification/StdioFile.thy ===== *)
theory StdioFile
  imports FileIO
begin

text \<open>
  \<open>fileio/impl/stdio.c\<close>, the implementation of \<open>io300.h\<close> on the buffered streams of the C library, and its proof of the
  contract: what is still in a stream's buffer is part of the file the client sees.
\<close>

section \<open>On C streams: \<open>stdio.c\<close>\<close>

text \<open>
  A stream of the C library keeps what is written to it until it is flushed, repositioned, read or closed, and remembers that an
  input operation failed.
\<close>

record stream =
  fileno :: nat
  pending :: "u8 list"
  ferror :: bool

function flush_loop :: "nat \<Rightarrow> u8 list \<Rightarrow> os \<Rightarrow> int \<times> u8 list \<times> os" where
  "flush_loop d bs s =
     (if bs = [] then (0, [], s)
      else let (r, s) = sys_write d bs s in if r \<le> 0 then (- 1, bs, s) else flush_loop d (drop (nat r) bs) s)"
  by pat_completeness auto

termination
  by (relation "measure (\<lambda>(d, bs, s). length bs)") auto

declare flush_loop.simps [simp del]

definition fflush :: "stream \<Rightarrow> os \<Rightarrow> int \<times> stream \<times> os" where
  "fflush f s = (let (r, bs, s) = flush_loop (fileno f) (pending f) s in (r, f\<lparr>pending := bs\<rparr>, s))"

definition fopen :: "string \<Rightarrow> os \<Rightarrow> stream option \<times> os" where
  "fopen path s =
     (let (fd, s) = sys_open path False s
      in if fd = - 1 then (None, s) else (Some \<lparr>fileno = nat fd, pending = [], ferror = False\<rparr>, s))"

definition fclose :: "stream \<Rightarrow> os \<Rightarrow> int \<times> os" where
  "fclose f s = (let (r, f, s) = fflush f s; (_, s) = sys_close (fileno f) s in (r, s))"

definition fseek :: "stream \<Rightarrow> int \<Rightarrow> os \<Rightarrow> int \<times> stream \<times> os" where
  "fseek f pos s =
     (let (r, f, s) = fflush f s
      in if r = - 1 then (- 1, f, s)
         else let (r, s) = sys_lseek (fileno f) pos s in (if r = - 1 then - 1 else 0, f, s))"

text \<open>Reading goes on until there are \<open>n\<close> bytes, the file ends or a call fails.\<close>

function fread_loop :: "nat \<Rightarrow> nat \<Rightarrow> os \<Rightarrow> u8 list \<times> bool \<times> os" where
  "fread_loop d n s =
     (if n = 0 then ([], False, s)
      else let (r, bs, s) = sys_read d n s
           in if r < 0 then ([], True, s)
              else if bs = [] then ([], False, s)
              else let (cs, e, s) = fread_loop d (n - length bs) s in (bs @ cs, e, s))"
  by pat_completeness auto

termination
  by (relation "measure (\<lambda>(d, n, s). n)") auto

declare fread_loop.simps [simp del]

definition fread :: "stream \<Rightarrow> nat \<Rightarrow> os \<Rightarrow> u8 list \<times> stream \<times> os" where
  "fread f n s =
     (let (r, f, s) = fflush f s
      in if r = - 1 then ([], f\<lparr>ferror := True\<rparr>, s)
         else let (bs, e, s) = fread_loop (fileno f) n s in (bs, f\<lparr>ferror := ferror f \<or> e\<rparr>, s))"

definition fgetc :: "stream \<Rightarrow> os \<Rightarrow> int \<times> stream \<times> os" where
  "fgetc f s = (let (bs, f, s) = fread f 1 s in (if bs = [] then - 1 else uint (hd bs), f, s))"

definition fwrite :: "stream \<Rightarrow> u8 list \<Rightarrow> nat \<times> stream" where
  "fwrite f bs = (length bs, f\<lparr>pending := pending f @ bs\<rparr>)"

definition fputc :: "int \<Rightarrow> stream \<Rightarrow> int \<times> stream" where
  "fputc ch f = (uint (word_of_int ch :: u8), f\<lparr>pending := pending f @ [word_of_int ch]\<rparr>)"

text \<open>The operations of \<open>stdio.c\<close>; its structure holds just the stream.\<close>

definition stdio_open :: "string \<Rightarrow> string \<Rightarrow> os \<Rightarrow> (stream option \<times> os) option" where
  "stdio_open path name s =
     (let (ok, s) = sys_malloc 8 s in if \<not> ok then Some (None, s) else Some (fopen path s))"

definition stdio_flush :: "stream \<Rightarrow> os \<Rightarrow> (int \<times> stream \<times> os) option" where
  "stdio_flush f s = Some (fflush f s)"

definition stdio_close :: "stream \<Rightarrow> os \<Rightarrow> (int \<times> os) option" where
  "stdio_close f s = Option.bind (stdio_flush f s) (\<lambda>(_, f, s). Some (fclose f s))"

definition stdio_filesize :: "stream \<Rightarrow> os \<Rightarrow> (int \<times> stream \<times> os) option" where
  "stdio_filesize f s = (let (r, size, s) = sys_fstat (fileno f) s in Some (if r \<ge> 0 then int size else - 1, f, s))"

definition stdio_seek :: "stream \<Rightarrow> int \<Rightarrow> os \<Rightarrow> (int \<times> stream \<times> os) option" where
  "stdio_seek f pos s = Some (fseek f pos s)"

definition stdio_readc :: "stream \<Rightarrow> os \<Rightarrow> (int \<times> stream \<times> os) option" where
  "stdio_readc f s = Some (fgetc f s)"

definition stdio_writec :: "stream \<Rightarrow> int \<Rightarrow> os \<Rightarrow> (int \<times> stream \<times> os) option" where
  "stdio_writec f ch s = (let (r, f) = fputc ch f in Some (r, f, s))"

definition stdio_read :: "stream \<Rightarrow> nat \<Rightarrow> os \<Rightarrow> (int \<times> u8 list \<times> stream \<times> os) option" where
  "stdio_read f sz s =
     (let (bs, f, s) = fread f sz s; n = length bs
      in Some (if n \<noteq> 0 \<or> sz = 0 \<or> \<not> ferror f then int n else - 1, bs, f, s))"

definition stdio_write :: "stream \<Rightarrow> u8 list \<Rightarrow> os \<Rightarrow> (int \<times> stream \<times> os) option" where
  "stdio_write f bs s =
     (let (n, f) = fwrite f bs in Some (if n \<noteq> 0 \<or> bs = [] \<or> \<not> ferror f then int n else - 1, f, s))"

definition stdio_io :: "stream io300" where
  "stdio_io = \<lparr>open_op = stdio_open, close_op = stdio_close, filesize_op = stdio_filesize, seek_op = stdio_seek,
     readc_op = stdio_readc, writec_op = stdio_writec, read_op = stdio_read, write_op = stdio_write, flush_op = stdio_flush\<rparr>"


section \<open>The contract\<close>

text \<open>The client sees the file with the pending bytes in place.\<close>

definition stdio_view :: "stream view" where
  "stdio_view f s =
     (case desc (fileno f) s of
        None \<Rightarrow> None
      | Some (p, off) \<Rightarrow> Some (p, overlay (contents p s) off (pending f), off + length (pending f)))"

lemma stdio_view_iff:
  "stdio_view f s = Some (p, c, off) \<longleftrightarrow>
     (\<exists>o'. desc (fileno f) s = Some (p, o') \<and> c = overlay (contents p s) o' (pending f) \<and> off = o' + length (pending f))"
  by (auto simp: stdio_view_def split: option.splits prod.splits)

lemma stdio_local: "local_view stdio_view fileno"
  by (auto simp: local_view_def stdio_view_iff)

text \<open>Whatever a flush achieves, the client sees no difference.\<close>

lemma flush_loop_outcome:
  assumes "desc d s = Some (p, off)" and "flush_loop d bs s = (r, bs', s')"
  shows "sys_frame d p s s' \<and> (r = 0 \<and> bs' = [] \<or> r = - 1 \<and> answers s \<noteq> []) \<and>
    (\<exists>off'. desc d s' = Some (p, off') \<and> off' + length bs' = off + length bs \<and>
       overlay (contents p s') off' bs' = overlay (contents p s) off bs)"
  using assms
proof (induction d bs s arbitrary: off rule: flush_loop.induct)
  case (1 d bs s)
  show ?case
  proof (cases "bs = []")
    case True
    then show ?thesis using 1(2,3) by (subst (asm) flush_loop.simps) simp
  next
    case False
    obtain w s1 where w: "sys_write d bs s = (w, s1)" by (cases "sys_write d bs s")
    note o = sys_write_outcome [OF 1(2) w]
    show ?thesis
    proof (cases "w \<le> 0")
      case True
      then have "r = - 1" "bs' = bs" "s' = s1" using 1(3) False w by (simp_all add: flush_loop.simps [of d bs s])
      moreover have "w = - 1" using o True False by auto
      ultimately show ?thesis using o by (auto simp: contents_def)
    next
      case pos: False
      then obtain k where k: "w = int k" "k \<le> length bs" "desc d s1 = Some (p, off + k)"
        "contents p s1 = overlay (contents p s) off (take k bs)" "sys_frame d p s s1"
        using o by auto
      have "flush_loop d (drop k bs) s1 = (r, bs', s')" using 1(3) False w pos k(1) by (simp add: flush_loop.simps [of d bs s])
      with 1(1) [OF False w [symmetric] refl pos, of "off + k"] k
      have ih: "sys_frame d p s1 s' \<and> (r = 0 \<and> bs' = [] \<or> r = - 1 \<and> answers s1 \<noteq> []) \<and>
        (\<exists>off'. desc d s' = Some (p, off') \<and> off' + length bs' = off + k + length (drop k bs) \<and>
           overlay (contents p s') off' bs' = overlay (contents p s1) (off + k) (drop k bs))"
        by simp
      have "overlay (contents p s1) (off + k) (drop k bs) = overlay (contents p s) off bs"
        using overlay_append [of "contents p s" off "take k bs" "drop k bs"] k(2,4) by (simp add: min_absorb2)
      moreover have "answers s1 \<noteq> [] \<longrightarrow> answers s \<noteq> []" using k(5) by (auto simp: sys_frame_def)
      moreover have "sys_frame d p s s'" using ih k(5) sys_frame_trans by blast
      ultimately show ?thesis using ih k(2) by fastforce
    qed
  qed
qed

lemma fread_loop_outcome:
  assumes "desc d s = Some (p, off)" and "fread_loop d n s = (bs, e, s')"
  shows "sys_frame d p s s' \<and> files s' = files s \<and> desc d s' = Some (p, off + length bs) \<and>
    (\<exists>k \<le> n. bs = take k (drop off (contents p s)) \<and> (answers s = [] \<longrightarrow> k = n) \<and> (n > 0 \<longrightarrow> k > 0 \<or> e)) \<and> (e \<longrightarrow> answers s \<noteq> [])"
  using assms
proof (induction d n s arbitrary: off bs e s' rule: fread_loop.induct)
  case (1 d n s)
  note IH = 1(1) and d0 = 1(2) and l0 = 1(3)
  show ?case
  proof (cases "n = 0")
    case True
    then show ?thesis using d0 l0 by (subst (asm) fread_loop.simps) auto
  next
    case False
    obtain r xs s1 where r: "sys_read d n s = (r, xs, s1)" by (cases "sys_read d n s")
    note o = sys_read_outcome [OF d0 r]
    consider "r < 0" | "r \<ge> 0" "xs = []" | "r \<ge> 0" "xs \<noteq> []" by linarith
    then show ?thesis
    proof cases
      case 1
      then have "bs = []" "e" "s' = s1" using 1 False r l0 by (simp_all add: fread_loop.simps [of d n s])
      then show ?thesis using o 1 by (intro conjI exI [of _ 0]) auto
    next
      case 2
      then have "bs = []" "\<not> e" "s' = s1" using 2 False r l0 by (simp_all add: fread_loop.simps [of d n s])
      then show ?thesis using o 2 False by (auto simp del: take_eq_Nil drop_eq_Nil)
    next
      case 3
      then obtain k where k: "k \<le> n" "k > 0" "answers s = [] \<longrightarrow> k = n" "xs = take k (drop off (contents p s))"
        "desc d s1 = Some (p, off + length xs)"
        using o False by auto
      obtain cs e' s2 where l: "fread_loop d (n - length xs) s1 = (cs, e', s2)" by (cases "fread_loop d (n - length xs) s1")
      then have b: "bs = xs @ cs" "e' = e" "s2 = s'"
        using 3 False r l0 by (simp_all add: fread_loop.simps [of d n s])
      have r0: "\<not> r < 0" using 3 by simp
      note ih = IH [OF False r [symmetric] refl refl r0 3(2) k(5) l]
      have c1: "contents p s1 = contents p s" using o by (simp add: contents_def)
      obtain j where j: "j \<le> n - length xs" "cs = take j (drop (off + length xs) (contents p s))" "answers s1 = [] \<longrightarrow> j = n - length xs"
        using ih c1 by auto
      have "bs = take (length xs + j) (drop off (contents p s))"
      proof (cases "length (drop off (contents p s)) \<le> k")
        case True
        then have "xs = drop off (contents p s)" "cs = []" using k(4) j(2) by simp_all
        then show ?thesis using b by simp
      next
        case False
        then have x: "length xs = k" using k(4) by simp
        have "bs = take k (drop off (contents p s)) @ take j (drop (k + off) (contents p s))"
          using b(1) j(2) k(4) x by (simp add: add.commute)
        then show ?thesis by (simp add: x take_add)
      qed
      note eq = this
      have x: "length xs \<le> n" "length xs > 0" using k(1,4) 3 by simp_all
      have a1: "answers s = [] \<Longrightarrow> answers s1 = []" and fr: "sys_frame d p s s1" and f1: "files s1 = files s" using o by (simp_all add: sys_frame_def)
      have i: "sys_frame d p s1 s'" "files s' = files s1" "desc d s' = Some (p, off + length bs)" "e \<Longrightarrow> answers s1 \<noteq> []"
        using ih b by (simp_all add: add.assoc)
      have "length xs + j \<le> n" "answers s = [] \<longrightarrow> length xs + j = n" using j x a1 by auto
      with eq x have "\<exists>k \<le> n. bs = take k (drop off (contents p s)) \<and> (answers s = [] \<longrightarrow> k = n) \<and> (n > 0 \<longrightarrow> k > 0 \<or> e)"
        by blast
      moreover have "sys_frame d p s s'" using fr i(1) by (rule sys_frame_trans)
      ultimately show ?thesis using i f1 a1 by auto
    qed
  qed
qed

text \<open>What changes the descriptor and the file of a stream only changes that file for the client.\<close>

lemma stdio_becomes:
  assumes "sys_frame (fileno f) p s s'" and "stdio_view f s = Some (p, c, off)" and "stdio_view f' s' = Some (p, c', off')"
    and "answers s = [] \<longrightarrow> \<not> ferror f \<longrightarrow> \<not> ferror f'"
  shows "becomes stdio_view (\<lambda>f. \<not> ferror f) f s p c' off' f' s'"
proof -
  obtain x where "desc (fileno f) s = Some (p, x)" using local_viewD(1) [OF stdio_local assms(2)] by blast
  then show ?thesis using others_frame [OF stdio_local assms(1)] assms(3,4) by (simp add: becomes_def)
qed

lemma fflush_outcome:
  assumes "stdio_view f s = Some (p, c, off)" and "fflush f s = (r, f', s')"
  shows "sys_frame (fileno f) p s s' \<and> fileno f' = fileno f \<and> ferror f' = ferror f \<and> stdio_view f' s' = Some (p, c, off) \<and>
    (r = 0 \<and> pending f' = [] \<and> desc (fileno f) s' = Some (p, off) \<and> contents p s' = c \<or> r = - 1 \<and> answers s \<noteq> [])"
proof -
  obtain o' where d: "desc (fileno f) s = Some (p, o')" "c = overlay (contents p s) o' (pending f)" "off = o' + length (pending f)"
    using assms(1) by (auto simp: stdio_view_iff)
  obtain bs where l: "flush_loop (fileno f) (pending f) s = (r, bs, s')" "f' = f\<lparr>pending := bs\<rparr>"
    using assms(2) by (auto simp: fflush_def split: prod.splits)
  show ?thesis using flush_loop_outcome [OF d(1) l(1)] l(2) d by (auto simp: stdio_view_iff)
qed

lemma fread_outcome:
  assumes "stdio_view f s = Some (p, c, off)" and "fread f n s = (bs, f', s')"
  shows "becomes stdio_view (\<lambda>f. \<not> ferror f) f s p c (off + length bs) f' s' \<and>
    (\<exists>k \<le> n. bs = take k (drop off c) \<and> (answers s = [] \<longrightarrow> k = n) \<and> (n > 0 \<longrightarrow> k > 0 \<or> ferror f'))"
proof -
  obtain r f1 s1 where fl: "fflush f s = (r, f1, s1)" by (cases "fflush f s")
  note o = fflush_outcome [OF assms(1) fl]
  show ?thesis
  proof (cases "r = - 1")
    case True
    then have "bs = []" "f' = f1\<lparr>ferror := True\<rparr>" "s' = s1" using assms(2) fl by (simp_all add: fread_def)
    moreover have "stdio_view f' s' = stdio_view f1 s1" by (auto simp: calculation(2,3) stdio_view_def split: option.splits)
    ultimately show ?thesis using o True stdio_becomes [OF _ assms(1), of s' f' c off] by (intro conjI exI [of _ 0]) auto
  next
    case False
    obtain e where l: "fread_loop (fileno f1) n s1 = (bs, e, s')" "f' = f1\<lparr>ferror := ferror f1 \<or> e\<rparr>"
      using assms(2) fl False by (auto simp: fread_def split: prod.splits)
    have d: "desc (fileno f1) s1 = Some (p, off)" "contents p s1 = c" "pending f1 = []" "fileno f1 = fileno f" "sys_frame (fileno f) p s s1"
      using o False by auto
    note r = fread_loop_outcome [OF d(1) l(1)]
    have "stdio_view f' s' = Some (p, c, off + length bs)" using r d l(2) by (auto simp: stdio_view_iff contents_def)
    moreover have "sys_frame (fileno f) p s s'" using r d(4,5) sys_frame_trans by fastforce
    moreover have a: "answers s = [] \<longrightarrow> answers s1 = []" using d(5) by (simp add: sys_frame_def)
    moreover have "answers s = [] \<longrightarrow> \<not> ferror f \<longrightarrow> \<not> ferror f'" using r l(2) o a by auto
    ultimately have "becomes stdio_view (\<lambda>f. \<not> ferror f) f s p c (off + length bs) f' s'" using stdio_becomes [OF _ assms(1)] by blast
    moreover obtain k where "k \<le> n" "bs = take k (drop off c)" "answers s1 = [] \<longrightarrow> k = n" "n > 0 \<longrightarrow> k > 0 \<or> e"
      using r d(2) by auto
    ultimately show ?thesis using a l(2) by auto
  qed
qed

lemma stdio_append:
  assumes "stdio_view f s = Some (p, c, off)" and "pending f' = pending f @ bs" "fileno f' = fileno f" "ferror f' = ferror f"
  shows "becomes stdio_view (\<lambda>f. \<not> ferror f) f s p (overlay c off bs) (off + length bs) f' s"
proof -
  obtain o' where d: "desc (fileno f) s = Some (p, o')" "c = overlay (contents p s) o' (pending f)" "off = o' + length (pending f)"
    using assms(1) by (auto simp: stdio_view_iff)
  then have "stdio_view f' s = Some (p, overlay c off bs, off + length bs)" using assms(2,3) by (simp add: stdio_view_iff overlay_append)
  then show ?thesis using stdio_becomes [OF _ assms(1), of s f'] assms(4) by simp
qed

interpretation stdio: io300_file stdio_io stdio_view "\<lambda>f. \<not> ferror f" "\<lambda>p s. files s p \<noteq> None"
proof unfold_locales
  fix p d s
  obtain ok s1 where m: "sys_malloc 8 s = (ok, s1)" by (cases "sys_malloc 8 s")
  obtain r s' where o: "sys_open p False s1 = (r, s')" by (cases "sys_open p False s1")
  note mm = sys_malloc_outcome [OF m] and oo = sys_open_outcome [OF o]
  have "others stdio_view p s s' \<and> contents p s' = contents p s"
    using others_open [OF stdio_local mm(1,2) _ o] mm(3) by (simp add: sys_frame_def)
  moreover have "others stdio_view p s s1 \<and> contents p s1 = contents p s" by (rule others_malloc [OF stdio_local m])
  moreover have "\<not> ok \<Longrightarrow> answers s \<noteq> []" using mm(4) by auto
  moreover have "r = - 1 \<Longrightarrow> answers s \<noteq> [] \<or> files s p = None" using oo mm by (auto simp: sys_frame_def)
  moreover have "r \<noteq> - 1 \<Longrightarrow> desc (nat r) s' = Some (p, 0)" using oo by auto
  ultimately show "\<exists>r s'. open_op stdio_io p d s = Some (r, s') \<and> others stdio_view p s s' \<and> contents p s' = contents p s \<and>
      (case r of None \<Rightarrow> answers s \<noteq> [] \<or> \<not> files s p \<noteq> None | Some f \<Rightarrow> stdio_view f s' = Some (p, contents p s, 0) \<and> \<not> ferror f)"
    using m o by (auto simp: stdio_io_def stdio_open_def fopen_def stdio_view_iff)
next
  fix f s p c off assume v: "stdio_view f s = Some (p, c, off)"
  obtain r f1 s1 where fl: "fflush f s = (r, f1, s1)" by (cases "fflush f s")
  note o = fflush_outcome [OF v fl]
  show "\<exists>r f' s'. flush_op stdio_io f s = Some (r, f', s') \<and> becomes stdio_view (\<lambda>f. \<not> ferror f) f s p c off f' s' \<and>
      (r = 0 \<longrightarrow> contents p s' = c) \<and> (answers s = [] \<longrightarrow> r = 0)"
    using o fl stdio_becomes [OF _ v, of s1 f1] by (auto simp: stdio_io_def stdio_flush_def)
  have v1: "stdio_view f1 s1 = Some (p, c, off)" using o by blast
  obtain r2 f2 s2 where fl2: "fflush f1 s1 = (r2, f2, s2)" by (cases "fflush f1 s1")
  note o2 = fflush_outcome [OF v1 fl2]
  obtain r3 s3 where cl: "sys_close (fileno f2) s2 = (r3, s3)" by (cases "sys_close (fileno f2) s2")
  obtain x where d: "desc (fileno f) s = Some (p, x)" using v by (auto simp: stdio_view_iff)
  obtain y where d2: "desc (fileno f2) s2 = Some (p, y)" using o2 by (auto simp: stdio_view_iff)
  note o3 = sys_close_outcome [OF d2 cl]
  have fr: "sys_frame (fileno f) p s s3" using o o2 o3 sys_frame_trans by metis
  have "answers s = [] \<longrightarrow> answers s1 = []" using o by (simp add: sys_frame_def)
  moreover have "r2 = 0 \<longrightarrow> contents p s3 = c" using o2 o3 by (auto simp: contents_def)
  moreover have "answers s1 = [] \<longrightarrow> r2 = 0" using o2 by auto
  ultimately show "\<exists>r s'. close_op stdio_io f s = Some (r, s') \<and> others stdio_view p s s' \<and> (r = 0 \<longrightarrow> contents p s' = c) \<and>
      (answers s = [] \<longrightarrow> r = 0)"
    using others_frame [OF stdio_local fr d] fl fl2 cl by (simp add: stdio_io_def stdio_close_def stdio_flush_def fclose_def)
next
  fix f s p c off assume v: "stdio_view f s = Some (p, c, off)"
  obtain x where d: "desc (fileno f) s = Some (p, x)" using v by (auto simp: stdio_view_iff)
  obtain r n s' where x: "sys_fstat (fileno f) s = (r, n, s')" by (cases "sys_fstat (fileno f) s")
  note o = sys_fstat_outcome [OF d x]
  have c: "contents p s' = contents p s" using o by (simp add: contents_def)
  then have "stdio_view f s' = Some (p, c, off)" using o d v by (simp add: stdio_view_def)
  then show "\<exists>r f' s'. filesize_op stdio_io f s = Some (r, f', s') \<and> becomes stdio_view (\<lambda>f. \<not> ferror f) f s p c off f' s' \<and>
      contents p s' = contents p s \<and> (r = - 1 \<and> answers s \<noteq> [] \<or> r = int (length (contents p s)))"
    using o c x stdio_becomes [OF _ v, of s' f] by (auto simp: stdio_io_def stdio_filesize_def)
next
  fix f s p c off and pos :: int assume v: "stdio_view f s = Some (p, c, off)" and b: "0 \<le> pos"
  obtain r f1 s1 where fl: "fflush f s = (r, f1, s1)" by (cases "fflush f s")
  note o = fflush_outcome [OF v fl]
  show "\<exists>r f' s'. seek_op stdio_io f pos s = Some (r, f', s') \<and>
      (r = - 1 \<and> answers s \<noteq> [] \<and> becomes stdio_view (\<lambda>f. \<not> ferror f) f s p c off f' s' \<or>
       r \<ge> 0 \<and> becomes stdio_view (\<lambda>f. \<not> ferror f) f s p c (nat pos) f' s')"
  proof (cases "r = - 1")
    case True
    then show ?thesis using o fl stdio_becomes [OF _ v, of s1 f1] by (auto simp: stdio_io_def stdio_seek_def fseek_def)
  next
    case False
    obtain r2 s2 where x: "sys_lseek (fileno f1) pos s1 = (r2, s2)" by (cases "sys_lseek (fileno f1) pos s1")
    have d: "desc (fileno f1) s1 = Some (p, off)" "contents p s1 = c" "pending f1 = []" "fileno f1 = fileno f" "sys_frame (fileno f) p s s1"
      "ferror f1 = ferror f"
      using o False by auto
    note l = sys_lseek_outcome [OF d(1) x]
    have fr: "sys_frame (fileno f) p s s2" using l d(4,5) sys_frame_trans by metis
    have a: "answers s1 \<noteq> [] \<longrightarrow> answers s \<noteq> []" using d(5) by (auto simp: sys_frame_def)
    have c: "contents p s2 = c" using l d(2) by (simp add: contents_def)
    have "r2 = - 1 \<and> answers s \<noteq> [] \<and> stdio_view f1 s2 = Some (p, c, off) \<or> r2 \<noteq> - 1 \<and> stdio_view f1 s2 = Some (p, c, nat pos)"
      using l a b c d(3) by (auto simp: stdio_view_iff)
    then show ?thesis using fl False x stdio_becomes [OF fr v] d(6) by (auto simp: stdio_io_def stdio_seek_def fseek_def)
  qed
next
  fix f s p c off assume v: "stdio_view f s = Some (p, c, off)"
  obtain bs f' s' where x: "fread f 1 s = (bs, f', s')" by (cases "fread f 1 s")
  obtain k where k: "k \<le> 1" "bs = take k (drop off c)" "answers s = [] \<longrightarrow> k = 1"
    and bec: "becomes stdio_view (\<lambda>f. \<not> ferror f) f s p c (off + length bs) f' s'"
    using fread_outcome [OF v x] by blast
  have "bs = [] \<and> (answers s = [] \<longrightarrow> length c \<le> off) \<or> off < length c \<and> bs = [c ! off]"
  proof (cases "k = 0 \<or> length c \<le> off")
    case False
    then have "k = 1" using k(1) by simp
    then show ?thesis using k(2) False by (auto simp: take_Suc hd_drop_conv_nth)
  qed (use k in auto)
  then show "\<exists>r f' s'. readc_op stdio_io f s = Some (r, f', s') \<and>
      (r = - 1 \<and> (answers s = [] \<longrightarrow> length c \<le> off) \<and> becomes stdio_view (\<lambda>f. \<not> ferror f) f s p c off f' s' \<or>
       off < length c \<and> r = uint (c ! off) \<and> becomes stdio_view (\<lambda>f. \<not> ferror f) f s p c (Suc off) f' s')"
    using bec x by (auto simp: stdio_io_def stdio_readc_def fgetc_def)
next
  fix f s p c off and ch :: int assume v: "stdio_view f s = Some (p, c, off)" and b: "0 \<le> ch" "ch < 256"
  have "uint (word_of_int ch :: u8) = ch" using b by (simp add: unsigned_of_int take_bit_int_eq_self)
  then show "\<exists>r f' s'. writec_op stdio_io f ch s = Some (r, f', s') \<and>
      (r = - 1 \<and> answers s \<noteq> [] \<and> becomes stdio_view (\<lambda>f. \<not> ferror f) f s p c off f' s' \<or>
       r = ch \<and> becomes stdio_view (\<lambda>f. \<not> ferror f) f s p (overlay c off [word_of_int ch]) (Suc off) f' s')"
    using stdio_append [OF v, of "f\<lparr>pending := pending f @ [word_of_int ch]\<rparr>" "[word_of_int ch]"]
    by (simp add: stdio_io_def stdio_writec_def fputc_def)
next
  fix f s p c off n assume v: "stdio_view f s = Some (p, c, off)"
  obtain bs f' s' where x: "fread f n s = (bs, f', s')" by (cases "fread f n s")
  obtain k where k: "k \<le> n" "bs = take k (drop off c)" "answers s = [] \<longrightarrow> k = n" "n > 0 \<longrightarrow> k > 0 \<or> ferror f'"
    and bec: "becomes stdio_view (\<lambda>f. \<not> ferror f) f s p c (off + length bs) f' s'"
    using fread_outcome [OF v x] by blast
  let ?r = "if length bs \<noteq> 0 \<or> n = 0 \<or> \<not> ferror f' then int (length bs) else - 1"
  have op: "read_op stdio_io f n s = Some (?r, bs, f', s')" using x by (simp add: stdio_io_def stdio_read_def)
  have "?r = - 1 \<and> \<not> (answers s = [] \<and> \<not> ferror f) \<and> becomes stdio_view (\<lambda>f. \<not> ferror f) f s p c off f' s' \<or>
      ?r = int (length bs) \<and> becomes stdio_view (\<lambda>f. \<not> ferror f) f s p c (off + length bs) f' s' \<and>
      (\<exists>k \<le> n. bs = take k (drop off c) \<and> (n > 0 \<longrightarrow> k > 0) \<and> (answers s = [] \<longrightarrow> k = n))"
  proof (cases "bs = [] \<and> n \<noteq> 0 \<and> ferror f'")
    case True
    then show ?thesis using bec by (auto simp: becomes_def)
  next
    case False
    then have "n > 0 \<longrightarrow> k > 0" using k(2,4) by (cases "k = 0") auto
    then show ?thesis using False bec k by auto
  qed
  then show "\<exists>r bs f' s'. read_op stdio_io f n s = Some (r, bs, f', s') \<and>
      (r = - 1 \<and> \<not> (answers s = [] \<and> \<not> ferror f) \<and> becomes stdio_view (\<lambda>f. \<not> ferror f) f s p c off f' s' \<or>
       r = int (length bs) \<and> becomes stdio_view (\<lambda>f. \<not> ferror f) f s p c (off + length bs) f' s' \<and>
       (\<exists>k \<le> n. bs = take k (drop off c) \<and> (n > 0 \<longrightarrow> k > 0) \<and> (answers s = [] \<longrightarrow> k = n)))"
    using op by blast
next
  fix f s p c off bs assume v: "stdio_view f s = Some (p, c, off)"
  have "write_op stdio_io f bs s = Some (int (length bs), f\<lparr>pending := pending f @ bs\<rparr>, s)"
    by (simp add: stdio_io_def stdio_write_def fwrite_def)
  then show "\<exists>r f' s'. write_op stdio_io f bs s = Some (r, f', s') \<and>
      (r = - 1 \<and> \<not> (answers s = [] \<and> \<not> ferror f) \<and> becomes stdio_view (\<lambda>f. \<not> ferror f) f s p c off f' s' \<or>
       (\<exists>k \<le> length bs. r = int k \<and> (bs \<noteq> [] \<longrightarrow> k > 0) \<and> (answers s = [] \<longrightarrow> k = length bs) \<and>
          becomes stdio_view (\<lambda>f. \<not> ferror f) f s p (overlay c off (take k bs)) (off + k) f' s'))"
    using stdio_append [OF v, of "f\<lparr>pending := pending f @ bs\<rparr>" bs] by auto
qed simp

end
