(* ===== verification/CatPrograms.thy ===== *)
theory CatPrograms
  imports StdioFile
begin

text \<open>
  The programs of \<open>fileio/test_programs\<close>, over any implementation \<open>I\<close> of the file interface. A program maps its arguments
  (without its own name) and the state of the system to its exit status; \<open>None\<close> is a failed assertion, undefined behaviour, or
  a loop that does not end. Messages are left out. What the programs do is proved once, from the contract \<open>io300_file\<close>.
\<close>

section \<open>Shared pieces\<close>

definition strtol :: "string \<Rightarrow> int" where
  "strtol str =
     (let s1 = dropWhile is_ws str;
          neg = (s1 \<noteq> [] \<and> hd s1 = CHR ''-'');
          s2 = (if s1 \<noteq> [] \<and> (hd s1 = CHR ''-'' \<or> hd s1 = CHR ''+'') then tl s1 else s1);
          v = int (dec_value 0 s2)
      in max (- (2 ^ 63)) (min (2 ^ 63 - 1) (if neg then - v else v)))"

definition atoi :: "string \<Rightarrow> int" where
  "atoi str = to_int (strtol str)"

definition close_both :: "'f io300 \<Rightarrow> 'f \<Rightarrow> 'f \<Rightarrow> int \<Rightarrow> os \<Rightarrow> (int \<times> os) option" where
  "close_both I inp outp status s =
     Option.bind (close_op I inp s) (\<lambda>(_, s). Option.bind (close_op I outp s) (\<lambda>(_, s). Some (status, s)))"

text \<open>The descriptions some programs give their files, in red and green.\<close>

definition red_in :: string where "red_in = CHR 0x1B # ''[0;31min'' @ CHR 0x1B # ''[0m''"
definition green_out :: string where "green_out = CHR 0x1B # ''[0;32mout'' @ CHR 0x1B # ''[0m''"

text \<open>Opening the two files; when the second fails, the first is closed.\<close>

definition open_both ::
  "'f io300 \<Rightarrow> string \<Rightarrow> string \<Rightarrow> string \<Rightarrow> string \<Rightarrow> ('f \<Rightarrow> 'f \<Rightarrow> os \<Rightarrow> (int \<times> os) option) \<Rightarrow> os \<Rightarrow> (int \<times> os) option" where
  "open_both I p d q e run s =
     Option.bind (open_op I p d s) (\<lambda>(inp, s).
       case inp of
         None \<Rightarrow> Some (1, s)
       | Some inp \<Rightarrow> Option.bind (open_op I q e s) (\<lambda>(outp, s).
           case outp of
             None \<Rightarrow> Option.bind (close_op I inp s) (\<lambda>(_, s). Some (1, s))
           | Some outp \<Rightarrow> run inp outp s))"

section \<open>\<open>byte_cat\<close>\<close>

function byte_loop :: "'f io300 \<Rightarrow> int \<Rightarrow> int \<Rightarrow> 'f \<Rightarrow> 'f \<Rightarrow> os \<Rightarrow> (int \<times> 'f \<times> 'f \<times> os) option" where
  "byte_loop I i filesize inp outp s =
     (if i < filesize then
        Option.bind (readc_op I inp s) (\<lambda>(ch, inp, s).
          if ch = - 1 then Some (1, inp, outp, s)
          else Option.bind (writec_op I outp ch s) (\<lambda>(r, outp, s).
            if r = - 1 then Some (1, inp, outp, s)
            else if i = INT_MAX then None
            else byte_loop I (i + 1) filesize inp outp s))
      else Some (0, inp, outp, s))"
  by pat_completeness auto

termination
  by (relation "measure (\<lambda>(I, i, filesize, inp, outp, s). nat (filesize - i))") auto

declare byte_loop.simps [simp del]

definition byte_cat :: "'f io300 \<Rightarrow> string list \<Rightarrow> os \<Rightarrow> (int \<times> os) option" where
  "byte_cat I args s =
     (if length args \<noteq> 2 then Some (1, s)
      else open_both I (args ! 0) red_in (args ! 1) green_out (\<lambda>inp outp s.
        Option.bind (filesize_op I inp s) (\<lambda>(filesize, inp, s).
          if filesize \<le> 0 then close_both I inp outp 1 s
          else Option.bind (byte_loop I 0 filesize inp outp s) (\<lambda>(status, inp, outp, s). close_both I inp outp status s))) s)"

section \<open>\<open>block_cat\<close> and \<open>random_block_cat\<close>\<close>

text \<open>Their loop; the size of the \<open>k\<close>-th block is \<open>size_of k\<close>.\<close>

partial_function (option) copy_loop ::
  "'f io300 \<Rightarrow> (nat \<Rightarrow> nat) \<Rightarrow> nat \<Rightarrow> int \<Rightarrow> 'f \<Rightarrow> 'f \<Rightarrow> os \<Rightarrow> (int \<times> 'f \<times> 'f \<times> os) option" where
  "copy_loop I size_of k exit_status inp outp s =
     Option.bind (read_op I inp (size_of k) s) (\<lambda>(r, buffer, inp, s).
       if r = 0 \<or> r = - 1 then Some (exit_status, inp, outp, s)
       else Option.bind (write_op I outp buffer s) (\<lambda>(w, outp, s).
         copy_loop I size_of (Suc k) (if w = - 1 then 1 else exit_status) inp outp s))"

definition block_cat :: "'f io300 \<Rightarrow> string list \<Rightarrow> os \<Rightarrow> (int \<times> os) option" where
  "block_cat I args s =
     (if length args \<noteq> 3 then Some (1, s)
      else let buffer_size = unat (word_of_int (atoi (args ! 0)) :: u64)
      in open_both I (args ! 1) red_in (args ! 2) green_out (\<lambda>inp outp s.
        let (ok, s) = sys_malloc buffer_size s
        in if \<not> ok then close_both I inp outp 1 s
           else Option.bind (copy_loop I (\<lambda>_. buffer_size) 0 0 inp outp s) (\<lambda>(exit_status, inp, outp, s).
             close_both I inp outp exit_status s)) s)"

definition MAX_BLOCK_SIZE :: nat where "MAX_BLOCK_SIZE = 30"

text \<open>\<open>rand k\<close> is what the \<open>k\<close>-th call of \<open>rand\<close> returns.\<close>

definition random_block_cat :: "(nat \<Rightarrow> nat) \<Rightarrow> 'f io300 \<Rightarrow> string list \<Rightarrow> os \<Rightarrow> (int \<times> os) option" where
  "random_block_cat rand I args s =
     (if length args \<noteq> 2 then Some (1, s)
      else open_both I (args ! 0) ''in'' (args ! 1) ''out'' (\<lambda>inp outp s.
        let (ok, s) = sys_malloc MAX_BLOCK_SIZE s
        in if \<not> ok then close_both I inp outp 1 s
           else Option.bind (filesize_op I inp s) (\<lambda>(filesize, inp, s).
             if filesize \<le> 0 then close_both I inp outp 1 s
             else Option.bind (copy_loop I (\<lambda>k. rand k mod MAX_BLOCK_SIZE + 1) 0 0 inp outp s) (\<lambda>(exit_status, inp, outp, s).
               close_both I inp outp exit_status s))) s)"

section \<open>\<open>reverse_byte_cat\<close> and \<open>reverse_block_cat\<close>\<close>

function reverse_byte_loop :: "'f io300 \<Rightarrow> int \<Rightarrow> 'f \<Rightarrow> 'f \<Rightarrow> os \<Rightarrow> (int \<times> 'f \<times> 'f \<times> os) option" where
  "reverse_byte_loop I i inp outp s =
     (if i \<ge> 0 then
        Option.bind (seek_op I inp i s) (\<lambda>(r, inp, s).
          if r = - 1 then Some (1, inp, outp, s)
          else Option.bind (readc_op I inp s) (\<lambda>(ch, inp, s).
            if ch = - 1 then Some (1, inp, outp, s)
            else Option.bind (writec_op I outp ch s) (\<lambda>(w, outp, s).
              if w = - 1 then Some (1, inp, outp, s) else reverse_byte_loop I (i - 1) inp outp s)))
      else Some (0, inp, outp, s))"
  by pat_completeness auto

termination
  by (relation "measure (\<lambda>(I, i, inp, outp, s). nat (i + 1))") auto

declare reverse_byte_loop.simps [simp del]

definition reverse_byte_cat :: "'f io300 \<Rightarrow> string list \<Rightarrow> os \<Rightarrow> (int \<times> os) option" where
  "reverse_byte_cat I args s =
     (if length args \<noteq> 2 then Some (1, s)
      else open_both I (args ! 0) ''in'' (args ! 1) ''out'' (\<lambda>inp outp s.
        Option.bind (filesize_op I inp s) (\<lambda>(filesize, inp, s).
          if filesize \<le> 0 then Some (1, s)
          else Option.bind (reverse_byte_loop I (to_int (filesize - 1)) inp outp s) (\<lambda>(status, inp, outp, s).
            close_both I inp outp status s))) s)"

partial_function (option) reverse_block_loop ::
  "'f io300 \<Rightarrow> int \<Rightarrow> int \<Rightarrow> 'f \<Rightarrow> 'f \<Rightarrow> os \<Rightarrow> (int \<times> 'f \<times> 'f \<times> os) option" where
  "reverse_block_loop I buffer_size i inp outp s =
     (if i \<ge> 0 then
        Option.bind (seek_op I inp i s) (\<lambda>(r, inp, s).
          if r = - 1 then Some (1, inp, outp, s)
          else Option.bind (read_op I inp (nat buffer_size) s) (\<lambda>(n, in_buffer, inp, s).
            if to_int n = - 1 then Some (0, inp, outp, s)
            else Option.bind (write_op I outp (rev in_buffer) s) (\<lambda>(w, outp, s).
              if w = - 1 then Some (1, inp, outp, s) else reverse_block_loop I buffer_size (i - buffer_size) inp outp s)))
      else Some (0, inp, outp, s))"

text \<open>A negative buffer size is a \<open>size_t\<close> that \<open>malloc\<close> refuses.\<close>

definition reverse_block_cat :: "'f io300 \<Rightarrow> string list \<Rightarrow> os \<Rightarrow> (int \<times> os) option" where
  "reverse_block_cat I args s =
     (if length args \<noteq> 3 then Some (1, s)
      else let buffer_size = atoi (args ! 0); size = unat (word_of_int buffer_size :: u64)
      in if buffer_size = 0 then Some (1, s)
         else open_both I (args ! 1) ''in'' (args ! 2) ''out'' (\<lambda>inp outp s.
           Option.bind (filesize_op I inp s) (\<lambda>(filesize, inp, s).
             if filesize \<le> 0 then close_both I inp outp 1 s
             else let (ok1, s) = sys_malloc size s
             in if \<not> ok1 then close_both I inp outp 1 s
                else let (ok2, s) = sys_malloc size s
                in if \<not> ok2 then close_both I inp outp 1 s
                   else Option.bind
                     (reverse_block_loop I buffer_size (to_int (filesize - filesize mod buffer_size)) inp outp s)
                     (\<lambda>(exit_status, inp, outp, s). close_both I inp outp exit_status s))) s)"

section \<open>\<open>rot13\<close>\<close>

definition rot13 :: "u8 \<Rightarrow> u8" where
  "rot13 ch =
     (if 65 \<le> ch \<and> ch \<le> 90 then word_of_nat (65 + (unat ch - 65 + 13) mod 26)
      else if 97 \<le> ch \<and> ch \<le> 122 then word_of_nat (97 + (unat ch - 97 + 13) mod 26)
      else ch)"

function rot13_loop :: "'f io300 \<Rightarrow> int \<Rightarrow> int \<Rightarrow> 'f \<Rightarrow> os \<Rightarrow> (int \<times> 'f \<times> os) option" where
  "rot13_loop I i filesize f s =
     (if i < filesize then
        Option.bind (seek_op I f i s) (\<lambda>(r, f, s).
          if r = - 1 then Some (1, f, s)
          else Option.bind (readc_op I f s) (\<lambda>(ch, f, s).
            if ch = - 1 then Some (1, f, s)
            else Option.bind (seek_op I f i s) (\<lambda>(r, f, s).
              if r = - 1 then Some (1, f, s)
              else Option.bind (writec_op I f (uint (rot13 (word_of_int ch))) s) (\<lambda>(w, f, s).
                if w = - 1 then Some (1, f, s)
                else if i = INT_MAX then None
                else rot13_loop I (i + 1) filesize f s))))
      else Some (0, f, s))"
  by pat_completeness auto

termination
  by (relation "measure (\<lambda>(I, i, filesize, f, s). nat (filesize - i))") auto

declare rot13_loop.simps [simp del]

definition rot13_main :: "'f io300 \<Rightarrow> string list \<Rightarrow> os \<Rightarrow> (int \<times> os) option" where
  "rot13_main I args s =
     (if length args \<noteq> 1 then Some (1, s)
      else Option.bind (open_op I (args ! 0) red_in s) (\<lambda>(f, s).
        case f of
          None \<Rightarrow> Some (1, s)
        | Some f \<Rightarrow> Option.bind (filesize_op I f s) (\<lambda>(filesize, f, s).
            if filesize = - 1 then Option.bind (close_op I f s) (\<lambda>(_, s). Some (1, s))
            else Option.bind (rot13_loop I 0 filesize f s) (\<lambda>(status, f, s).
              Option.bind (close_op I f s) (\<lambda>(_, s). Some (status, s))))))"

section \<open>Two open files\<close>

text \<open>
  One file open for reading and another for writing: what the client sees of them, other files being as in \<open>s0\<close>; and nothing
  has gone wrong or will.
\<close>

definition pair ::
  "'f view \<Rightarrow> string \<Rightarrow> u8 list \<Rightarrow> nat \<Rightarrow> string \<Rightarrow> u8 list \<Rightarrow> nat \<Rightarrow> os \<Rightarrow> 'f \<Rightarrow> 'f \<Rightarrow> os \<Rightarrow> bool" where
  "pair view p c i q out j s0 inp outp s \<longleftrightarrow> p \<noteq> q \<and> view inp s = Some (p, c, i) \<and> view outp s = Some (q, out, j) \<and>
     (\<forall>r. r \<noteq> p \<longrightarrow> r \<noteq> q \<longrightarrow> files s r = files s0 r)"

definition healthy :: "('f \<Rightarrow> bool) \<Rightarrow> 'f \<Rightarrow> 'f \<Rightarrow> os \<Rightarrow> bool" where
  "healthy clean inp outp s \<longleftrightarrow> answers s = [] \<and> clean inp \<and> clean outp"

lemma othersD:
  assumes "others view p s s'"
  shows "q \<noteq> p \<Longrightarrow> files s' q = files s q" and "q \<noteq> p \<Longrightarrow> contents q s' = contents q s"
    and "view g s = Some (q, c, off) \<Longrightarrow> q \<noteq> p \<Longrightarrow> view g s' = Some (q, c, off)" and "answers s = [] \<Longrightarrow> answers s' = []"
proof -
  note o = assms [unfolded others_def]
  show "files s' q = files s q" if "q \<noteq> p" using conjunct1 [OF o] that by blast
  then show "contents q s' = contents q s" if "q \<noteq> p" using that by (intro contents_cong)
  show "view g s' = Some (q, c, off)" if "view g s = Some (q, c, off)" "q \<noteq> p"
    using that(2,1) by (rule conjunct1 [OF conjunct2 [OF o], rule_format])
  show "answers s' = []" if "answers s = []" using conjunct2 [OF conjunct2 [OF o]] that by blast
qed

lemma pair_in:
  assumes "pair view p c i q out j s0 inp outp s" and "becomes view clean inp s p c' i' inp' s'"
  shows "pair view p c' i' q out j s0 inp' outp s' \<and> (healthy clean inp outp s \<longrightarrow> healthy clean inp' outp s')"
proof -
  have o: "others view p s s'" using assms(2) by (simp add: becomes_def)
  show ?thesis using assms othersD(1,3,4) [OF o] by (auto simp: pair_def becomes_def healthy_def)
qed

lemma pair_out:
  assumes "pair view p c i q out j s0 inp outp s" and "becomes view clean outp s q out' j' outp' s'"
  shows "pair view p c i q out' j' s0 inp outp' s' \<and> (healthy clean inp outp s \<longrightarrow> healthy clean inp outp' s')"
proof -
  have o: "others view q s s'" using assms(2) by (simp add: becomes_def)
  show ?thesis using assms othersD(1,3,4) [OF o] by (auto simp: pair_def becomes_def healthy_def)
qed

lemma healthy_malloc: "answers s = [] \<Longrightarrow> sys_malloc n s = (n < 2 ^ 63, s)"
  by (simp add: sys_malloc_def next_answer_def)

context io300_file begin

lemma pair_readc:
  assumes "pair view p c i q out j s0 inp outp s"
  shows "\<exists>ch inp' s'. readc_op I inp s = Some (ch, inp', s') \<and> (healthy clean inp outp s \<longrightarrow> healthy clean inp' outp s') \<and>
    (ch = - 1 \<and> (answers s = [] \<longrightarrow> length c \<le> i) \<and> pair view p c i q out j s0 inp' outp s' \<or>
     i < length c \<and> ch = uint (c ! i) \<and> pair view p c (Suc i) q out j s0 inp' outp s')"
proof -
  have "view inp s = Some (p, c, i)" using assms by (simp add: pair_def)
  from readc_law [OF this] show ?thesis using pair_in [OF assms] by metis
qed

lemma pair_writec:
  assumes "pair view p c i q out j s0 inp outp s" and "0 \<le> ch" "ch < 256"
  shows "\<exists>r outp' s'. writec_op I outp ch s = Some (r, outp', s') \<and> (healthy clean inp outp s \<longrightarrow> healthy clean inp outp' s') \<and>
    (r = - 1 \<and> answers s \<noteq> [] \<and> pair view p c i q out j s0 inp outp' s' \<or>
     r = ch \<and> pair view p c i q (overlay out j [word_of_int ch]) (Suc j) s0 inp outp' s')"
proof -
  have "view outp s = Some (q, out, j)" using assms by (simp add: pair_def)
  from writec_law [OF this assms(2,3)] show ?thesis using pair_out [OF assms(1)] by metis
qed

lemma pair_read:
  assumes "pair view p c i q out j s0 inp outp s" and h: "healthy clean inp outp s"
  shows "\<exists>inp' s'. read_op I inp n s = Some (int (length (take n (drop i c))), take n (drop i c), inp', s') \<and>
    healthy clean inp' outp s' \<and> pair view p c (i + length (take n (drop i c))) q out j s0 inp' outp s'"
proof -
  have v: "view inp s = Some (p, c, i)" and a: "answers s = []" "clean inp" using assms by (simp_all add: pair_def healthy_def)
  from read_law [OF v, of n] obtain bs inp' s' where r: "read_op I inp n s = Some (int (length bs), bs, inp', s')"
    "becomes view clean inp s p c (i + length bs) inp' s'" "bs = take n (drop i c)"
    using a by auto
  show ?thesis using pair_in [OF assms(1) r(2)] h r(1) unfolding r(3) by blast
qed

lemma pair_write:
  assumes "pair view p c i q out j s0 inp outp s" and h: "healthy clean inp outp s"
  shows "\<exists>outp' s'. write_op I outp bs s = Some (int (length bs), outp', s') \<and>
    healthy clean inp outp' s' \<and> pair view p c i q (overlay out j bs) (j + length bs) s0 inp outp' s'"
proof -
  have v: "view outp s = Some (q, out, j)" and a: "answers s = []" "clean outp" using assms by (simp_all add: pair_def healthy_def)
  from write_law [OF v, of bs] obtain outp' s' where r: "write_op I outp bs s = Some (int (length bs), outp', s')"
    "becomes view clean outp s q (overlay out j bs) (j + length bs) outp' s'"
    using a by auto
  show ?thesis using pair_out [OF assms(1) r(2)] h r(1) by blast
qed

lemma pair_seek:
  assumes "pair view p c i q out j s0 inp outp s" and h: "healthy clean inp outp s" and "0 \<le> pos" "pos \<le> INT_MAX"
  shows "\<exists>r inp' s'. seek_op I inp pos s = Some (r, inp', s') \<and> r \<ge> 0 \<and>
    healthy clean inp' outp s' \<and> pair view p c (nat pos) q out j s0 inp' outp s'"
proof -
  have v: "view inp s = Some (p, c, i)" and a: "answers s = []" using assms by (simp_all add: pair_def healthy_def)
  from seek_law [OF v assms(3,4)] show ?thesis using pair_in [OF assms(1)] h a by metis
qed

lemma pair_filesize:
  assumes "pair view p c i q out j s0 inp outp s" and "contents p s = c"
  shows "\<exists>r inp' s'. filesize_op I inp s = Some (r, inp', s') \<and> (healthy clean inp outp s \<longrightarrow> healthy clean inp' outp s') \<and>
    pair view p c i q out j s0 inp' outp s' \<and> (r = - 1 \<and> answers s \<noteq> [] \<or> r = int (length c))"
proof -
  have "view inp s = Some (p, c, i)" using assms by (simp add: pair_def)
  from filesize_law [OF this] show ?thesis using pair_in [OF assms(1)] assms(2) by metis
qed

lemma pair_close:
  assumes "pair view p c i q out j s0 inp outp s"
  shows "\<exists>s'. close_both I inp outp status s = Some (status, s') \<and> (\<forall>r. r \<noteq> p \<longrightarrow> r \<noteq> q \<longrightarrow> files s' r = files s0 r) \<and>
    (answers s = [] \<longrightarrow> contents p s' = c \<and> contents q s' = out \<and> answers s' = [])"
proof -
  have v: "p \<noteq> q" "view inp s = Some (p, c, i)" "view outp s = Some (q, out, j)" using assms by (simp_all add: pair_def)
  obtain r1 s1 where c1: "close_op I inp s = Some (r1, s1)" "others view p s s1" "r1 = 0 \<longrightarrow> contents p s1 = c" "answers s = [] \<longrightarrow> r1 = 0"
    using close_law [OF v(2)] by blast
  then have "view outp s1 = Some (q, out, j)" using othersD(3) [OF c1(2) v(3)] v(1) by simp
  then obtain r2 s2 where c2: "close_op I outp s1 = Some (r2, s2)" "others view q s1 s2" "r2 = 0 \<longrightarrow> contents q s2 = out"
      "answers s1 = [] \<longrightarrow> r2 = 0"
    using close_law by blast
  have p: "contents p s2 = contents p s1" using othersD(2) [OF c2(2)] v(1) by simp
  have f: "files s2 r = files s0 r" if "r \<noteq> p" "r \<noteq> q" for r using othersD(1) [OF c1(2)] othersD(1) [OF c2(2)] assms that by (simp add: pair_def)
  have a: "answers s = [] \<longrightarrow> answers s1 = [] \<and> answers s2 = []" using othersD(4) [OF c1(2)] othersD(4) [OF c2(2)] by simp
  then have "answers s = [] \<longrightarrow> contents p s2 = c \<and> contents q s2 = out \<and> answers s2 = []" using c1(3,4) c2(3,4) p by metis
  moreover have "close_both I inp outp status s = Some (status, s2)" by (simp add: close_both_def c1(1) c2(1))
  ultimately show ?thesis using f by blast
qed

lemma open_both_pair:
  assumes "answers s = []" and "openable p s" "openable q s" and "p \<noteq> q"
  shows "\<exists>inp outp s'. (\<forall>run. open_both I p d q e run s = run inp outp s') \<and> healthy clean inp outp s' \<and> contents p s' = contents p s \<and>
    pair view p (contents p s) 0 q (contents q s) 0 s inp outp s'"
proof -
  obtain r1 s1 where o1: "open_op I p d s = Some (r1, s1)" "others view p s s1" "contents p s1 = contents p s"
    "case r1 of None \<Rightarrow> answers s \<noteq> [] \<or> \<not> openable p s | Some f \<Rightarrow> view f s1 = Some (p, contents p s, 0) \<and> clean f"
    using open_law [of p d s] by blast
  then obtain inp where i: "r1 = Some inp" "view inp s1 = Some (p, contents p s, 0)" "clean inp" using assms by (cases r1) auto
  have s1: "answers s1 = []" "files s1 q = files s q" using othersD(1,4) [OF o1(2)] assms by simp_all
  then have q1: "openable q s1" "contents q s1 = contents q s" using openable_law [OF assms(3)] contents_cong [of s1 q s] by simp_all
  obtain r2 s2 where o2: "open_op I q e s1 = Some (r2, s2)" "others view q s1 s2" "contents q s2 = contents q s1"
    "case r2 of None \<Rightarrow> answers s1 \<noteq> [] \<or> \<not> openable q s1 | Some f \<Rightarrow> view f s2 = Some (q, contents q s1, 0) \<and> clean f"
    using open_law [of q e s1] by blast
  then obtain outp where j: "r2 = Some outp" "view outp s2 = Some (q, contents q s, 0)" "clean outp" using s1 q1 by (cases r2) auto
  have pc: "contents p s2 = contents p s" using o1(3) othersD(2) [OF o2(2)] assms(4) by simp
  have "view inp s2 = Some (p, contents p s, 0)" "answers s2 = []"
    using othersD [OF o2(2)] i assms(4) s1 by simp_all
  moreover have "\<forall>r. r \<noteq> p \<longrightarrow> r \<noteq> q \<longrightarrow> files s2 r = files s r" using othersD(1) [OF o1(2)] othersD(1) [OF o2(2)] by simp
  moreover have ob: "open_both I p d q e run s = run inp outp s2" for run by (simp add: open_both_def o1(1) o2(1) i(1) j(1))
  ultimately have "pair view p (contents p s) 0 q (contents q s) 0 s inp outp s2" "healthy clean inp outp s2"
    using i(3) j(2,3) assms(4) by (simp_all add: pair_def healthy_def)
  with ob pc show ?thesis by blast
qed

end

text \<open>
  What a program that succeeds delivers: the bytes \<open>bs\<close> at the start of the file \<open>q\<close>, every other file with the contents it had.
\<close>

definition delivers :: "(int \<times> os) option \<Rightarrow> string \<Rightarrow> u8 list \<Rightarrow> os \<Rightarrow> bool" where
  "delivers res q bs s \<longleftrightarrow> (\<exists>s'. res = Some (0, s') \<and> contents q s' = bs @ drop (length bs) (contents q s) \<and>
     (\<forall>r. r \<noteq> q \<longrightarrow> contents r s' = contents r s) \<and> answers s' = [])"

context io300_file begin

lemma pair_delivers:
  assumes "pair view p (contents p s) i q (overlay (contents q s) 0 bs) j s inp outp s1" and "healthy clean inp outp s1"
  shows "delivers (close_both I inp outp 0 s1) q bs s"
proof -
  have "p \<noteq> q" "answers s1 = []" using assms by (simp_all add: pair_def healthy_def)
  then show ?thesis using pair_close [OF assms(1), of 0] unfolding delivers_def overlay_0 by (metis contents_cong)
qed

end

section \<open>\<open>byte_cat\<close>, \<open>block_cat\<close> and \<open>random_block_cat\<close> copy\<close>

context io300_file begin

lemma take_drop_rest: "take k (drop i c) @ drop (i + length (take k (drop i c))) c = drop i c"
proof -
  let ?b = "take k (drop i c)"
  have "take (length ?b) (drop i c) = ?b" by (cases "k \<le> length (drop i c)") simp_all
  moreover have "drop (i + length ?b) c = drop (length ?b) (drop i c)" by (simp add: add.commute)
  ultimately show ?thesis using append_take_drop_id [of "length ?b" "drop i c"] by metis
qed

text \<open>The loop copies a prefix of what is left, all of it if it returns 0, and returns 0 if nothing goes wrong.\<close>

lemma byte_loop_outcome:
  assumes "pair view p c i q (overlay out j xs) (j + length xs) s0 inp outp s" and "i \<le> length c" "length c \<le> nat INT_MAX"
  shows "\<exists>status inp' outp' s' ys k. byte_loop I (int i) (int (length c)) inp outp s = Some (status, inp', outp', s') \<and>
    pair view p c k q (overlay out j (xs @ ys)) (j + length (xs @ ys)) s0 inp' outp' s' \<and>
    (healthy clean inp outp s \<longrightarrow> status = 0 \<and> healthy clean inp' outp' s') \<and> (status = 0 \<longrightarrow> ys = drop i c) \<and> (status = 0 \<or> status = 1)"
  using assms
proof (induction "length c - i" arbitrary: i xs inp outp s)
  case 0
  have "byte_loop I (int i) (int (length c)) inp outp s = Some (0, inp, outp, s)" using 0(1) by (subst byte_loop.simps) simp
  then show ?case using 0(1,2) by (intro exI [of _ 0] exI [of _ inp] exI [of _ outp] exI [of _ s] exI [of _ "[]"] exI [of _ i]) simp
next
  case (Suc n)
  then have i: "i < length c" by simp
  obtain ch inp1 s1 where r: "readc_op I inp s = Some (ch, inp1, s1)" "healthy clean inp outp s \<longrightarrow> healthy clean inp1 outp s1"
    "ch = - 1 \<and> (answers s = [] \<longrightarrow> length c \<le> i) \<and> pair view p c i q (overlay out j xs) (j + length xs) s0 inp1 outp s1 \<or>
     ch = uint (c ! i) \<and> pair view p c (Suc i) q (overlay out j xs) (j + length xs) s0 inp1 outp s1"
    using pair_readc [OF Suc(3)] by blast
  have nn: "uint (c ! i) \<noteq> - 1" using unsigned_greater_eq [of "c ! i", where 'a = int] by linarith
  show ?case
  proof (cases "ch = - 1")
    case True
    then have p1: "pair view p c i q (overlay out j xs) (j + length xs) s0 inp1 outp s1" "\<not> healthy clean inp outp s"
      using r(3) nn i by (auto simp: healthy_def)
    have "byte_loop I (int i) (int (length c)) inp outp s = Some (1, inp1, outp, s1)" using r(1) i True by (subst byte_loop.simps) simp
    then show ?thesis using p1
      by (intro exI [of _ 1] exI [of _ inp1] exI [of _ outp] exI [of _ s1] exI [of _ "[]"] exI [of _ i]) simp
  next
    case False
    then have ch: "ch = uint (c ! i)" and p1: "pair view p c (Suc i) q (overlay out j xs) (j + length xs) s0 inp1 outp s1" using r(3) by auto
    have b: "0 \<le> ch" "ch < 256" "word_of_int ch = c ! i" using unsigned_less [of "c ! i"] by (simp_all add: ch)
    obtain w outp2 s2 where w: "writec_op I outp ch s1 = Some (w, outp2, s2)" "healthy clean inp1 outp s1 \<longrightarrow> healthy clean inp1 outp2 s2"
      "w = - 1 \<and> answers s1 \<noteq> [] \<and> pair view p c (Suc i) q (overlay out j xs) (j + length xs) s0 inp1 outp2 s2 \<or>
       w = ch \<and> pair view p c (Suc i) q (overlay out j (xs @ [c ! i])) (j + length (xs @ [c ! i])) s0 inp1 outp2 s2"
      using pair_writec [OF p1 b(1,2)] b(3) by (fastforce simp: overlay_append)
    show ?thesis
    proof (cases "w = - 1")
      case True
      then have p2: "pair view p c (Suc i) q (overlay out j xs) (j + length xs) s0 inp1 outp2 s2" "\<not> healthy clean inp outp s"
        using w(3) b(1) r(2) by (auto simp: healthy_def)
      have "byte_loop I (int i) (int (length c)) inp outp s = Some (1, inp1, outp2, s2)"
        using r(1) w(1) i True False by (subst byte_loop.simps) simp
      then show ?thesis using p2
        by (intro exI [of _ 1] exI [of _ inp1] exI [of _ outp2] exI [of _ s2] exI [of _ "[]"] exI [of _ "Suc i"]) simp
    next
      case wok: False
      then have p2: "pair view p c (Suc i) q (overlay out j (xs @ [c ! i])) (j + length (xs @ [c ! i])) s0 inp1 outp2 s2" using w(3) by auto
      have n: "n = length c - Suc i" "Suc i \<le> length c" using Suc(2) i by auto
      have "byte_loop I (int i) (int (length c)) inp outp s = byte_loop I (int (Suc i)) (int (length c)) inp1 outp2 s2"
        using r(1) w(1) i False wok Suc(5) by (subst byte_loop.simps) (simp add: add.commute)
      moreover have "drop i c = c ! i # drop (Suc i) c" using i by (rule Cons_nth_drop_Suc [symmetric])
      moreover obtain status inp' outp' s' ys k where "byte_loop I (int (Suc i)) (int (length c)) inp1 outp2 s2 = Some (status, inp', outp', s')"
        "pair view p c k q (overlay out j ((xs @ [c ! i]) @ ys)) (j + length ((xs @ [c ! i]) @ ys)) s0 inp' outp' s'"
        "healthy clean inp1 outp2 s2 \<longrightarrow> status = 0 \<and> healthy clean inp' outp' s'" "status = 0 \<longrightarrow> ys = drop (Suc i) c" "status = 0 \<or> status = 1"
        using Suc(1) [OF n(1) p2 n(2) Suc(5)] by blast
      ultimately show ?thesis using r(2) w(2)
        by (intro exI [of _ status] exI [of _ inp'] exI [of _ outp'] exI [of _ s'] exI [of _ "c ! i # ys"] exI [of _ k]) simp
    qed
  qed
qed

lemma byte_cat_delivers:
  assumes "answers s = []" and "openable p s" "openable q s" and "p \<noteq> q" and "contents p s \<noteq> []" "length (contents p s) \<le> nat INT_MAX"
  shows "delivers (byte_cat I [p, q] s) q (contents p s) s"
proof -
  let ?c = "contents p s" and ?o = "contents q s"
  obtain inp outp s1 where o: "\<And>run. open_both I p red_in q green_out run s = run inp outp s1" "healthy clean inp outp s1"
    "contents p s1 = ?c" "pair view p ?c 0 q ?o 0 s inp outp s1"
    using open_both_pair [OF assms(1-4)] by blast
  obtain inp2 s2 where f: "filesize_op I inp s1 = Some (int (length ?c), inp2, s2)" "healthy clean inp2 outp s2"
    "pair view p ?c 0 q ?o 0 s inp2 outp s2"
    using pair_filesize [OF o(4,3)] o(2) by (auto simp: healthy_def)
  have p2: "pair view p ?c 0 q (overlay ?o 0 []) (0 + length []) s inp2 outp s2" using f(3) by simp
  obtain inp3 outp3 s3 k where l: "byte_loop I 0 (int (length ?c)) inp2 outp s2 = Some (0, inp3, outp3, s3)" "healthy clean inp3 outp3 s3"
    "pair view p ?c k q (overlay ?o 0 ?c) (length ?c) s inp3 outp3 s3"
    using byte_loop_outcome [OF p2 le0 assms(6)] f(2) by auto
  have "byte_cat I [p, q] s = close_both I inp3 outp3 0 s3" using assms(5) by (simp add: byte_cat_def o(1) f(1) l(1))
  with pair_delivers [OF l(3,2)] show ?thesis by simp
qed

lemma copy_loop_outcome:
  assumes "pair view p c i q (overlay out j xs) (j + length xs) s0 inp outp s" and "healthy clean inp outp s" and "\<And>k. size_of k > 0"
  shows "\<exists>inp' outp' s' m. copy_loop I size_of k status inp outp s = Some (status, inp', outp', s') \<and> healthy clean inp' outp' s' \<and>
    pair view p c m q (overlay out j (xs @ drop i c)) (j + length (xs @ drop i c)) s0 inp' outp' s'"
  using assms(1,2)
proof (induction "length c - i" arbitrary: i k xs inp outp s rule: less_induct)
  case less
  let ?bs = "take (size_of k) (drop i c)"
  obtain inp1 s1 where r: "read_op I inp (size_of k) s = Some (int (length ?bs), ?bs, inp1, s1)" "healthy clean inp1 outp s1"
    "pair view p c (i + length ?bs) q (overlay out j xs) (j + length xs) s0 inp1 outp s1"
    using pair_read [OF less(2,3), of "size_of k"] by blast
  show ?case
  proof (cases "length c \<le> i")
    case True
    then have "copy_loop I size_of k status inp outp s = Some (status, inp1, outp, s1)" using r(1) by (subst copy_loop.simps) simp
    then show ?thesis using r(2,3) True by auto
  next
    case False
    then have b: "length ?bs > 0" using assms(3) by simp
    obtain outp2 s2 where w: "write_op I outp ?bs s1 = Some (int (length ?bs), outp2, s2)" "healthy clean inp1 outp2 s2"
      "pair view p c (i + length ?bs) q (overlay out j (xs @ ?bs)) (j + length (xs @ ?bs)) s0 inp1 outp2 s2"
      using pair_write [OF r(3,2), of ?bs] by (auto simp: overlay_append add.assoc simp del: length_take)
    have "int (length ?bs) \<noteq> 0" "int (length ?bs) \<noteq> - 1" using b by linarith+
    then have "copy_loop I size_of k status inp outp s = copy_loop I size_of (Suc k) status inp1 outp2 s2"
      using r(1) w(1) by (subst copy_loop.simps) (simp del: length_take)
    moreover have "?bs @ drop (i + length ?bs) c = drop i c" by (rule take_drop_rest)
    moreover have "length c - (i + length ?bs) < length c - i" using b False by linarith
    note less(1) [OF this w(3,2), of "Suc k"]
    ultimately show ?thesis by simp
  qed
qed

lemma block_cat_delivers:
  assumes "answers s = []" and "openable p s" "openable q s" and "p \<noteq> q" and "atoi n > 0"
  shows "delivers (block_cat I [n, p, q] s) q (contents p s) s"
proof -
  let ?c = "contents p s" and ?o = "contents q s" and ?b = "unat (word_of_int (atoi n) :: u64)"
  have "atoi n < 2 ^ 31" unfolding atoi_def to_int_def using sint_lt [of "word_of_int (strtol n) :: u32"] by simp
  then have b: "?b = nat (atoi n)" "?b < 2 ^ 63" "?b > 0"
    using assms(5) by (simp_all add: unsigned_of_int take_bit_int_eq_self)
  obtain inp outp s1 where o: "\<And>run. open_both I p red_in q green_out run s = run inp outp s1" "healthy clean inp outp s1"
    "pair view p ?c 0 q ?o 0 s inp outp s1"
    using open_both_pair [OF assms(1-4)] by blast
  have p2: "pair view p ?c 0 q (overlay ?o 0 []) (0 + length []) s inp outp s1" using o(3) by simp
  obtain inp3 outp3 s3 m where l: "copy_loop I (\<lambda>_. ?b) 0 0 inp outp s1 = Some (0, inp3, outp3, s3)" "healthy clean inp3 outp3 s3"
    "pair view p ?c m q (overlay ?o 0 ?c) (length ?c) s inp3 outp3 s3"
    using copy_loop_outcome [OF p2 o(2), of "\<lambda>_. ?b" 0 0] b(3) by auto
  have "answers s1 = []" using o(2) by (simp add: healthy_def)
  then have "block_cat I [n, p, q] s = close_both I inp3 outp3 0 s3"
    using b(2) by (simp add: block_cat_def Let_def o(1) healthy_malloc l(1))
  with pair_delivers [OF l(3,2)] show ?thesis by simp
qed

lemma random_block_cat_delivers:
  assumes "answers s = []" and "openable p s" "openable q s" and "p \<noteq> q" and "contents p s \<noteq> []"
  shows "delivers (random_block_cat rand I [p, q] s) q (contents p s) s"
proof -
  let ?c = "contents p s" and ?o = "contents q s" and ?size = "\<lambda>k. rand k mod MAX_BLOCK_SIZE + 1"
  obtain inp outp s1 where o: "\<And>run. open_both I p ''in'' q ''out'' run s = run inp outp s1" "healthy clean inp outp s1"
    "contents p s1 = ?c" "pair view p ?c 0 q ?o 0 s inp outp s1"
    using open_both_pair [OF assms(1-4)] by blast
  obtain inp2 s2 where f: "filesize_op I inp s1 = Some (int (length ?c), inp2, s2)" "healthy clean inp2 outp s2"
    "pair view p ?c 0 q ?o 0 s inp2 outp s2"
    using pair_filesize [OF o(4,3)] o(2) by (auto simp: healthy_def)
  have p2: "pair view p ?c 0 q (overlay ?o 0 []) (0 + length []) s inp2 outp s2" using f(3) by simp
  obtain inp3 outp3 s3 m where l: "copy_loop I ?size 0 0 inp2 outp s2 = Some (0, inp3, outp3, s3)" "healthy clean inp3 outp3 s3"
    "pair view p ?c m q (overlay ?o 0 ?c) (length ?c) s inp3 outp3 s3"
    using copy_loop_outcome [OF p2 f(2), of ?size 0 0] by auto
  have "answers s1 = []" using o(2) by (simp add: healthy_def)
  then have "random_block_cat rand I [p, q] s = close_both I inp3 outp3 0 s3"
    using assms(5) by (simp add: random_block_cat_def MAX_BLOCK_SIZE_def o(1) healthy_malloc f(1) l(1) [unfolded MAX_BLOCK_SIZE_def, simplified])
  with pair_delivers [OF l(3,2)] show ?thesis by simp
qed

text \<open>The reversing programs.\<close>

lemma reverse_byte_loop_outcome:
  assumes "pair view p c i q (overlay out j xs) (j + length xs) s0 inp outp s" and "healthy clean inp outp s" and "n \<le> length c" "length c \<le> nat INT_MAX"
  shows "\<exists>inp' outp' s' m. reverse_byte_loop I (int n - 1) inp outp s = Some (0, inp', outp', s') \<and> healthy clean inp' outp' s' \<and>
    pair view p c m q (overlay out j (xs @ rev (take n c))) (j + length (xs @ rev (take n c))) s0 inp' outp' s'"
  using assms
proof (induction n arbitrary: i xs inp outp s)
  case 0
  then have "reverse_byte_loop I (int 0 - 1) inp outp s = Some (0, inp, outp, s)" by (subst reverse_byte_loop.simps) simp
  then show ?case using 0(1,2) by auto
next
  case (Suc n)
  have n: "0 \<le> int n" "int n \<le> INT_MAX" "n < length c" using Suc(4,5) by auto
  obtain r inp1 s1 where k: "seek_op I inp (int n) s = Some (r, inp1, s1)" "r \<ge> 0" "healthy clean inp1 outp s1"
    "pair view p c n q (overlay out j xs) (j + length xs) s0 inp1 outp s1"
    using pair_seek [OF Suc(2,3) n(1,2)] by auto
  have g: "uint (c ! n) \<noteq> - 1" using unsigned_greater_eq [of "c ! n", where 'a = int] by linarith
  obtain inp2 s2 where r: "readc_op I inp1 s1 = Some (uint (c ! n), inp2, s2)" "healthy clean inp2 outp s2"
    "pair view p c (Suc n) q (overlay out j xs) (j + length xs) s0 inp2 outp s2"
    using pair_readc [OF k(4)] k(3) n(3) by (auto simp: healthy_def)
  have b: "0 \<le> uint (c ! n)" "uint (c ! n) < 256" using unsigned_less [of "c ! n"] by simp_all
  obtain outp3 s3 where w: "writec_op I outp (uint (c ! n)) s2 = Some (uint (c ! n), outp3, s3)" "healthy clean inp2 outp3 s3"
    "pair view p c (Suc n) q (overlay out j (xs @ [c ! n])) (j + length (xs @ [c ! n])) s0 inp2 outp3 s3"
    using pair_writec [OF r(3) b] r(2) by (auto simp: healthy_def overlay_append)
  have "reverse_byte_loop I (int (Suc n) - 1) inp outp s = reverse_byte_loop I (int n - 1) inp2 outp3 s3"
    using k(1,2) r(1) w(1) g by (subst reverse_byte_loop.simps) simp
  moreover have "take (Suc n) c = take n c @ [c ! n]" using n(3) by (rule take_Suc_conv_app_nth)
  ultimately show ?case using Suc(1) [OF w(3,2) _ Suc(5)] n(3) by (simp del: of_nat_Suc)
qed

lemma reverse_byte_cat_delivers:
  assumes "answers s = []" and "openable p s" "openable q s" and "p \<noteq> q" and "contents p s \<noteq> []" "length (contents p s) \<le> nat INT_MAX"
  shows "delivers (reverse_byte_cat I [p, q] s) q (rev (contents p s)) s"
proof -
  let ?c = "contents p s" and ?o = "contents q s"
  obtain inp outp s1 where o: "\<And>run. open_both I p ''in'' q ''out'' run s = run inp outp s1" "healthy clean inp outp s1"
    "contents p s1 = ?c" "pair view p ?c 0 q ?o 0 s inp outp s1"
    using open_both_pair [OF assms(1-4)] by blast
  obtain inp2 s2 where f: "filesize_op I inp s1 = Some (int (length ?c), inp2, s2)" "healthy clean inp2 outp s2"
    "pair view p ?c 0 q ?o 0 s inp2 outp s2"
    using pair_filesize [OF o(4,3)] o(2) by (auto simp: healthy_def)
  have p2: "pair view p ?c 0 q (overlay ?o 0 []) (0 + length []) s inp2 outp s2" using f(3) by simp
  obtain inp3 outp3 s3 m where l: "reverse_byte_loop I (int (length ?c) - 1) inp2 outp s2 = Some (0, inp3, outp3, s3)" "healthy clean inp3 outp3 s3"
    "pair view p ?c m q (overlay ?o 0 (rev ?c)) (length ?c) s inp3 outp3 s3"
    using reverse_byte_loop_outcome [OF p2 f(2) order_refl assms(6)] by auto
  have "to_int (int (length ?c) - 1) = int (length ?c) - 1" using assms(5,6) by (intro to_int_small) (cases ?c; simp)+
  then have "reverse_byte_cat I [p, q] s = close_both I inp3 outp3 0 s3"
    using assms(5) by (simp add: reverse_byte_cat_def o(1) f(1) l(1))
  with pair_delivers [OF l(3,2)] show ?thesis by simp
qed

lemma reverse_block_step:
  assumes "pair view p c i q (overlay out j xs) (j + length xs) s0 inp outp s" and "healthy clean inp outp s" and "length c \<le> nat INT_MAX"
    and "k \<le> length c" and "bs = take b (drop k c)"
  shows "\<exists>inp' outp' s' m. reverse_block_loop I (int b) (int k) inp outp s = reverse_block_loop I (int b) (int k - int b) inp' outp' s' \<and>
    healthy clean inp' outp' s' \<and> pair view p c m q (overlay out j (xs @ rev bs)) (j + length (xs @ rev bs)) s0 inp' outp' s'"
proof -
  have n: "0 \<le> int k" "int k \<le> INT_MAX" using assms(3,4) by auto
  obtain r inp1 s1 where k: "seek_op I inp (int k) s = Some (r, inp1, s1)" "r \<ge> 0" "healthy clean inp1 outp s1"
    "pair view p c k q (overlay out j xs) (j + length xs) s0 inp1 outp s1"
    using pair_seek [OF assms(1,2) n] by auto
  obtain inp2 s2 where r: "read_op I inp1 b s1 = Some (int (length bs), bs, inp2, s2)" "healthy clean inp2 outp s2"
    "pair view p c (k + length bs) q (overlay out j xs) (j + length xs) s0 inp2 outp s2"
    using pair_read [OF k(4,3), of b] unfolding assms(5) by blast
  obtain outp3 s3 where w: "write_op I outp (rev bs) s2 = Some (int (length (rev bs)), outp3, s3)" "healthy clean inp2 outp3 s3"
    "pair view p c (k + length bs) q (overlay out j (xs @ rev bs)) (j + length (xs @ rev bs)) s0 inp2 outp3 s3"
    using pair_write [OF r(3,2), of "rev bs"] by (auto simp: overlay_append add.assoc)
  have "length bs \<le> length c" by (simp add: assms(5))
  then have "to_int (int (length bs)) = int (length bs)" using assms(3) by (intro to_int_small) auto
  then have "reverse_block_loop I (int b) (int k) inp outp s = reverse_block_loop I (int b) (int k - int b) inp2 outp3 s3"
    using k(1,2) r(1) w(1) by (subst reverse_block_loop.simps) simp
  with w(2,3) show ?thesis by blast
qed

lemma reverse_block_loop_outcome:
  assumes "pair view p c i q (overlay out j xs) (j + length xs) s0 inp outp s" and "healthy clean inp outp s" and "b > 0" "length c \<le> nat INT_MAX"
    and "n * b \<le> length c"
  shows "\<exists>inp' outp' s' m. reverse_block_loop I (int b) (int (n * b)) inp outp s = Some (0, inp', outp', s') \<and> healthy clean inp' outp' s' \<and>
    pair view p c m q (overlay out j (xs @ rev (take (n * b + b) c))) (j + length (xs @ rev (take (n * b + b) c))) s0 inp' outp' s'"
  using assms(1,2,5)
proof (induction n arbitrary: i xs inp outp s)
  case (0 i xs inp outp s)
  obtain inp1 outp1 s1 m where x: "reverse_block_loop I (int b) (int 0) inp outp s = reverse_block_loop I (int b) (int 0 - int b) inp1 outp1 s1"
    "healthy clean inp1 outp1 s1" "pair view p c m q (overlay out j (xs @ rev (take b c))) (j + length (xs @ rev (take b c))) s0 inp1 outp1 s1"
    using reverse_block_step [OF 0(1,2) assms(4) le0 refl, of b] by auto
  have "reverse_block_loop I (int b) (int 0 - int b) inp1 outp1 s1 = Some (0, inp1, outp1, s1)"
    using assms(3) by (subst reverse_block_loop.simps) simp
  with x show ?case by auto
next
  case (Suc n i xs inp outp s)
  let ?k = "Suc n * b" and ?bs = "take b (drop (Suc n * b) c)"
  obtain inp1 outp1 s1 m where x: "reverse_block_loop I (int b) (int ?k) inp outp s = reverse_block_loop I (int b) (int ?k - int b) inp1 outp1 s1"
    "healthy clean inp1 outp1 s1" "pair view p c m q (overlay out j (xs @ rev ?bs)) (j + length (xs @ rev ?bs)) s0 inp1 outp1 s1"
    using reverse_block_step [OF Suc(2,3) assms(4) Suc(4) refl, of b] by blast
  have "int ?k - int b = int (n * b)" by simp
  moreover have "n * b \<le> length c" using Suc(4) by simp
  moreover have "rev (take (?k + b) c) = rev ?bs @ rev (take (n * b + b) c)" 
  proof -
    have "take (?k + b) c = take ?k c @ ?bs" by (rule take_add)
    moreover have "?k = n * b + b" by simp
    ultimately show ?thesis by (metis rev_append)
  qed
  ultimately show ?case using Suc(1) [OF x(3,2)] x(1) by simp
qed

lemma reverse_block_cat_delivers:
  assumes "answers s = []" and "openable p s" "openable q s" and "p \<noteq> q" and "contents p s \<noteq> []" "length (contents p s) \<le> nat INT_MAX"
    and "atoi n > 0"
  shows "delivers (reverse_block_cat I [n, p, q] s) q (rev (contents p s)) s"
proof -
  let ?c = "contents p s" and ?o = "contents q s"
  define b where "b = nat (atoi n)"
  have "atoi n < 2 ^ 31" unfolding atoi_def to_int_def using sint_lt [of "word_of_int (strtol n) :: u32"] by simp
  then have b: "unat (word_of_int (atoi n) :: u64) < 2 ^ 63" "b > 0" "atoi n = int b"
    using assms(7) by (simp_all add: unsigned_of_int take_bit_int_eq_self b_def)
  obtain inp outp s1 where o: "\<And>run. open_both I p ''in'' q ''out'' run s = run inp outp s1" "healthy clean inp outp s1"
    "contents p s1 = ?c" "pair view p ?c 0 q ?o 0 s inp outp s1"
    using open_both_pair [OF assms(1-4)] by blast
  obtain inp2 s2 where f: "filesize_op I inp s1 = Some (int (length ?c), inp2, s2)" "healthy clean inp2 outp s2"
    "pair view p ?c 0 q ?o 0 s inp2 outp s2"
    using pair_filesize [OF o(4,3)] o(2) by (auto simp: healthy_def)
  have p2: "pair view p ?c 0 q (overlay ?o 0 []) (0 + length []) s inp2 outp s2" using f(3) by simp
  have q: "length ?c div b * b \<le> length ?c" "length ?c < length ?c div b * b + b"
    using mod_less_divisor [OF b(2), of "length ?c"] div_mult_mod_eq [of "length ?c" b] by linarith+
  then have "rev (take (length ?c div b * b + b) ?c) = rev ?c" by simp
  then obtain inp3 outp3 s3 m where l: "reverse_block_loop I (int b) (int (length ?c div b * b)) inp2 outp s2 = Some (0, inp3, outp3, s3)"
    "healthy clean inp3 outp3 s3" "pair view p ?c m q (overlay ?o 0 (rev ?c)) (length ?c) s inp3 outp3 s3"
    using reverse_block_loop_outcome [OF p2 f(2) b(2) assms(6) q(1)] by auto
  have "int (length ?c div b * b) + int (length ?c mod b) = int (length ?c)" by (metis div_mult_mod_eq of_nat_add)
  then have "int (length ?c) - int (length ?c) mod int b = int (length ?c div b * b)" by (simp add: of_nat_mod)
  moreover have "to_int (int (length ?c div b * b)) = int (length ?c div b * b)" using q(1) assms(6) by (intro to_int_small) linarith+
  moreover have "answers s2 = []" using f(2) by (simp add: healthy_def)
  ultimately have "reverse_block_cat I [n, p, q] s = close_both I inp3 outp3 0 s3"
    using assms(5) b l(1) by (simp add: reverse_block_cat_def Let_def o(1) f(1) healthy_malloc)
  with pair_delivers [OF l(3,2)] show ?thesis by simp
qed

end

section \<open>\<open>rot13\<close>\<close>

lemma word_nat_back: "word_of_nat (unat x) = (x :: u8)"
  by simp

lemma rot13_turn:
  fixes x :: u8
  assumes "l \<le> unat x" "unat x < l + 26" and "l + 26 \<le> 256"
  shows "unat (word_of_nat (l + (unat x - l + 13) mod 26) :: u8) = l + (unat x - l + 13) mod 26"
    and "(word_of_nat (l + (l + (unat x - l + 13) mod 26 - l + 13) mod 26) :: u8) = x"
proof -
  obtain k where k: "unat x = l + k" "k < 26" using assms by (metis le_Suc_ex nat_add_left_cancel_less)
  have "(k + 13) mod 26 < 26" by simp
  then have "l + (k + 13) mod 26 < 256" using assms(3) by linarith
  then show "unat (word_of_nat (l + (unat x - l + 13) mod 26) :: u8) = l + (unat x - l + 13) mod 26"
    by (intro unat_of_nat_small) (simp add: k(1))
  have "((k + 13) mod 26 + 13) mod 26 = k" using k(2) by (simp add: mod_add_left_eq add.assoc)
  then have "l + (l + (unat x - l + 13) mod 26 - l + 13) mod 26 = unat x" by (simp add: k(1))
  then show "(word_of_nat (l + (l + (unat x - l + 13) mod 26 - l + 13) mod 26) :: u8) = x" by (simp only: word_nat_back)
qed

lemma rot13_nat:
  "rot13 ch =
     (if 65 \<le> unat ch \<and> unat ch < 65 + 26 then word_of_nat (65 + (unat ch - 65 + 13) mod 26)
      else if 97 \<le> unat ch \<and> unat ch < 97 + 26 then word_of_nat (97 + (unat ch - 97 + 13) mod 26)
      else ch)"
  by (auto simp: rot13_def word_le_nat_alt)

lemma rot13_involution: "rot13 (rot13 x) = x"
proof -
  have r: "l \<le> l + (k + 13) mod 26 \<and> l + (k + 13) mod 26 < l + 26" for l k :: nat by simp
  consider "65 \<le> unat x" "unat x < 65 + 26" | "97 \<le> unat x" "unat x < 97 + 26"
    | "\<not> (65 \<le> unat x \<and> unat x < 65 + 26)" "\<not> (97 \<le> unat x \<and> unat x < 97 + 26)"
    by blast
  then show ?thesis
  proof cases
    case 1
    note t = rot13_turn [OF 1]
    have "rot13 x = word_of_nat (65 + (unat x - 65 + 13) mod 26)" using 1 by (simp add: rot13_nat)
    then show ?thesis using t r [of 65 "unat x - 65"] by (simp only: rot13_nat [of "word_of_nat _"]) simp
  next
    case 2
    note t = rot13_turn [OF 2]
    have "rot13 x = word_of_nat (97 + (unat x - 97 + 13) mod 26)" using 2 by (simp add: rot13_nat)
    then show ?thesis using t r [of 97 "unat x - 97"] by (simp only: rot13_nat [of "word_of_nat _"]) simp
  next
    case 3
    then have "rot13 x = x" unfolding rot13_nat by argo
    then show ?thesis by simp
  qed
qed

text \<open>One open file.\<close>

definition single :: "'f view \<Rightarrow> ('f \<Rightarrow> bool) \<Rightarrow> string \<Rightarrow> u8 list \<Rightarrow> nat \<Rightarrow> os \<Rightarrow> 'f \<Rightarrow> os \<Rightarrow> bool" where
  "single view clean p c i s0 f s \<longleftrightarrow> view f s = Some (p, c, i) \<and> answers s = [] \<and> clean f \<and> (\<forall>r. r \<noteq> p \<longrightarrow> files s r = files s0 r)"

lemma single_becomes:
  assumes "single view clean p c i s0 f s" and "becomes view clean f s p c' i' f' s'"
  shows "single view clean p c' i' s0 f' s'"
proof -
  have o: "others view p s s'" using assms(2) by (simp add: becomes_def)
  show ?thesis using assms othersD(1,4) [OF o] by (auto simp: single_def becomes_def)
qed

lemma overlay_single: "i < length c \<Longrightarrow> overlay c i [b] = c[i := b]"
  by (simp add: overlay_def upd_conv_take_nth_drop)

lemma rot13_prefix:
  assumes "i < length c"
  shows "(map rot13 (take i c) @ drop i c)[i := rot13 (c ! i)] = map rot13 (take (Suc i) c) @ drop (Suc i) c"
    and "(map rot13 (take i c) @ drop i c) ! i = c ! i"
proof -
  have d: "drop i c = c ! i # drop (Suc i) c" using assms by (rule Cons_nth_drop_Suc [symmetric])
  have l: "length (map rot13 (take i c)) = i" using assms by simp
  show "(map rot13 (take i c) @ drop i c)[i := rot13 (c ! i)] = map rot13 (take (Suc i) c) @ drop (Suc i) c"
    unfolding d using l assms by (simp add: list_update_append take_Suc_conv_app_nth)
  show "(map rot13 (take i c) @ drop i c) ! i = c ! i" unfolding d using l by (simp add: nth_append)
qed

context io300_file begin

lemma single_seek:
  assumes "single view clean p c i s0 f s" and "0 \<le> pos" "pos \<le> INT_MAX"
  shows "\<exists>r f' s'. seek_op I f pos s = Some (r, f', s') \<and> r \<ge> 0 \<and> single view clean p c (nat pos) s0 f' s'"
  using seek_law [OF _ assms(2,3)] single_becomes [OF assms(1)] assms(1) unfolding single_def [of _ _ _ _ i] by metis

lemma rot13_loop_outcome:
  assumes "single view clean p (map rot13 (take i c) @ drop i c) off s0 f s" and "i \<le> length c" "length c \<le> nat INT_MAX"
  shows "\<exists>f' s' off'. rot13_loop I (int i) (int (length c)) f s = Some (0, f', s') \<and> single view clean p (map rot13 c) off' s0 f' s'"
  using assms
proof (induction "length c - i" arbitrary: i off f s)
  case 0
  then have "rot13_loop I (int i) (int (length c)) f s = Some (0, f, s)" by (subst rot13_loop.simps) simp
  with 0 show ?case by auto
next
  case (Suc n)
  then have i: "i < length c" and n: "0 \<le> int i" "int i \<le> INT_MAX" "int i \<noteq> INT_MAX" by auto
  let ?c = "map rot13 (take i c) @ drop i c"
  have l: "i < length ?c" using i by simp
  obtain r1 f1 s1 where k1: "seek_op I f (int i) s = Some (r1, f1, s1)" "r1 \<ge> 0" "single view clean p ?c i s0 f1 s1"
    using single_seek [OF Suc(3) n(1,2)] by auto
  have g: "uint (c ! i) \<noteq> - 1" using unsigned_greater_eq [of "c ! i", where 'a = int] by linarith
  have v1: "view f1 s1 = Some (p, ?c, i)" "answers s1 = []" using k1(3) by (simp_all add: single_def)
  obtain f2 s2 where r: "readc_op I f1 s1 = Some (uint (c ! i), f2, s2)" "becomes view clean f1 s1 p ?c (Suc i) f2 s2"
    using readc_law [OF v1(1)] v1(2) l unfolding rot13_prefix(2) [OF i] by auto
  obtain r3 f3 s3 where k3: "seek_op I f2 (int i) s2 = Some (r3, f3, s3)" "r3 \<ge> 0" "single view clean p ?c i s0 f3 s3"
    using single_seek [OF single_becomes [OF k1(3) r(2)] n(1,2)] by auto
  let ?b = "uint (rot13 (c ! i))"
  have b: "0 \<le> ?b" "?b < 256" "?b \<noteq> - 1" using unsigned_less [of "rot13 (c ! i)"] unsigned_greater_eq [of "rot13 (c ! i)", where 'a = int]
    by (simp_all, linarith)
  have v3: "view f3 s3 = Some (p, ?c, i)" "answers s3 = []" using k3(3) by (simp_all add: single_def)
  obtain f4 s4 where w: "writec_op I f3 ?b s3 = Some (?b, f4, s4)" "becomes view clean f3 s3 p (overlay ?c i [rot13 (c ! i)]) (Suc i) f4 s4"
    using writec_law [OF v3(1) b(1,2)] v3(2) by auto
  have "single view clean p (map rot13 (take (Suc i) c) @ drop (Suc i) c) (Suc i) s0 f4 s4"
    using single_becomes [OF k3(3) w(2)] unfolding overlay_single [OF l] rot13_prefix(1) [OF i] .
  moreover have "rot13_loop I (int i) (int (length c)) f s = rot13_loop I (int (Suc i)) (int (length c)) f4 s4"
    using k1(1,2) r(1) k3(1,2) w(1) i n(3) g b(3) by (subst rot13_loop.simps) (simp add: add.commute)
  moreover have "n = length c - Suc i" "Suc i \<le> length c" using Suc(2) i by auto
  ultimately show ?case using Suc(1) Suc(5) by metis
qed

lemma rot13_delivers:
  assumes "answers s = []" and "openable p s" and "length (contents p s) \<le> nat INT_MAX"
  shows "delivers (rot13_main I [p] s) p (map rot13 (contents p s)) s"
proof -
  let ?c = "contents p s"
  obtain r1 s1 where o1: "open_op I p red_in s = Some (r1, s1)" "others view p s s1" "contents p s1 = ?c"
    "case r1 of None \<Rightarrow> answers s \<noteq> [] \<or> \<not> openable p s | Some f \<Rightarrow> view f s1 = Some (p, contents p s, 0) \<and> clean f"
    using open_law [of p red_in s] by blast
  then obtain f where i: "r1 = Some f" "view f s1 = Some (p, ?c, 0)" "clean f" using assms by (cases r1) auto
  have sg: "single view clean p ?c 0 s f s1" using othersD(1,4) [OF o1(2)] i assms(1) by (simp add: single_def)
  have a1: "answers s1 = []" using sg by (simp add: single_def)
  obtain f2 s2 where fs: "filesize_op I f s1 = Some (int (length ?c), f2, s2)" "becomes view clean f s1 p ?c 0 f2 s2"
    using filesize_law [OF i(2)] a1 o1(3) by auto
  have sg2: "single view clean p (map rot13 (take 0 ?c) @ drop 0 ?c) 0 s f2 s2" using single_becomes [OF sg fs(2)] by simp
  obtain f3 s3 off where l: "rot13_loop I 0 (int (length ?c)) f2 s2 = Some (0, f3, s3)" "single view clean p (map rot13 ?c) off s f3 s3"
    using rot13_loop_outcome [OF sg2 le0 assms(3)] by auto
  then have v3: "view f3 s3 = Some (p, map rot13 ?c, off)" "answers s3 = []" by (simp_all add: single_def)
  obtain s4 where c: "close_op I f3 s3 = Some (0, s4)" "others view p s3 s4" "contents p s4 = map rot13 ?c"
    using close_law [OF v3(1)] v3(2) by auto
  have "rot13_main I [p] s = Some (0, s4)" by (simp add: rot13_main_def o1(1) i(1) fs(1) l(1) c(1))
  moreover have "contents r s4 = contents r s" if "r \<noteq> p" for r
    using l(2) othersD(1) [OF c(2) that] that by (intro contents_cong) (simp add: single_def)
  moreover have "answers s4 = []" using othersD(4) [OF c(2)] v3(2) by simp
  ultimately show ?thesis using c(3) by (simp add: delivers_def)
qed

end

section \<open>When calls fail\<close>

context io300_unbuffered begin

lemma pair_close_unbuffered:
  assumes "pair view p c i q out j s0 inp outp s"
  shows "\<exists>s'. close_both I inp outp status s = Some (status, s') \<and> contents p s' = c \<and> contents q s' = out"
proof -
  have v: "p \<noteq> q" "view inp s = Some (p, c, i)" "view outp s = Some (q, out, j)" using assms by (simp_all add: pair_def)
  obtain r1 s1 where c1: "close_op I inp s = Some (r1, s1)" "others view p s s1" "r1 = 0 \<longrightarrow> contents p s1 = c"
    using close_law [OF v(2)] by blast
  then have v1: "view outp s1 = Some (q, out, j)" using othersD(3) [OF c1(2) v(3)] v(1) by simp
  obtain r2 s2 where c2: "close_op I outp s1 = Some (r2, s2)" "others view q s1 s2" "r2 = 0 \<longrightarrow> contents q s2 = out"
    using close_law [OF v1] by blast
  have "contents p s2 = c" using othersD(2) [OF c2(2)] v(1) c1(3) close_succeeds [OF c1(1)] by simp
  then show ?thesis using c1(1) c2(1,3) close_succeeds [OF c2(1)] by (simp add: close_both_def)
qed

lemma open_both_any:
  assumes "p \<noteq> q"
  shows "(\<exists>s'. \<forall>run. open_both I p d q e run s = Some (1, s')) \<or>
    (\<exists>inp outp s'. (\<forall>run. open_both I p d q e run s = run inp outp s') \<and> pair view p (contents p s) 0 q (contents q s) 0 s inp outp s')"
proof -
  obtain r1 s1 where o1: "open_op I p d s = Some (r1, s1)" "others view p s s1" "contents p s1 = contents p s"
    "case r1 of None \<Rightarrow> answers s \<noteq> [] \<or> \<not> openable p s | Some f \<Rightarrow> view f s1 = Some (p, contents p s, 0) \<and> clean f"
    using open_law [of p d s] by blast
  show ?thesis
  proof (cases r1)
    case None
    then show ?thesis by (simp add: open_both_def o1(1))
  next
    case (Some inp)
    then have i: "view inp s1 = Some (p, contents p s, 0)" using o1(4) by simp
    have q1: "contents q s1 = contents q s" using othersD(2) [OF o1(2)] assms by simp
    obtain r2 s2 where o2: "open_op I q e s1 = Some (r2, s2)" "others view q s1 s2"
      "case r2 of None \<Rightarrow> answers s1 \<noteq> [] \<or> \<not> openable q s1 | Some f \<Rightarrow> view f s2 = Some (q, contents q s1, 0) \<and> clean f"
      using open_law [of q e s1] by blast
    have i2: "view inp s2 = Some (p, contents p s, 0)" using othersD(3) [OF o2(2) i] assms by simp
    show ?thesis
    proof (cases r2)
      case None
      then show ?thesis using close_law [OF i2] by (auto simp: open_both_def o1(1) o2(1) Some)
    next
      case (Some outp)
      then have "view outp s2 = Some (q, contents q s, 0)" using o2(3) q1 by simp
      moreover have "\<forall>r. r \<noteq> p \<longrightarrow> r \<noteq> q \<longrightarrow> files s2 r = files s r" using othersD(1) [OF o1(2)] othersD(1) [OF o2(2)] by simp
      ultimately have "pair view p (contents p s) 0 q (contents q s) 0 s inp outp s2" using i2 assms by (simp add: pair_def)
      moreover have "open_both I p d q e run s = run inp outp s2" for run by (simp add: open_both_def o1(1) o2(1) \<open>r1 = Some inp\<close> Some)
      ultimately show ?thesis by blast
    qed
  qed
qed

lemma byte_cat_reliable:
  assumes "p \<noteq> q" and "length (contents p s) \<le> nat INT_MAX"
  shows "\<exists>status s'. byte_cat I [p, q] s = Some (status, s') \<and> (status = 0 \<or> status = 1) \<and>
    (status = 0 \<longrightarrow> contents p s' = contents p s \<and> contents q s' = contents p s @ drop (length (contents p s)) (contents q s))"
proof -
  let ?c = "contents p s" and ?o = "contents q s"
  consider s' where "\<And>run. open_both I p red_in q green_out run s = Some (1, s')"
    | inp outp s1 where "\<And>run. open_both I p red_in q green_out run s = run inp outp s1" "pair view p ?c 0 q ?o 0 s inp outp s1"
    using open_both_any [OF assms(1), of red_in green_out s] by blast
  then show ?thesis
  proof cases
    case (2 inp outp s1)
    have c: "contents p s1 = ?c" using 2(2) by (intro contents_view [of inp _ _ _ 0]) (simp add: pair_def)
    obtain r inp2 s2 where f: "filesize_op I inp s1 = Some (r, inp2, s2)" "pair view p ?c 0 q ?o 0 s inp2 outp s2" "r = - 1 \<or> r = int (length ?c)"
      using pair_filesize [OF 2(2) c] by blast
    show ?thesis
    proof (cases "r \<le> 0")
      case True
      then show ?thesis using pair_close_unbuffered [OF f(2), of 1] by (auto simp: byte_cat_def 2(1) f(1))
    next
      case False
      have p2: "pair view p ?c 0 q (overlay ?o 0 []) (0 + length []) s inp2 outp s2" using f(2) by simp
      obtain status inp3 outp3 s3 ys k where l: "byte_loop I (int 0) (int (length ?c)) inp2 outp s2 = Some (status, inp3, outp3, s3)"
        "pair view p ?c k q (overlay ?o 0 ([] @ ys)) (0 + length ([] @ ys)) s inp3 outp3 s3" "status = 0 \<longrightarrow> ys = drop 0 ?c" "status = 0 \<or> status = 1"
        using byte_loop_outcome [OF p2 le0 assms(2)] by blast
      obtain s4 where k: "close_both I inp3 outp3 status s3 = Some (status, s4)" "contents p s4 = ?c" "contents q s4 = overlay ?o 0 ([] @ ys)"
        using pair_close_unbuffered [OF l(2), of status] by blast
      have "r = int (length ?c)" using f(3) False by auto
      then have "byte_cat I [p, q] s = Some (status, s4)" using False k(1) l(1) by (simp add: byte_cat_def 2(1) f(1))
      with k(2,3) l(3,4) show ?thesis by (simp add: overlay_0)
    qed
  qed (auto simp: byte_cat_def)
qed

end

section \<open>The programs, over each implementation\<close>

text \<open>The copying and the reversing programs do their work with an implementation; \<open>n\<close> is a block size, as an argument.\<close>

definition copies :: "'f io300 \<Rightarrow> string \<Rightarrow> (nat \<Rightarrow> nat) \<Rightarrow> string \<Rightarrow> string \<Rightarrow> os \<Rightarrow> bool" where
  "copies I n rand p q s \<longleftrightarrow> delivers (byte_cat I [p, q] s) q (contents p s) s \<and> delivers (block_cat I [n, p, q] s) q (contents p s) s \<and>
     delivers (random_block_cat rand I [p, q] s) q (contents p s) s"

definition reverses :: "'f io300 \<Rightarrow> string \<Rightarrow> string \<Rightarrow> string \<Rightarrow> os \<Rightarrow> bool" where
  "reverses I n p q s \<longleftrightarrow> delivers (reverse_byte_cat I [p, q] s) q (rev (contents p s)) s \<and>
     delivers (reverse_block_cat I [n, p, q] s) q (rev (contents p s)) s"

text \<open>Running \<open>rot13\<close> twice restores the file.\<close>

definition rot13_restores :: "'f io300 \<Rightarrow> string \<Rightarrow> os \<Rightarrow> bool" where
  "rot13_restores I p s \<longleftrightarrow> (\<exists>s1 s2. rot13_main I [p] s = Some (0, s1) \<and> contents p s1 = map rot13 (contents p s) \<and>
     rot13_main I [p] s1 = Some (0, s2) \<and> contents p s2 = contents p s)"

context io300_file begin

lemma copies_all:
  assumes "answers s = []" and "openable p s" "openable q s" and "p \<noteq> q" and "contents p s \<noteq> []" "length (contents p s) \<le> nat INT_MAX"
    and "atoi n > 0"
  shows "copies I n rand p q s" and "reverses I n p q s"
  using byte_cat_delivers [OF assms(1-6)] block_cat_delivers [OF assms(1-4,7)] random_block_cat_delivers [OF assms(1-5)]
    reverse_byte_cat_delivers [OF assms(1-6)] reverse_block_cat_delivers [OF assms]
  by (simp_all add: copies_def reverses_def)

lemma rot13_restores_file:
  assumes "answers s = []" and "openable p s" and "length (contents p s) \<le> nat INT_MAX"
    and "\<And>s'. contents p s' = map rot13 (contents p s) \<Longrightarrow> openable p s'"
  shows "rot13_restores I p s"
proof -
  obtain s1 where s1: "rot13_main I [p] s = Some (0, s1)" "contents p s1 = map rot13 (contents p s)" "answers s1 = []"
    using rot13_delivers [OF assms(1-3)] by (auto simp: delivers_def)
  have l: "length (contents p s1) \<le> nat INT_MAX" using assms(3) s1(2) by simp
  obtain s2 where "rot13_main I [p] s1 = Some (0, s2)" "contents p s2 = map rot13 (contents p s1)"
    using rot13_delivers [OF s1(3) assms(4) [OF s1(2)] l] by (auto simp: delivers_def)
  then show ?thesis using s1(1,2) by (auto simp: rot13_restores_def rot13_involution o_def)
qed

end

lemma file_exists: "contents p s \<noteq> [] \<Longrightarrow> files s p \<noteq> None"
  by (cases "files s p") (simp_all add: contents_def)

text \<open>
  C13. The copying programs copy: if no system call fails and the files are distinct, \<open>byte_cat\<close>, \<open>block_cat\<close> with any block size and
  \<open>random_block_cat\<close> with any random numbers return 0, the output file starts with the bytes of the input and keeps what it had behind
  them, and no other file changes. With \<open>stdio.c\<close> the output file has to exist.
\<close>

theorem copy_programs_copy:
  assumes "answers s = []" and "p \<noteq> q" and "contents p s \<noteq> []" "length (contents p s) \<le> nat INT_MAX" and "atoi n > 0"
  shows "copies naive_io n rand p q s \<and> copies (student_io heap) n rand p q s \<and> (files s q \<noteq> None \<longrightarrow> copies stdio_io n rand p q s)"
  using naive.copies_all(1) [OF assms(1) TrueI TrueI assms(2-5)] student.copies_all(1) [OF assms(1) TrueI TrueI assms(2-5)]
    stdio.copies_all(1) [OF assms(1) file_exists [OF assms(3)] _ assms(2-5)]
  by blast

definition sample_os :: os where
  "sample_os = \<lparr>files = [''a'' \<mapsto> [1, 2, 3], ''b'' \<mapsto> [9, 9, 9, 9]], fds = [], answers = []\<rparr>"

definition sample_heap :: student_file where
  "sample_heap = \<lparr>student_fd = 7, buffer = None, description = [], stats = \<lparr>read_calls = 5, write_calls = 0, seeks = - 1\<rparr>\<rparr>"

lemma sample_os_facts: "answers sample_os = []" "contents ''a'' sample_os = [1, 2, 3]" "contents ''b'' sample_os = [9, 9, 9, 9]"
    "files sample_os ''b'' \<noteq> None" "atoi ''2'' > 0"
  by (simp_all add: sample_os_def contents_def atoi_def strtol_def is_ws_def is_dec_digit_def to_int_def)

theorem copy_programs_copy_witness:
  "\<exists>s'. block_cat stdio_io [''2'', ''a'', ''b''] sample_os = Some (0, s') \<and> contents ''b'' s' = [1, 2, 3, 9]"
proof -
  have "copies stdio_io ''2'' (\<lambda>_. 0) ''a'' ''b'' sample_os"
    using copy_programs_copy [of sample_os "''a''" "''b''" "''2''"] sample_os_facts by simp
  then show ?thesis by (auto simp: copies_def delivers_def sample_os_facts)
qed

text \<open>
  C14. The reversing programs reverse: under the same conditions \<open>reverse_byte_cat\<close> and \<open>reverse_block_cat\<close> with any block size
  return 0 and write the bytes of the input in reverse order.
\<close>

theorem reverse_programs_reverse:
  assumes "answers s = []" and "p \<noteq> q" and "contents p s \<noteq> []" "length (contents p s) \<le> nat INT_MAX" and "atoi n > 0"
  shows "reverses naive_io n p q s \<and> reverses (student_io heap) n p q s \<and> (files s q \<noteq> None \<longrightarrow> reverses stdio_io n p q s)"
  using naive.copies_all(2) [OF assms(1) TrueI TrueI assms(2-5)] student.copies_all(2) [OF assms(1) TrueI TrueI assms(2-5)]
    stdio.copies_all(2) [OF assms(1) file_exists [OF assms(3)] _ assms(2-5)]
  by blast

theorem reverse_programs_reverse_witness:
  "\<exists>s'. reverse_block_cat (student_io sample_heap) [''2'', ''a'', ''b''] sample_os = Some (0, s') \<and> contents ''b'' s' = [3, 2, 1, 9]"
proof -
  have "reverses (student_io sample_heap) ''2'' ''a'' ''b'' sample_os"
    using reverse_programs_reverse [of sample_os "''a''" "''b''" "''2''"] sample_os_facts by simp
  then show ?thesis by (auto simp: reverses_def delivers_def sample_os_facts)
qed

text \<open>
  C16. \<open>rot13\<close> in place: if no call fails, a run rotates every letter of the file by 13 and leaves the other bytes alone, and a second
  run restores the file, with each of the implementations.
\<close>

theorem rot13_twice_restores:
  assumes "answers s = []" and "contents p s \<noteq> []" "length (contents p s) \<le> nat INT_MAX"
  shows "rot13_restores naive_io p s \<and> rot13_restores (student_io heap) p s \<and> rot13_restores stdio_io p s"
proof -
  have "contents p s' = map rot13 (contents p s) \<Longrightarrow> files s' p \<noteq> None" for s' using assms(2) by (intro file_exists) simp
  then show ?thesis
    using naive.rot13_restores_file [OF assms(1) TrueI assms(3)] student.rot13_restores_file [OF assms(1) TrueI assms(3)]
      stdio.rot13_restores_file [OF assms(1) file_exists [OF assms(2)] assms(3)]
    by blast
qed

theorem rot13_twice_restores_witness:
  "rot13_restores (student_io sample_heap) ''a'' sample_os \<and> rot13 0x41 = 0x4E \<and> rot13 0x7A = 0x6D \<and> rot13 0x30 = 0x30"
  using rot13_twice_restores [of sample_os "''a''"] sample_os_facts by (simp add: rot13_def)

text \<open>\<open>byte_cat\<close> ends with status 0 or 1, and 0 means that everything was copied.\<close>

definition copies_or_fails :: "'f io300 \<Rightarrow> string \<Rightarrow> string \<Rightarrow> os \<Rightarrow> bool" where
  "copies_or_fails I p q s \<longleftrightarrow> (\<exists>status s'. byte_cat I [p, q] s = Some (status, s') \<and> (status = 0 \<or> status = 1) \<and>
     (status = 0 \<longrightarrow> contents p s' = contents p s \<and> contents q s' = contents p s @ drop (length (contents p s)) (contents q s)))"

text \<open>
  C17. \<open>byte_cat\<close> notices failures: whatever the system calls answer, with the unbuffered implementations it ends with status 0 or 1, and
  status 0 means that the output starts with all bytes of the input and that the input is unchanged.
\<close>

theorem byte_cat_notices_failures:
  assumes "p \<noteq> q" and "length (contents p s) \<le> nat INT_MAX"
  shows "copies_or_fails naive_io p q s \<and> copies_or_fails (student_io heap) p q s"
  unfolding copies_or_fails_def using naive.byte_cat_reliable [OF assms] student.byte_cat_reliable [OF assms] by blast

lemma sample_short_answers:
  "map_option fst (byte_cat naive_io [''a'', ''b''] (sample_os\<lparr>answers := [Full, Full, Full, Full, Full, Short 0, Short 0]\<rparr>)) = Some 0"
  by (simp add: byte_cat_def open_both_def close_both_def byte_loop.simps naive_ops naive_open_def sys_open_def sys_malloc_def sys_fstat_def
    sys_read_def sys_write_def next_answer_def transferred_def desc_def set_desc_def contents_def sample_os_def Let_def)

theorem byte_cat_notices_failures_witness:
  "\<exists>s'. byte_cat naive_io [''a'', ''b''] (sample_os\<lparr>answers := [Full, Full, Full, Full, Full, Short 0, Short 0]\<rparr>) = Some (0, s') \<and>
     contents ''b'' s' = [1, 2, 3, 9]"
  using byte_cat_notices_failures [of "''a''" "''b''"
      "sample_os\<lparr>answers := [Full, Full, Full, Full, Full, Short 0, Short 0]\<rparr>" sample_heap] sample_short_answers
  by (auto simp: copies_or_fails_def sample_os_def contents_def)

end
