(* ===== verification/StrideCat.thy ===== *)
theory StrideCat
  imports CatPrograms
begin

text \<open>
  \<open>fileio/test_programs/stride_cat.c\<close>, which reads its input in strides and writes it in the order it read it, with the
  proof that the output is a permutation of the input. Positions and sizes are \<open>size_t\<close>, that is 64-bit words.
\<close>

section \<open>\<open>stride_cat\<close>\<close>

partial_function (option) stride_loop ::
  "'f io300 \<Rightarrow> u64 \<Rightarrow> u64 \<Rightarrow> u64 \<Rightarrow> u64 \<Rightarrow> u64 \<Rightarrow> 'f \<Rightarrow> 'f \<Rightarrow> os \<Rightarrow> ('f \<times> 'f \<times> os) option" where
  "stride_loop I stride input_size pos written block_size inp outp s =
     (if written < input_size then
        Option.bind (read_op I inp (unat block_size) s) (\<lambda>(amount, buf, inp, s).
          if amount \<le> 0 then Some (inp, outp, s)
          else Option.bind (write_op I outp buf s) (\<lambda>(_, outp, s).
            let written = written + word_of_int amount; pos = pos + stride
            in if pos \<ge> input_size \<and> stride = 0 then None
               else let (pos, block_size) =
                      (if pos \<ge> input_size then
                         let pos = pos mod stride + block_size
                         in (pos, if pos + block_size > stride then stride - pos else block_size)
                       else (pos, block_size))
                    in Option.bind (seek_op I inp (sint pos) s) (\<lambda>(r, inp, s).
                      if r \<ge> 0 then stride_loop I stride input_size pos written block_size inp outp s else None)))
      else Some (inp, outp, s))"

text \<open>
  The results of \<open>malloc\<close> and of \<open>io300_open\<close> are not checked. What \<open>exit\<close> leaves open stays open.
\<close>

definition stride_cat :: "'f io300 \<Rightarrow> string list \<Rightarrow> os \<Rightarrow> (int \<times> os) option" where
  "stride_cat I args s =
     (if length args \<noteq> 4 then Some (1, s)
      else let block_size = word_of_int (strtol (args ! 0)) :: u64; (ok, s) = sys_malloc (unat block_size) s
      in Option.bind (open_op I (args ! 2) red_in s) (\<lambda>(inp, s).
        case inp of
          None \<Rightarrow> None
        | Some inp \<Rightarrow> Option.bind (filesize_op I inp s) (\<lambda>(input_size, inp, s).
            if input_size < 0 then Some (1, s)
            else Option.bind (seek_op I inp 0 s) (\<lambda>(r, inp, s).
              if r < 0 then Some (1, s)
              else Option.bind (open_op I (args ! 3) green_out s) (\<lambda>(outp, s).
                if outp = None \<or> \<not> ok then None
                else let stride = word_of_int (strtol (args ! 1)) :: u64
                in Option.bind (stride_loop I stride (word_of_int input_size) 0 0 block_size inp (the outp) s) (\<lambda>(inp, outp, s).
                  close_both I inp outp 0 s))))))"

section \<open>The bytes read\<close>

text \<open>
  In the pass that reads the bytes whose position modulo the stride \<open>S\<close> is in \<open>{base..<base + blk}\<close>, and has come to \<open>pos\<close>, the
  positions read so far.
\<close>

definition covered :: "nat \<Rightarrow> nat \<Rightarrow> nat \<Rightarrow> nat \<Rightarrow> nat \<Rightarrow> nat set" where
  "covered N S base blk pos = {k. k < N \<and> (k mod S < base \<or> k mod S < base + blk \<and> k < pos)}"

lemma finite_covered [simp]: "finite (covered N S base blk pos)"
  by (rule finite_subset [of _ "{..<N}"]) (auto simp: covered_def)

lemma stride_residue:
  fixes pos S base blk d :: nat
  assumes "pos mod S = base" and "base + blk \<le> S" and "d < S"
  shows "base \<le> (pos + d) mod S \<and> (pos + d) mod S < base + blk \<longleftrightarrow> d < blk"
proof -
  have e: "(pos + d) mod S = (base + d) mod S" using assms(1) using mod_add_left_eq [of pos S d] assms(1) by simp
  show ?thesis
  proof (cases "base + d < S")
    case True
    then show ?thesis using e by simp
  next
    case False
    then have "(base + d) mod S = base + d - S" using assms by (simp add: mod_if)
    then show ?thesis using e False assms by auto
  qed
qed

lemma covered_next:
  assumes "pos mod S = base" and "base + blk \<le> S" and "S > 0"
  shows "covered N S base blk (pos + S) = covered N S base blk pos \<union> {pos..<min N (pos + blk)}"
    and "covered N S base blk pos \<inter> {pos..<min N (pos + blk)} = {}"
proof -
  have r: "base \<le> k mod S \<and> k mod S < base + blk \<longleftrightarrow> k < pos + blk" if "pos \<le> k" "k < pos + S" for k
    using stride_residue [OF assms(1,2), of "k - pos"] that by auto
  have le: "blk \<le> S" using assms(2) by simp
  show "covered N S base blk (pos + S) = covered N S base blk pos \<union> {pos..<min N (pos + blk)}"
  proof (intro set_eqI)
    fix k
    show "k \<in> covered N S base blk (pos + S) \<longleftrightarrow> k \<in> covered N S base blk pos \<union> {pos..<min N (pos + blk)}"
      using r [of k] le by (cases "pos \<le> k"; cases "k < pos + S") (auto simp: covered_def)
  qed
  show "covered N S base blk pos \<inter> {pos..<min N (pos + blk)} = {}"
  proof -
    have "k \<notin> covered N S base blk pos" if "k \<in> {pos..<min N (pos + blk)}" for k
      using r [of k] that le by (auto simp: covered_def)
    then show ?thesis by blast
  qed
qed

lemma covered_wrap:
  assumes "N \<le> pos + S" and "base + blk \<le> S"
  shows "covered N S base blk (pos + S) = covered N S (base + blk) blk' (base + blk)"
proof (intro set_eqI)
  fix k
  have "k mod S \<le> k" by simp
  then show "k \<in> covered N S base blk (pos + S) \<longleftrightarrow> k \<in> covered N S (base + blk) blk' (base + blk)"
    using assms by (auto simp: covered_def)
qed

lemma covered_all:
  assumes "base = S \<or> N \<le> base" and "S > 0"
  shows "covered N S base blk pos = {..<N}"
proof -
  have "k mod S < base" if "k < N" for k
    using assms(1) mod_less_divisor [OF assms(2), of k] mod_less_eq_dividend [of k S] that by linarith
  then show ?thesis by (auto simp: covered_def)
qed

lemma take_drop_nths: "take b (drop pos c) = map ((!) c) [pos..<min (length c) (pos + b)]"
  by (rule nth_equalityI) auto

text \<open>What has been written is what has been read, in some order.\<close>

definition written_from :: "u8 list \<Rightarrow> nat set \<Rightarrow> u8 list \<Rightarrow> bool" where
  "written_from c P xs \<longleftrightarrow> mset xs = image_mset ((!) c) (mset_set P)"

lemma written_from_next:
  assumes "written_from c P xs" and "finite P" and "P \<inter> {pos..<min (length c) (pos + b)} = {}"
  shows "written_from c (P \<union> {pos..<min (length c) (pos + b)}) (xs @ take b (drop pos c))"
proof -
  have "mset (take b (drop pos c)) = image_mset ((!) c) (mset_set {pos..<min (length c) (pos + b)})"
    unfolding take_drop_nths by (simp add: mset_upt)
  then show ?thesis using assms by (simp add: written_from_def mset_set_Union)
qed

lemma written_from_all: "written_from c {..<length c} xs \<longleftrightarrow> mset xs = mset c"
proof -
  have "mset c = image_mset ((!) c) (mset_set {..<length c})"
    by (metis atLeast0LessThan map_nth mset_map mset_upt)
  then show ?thesis by (simp add: written_from_def)
qed

lemma written_from_length: "written_from c P xs \<Longrightarrow> length xs = card P"
  unfolding written_from_def by (metis size_image_mset size_mset size_mset_set)

section \<open>The loop\<close>

abbreviation size_t :: "nat \<Rightarrow> u64" where
  "size_t n \<equiv> word_of_nat n"

lemma unat_size_t: "a < 2 ^ 64 \<Longrightarrow> unat (size_t a) = a"
  by (simp add: unat_of_nat_small)

lemma size_t_arith:
  assumes "a < 2 ^ 64" and "b < 2 ^ 64"
  shows "size_t a < size_t b \<longleftrightarrow> a < b" and "size_t a \<le> size_t b \<longleftrightarrow> a \<le> b" and "size_t a mod size_t b = size_t (a mod b)"
  unfolding word_less_nat_alt word_le_nat_alt unat_size_t [OF assms(1)] unat_size_t [OF assms(2)]
proof -
  have "unat (size_t (a mod b)) = a mod b" by (rule unat_size_t) (rule le_less_trans [OF mod_less_eq_dividend assms(1)])
  then show "size_t a mod size_t b = size_t (a mod b)"
    by (simp only: word_unat_eq_iff unat_mod_distrib unat_size_t [OF assms(1)] unat_size_t [OF assms(2)])
qed (rule refl)+

lemma size_t_diff: "b \<le> a \<Longrightarrow> size_t a - size_t b = size_t (a - b)"
  by (simp add: of_nat_diff)

lemma size_t_nonzero: "a < 2 ^ 64 \<Longrightarrow> a > 0 \<Longrightarrow> size_t a \<noteq> 0"
  using unat_size_t [of a] by auto

text \<open>The position and block size after a round that read at \<open>pos\<close>.\<close>

definition next_pos :: "nat \<Rightarrow> nat \<Rightarrow> nat \<Rightarrow> nat \<Rightarrow> nat \<times> nat" where
  "next_pos S N pos blk =
     (if pos + S < N then (pos + S, blk)
      else let pos = (pos + S) mod S + blk in (pos, if pos + blk > S then S - pos else blk))"

context io300_file begin

lemma stride_step:
  assumes "pair view p c i q (overlay out j xs) (j + length xs) s0 inp outp s" and "healthy clean inp outp s"
    and "i = pos" and "length c \<le> nat INT_MAX" "S \<le> nat INT_MAX" "blk \<le> S" "S > 0" "blk > 0" "pos < length c" "pos mod S + blk \<le> S" "w < length c"
    and "bs = take blk (drop pos c)" and "next_pos S (length c) pos blk = (pos', blk')"
  shows "\<exists>inp' outp' s'. stride_loop I (size_t S) (size_t (length c)) (size_t pos) (size_t w) (size_t blk) inp outp s =
      stride_loop I (size_t S) (size_t (length c)) (size_t pos') (size_t (w + length bs)) (size_t blk') inp' outp' s' \<and>
    healthy clean inp' outp' s' \<and> pair view p c pos' q (overlay out j (xs @ bs)) (j + length (xs @ bs)) s0 inp' outp' s'"
proof -
  have bd: "length c < 2 ^ 31" "S < 2 ^ 31" "pos < 2 ^ 31" "blk < 2 ^ 31" "w < 2 ^ 31" using assms(4-11) by simp_all
  have u: "unat (size_t blk) = blk" using bd(4) by (intro unat_size_t) simp
  obtain inp1 s1 where r: "read_op I inp blk s = Some (int (length bs), bs, inp1, s1)" "healthy clean inp1 outp s1"
    "pair view p c (pos + length bs) q (overlay out j xs) (j + length xs) s0 inp1 outp s1"
    using pair_read [OF assms(1,2), of blk] unfolding assms(3,12) by blast
  have b: "length bs > 0" "length bs \<le> blk" using assms(8,9,12) by simp_all
  obtain outp2 s2 where w: "write_op I outp bs s1 = Some (int (length bs), outp2, s2)" "healthy clean inp1 outp2 s2"
    "pair view p c (pos + length bs) q (overlay out j (xs @ bs)) (j + length (xs @ bs)) s0 inp1 outp2 s2"
    using pair_write [OF r(3,2), of bs] by (auto simp: overlay_append add.assoc)
  have m: "(pos + S) mod S < S" using assms(7) by simp
  have p': "pos' < 2 ^ 31" "pos' \<le> nat INT_MAX"
    using assms(4,5,7,9,10,13) bd by (auto simp: next_pos_def Let_def split: if_splits)
  obtain r3 inp3 s3 where k: "seek_op I inp1 (int pos') s2 = Some (r3, inp3, s3)" "r3 \<ge> 0" "healthy clean inp3 outp2 s3"
    "pair view p c pos' q (overlay out j (xs @ bs)) (j + length (xs @ bs)) s0 inp3 outp2 s3"
    using pair_seek [OF w(3,2), of "int pos'"] p'(2) by auto
  have si: "sint (size_t pos') = int pos'" using p'(1) by (simp add: signed_of_nat signed_take_bit_int_eq_self)
  have e: "size_t pos + size_t S = size_t (pos + S)" by simp
  have ge: "size_t (pos + S) \<ge> size_t (length c) \<longleftrightarrow> length c \<le> pos + S" using bd by (intro size_t_arith(2)) simp_all
  have nz: "size_t S \<noteq> 0" using bd assms(7) by (intro size_t_nonzero) simp_all
  have md: "size_t (pos + S) mod size_t S = size_t ((pos + S) mod S)" using bd by (intro size_t_arith(3)) simp_all
  define t where "t = (pos + S) mod S + blk"
  have t: "t \<le> S" unfolding t_def using assms(10) by simp
  have gt: "size_t (t + blk) > size_t S \<longleftrightarrow> t + blk > S" using bd t by (intro size_t_arith(1)) simp_all
  have df: "size_t S - size_t t = size_t (S - t)" using t by (rule size_t_diff)
  have a: "size_t ((pos + S) mod S) + size_t blk = size_t t" "size_t t + size_t blk = size_t (t + blk)" by (simp_all add: t_def)
  have nx: "(if size_t (pos + S) \<ge> size_t (length c) then
        let pos = size_t (pos + S) mod size_t S + size_t blk
        in (pos, if pos + size_t blk > size_t S then size_t S - pos else size_t blk)
      else (size_t (pos + S), size_t blk)) = (size_t pos', size_t blk')"
  proof (cases "pos + S < length c")
    case True
    then have "pos' = pos + S" "blk' = blk" using assms(13) by (simp_all add: next_pos_def)
    then show ?thesis using True by (simp only: ge) simp
  next
    case False
    then have "pos' = t" "blk' = (if t + blk > S then S - t else blk)"
      using assms(13) by (auto simp: next_pos_def t_def Let_def)
    then show ?thesis using False by (simp only: ge md Let_def a gt df) simp
  qed
  have am: "word_of_int (int (length bs)) = size_t (length bs)" by simp
  have "size_t w < size_t (length c)" using assms(11) bd by (subst size_t_arith(1)) simp_all
  then have "stride_loop I (size_t S) (size_t (length c)) (size_t pos) (size_t w) (size_t blk) inp outp s =
      stride_loop I (size_t S) (size_t (length c)) (size_t pos') (size_t (w + length bs)) (size_t blk') inp3 outp2 s3"
    using r(1) w(1) b(1) k(1,2) si nz
    by (subst stride_loop.simps) (simp add: u e nx del: of_nat_add, simp)
  with k(3,4) show ?thesis by blast
qed

text \<open>Either everything has been written, or the loop is about to read at \<open>pos\<close> in the pass from \<open>base\<close>.\<close>

lemma stride_loop_outcome:
  assumes "pair view p c i q (overlay out j xs) (j + length xs) s0 inp outp s" and "healthy clean inp outp s"
    and "length c \<le> nat INT_MAX" "S \<le> nat INT_MAX" "S > 0"
    and "mset xs = mset c \<or> (i = pos \<and> pos < length c \<and> blk > 0 \<and> pos mod S + blk \<le> S \<and>
      written_from c (covered (length c) S (pos mod S) blk pos) xs \<and> length xs < length c)"
  shows "\<exists>inp' outp' s' ys m. stride_loop I (size_t S) (size_t (length c)) (size_t pos) (size_t (length xs)) (size_t blk) inp outp s =
      Some (inp', outp', s') \<and> healthy clean inp' outp' s' \<and> mset ys = mset c \<and>
    pair view p c m q (overlay out j ys) (j + length ys) s0 inp' outp' s'"
  using assms(1,2,6)
proof (induction "length c - length xs" arbitrary: i xs pos blk inp outp s rule: less_induct)
  case less
  let ?N = "length c" and ?b = "pos mod S"
  show ?case
  proof (cases "mset xs = mset c")
    case True
    then have "length xs = length c" by (rule mset_eq_length)
    then have "stride_loop I (size_t S) (size_t ?N) (size_t pos) (size_t (length xs)) (size_t blk) inp outp s = Some (inp, outp, s)"
      by (subst stride_loop.simps) simp
    then show ?thesis using less(2,3) True by blast
  next
    case False
    then have st: "i = pos" "pos < ?N" "blk > 0" "?b + blk \<le> S" "written_from c (covered ?N S ?b blk pos) xs" "length xs < ?N" using less(4) by auto
    let ?bs = "take blk (drop pos c)"
    obtain pos' blk' where nx: "next_pos S ?N pos blk = (pos', blk')" by (cases "next_pos S ?N pos blk")
    have le: "blk \<le> S" using st(4) by simp
    obtain inp1 outp1 s1 where l: "stride_loop I (size_t S) (size_t ?N) (size_t pos) (size_t (length xs)) (size_t blk) inp outp s =
        stride_loop I (size_t S) (size_t ?N) (size_t pos') (size_t (length xs + length ?bs)) (size_t blk') inp1 outp1 s1"
      "healthy clean inp1 outp1 s1" "pair view p c pos' q (overlay out j (xs @ ?bs)) (j + length (xs @ ?bs)) s0 inp1 outp1 s1"
      using stride_step [OF less(2,3) st(1) assms(3,4) le assms(5) st(3,2,4,6) refl nx] by blast
    have w: "written_from c (covered ?N S ?b blk (pos + S)) (xs @ ?bs)"
      unfolding covered_next(1) [OF refl st(4) assms(5)]
      by (rule written_from_next [OF st(5) finite_covered covered_next(2) [OF refl st(4) assms(5)]])
    have fin: "length (xs @ ?bs) < ?N \<or> mset (xs @ ?bs) = mset c"
    proof -
      have sub: "covered ?N S ?b blk (pos + S) \<subseteq> {..<?N}" by (auto simp: covered_def)
      have "card (covered ?N S ?b blk (pos + S)) \<le> ?N" using card_mono [OF _ sub] by simp
      moreover have "covered ?N S ?b blk (pos + S) = {..<?N}" if "card (covered ?N S ?b blk (pos + S)) = ?N"
        using card_subset_eq [OF _ sub] that by simp
      ultimately show ?thesis using w written_from_length [OF w] written_from_all by (metis le_neq_implies_less)
    qed
    have next_inv: "mset (xs @ ?bs) = mset c \<or> (pos' = pos' \<and> pos' < ?N \<and> blk' > 0 \<and> pos' mod S + blk' \<le> S \<and>
      written_from c (covered ?N S (pos' mod S) blk' pos') (xs @ ?bs) \<and> length (xs @ ?bs) < ?N)"
    proof (cases "pos + S < ?N")
      case True
      then have "pos' = pos + S" "blk' = blk" "pos' mod S = ?b" using nx by (auto simp: next_pos_def)
      then show ?thesis using True st w fin by auto
    next
      case wrap: False
      then have n: "pos' = ?b + blk" "blk' = (if ?b + blk + blk > S then S - (?b + blk) else blk)" using nx by (auto simp: next_pos_def Let_def)
      have w': "written_from c (covered ?N S (?b + blk) blk' (?b + blk)) (xs @ ?bs)"
        using w covered_wrap [of ?N pos S ?b blk blk'] wrap st(4) by simp
      show ?thesis
      proof (cases "?b + blk = S \<or> ?N \<le> ?b + blk")
        case True
        then show ?thesis using w' unfolding covered_all [OF True assms(5)] written_from_all by simp
      next
        case False
        then have "pos' mod S = ?b + blk" "pos' < ?N" "blk' > 0" "?b + blk + blk' \<le> S" using n st(3,4) by auto
        then show ?thesis using w' fin n(1) by auto
      qed
    qed
    have "length ?bs > 0" using st(2,3) by simp
    then have "?N - length (xs @ ?bs) < ?N - length xs" using st(6) unfolding length_append by linarith
    from less(1) [OF this l(3,2) next_inv] l(1) show ?thesis by simp
  qed
qed

lemma stride_cat_permutes:
  assumes "answers s = []" and "openable p s" "openable q s" and "p \<noteq> q" and "length (contents p s) \<le> nat INT_MAX"
    and "strtol b = int blk" "strtol st = int S" "0 < blk" "blk \<le> S" "S \<le> nat INT_MAX"
  shows "\<exists>ys. mset ys = mset (contents p s) \<and> delivers (stride_cat I [b, st, p, q] s) q ys s"
proof -
  let ?c = "contents p s" and ?o = "contents q s"
  have bd: "blk < 2 ^ 31" "S < 2 ^ 31" using assms(9,10) by simp_all
  have m: "sys_malloc (unat (size_t blk)) s = (True, s)"
    using healthy_malloc [OF assms(1), of "unat (size_t blk)"] unat_size_t [of blk] bd by simp
  obtain r1 s1 where o1: "open_op I p red_in s = Some (r1, s1)" "others view p s s1" "contents p s1 = ?c"
    "case r1 of None \<Rightarrow> answers s \<noteq> [] \<or> \<not> openable p s | Some f \<Rightarrow> view f s1 = Some (p, ?c, 0) \<and> clean f"
    using open_law [of p red_in s] by blast
  then obtain inp where i: "r1 = Some inp" "view inp s1 = Some (p, ?c, 0)" "clean inp" using assms by (cases r1) auto
  have sg: "single view clean p ?c 0 s inp s1" using othersD(1,4) [OF o1(2)] i assms(1) by (simp add: single_def)
  then have a1: "answers s1 = []" by (simp add: single_def)
  obtain inp2 s2 where fs: "filesize_op I inp s1 = Some (int (length ?c), inp2, s2)" "becomes view clean inp s1 p ?c 0 inp2 s2"
    using filesize_law [OF i(2)] a1 o1(3) by auto
  obtain r3 inp3 s3 where k: "seek_op I inp2 0 s2 = Some (r3, inp3, s3)" "r3 \<ge> 0" "single view clean p ?c 0 s inp3 s3"
    using single_seek [OF single_becomes [OF sg fs(2)], of 0] by auto
  have v3: "view inp3 s3 = Some (p, ?c, 0)" "answers s3 = []" "clean inp3" "\<forall>r. r \<noteq> p \<longrightarrow> files s3 r = files s r" using k(3) by (simp_all add: single_def)
  then have q3: "openable q s3" "contents q s3 = ?o" using openable_law [OF assms(3)] contents_cong [of s3 q s] assms(4) by simp_all
  obtain r4 s4 where o4: "open_op I q green_out s3 = Some (r4, s4)" "others view q s3 s4" "contents q s4 = contents q s3"
    "case r4 of None \<Rightarrow> answers s3 \<noteq> [] \<or> \<not> openable q s3 | Some f \<Rightarrow> view f s4 = Some (q, contents q s3, 0) \<and> clean f"
    using open_law [of q green_out s3] by blast
  then obtain outp where ou: "r4 = Some outp" "view outp s4 = Some (q, ?o, 0)" "clean outp" using v3 q3 by (cases r4) auto
  have pr: "pair view p ?c 0 q (overlay ?o 0 []) (0 + length []) s inp3 outp s4" "healthy clean inp3 outp s4"
    using othersD(1,3,4) [OF o4(2)] v3 ou assms(4) by (simp_all add: pair_def healthy_def)
  have init: "mset [] = mset ?c \<or> ((0 :: nat) = 0 \<and> 0 < length ?c \<and> blk > 0 \<and> 0 mod S + blk \<le> S \<and>
      written_from ?c (covered (length ?c) S (0 mod S) blk 0) [] \<and> length [] < length ?c)"
    using assms(8,9) by (cases ?c) (simp_all add: written_from_def covered_def)
  obtain inp5 outp5 s5 ys n where l: "stride_loop I (size_t S) (size_t (length ?c)) 0 0 (size_t blk) inp3 outp s4 = Some (inp5, outp5, s5)"
    "healthy clean inp5 outp5 s5" "mset ys = mset ?c" "pair view p ?c n q (overlay ?o 0 ys) (length ys) s inp5 outp5 s5"
    using stride_loop_outcome [OF pr assms(5,10) less_le_trans [OF assms(8,9)] init] by auto
  have "stride_cat I [b, st, p, q] s = close_both I inp5 outp5 0 s5"
    using m fs(1) k(1,2) o4(1) l(1) by (simp add: stride_cat_def Let_def assms(6,7) o1(1) i(1) ou(1))
  then show ?thesis using pair_delivers [OF l(4,2)] l(3) by auto
qed

end

text \<open>
  C15. \<open>stride_cat\<close> shuffles: if no call fails and the block size is positive and at most the stride, it returns 0 and the output starts
  with all bytes of the input, each as often as the input has it, in some order; no other file changes.
\<close>

theorem stride_cat_shuffles:
  assumes "answers s = []" and "p \<noteq> q" and "length (contents p s) \<le> nat INT_MAX" and "files s p \<noteq> None"
    and "strtol b = int blk" "strtol st = int S" "0 < blk" "blk \<le> S" "S \<le> nat INT_MAX"
  shows "(\<exists>ys. mset ys = mset (contents p s) \<and> delivers (stride_cat naive_io [b, st, p, q] s) q ys s) \<and>
    (\<exists>ys. mset ys = mset (contents p s) \<and> delivers (stride_cat (student_io heap) [b, st, p, q] s) q ys s) \<and>
    (files s q \<noteq> None \<longrightarrow> (\<exists>ys. mset ys = mset (contents p s) \<and> delivers (stride_cat stdio_io [b, st, p, q] s) q ys s))"
  using naive.stride_cat_permutes [OF assms(1) TrueI TrueI assms(2,3,5-9)] student.stride_cat_permutes [OF assms(1) TrueI TrueI assms(2,3,5-9)]
    stdio.stride_cat_permutes [OF assms(1,4) _ assms(2,3,5-9)]
  by blast

theorem stride_cat_shuffles_witness:
  "\<exists>ys s'. stride_cat stdio_io [''1'', ''2'', ''a'', ''b''] sample_os = Some (0, s') \<and> contents ''b'' s' = ys @ [9] \<and> mset ys = mset [1, 2, 3]"
proof -
  have n: "strtol ''1'' = int 1" "strtol ''2'' = int 2" by (simp_all add: strtol_def is_ws_def is_dec_digit_def)
  have "files sample_os ''a'' \<noteq> None" by (simp add: sample_os_def)
  then obtain ys where y: "mset ys = mset (contents ''a'' sample_os)" "delivers (stride_cat stdio_io [''1'', ''2'', ''a'', ''b''] sample_os) ''b'' ys sample_os"
    using stride_cat_shuffles [of sample_os "''a''" "''b''", OF _ _ _ _ n] sample_os_facts by auto
  have "length ys = 3" using mset_eq_length [OF y(1)] sample_os_facts by simp
  then show ?thesis using y by (auto simp: delivers_def sample_os_facts)
qed

end
