(* ===== verification/KernelFrame.thy ===== *)
theory KernelFrame
  imports Resume
begin

text \<open>
  What the kernel leaves alone while it serves a process: entering it, showing memory, polling the keyboard and
  scheduling neither touch the memory of processes nor the pages above \<open>PROC_START_ADDR\<close>, and they keep the state,
  the number and the page table of every process. The memory viewer takes a page when it first runs; it is a page of low memory.
\<close>

section \<open>Undisturbed processes\<close>

text \<open>The viewer has its page, or page 1 is free and the next that \<open>kalloc\<close> tries.\<close>

definition viewer_ready :: "kernel \<Rightarrow> bool" where
  "viewer_ready s =
     (length (pages (frames s)) = 512 \<and>
      (mu_page s \<noteq> 0 \<or> (next_alloc_pa (frames s) = 0 \<or> next_alloc_pa (frames s) = PAGESIZE) \<and> pages (frames s) ! 1 = 0))"

definition same_procs :: "kernel \<Rightarrow> kernel \<Rightarrow> bool" where
  "same_procs s t =
     (map pstate (ptable t) = map pstate (ptable s) \<and> map pid (ptable t) = map pid (ptable s) \<and>
      map pagetable (ptable t) = map pagetable (ptable s) \<and>
      (current t = current s \<or> current t < length (ptable s) \<and> pstate (ptable s ! current t) = P_RUNNABLE))"

definition same_area :: "kernel \<Rightarrow> kernel \<Rightarrow> bool" where
  "same_area s t =
     ((\<forall>k. 256 \<le> k \<longrightarrow> pages (frames t) ! k = pages (frames s) ! k) \<and> (\<forall>a. 0x100000 \<le> a \<longrightarrow> mem t a = mem s a))"

definition undisturbed :: "kernel \<Rightarrow> kernel \<Rightarrow> bool" where
  "undisturbed s t = (viewer_ready s \<longrightarrow> viewer_ready t \<and> same_procs s t \<and> same_area s t)"

text \<open>The states in which an operation ends by returning or by resuming a process, rather than by failing.\<close>

definition goes_on :: "'a result \<Rightarrow> kernel \<Rightarrow> bool" where
  "goes_on r t = ((\<exists>x. r = return x t) \<or> (\<exists>j. r = stop (Resumed j) t))"

definition leaves :: "kernel \<Rightarrow> 'a result \<Rightarrow> bool" where
  "leaves s r = (\<forall>t. goes_on r t \<longrightarrow> undisturbed s t)"

named_theorems respectful \<open>operations that leave processes undisturbed\<close>

lemma undisturbed_refl [simp]: "undisturbed s s"
  by (simp add: undisturbed_def same_procs_def same_area_def)

lemma same_procs_length: "same_procs s t \<Longrightarrow> length (ptable t) = length (ptable s)"
  unfolding same_procs_def by (metis length_map)

lemma same_procs_nth: "same_procs s t \<Longrightarrow> i < length (ptable s) \<Longrightarrow>
    pstate (ptable t ! i) = pstate (ptable s ! i) \<and> pid (ptable t ! i) = pid (ptable s ! i) \<and>
    pagetable (ptable t ! i) = pagetable (ptable s ! i)"
  using same_procs_length [of s t] unfolding same_procs_def by (metis nth_map)

lemma same_procs_trans:
  assumes "same_procs s t" and "same_procs t u"
  shows "same_procs s u"
proof (cases "current u = current t")
  case True
  with assms show ?thesis by (simp add: same_procs_def)
next
  case False
  with assms(2) have "current u < length (ptable s)" "pstate (ptable t ! current u) = P_RUNNABLE"
    using same_procs_length [OF assms(1)] by (simp_all add: same_procs_def)
  with same_procs_nth [OF assms(1)] assms show ?thesis by (simp add: same_procs_def)
qed

lemma undisturbed_trans: "undisturbed s t \<Longrightarrow> undisturbed t u \<Longrightarrow> undisturbed s u"
  using same_procs_trans [of s t u] by (simp add: undisturbed_def same_area_def)

lemma undisturbed_same:
  "ptable t = ptable s \<Longrightarrow> current t = current s \<Longrightarrow> frames t = frames s \<Longrightarrow> mem t = mem s \<Longrightarrow> mu_page t = mu_page s \<Longrightarrow> undisturbed s t"
  by (simp add: undisturbed_def same_procs_def same_area_def viewer_ready_def)

lemma goes_on_simps [simp]:
  "\<not> goes_on None t" "goes_on (return x s) t \<longleftrightarrow> t = s" "goes_on (stop oc s) t \<longleftrightarrow> t = s \<and> (\<exists>j. oc = Resumed j)"
  by (auto simp: goes_on_def)

lemma goes_on_andthen: "goes_on (andthen r f) t \<Longrightarrow> goes_on r t \<or> (\<exists>x u. r = return x u \<and> goes_on (f x u) t)"
  by (auto simp: goes_on_def andthen_cases)

lemma leaves_return [respectful]: "undisturbed s t \<Longrightarrow> leaves s (return x t)"
  by (simp add: leaves_def)

lemma leaves_fails [respectful]: "(\<And>j. oc \<noteq> Resumed j) \<Longrightarrow> leaves s (stop oc t)"
  by (auto simp: leaves_def)

lemma leaves_resumes: "undisturbed s t \<Longrightarrow> leaves s (stop (Resumed j) t)"
  by (simp add: leaves_def)

lemma leaves_None [respectful]: "leaves s None"
  by (simp add: leaves_def)

lemma leaves_andthen [respectful]:
  assumes "leaves s r" and "\<And>x t. r = return x t \<Longrightarrow> leaves t (f x t)"
  shows "leaves s (andthen r f)"
  unfolding leaves_def
proof (intro allI impI)
  fix t assume "goes_on (andthen r f) t"
  from goes_on_andthen [OF this] show "undisturbed s t"
  proof
    assume "\<exists>x u. r = return x u \<and> goes_on (f x u) t"
    then obtain x u where r: "r = return x u" and f: "goes_on (f x u) t" by blast
    have "undisturbed s u" using assms(1) r by (simp add: leaves_def)
    moreover have "undisturbed u t" using assms(2) [OF r] f by (simp add: leaves_def)
    ultimately show ?thesis by (rule undisturbed_trans)
  qed (use assms(1) in \<open>simp add: leaves_def\<close>)
qed

lemma leaves_after: "undisturbed s t \<Longrightarrow> leaves t r \<Longrightarrow> leaves s r"
  unfolding leaves_def using undisturbed_trans by blast

lemma leaves_if [respectful]: "(b \<Longrightarrow> leaves s r) \<Longrightarrow> (\<not> b \<Longrightarrow> leaves s q) \<Longrightarrow> leaves s (if b then r else q)"
  by simp

lemma leaves_lift [respectful]: "(\<And>e. leaves s (f e)) \<Longrightarrow> (\<And>v. leaves s (g v)) \<Longrightarrow> leaves s (Option.bind r (case_sum f g))"
  by (cases r) (auto simp: leaves_None split: sum.split)

lemma leaves_recursion: "(\<And>y. r = Some y \<Longrightarrow> leaves s (Some y)) \<Longrightarrow> leaves s r"
  by (cases r) (simp_all add: leaves_None)

section \<open>Operations below the scheduler\<close>

lemma k_log_leaves [respectful]: "leaves s (k_log fmt args s)"
  by (auto simp: k_log_def intro!: respectful undisturbed_same split: option.split)

lemma k_print_leaves [respectful]: "leaves s (k_print cpos color fmt args s)"
  by (auto simp: k_print_def intro!: respectful undisturbed_same split: option.split)

lemma k_error_leaves [respectful]: "leaves s (k_error cpos color fmt args s)"
  by (auto simp: k_error_def intro!: respectful undisturbed_same split: option.split)

text \<open>A failed assertion or a panic never goes on.\<close>

lemma never_goes_on: "plain s r \<Longrightarrow> (\<And>x t. r \<noteq> return x t) \<Longrightarrow> leaves s' r"
  by (auto simp: leaves_def goes_on_def plain_def)

lemma assert_fail_leaves [respectful]: "leaves s' (assert_fail M file line msg s)"
  by (rule never_goes_on [OF assert_fail_plain [OF refl refl]]) (simp add: assert_fail_def Let_def andthen_return)

lemma panic_leaves [respectful]: "leaves s' (panic msg s)"
  by (rule never_goes_on [OF panic_plain [OF refl refl]]) (simp add: panic_def Let_def andthen_return)

lemma k_assert_leaves [respectful]: "leaves s (k_assert M file line msg b s)"
  by (simp add: k_assert_def respectful)

lemma check_keyboard_keeps_memory: "check_keyboard L inp k m = (KeyReturn c, k', m') \<Longrightarrow> m' = m"
  by (auto simp: check_keyboard_def split: prod.splits if_splits)

lemma k_check_keyboard_leaves [respectful]: "leaves s (k_check_keyboard M s)"
proof -
  obtain act k m where c: "check_keyboard (lay M) (keys M (reads s)) (keyboard s) (mem s) = (act, k, m)" by (metis prod_cases3)
  show ?thesis
    using check_keyboard_keeps_memory [of "lay M" "keys M (reads s)" "keyboard s" "mem s"] c
    by (cases act) (auto simp: k_check_keyboard_def Let_def intro!: respectful undisturbed_same)
qed

section \<open>The memory viewer\<close>

lemma low_page_allocatable: "allocatable_physical_address L 0x1000" "\<not> allocatable_physical_address L 0"
  by (simp_all add: allocatable_physical_address_def reserved_physical_address_def addr_consts page_consts)

lemma kalloc_low:
  assumes "next_alloc_pa f = 0 \<or> next_alloc_pa f = PAGESIZE" and "pages f ! 1 = 0"
  shows "kalloc L PAGESIZE f m = (0x1000, f\<lparr>next_alloc_pa := 0x2000, pages := (pages f)[1 := 1]\<rparr>, snd (memset 0x1000 0xCC PAGESIZE m))"
proof -
  have l: "kalloc_loop L g m = (0x1000, g\<lparr>next_alloc_pa := 0x2000, pages := (pages g)[1 := 1]\<rparr>, snd (memset 0x1000 0xCC PAGESIZE m))"
    if "next_alloc_pa g = 0x1000" "pages g ! 1 = 0" for g
    using that by (simp add: kalloc_loop.simps [of L g] Let_def low_page_allocatable used_def page_of_def page_consts addr_consts)
  show ?thesis
  proof (cases "next_alloc_pa f = 0")
    case True
    then have "kalloc L PAGESIZE f m = kalloc_loop L (f\<lparr>next_alloc_pa := 0x1000\<rparr>) m"
      by (simp add: kalloc_def kalloc_loop.simps [of L f] Let_def low_page_allocatable page_consts addr_consts)
    with l [of "f\<lparr>next_alloc_pa := 0x1000\<rparr>"] assms(2) show ?thesis by simp
  next
    case False
    with assms l [of f] show ?thesis by (simp add: kalloc_def page_consts)
  qed
qed

lemma memset_low: "0x100000 \<le> a \<Longrightarrow> snd (memset 0x1000 c PAGESIZE m) a = m a"
proof -
  assume a: "0x100000 \<le> (a :: u64)"
  then have "\<not> unat (a - 0x1000) < 4096" by (simp add: unat_sub word_le_nat_alt)
  then show ?thesis by (simp add: memset_def page_consts fill_up_eq)
qed

lemma viewer_takes_low_page:
  assumes "mu_page s = 0" and "kalloc (lay M) PAGESIZE (frames s) (mem s) = (pa, f, m)"
  shows "undisturbed s (s\<lparr>frames := f, mem := m, mu_page := pa\<rparr>)"
proof (cases "viewer_ready s")
  case True
  then have v: "length (pages (frames s)) = 512" "next_alloc_pa (frames s) = 0 \<or> next_alloc_pa (frames s) = PAGESIZE" "pages (frames s) ! 1 = 0"
    using assms(1) by (simp_all add: viewer_ready_def)
  from kalloc_low [OF v(2,3), of "lay M" "mem s"] assms(2)
  have "pa = 0x1000" "f = frames s\<lparr>next_alloc_pa := 0x2000, pages := (pages (frames s))[1 := 1]\<rparr>" "m = snd (memset 0x1000 0xCC PAGESIZE (mem s))"
    by simp_all
  then show ?thesis using v(1) by (simp add: undisturbed_def viewer_ready_def same_procs_def same_area_def memset_low)
qed (simp add: undisturbed_def)

lemma refresh_leaves [respectful]: "leaves s (refresh M s)"
proof -
  obtain pa f m where k: "kalloc (lay M) PAGESIZE (frames s) (mem s) = (pa, f, m)" by (metis prod_cases3)
  have "leaves s (if mu_page s = 0 then let (pa, f, m) = kalloc (lay M) PAGESIZE (frames s) (mem s); s = s\<lparr>frames := f, mem := m, mu_page := pa\<rparr>
      in k_assert M ''k-memviewer.cc'' 72 ''v_ != nullptr'' (pa \<noteq> 0) s else return () s)"
    unfolding k Let_def prod.case
    by (intro respectful leaves_after [OF viewer_takes_low_page [OF _ k] k_assert_leaves]) simp_all
  then show ?thesis unfolding refresh_def
    by (rule leaves_andthen) (auto intro!: respectful undisturbed_same)
qed

lemma symbol_at_leaves [respectful]: "leaves s (symbol_at M pa s)"
  by (auto simp: symbol_at_def page_error_def Let_def intro!: respectful split: prod.split option.split)

lemma set_cell_leaves [respectful]: "leaves s (set_cell c ch s)"
  by (auto simp: set_cell_def intro!: respectful undisturbed_same)

lemma row_label_leaves [respectful]: "leaves s (row_label row pn a s)"
  by (auto simp: row_label_def intro!: respectful)

lemma draw_physical_leaves [respectful]: "leaves s (draw_physical M pns s)"
  by (induction pns arbitrary: s) (auto intro!: respectful)

lemma draw_virtual_leaves [respectful]: "leaves s (draw_virtual M it s)"
proof (rule leaves_recursion)
  fix y assume b: "draw_virtual M it s = Some y"
  show "leaves s (Some y)"
    apply (rule draw_virtual.raw_induct [where P = "\<lambda>M it s y. leaves s (Some y)", OF _ b])
    subgoal premises prems for dv M it s x
    proof -
      have [respectful]: "leaves u (dv M i u)" for i u by (rule leaves_recursion) (rule prems(1))
      show "leaves s (Some x)" unfolding prems(2) [symmetric] Let_def
        by (auto intro!: respectful split: sum.split)
    qed
    done
qed

lemma console_memviewer_leaves [respectful]: "leaves s (console_memviewer M vmp s)"
proof -
  have [respectful]: "leaves s (console_memviewer_virtual M p s)" for M p s
    by (auto simp: console_memviewer_virtual_def intro!: respectful split: sum.split)
  show ?thesis by (auto simp: console_memviewer_def intro!: respectful split: option.split)
qed

lemma memshow_leaves [respectful]: "leaves s (memshow M s)"
  unfolding memshow_def Let_def
  by (auto intro!: leaves_after [OF _ console_memviewer_leaves] undisturbed_same simp: switch_shown_def split: prod.split)

section \<open>The scheduler and the entries to the kernel\<close>

lemma run_leaves:
  assumes "i < length (ptable s)"
  shows "leaves s (run M i s)"
proof -
  have "leaves t (andthen (k_check_pagetable M (pagetable (ptable t ! i)) (t\<lparr>current := i\<rparr>)) (\<lambda>_ s. stop (Resumed i) s))"
    if "k_assert M f l m (pstate (ptable s ! i) = P_RUNNABLE) s = return y t" for t f l m y
  proof -
    have t: "t = s" "pstate (ptable s ! i) = P_RUNNABLE"
      using that by (auto simp: k_assert_def assert_fail_def Let_def andthen_return split: if_splits)
    have "undisturbed s (s\<lparr>current := i\<rparr>)"
      using t(2) assms by (auto simp: undisturbed_def same_procs_def same_area_def viewer_ready_def)
    moreover have "leaves u (andthen (k_check_pagetable M tbl u) (\<lambda>_ s. stop (Resumed i) s))" for tbl u
      by (auto simp: k_check_pagetable_def intro!: respectful leaves_resumes split: sum.split)
    ultimately show ?thesis unfolding t(1) using leaves_after by blast
  qed
  then show ?thesis unfolding run_def Let_def by (intro leaves_andthen [OF k_assert_leaves]) simp
qed

lemma keyboard_keeps_procs: "k_check_keyboard M s = return y t \<Longrightarrow> ptable t = ptable s"
  by (auto simp: k_check_keyboard_def Let_def split: prod.splits key_action.splits)

lemma showing_keeps_procs:
  assumes "(if b then andthen (memshow M s) (\<lambda>_ s. k_log fmt args s) else return () s) = return y t"
  shows "ptable t = ptable s"
proof -
  have "plain s (if b then andthen (memshow M s) (\<lambda>_ s. k_log fmt args s) else return () s)"
    by (intro plain_if plain_andthen memshow_plain k_log_plain plain_return) auto
  with assms show ?thesis by (simp add: plain_def final_state_def)
qed

text \<open>One turn of the scheduler's loop, whatever stands for the next one.\<close>

lemma schedule_turn_leaves:
  assumes rec: "\<And>n i u. length (ptable u) = NPROC \<Longrightarrow> leaves u (sl n i u)" and l: "length (ptable s) = NPROC"
  shows "leaves s (let i = (i + 1) mod NPROC
      in if pstate (ptable s ! i) = P_RUNNABLE then run M i s
         else andthen (k_check_keyboard M s) (\<lambda>_ s.
              andthen (if spins mod 4096 = 0 then andthen (memshow M s) (\<lambda>_ s. k_log (ascii ''%u'' @ [10]) [AInt spins] s) else return () s)
                (\<lambda>_ s. sl (spins + 1) i s)))"
  unfolding Let_def
proof (rule leaves_if)
  show "leaves s (run M ((i + 1) mod NPROC) s)" using l by (intro run_leaves) (simp add: NPROC_def)
  show "leaves s (andthen (k_check_keyboard M s) (\<lambda>_ s.
      andthen (if spins mod 4096 = 0 then andthen (memshow M s) (\<lambda>_ s. k_log (ascii ''%u'' @ [10]) [AInt spins] s) else return () s)
        (\<lambda>_ s. sl (spins + 1) ((i + 1) mod NPROC) s)))"
  proof (rule leaves_andthen [OF k_check_keyboard_leaves])
    fix y t assume k: "k_check_keyboard M s = return y t"
    show "leaves t (andthen (if spins mod 4096 = 0 then andthen (memshow M t) (\<lambda>_ s. k_log (ascii ''%u'' @ [10]) [AInt spins] s) else return () t)
        (\<lambda>_ s. sl (spins + 1) ((i + 1) mod NPROC) s))"
    proof (rule leaves_andthen)
      show "leaves t (if spins mod 4096 = 0 then andthen (memshow M t) (\<lambda>_ s. k_log (ascii ''%u'' @ [10]) [AInt spins] s) else return () t)"
        by (intro leaves_if leaves_andthen memshow_leaves k_log_leaves leaves_return undisturbed_refl)
      fix z u
      assume "(if spins mod 4096 = 0 then andthen (memshow M t) (\<lambda>_ s. k_log (ascii ''%u'' @ [10]) [AInt spins] s) else return () t) = return z u"
      from showing_keeps_procs [OF this] keyboard_keeps_procs [OF k] l show "leaves u (sl (spins + 1) ((i + 1) mod NPROC) u)" by (intro rec) simp
    qed
  qed
qed

lemma schedule_leaves [respectful]:
  assumes "length (ptable s) = NPROC"
  shows "leaves s (schedule M s)"
proof -
  have "length (ptable s) = NPROC \<longrightarrow> leaves s (Some y)" if "schedule_loop M n i s = Some y" for n i y
    apply (rule schedule_loop.raw_induct [where P = "\<lambda>M n i s y. length (ptable s) = NPROC \<longrightarrow> leaves s (Some y)", OF _ that])
    subgoal premises prems for sl M n i s x
    proof
      assume l: "length (ptable s) = NPROC"
      have rec: "leaves u (sl M m j u)" if "length (ptable u) = NPROC" for m j u
        by (rule leaves_recursion) (rule prems(1) [rule_format, OF _ that])
      show "leaves s (Some x)" unfolding prems(2) [symmetric] by (rule schedule_turn_leaves [where sl = "sl M", OF rec l])
    qed
    done
  then have "leaves s (schedule_loop M n i s)" for n i by (rule leaves_recursion [OF mp [OF _ assms]])
  then show ?thesis by (simp add: schedule_def)
qed

text \<open>Saving registers and showing the cursor.\<close>

lemma update_regs_undisturbed:
  assumes "\<And>p. pstate (f p) = pstate p \<and> pid (f p) = pid p \<and> pagetable (f p) = pagetable p"
  shows "undisturbed s (update_proc i f s)"
proof -
  have m: "map g ((ptable s)[i := f (ptable s ! i)]) = map g (ptable s)" if "\<And>p. g (f p) = g p" for g :: "proc \<Rightarrow> 'b"
    using that by (cases "i < length (ptable s)") (simp_all add: map_update list_update_same_conv list_update_beyond)
  show ?thesis using assms by (simp add: undisturbed_def same_procs_def same_area_def viewer_ready_def update_proc_def m)
qed

lemma entry_undisturbed: "undisturbed s (show_cursor (update_proc i (\<lambda>p. p\<lparr>regs := r\<rparr>) s))"
  by (rule undisturbed_trans [OF update_regs_undisturbed undisturbed_same]) (simp_all add: show_cursor_def)

lemma entry_procs: "length (ptable (show_cursor (update_proc i f s))) = length (ptable s)" "current (show_cursor (update_proc i f s)) = current s"
  by (simp_all add: show_cursor_def update_proc_def)

text \<open>The scheduler never returns.\<close>

lemma andthen_never: "(\<And>x t. r = return x t \<Longrightarrow> f x t \<noteq> return y u) \<Longrightarrow> andthen r f \<noteq> return y u"
  by (auto simp: andthen_return)

lemma run_never_returns: "run M i s \<noteq> return y t"
  by (auto simp: run_def Let_def andthen_return)

lemma schedule_turn_never_returns:
  assumes "\<And>n i u y t. sl n i u \<noteq> return y t"
  shows "(let i = (i + 1) mod NPROC
      in if pstate (ptable s ! i) = P_RUNNABLE then run M i s
         else andthen (k_check_keyboard M s) (\<lambda>_ s.
              andthen (if spins mod 4096 = 0 then andthen (memshow M s) (\<lambda>_ s. k_log (ascii ''%u'' @ [10]) [AInt spins] s) else return () s)
                (\<lambda>_ s. sl (spins + 1) i s))) \<noteq> return y t"
  unfolding Let_def by (simp add: andthen_return assms run_never_returns)

lemma schedule_never_returns: "schedule M s \<noteq> return y t"
proof -
  have "\<forall>y t. x \<noteq> Inr (y, t)" if "schedule_loop M n i s = Some x" for n i x
    apply (rule schedule_loop.raw_induct [where P = "\<lambda>M n i s x. \<forall>y t. x \<noteq> Inr (y, t)", OF _ that])
    subgoal premises prems for sl M n i s x
    proof -
      have r: "sl M m j u \<noteq> return y t" for m j u y t using prems(1) by blast
      have "Some x \<noteq> return y t" for y t unfolding prems(2) [symmetric] by (rule schedule_turn_never_returns [where sl = "sl M", OF r])
      then show ?thesis by simp
    qed
    done
  then show ?thesis unfolding schedule_def by blast
qed

text \<open>A timer interrupt.\<close>

lemma timer_leaves:
  assumes "length (ptable s) = NPROC" and "reg_intno r = INT_IRQ + IRQ_TIMER"
  shows "leaves s (exception M addr r s)"
proof -
  define s1 where "s1 = show_cursor (update_proc (current s) (\<lambda>p. p\<lparr>regs := r\<rparr>) s)"
  have s1: "undisturbed s s1" "length (ptable s1) = NPROC" using assms(1) by (simp_all add: s1_def entry_undisturbed entry_procs)
  have d: "leaves u (dispatch M addr r u)" if "length (ptable u) = NPROC" for u
    unfolding dispatch_def if_P [OF assms(2)]
  proof (rule leaves_andthen)
    show "leaves u (schedule M (u\<lparr>ticks := ticks u + 1, eois := eois u + 1\<rparr>))"
      using that by (intro leaves_after [OF undisturbed_same schedule_leaves]) simp_all
  qed (simp add: schedule_never_returns)
  have m: "ptable v = ptable u" if "(if b then memshow M u else return () u) = return y v" for b u v y
    using that memshow_plain [of u M] by (auto simp: plain_def final_state_def split: if_splits)
  have "leaves s1 (andthen (if b then memshow M s1 else return () s1) (\<lambda>_ s. andthen (k_check_keyboard M s) (\<lambda>_ s. dispatch M addr r s)))" for b
  proof (rule leaves_andthen)
    show "leaves s1 (if b then memshow M s1 else return () s1)" by (intro leaves_if memshow_leaves leaves_return undisturbed_refl)
    fix y u assume "(if b then memshow M s1 else return () s1) = return y u"
    then have u: "length (ptable u) = NPROC" using m s1(2) by metis
    show "leaves u (andthen (k_check_keyboard M u) (\<lambda>_ s. dispatch M addr r s))"
    proof (rule leaves_andthen [OF k_check_keyboard_leaves])
      fix z v assume "k_check_keyboard M u = return z v"
      from keyboard_keeps_procs [OF this] u show "leaves v (dispatch M addr r v)" by (intro d) simp
    qed
  qed
  from leaves_after [OF s1(1) this] show ?thesis by (simp only: exception_def Let_def s1_def)
qed

text \<open>The part of a system call before the switch on its number.\<close>

definition syscall_entry :: "machine \<Rightarrow> regstate \<Rightarrow> kernel \<Rightarrow> int result" where
  "syscall_entry M r s =
     (let s = show_cursor (update_proc (current s) (\<lambda>p. p\<lparr>regs := r\<rparr>) s) in andthen (memshow M s) (\<lambda>_ s. k_check_keyboard M s))"

lemma entry_leaves [respectful]: "leaves s (syscall_entry M r s)"
  unfolding syscall_entry_def Let_def
  by (rule leaves_after [OF entry_undisturbed leaves_andthen [OF memshow_leaves k_check_keyboard_leaves]])

lemma entry_keeps_procs:
  assumes "syscall_entry M r s = return y t"
  shows "ptable t = (ptable s)[current s := (ptable s ! current s)\<lparr>regs := r\<rparr>]" "current t = current s"
proof -
  have "plain (show_cursor (update_proc (current s) (\<lambda>p. p\<lparr>regs := r\<rparr>) s)) (syscall_entry M r s)"
    unfolding syscall_entry_def Let_def by (intro plain_andthen memshow_plain k_check_keyboard_plain)
  with assms show "ptable t = (ptable s)[current s := (ptable s ! current s)\<lparr>regs := r\<rparr>]" "current t = current s"
    by (simp_all add: plain_def final_state_def show_cursor_def update_proc_def)
qed

lemma andthen_assoc: "andthen (andthen r f) g = andthen r (\<lambda>x s. andthen (f x s) g)"
  by (cases r) (auto simp: andthen_def split: sum.split)

lemma syscall_after_entry:
  "syscall M r s = andthen (syscall_entry M r s) (\<lambda>_ s.
     if reg_rax r = SYSCALL_PANIC then panic None s
     else if reg_rax r = SYSCALL_GETPID then return (word_of_int (pid (ptable s ! current s))) s
     else if reg_rax r = SYSCALL_YIELD then
       andthen (schedule M (update_proc (current s) (\<lambda>p. p\<lparr>regs := (regs p)\<lparr>reg_rax := 0\<rparr>\<rparr>) s)) (\<lambda>_ s. return 0 s)
     else if reg_rax r = SYSCALL_PAGE_ALLOC then syscall_page_alloc M (reg_rdi (regs (ptable s ! current s))) s
     else if reg_rax r = SYSCALL_FORK then syscall_fork s
     else if reg_rax r = SYSCALL_EXIT then andthen (syscall_exit s) (\<lambda>_ s. andthen (schedule M s) (\<lambda>_ s. return 0 s))
     else unexpected_syscall (reg_rax r) s)"
  by (simp add: syscall_def syscall_entry_def Let_def andthen_assoc)

end
