(* ===== verification/Viewing.thy ===== *)
theory Viewing
  imports KernelFrame
begin

unbundle bit_operations_syntax

text \<open>
  The memory viewer always finishes: on the kernel's own page table every walk succeeds, so that the loops of
  \<open>weensyos/k-memviewer.cc\<close> over page tables, pages and addresses come to their ends and \<open>memshow\<close> returns.
\<close>

section \<open>Walks of the kernel page table\<close>

text \<open>The page table \<open>init_kernel_memory\<close> has built, with all its entries.\<close>

definition kernel_map :: "u64 \<Rightarrow> memory \<Rightarrow> bool" where
  "kernel_map tb m = (kpt_ok tb \<and> kernel_tables tb 512 m \<and> upper_tables tb m)"

lemma index_word: "word_of_nat (unat (pageindex va l)) = pageindex va l"
  by simp

lemma map_entries:
  assumes "kernel_map tb m" and "unat i < 512"
  shows "read64 m (tb + 8 * i) = (if i = 0 then (tb + 0x1000) OR 7 else 0)"
    "read64 m (tb + 0x1000 + 8 * i) = (if i = 0 then (tb + 0x2000) OR 7 else if i < 4 then push_bit 30 i OR 0x83 else 0)"
    "read64 m (tb + 0x2000 + 8 * i) = (if i = 0 then (tb + 0x3000) OR 7 else if i = 1 then (tb + 0x4000) OR 7 else 0)"
    "read64 m (tb + 0x3000 + 8 * i) = (if i = 0 then 0 else (0x1000 * i) OR 7)"
    "read64 m (tb + 0x4000 + 8 * i) = 0"
proof -
  have w: "word_of_nat (unat i) = i" by simp
  have u: "0 < unat i \<longleftrightarrow> i \<noteq> 0" by (simp add: unat_gt_0)
  have t: "kernel_tables tb 512 m" and p: "upper_tables tb m" using assms(1) by (simp_all add: kernel_map_def)
  from spec [OF p [unfolded upper_tables_def], of "unat i", unfolded w u] assms(2)
  have e: "(i \<noteq> 0 \<longrightarrow> read64 m (tb + 8 * i) = 0)"
      "(i \<noteq> 0 \<longrightarrow> read64 m (tb + 0x1000 + 8 * i) = (if unat i < 4 then push_bit 30 i OR 0x83 else 0))"
      "(1 < unat i \<longrightarrow> read64 m (tb + 0x2000 + 8 * i) = 0)" "read64 m (tb + 0x4000 + 8 * i) = 0" by blast+
  have k: "read64 m tb = (tb + 0x1000) OR 7" "read64 m (tb + 0x1000) = (tb + 0x2000) OR 7" "read64 m (tb + 0x2000) = (tb + 0x3000) OR 7"
      "read64 m (tb + 0x2008) = (tb + 0x4000) OR 7" using t unfolding kernel_tables_def by blast+
  show "read64 m (tb + 8 * i) = (if i = 0 then (tb + 0x1000) OR 7 else 0)" using e(1) k(1) by simp
  have "unat i < 4 \<longleftrightarrow> i < 4" by (simp add: word_less_nat_alt)
  with e(2) k(2) show "read64 m (tb + 0x1000 + 8 * i) = (if i = 0 then (tb + 0x2000) OR 7 else if i < 4 then push_bit 30 i OR 0x83 else 0)"
    by simp
  have "1 < unat i" if "i \<noteq> 0" "i \<noteq> 1"
  proof -
    have "unat i \<noteq> unat (0 :: u64)" "unat i \<noteq> unat (1 :: u64)" using that by (simp_all only: word_unat_eq_iff not_False_eq_True)
    then show ?thesis by simp
  qed
  with e(3) k(3,4) show "read64 m (tb + 0x2000 + 8 * i) = (if i = 0 then (tb + 0x3000) OR 7 else if i = 1 then (tb + 0x4000) OR 7 else 0)"
    by (cases "i = 0"; cases "i = 1") (simp_all add: add.assoc)
  show "read64 m (tb + 0x3000 + 8 * i) = (if i = 0 then 0 else (0x1000 * i) OR 7)"
  proof -
    have "\<forall>i < 512. read64 m (tb + 0x3000 + 8 * word_of_nat i) = (if 0 < i \<and> i < 512 then (0x1000 * word_of_nat i) OR 7 else 0)"
      using t unfolding kernel_tables_def by blast
    from spec [OF this, of "unat i", unfolded w u] assms(2) show ?thesis by simp
  qed
  show "read64 m (tb + 0x4000 + 8 * i) = 0" by (rule e(4))
qed

text \<open>Every entry is within the first 4 GB.\<close>

lemma small_entries:
  assumes "kernel_map tb m" and "unat i < 512" and "c \<in> {0, 0x1000, 0x2000, 0x3000, 0x4000}"
  shows "read64 m (tb + c + 8 * i) AND PTE_PAMASK < 0x100000000"
proof -
  have k: "kpt_ok tb" using assms(1) by (simp add: kernel_map_def)
  note e = map_entries [OF assms(1,2)]
  have t: "((tb + d) OR 7) AND PTE_PAMASK < 0x100000000" if "d \<in> {0x1000, 0x2000, 0x3000, 0x4000}" for d
  proof -
    have "4096 dvd unat d" "d < 0x5000" using that by auto
    from table_entry(2) [OF k this] kpt_table_aligned(2) [OF k this] show ?thesis by simp
  qed
  have g: "(push_bit 30 i OR 0x83) AND PTE_PAMASK < 0x100000000" if "i < 4"
  proof -
    have "unat i < 4" using that by (simp add: word_less_nat_alt)
    then have "unat i = 0 \<or> unat i = 1 \<or> unat i = 2 \<or> unat i = 3" by auto
    then have "i = 0 \<or> i = 1 \<or> i = 2 \<or> i = 3" by (simp add: word_unat_eq_iff)
    then show ?thesis by (elim disjE) (simp_all add: pte_consts)
  qed
  have p: "((0x1000 * i) OR 7) AND PTE_PAMASK < 0x100000000"
  proof -
    have w: "(0x1000 * i) AND PTE_PAMASK = 0x1000 * i" "unat (0x1000 * i) = 4096 * unat i" using page_word(1,3) [OF assms(2)] by simp_all
    then have "0x1000 * i < 0x100000000" using assms(2) by (simp add: word_less_nat_alt)
    moreover have "((0x1000 * i) OR 7) AND PTE_PAMASK = (0x1000 * i) AND PTE_PAMASK" by (simp add: bit.conj_disj_distrib2 pte_consts)
    ultimately show ?thesis using w(1) by simp
  qed
  from assms(3) consider "c = 0" | "c = 0x1000" | "c = 0x2000" | "c = 0x3000" | "c = 0x4000" by blast
  then show ?thesis
  proof cases
    case 1
    then show ?thesis using e(1) t [of "0x1000"] by simp
  next
    case 2
    then show ?thesis using e(2) t [of "0x2000"] g by simp
  next
    case 3
    then show ?thesis using e(3) t [of "0x3000"] t [of "0x4000"] by simp
  next
    case 4
    then show ?thesis using e(4) p by simp
  next
    case 5
    then show ?thesis using e(5) by simp
  qed
qed

text \<open>A walk goes from the first table down to at most the fourth or fifth and never meets a wild entry.\<close>

lemma next_table:
  assumes "kernel_map tb m" and "unat i < 512"
  shows "read64 m (tb + 8 * i) AND (PTE_P OR PTE_PS) = PTE_P \<Longrightarrow> read64 m (tb + 8 * i) AND PTE_PAMASK = tb + 0x1000"
    "read64 m (tb + 0x1000 + 8 * i) AND (PTE_P OR PTE_PS) = PTE_P \<Longrightarrow> read64 m (tb + 0x1000 + 8 * i) AND PTE_PAMASK = tb + 0x2000"
    "read64 m (tb + 0x2000 + 8 * i) AND (PTE_P OR PTE_PS) = PTE_P \<Longrightarrow>
       read64 m (tb + 0x2000 + 8 * i) AND PTE_PAMASK = tb + 0x3000 \<or> read64 m (tb + 0x2000 + 8 * i) AND PTE_PAMASK = tb + 0x4000"
proof -
  have k: "kpt_ok tb" using assms(1) by (simp add: kernel_map_def)
  have t: "((tb + d) OR 7) AND PTE_PAMASK = tb + d" if "d \<in> {0x1000, 0x2000, 0x3000, 0x4000}" for d
    using table_entry(2) [OF k, of d] that by auto
  have z: "(0 :: u64) AND (PTE_P OR PTE_PS) \<noteq> PTE_P" by (simp add: pte_consts)
  have l: "(push_bit 30 i OR 0x83) AND (PTE_P OR PTE_PS) \<noteq> PTE_P"
  proof -
    have "bit ((push_bit 30 i OR 0x83) AND (PTE_P OR PTE_PS)) 7" by (simp add: bit_and_iff bit_or_iff pte_consts bit_numeral_rec)
    moreover have "\<not> bit PTE_P 7" by (simp add: pte_consts)
    ultimately show ?thesis by metis
  qed
  note e = map_entries [OF assms]
  show "read64 m (tb + 8 * i) AND PTE_PAMASK = tb + 0x1000" if "read64 m (tb + 8 * i) AND (PTE_P OR PTE_PS) = PTE_P"
    using that z t [of "0x1000"] unfolding e(1) by (simp split: if_splits)
  show "read64 m (tb + 0x1000 + 8 * i) AND PTE_PAMASK = tb + 0x2000" if "read64 m (tb + 0x1000 + 8 * i) AND (PTE_P OR PTE_PS) = PTE_P"
    using that z l t [of "0x2000"] unfolding e(2) by (simp split: if_splits)
  show "read64 m (tb + 0x2000 + 8 * i) AND PTE_PAMASK = tb + 0x3000 \<or> read64 m (tb + 0x2000 + 8 * i) AND PTE_PAMASK = tb + 0x4000"
    if "read64 m (tb + 0x2000 + 8 * i) AND (PTE_P OR PTE_PS) = PTE_P"
    using that z t [of "0x3000"] t [of "0x4000"] unfolding e(3) by (simp split: if_splits)
qed

lemma walk_small:
  assumes m: "kernel_map tb m" and d: "descend m va 3 (Entry (tb + 8 * pageindex va 3)) perm = (l, p, perm')"
  shows "deref m p AND PTE_PAMASK < 0x100000000"
proof -
  note i = pageindex_less [of va]
  have s: "read64 m (tb + c + 8 * pageindex va n) AND PTE_PAMASK < 0x100000000" if "c \<in> {0, 0x1000, 0x2000, 0x3000, 0x4000}" for c n
    by (rule small_entries [OF m i that])
  let ?e3 = "read64 m (tb + 8 * pageindex va 3)" and ?e2 = "read64 m (tb + 0x1000 + 8 * pageindex va 2)"
  let ?e1 = "read64 m (tb + 0x2000 + 8 * pageindex va 1)"
  show ?thesis
  proof (cases "?e3 AND (PTE_P OR PTE_PS) = PTE_P")
    case False
    then show ?thesis using d s [of 0 3] by (auto simp: descend_unroll)
  next
    case t3: True
    note a3 = next_table(1) [OF m i t3]
    show ?thesis
    proof (cases "?e2 AND (PTE_P OR PTE_PS) = PTE_P")
      case False
      then show ?thesis using d t3 a3 s [of "0x1000" 2] by (auto simp: descend_unroll entry_addr_def)
    next
      case t2: True
      note a2 = next_table(2) [OF m i t2]
      show ?thesis
      proof (cases "?e1 AND (PTE_P OR PTE_PS) = PTE_P")
        case False
        then show ?thesis using d t3 a3 t2 a2 s [of "0x2000" 1] by (auto simp: descend_unroll entry_addr_def)
      next
        case t1: True
        from next_table(3) [OF m i t1] obtain c where "?e1 AND PTE_PAMASK = tb + c" "c \<in> {0x3000, 0x4000}" by blast
        then show ?thesis using d t3 a3 t2 a2 t1 s [of c 0] by (auto simp: descend_unroll entry_addr_def)
      qed
    qed
  qed
qed

lemma walks_succeed: "kernel_map tb m \<Longrightarrow> \<exists>it. mk_vmiter m tb va = Inr it \<and> level it \<le> 3"
proof (cases "va_is_canonical va")
  case True
  assume m: "kernel_map tb m"
  obtain l p q where d: "descend m va 3 (Entry (tb + 8 * pageindex va 3)) initial_perm = (l, p, q)" by (metis prod_cases3)
  from walk_small [OF m d] descend_level [OF d] d True show ?thesis
    by (simp add: mk_vmiter_cases down_record entry_addr_def not_le [symmetric])
next
  case False
  then show ?thesis by (simp add: mk_vmiter_cases down_record numeral_3_eq_3 PTE_P_def)
qed

section \<open>The loop over pages\<close>

lemma past_range:
  assumes "cur \<le> VA_LOWMAX" and "l \<le> 3"
  shows "cur < (cur OR pageoffmask l) + 1" "(cur OR pageoffmask l) + 1 \<le> VA_LOWEND"
proof -
  have "12 + 9 * l \<le> 39" using assms(2) by simp
  have "unat cur < 2 ^ 47" using assms(1) by (simp add: VA_LOWMAX_def word_le_nat_alt)
  then have u: "unat (cur OR pageoffmask l) < 2 ^ 47"
    using bit_below [of cur _ 47] \<open>12 + 9 * l \<le> 39\<close> by (intro below_bits) (auto simp: bit_or_iff pageoffmask_mask bit_mask_iff)
  then have v: "unat ((cur OR pageoffmask l) + 1) = unat (cur OR pageoffmask l) + 1" by (simp add: unat_add_64)
  have "cur \<le> cur OR pageoffmask l" by (rule le_word_or2)
  then show "cur < (cur OR pageoffmask l) + 1" using v by (simp add: word_less_nat_alt word_le_nat_alt)
  show "(cur OR pageoffmask l) + 1 \<le> VA_LOWEND" using u v by (simp add: VA_LOWEND_def word_le_nat_alt)
qed

lemma mark_pages_ends:
  assumes "kernel_map tb m" and "mk_vmiter m tb va = Inr it" and "va \<le> VA_LOWEND"
  shows "\<exists>v'. mark_pages m owner it v = Some (Inr v')"
  using assms(2,3)
proof (induction "unat VA_LOWEND - unat va" arbitrary: va it v rule: less_induct)
  case less
  note f = mk_vmiter_fields [OF less.prems(1)]
  have lv: "level it \<le> 3" using walks_succeed [OF assms(1), of va] less.prems(1) by auto
  show ?case
  proof (cases "vm_low it")
    case False
    then show ?thesis by (subst mark_pages.simps) simp
  next
    case True
    have mv: "\<exists>it'. real_find m ((va OR pageoffmask l) + 1) it = Inr it' \<and> (\<forall>v. \<exists>v'. mark_pages m owner it' v = Some (Inr v'))" if "l \<le> 3" for l
    proof -
      have va: "va \<le> VA_LOWMAX" using True f by (simp add: vm_low_def)
      note p = past_range [OF va that]
      from walks_succeed [OF assms(1)] obtain it' where it': "mk_vmiter m tb ((va OR pageoffmask l) + 1) = Inr it'" by blast
      have "unat VA_LOWEND - unat ((va OR pageoffmask l) + 1) < unat VA_LOWEND - unat va"
        using p by (simp add: word_less_nat_alt word_le_nat_alt)
      from less.hyps [OF this it' p(2)] it' real_find_eq [of m it] f show ?thesis by simp
    qed
    have nv: "\<exists>it'. next_va m it = Inr it' \<and> (\<forall>v. \<exists>v'. mark_pages m owner it' v = Some (Inr v'))"
      using mv [OF lv] mv [of 0] f by (simp add: next_va_def)
    have nr: "\<exists>it'. next_range m it = Inr it' \<and> (\<forall>v. \<exists>v'. mark_pages m owner it' v = Some (Inr v'))"
      using mv [OF lv] f by (simp add: next_range_def last_va_def)
    show ?thesis
      by (subst mark_pages.simps) (use True nv nr in \<open>auto split: option.split\<close>)
  qed
qed

lemma mark_accessible_ends: "kernel_map tb m \<Longrightarrow> \<exists>v'. mark_accessible m owner tb v = Some (Inr v')"
  using walks_succeed [of tb m 0] mark_pages_ends [of tb m 0] by (auto simp: mark_accessible_def)

section \<open>The loop over page tables\<close>

text \<open>The address of entry \<open>i\<close> of a table at level \<open>l\<close> that maps low addresses.\<close>

definition entry_va :: "nat \<Rightarrow> nat \<Rightarrow> u64" where
  "entry_va l i = word_of_nat (i * 2 ^ (12 + 9 * l))"

lemma level_sizes: "l = 1 \<or> l = 2 \<or> l = 3 \<Longrightarrow> 512 * 2 ^ (12 + 9 * l) \<le> (2 ^ 48 :: nat)"
  by auto

lemma entry_va_unat:
  assumes "l = 1 \<or> l = 2 \<or> l = 3" and "i \<le> 512"
  shows "unat (entry_va l i) = i * 2 ^ (12 + 9 * l)"
proof -
  have "i * 2 ^ (12 + 9 * l) \<le> 512 * 2 ^ (12 + 9 * l)" using assms(2) by simp
  from le_trans [OF this level_sizes [OF assms(1)]] have "i * 2 ^ (12 + 9 * l) < 2 ^ 64" by (rule le_less_trans) simp
  then show ?thesis unfolding entry_va_def by (intro unat_of_nat_small) simp
qed

lemma or_mask_next:
  assumes "unat va div 2 ^ n = i" and "n < 64" and "Suc i * 2 ^ n < 2 ^ 64"
  shows "unat ((va OR mask n) + (1 :: u64)) = Suc i * 2 ^ n"
proof -
  have o: "va OR mask n = push_bit n (drop_bit n va) OR mask n"
    by (intro bit_word_eqI) (auto simp: bit_or_iff bit_mask_iff bit_push_bit_iff bit_drop_bit_eq)
  have "push_bit n (drop_bit n va) AND mask n = 0"
    by (intro bit_word_eqI) (auto simp: bit_and_iff bit_mask_iff bit_push_bit_iff)
  then have s: "va OR mask n = push_bit n (drop_bit n va) + mask n" unfolding o by (simp add: disjunctive_add_eq_or)
  have d: "unat (drop_bit n va) = i" using assms(1,2) by (simp add: drop_bit_eq_div unat_div)
  have "(va OR mask n) + 1 = push_bit n (drop_bit n va) + 2 ^ n" unfolding s by (simp add: mask_eq_exp_minus_1)
  also have "\<dots> = (drop_bit n va + 1) * 2 ^ n" by (simp add: push_bit_eq_mult algebra_simps)
  also have "drop_bit n va = word_of_nat i" using d by (metis of_nat_unat ucast_id)
  also have "(word_of_nat i + 1) * 2 ^ n = (word_of_nat (Suc i * 2 ^ n) :: u64)" by (simp add: algebra_simps)
  finally have f: "(va OR mask n) + 1 = word_of_nat (Suc i * 2 ^ n)" .
  show ?thesis unfolding f using assms(3) by (intro unat_of_nat_small) simp
qed

lemma next_entry_va:
  assumes "l = 1 \<or> l = 2 \<or> l = 3" and "unat va div 2 ^ (12 + 9 * l) = i" and "i < 512"
  shows "(va OR pageoffmask l) + 1 = entry_va l (Suc i)"
    "(((va OR pageoffmask l) + 1) XOR va) AND NOT (pageoffmask (l + 1)) \<noteq> 0 \<longleftrightarrow> i = 511"
proof -
  let ?n = "12 + 9 * l"
  have "Suc i * 2 ^ ?n \<le> 512 * 2 ^ ?n" using assms(3) by (intro mult_le_mono1) simp
  from le_trans [OF this level_sizes [OF assms(1)]] have b: "Suc i * 2 ^ ?n < 2 ^ 64" by (rule le_less_trans) simp
  have "?n < 64" using assms(1) by auto
  from or_mask_next [OF assms(2) this b] entry_va_unat [OF assms(1), of "Suc i"] assms(3)
  show e: "(va OR pageoffmask l) + 1 = entry_va l (Suc i)" by (simp only: pageoffmask_mask word_unat_eq_iff)
  have p: "512 * 2 ^ ?n = (2 ^ (12 + 9 * (l + 1)) :: nat)" by (simp add: power_add)
  have "unat va < 2 ^ (12 + 9 * (l + 1))"
  proof -
    have "unat va div 2 ^ ?n < Suc i" using assms(2) by simp
    then have "unat va < Suc i * 2 ^ ?n" using div_less_iff_less_mult [of "2 ^ ?n" "unat va" "Suc i"] by (simp only: zero_less_power zero_less_numeral)
    also have "\<dots> \<le> 512 * 2 ^ ?n" using assms(3) by (intro mult_le_mono1) simp
    finally show ?thesis unfolding p .
  qed
  then have va: "bit va k \<Longrightarrow> k < 12 + 9 * (l + 1)" for k by (rule bit_below [rotated])
  show "(((va OR pageoffmask l) + 1) XOR va) AND NOT (pageoffmask (l + 1)) \<noteq> 0 \<longleftrightarrow> i = 511"
  proof (cases "i = 511")
    case True
    then have "unat (entry_va l (Suc i)) = 2 ^ (12 + 9 * (l + 1))" using entry_va_unat [OF assms(1), of 512] p by simp
    then have "entry_va l (Suc i) = 2 ^ (12 + 9 * (l + 1))" using assms(1) by (auto simp: word_unat_eq_iff)
    then have "bit ((entry_va l (Suc i) XOR va) AND NOT (pageoffmask (l + 1))) (12 + 9 * (l + 1))"
      using va assms(1) by (auto simp: bit_and_iff bit_xor_iff bit_not_iff pageoffmask_mask bit_mask_iff bit_exp_iff)
    then have "(entry_va l (Suc i) XOR va) AND NOT (pageoffmask (l + 1)) \<noteq> 0" by (metis bit_0_eq bot_apply bot_bool_def)
    with True e show ?thesis by simp
  next
    case False
    then have "Suc i * 2 ^ ?n < 512 * 2 ^ ?n" using assms(3) by (intro mult_less_mono1) simp_all
    then have "unat (entry_va l (Suc i)) < 2 ^ (12 + 9 * (l + 1))" using entry_va_unat [OF assms(1), of "Suc i"] assms(3) p by simp
    then have "bit (entry_va l (Suc i)) k \<Longrightarrow> k < 12 + 9 * (l + 1)" for k by (rule bit_below [rotated])
    then have "(entry_va l (Suc i) XOR va) AND NOT (pageoffmask (l + 1)) = 0"
      using va by (intro bit_word_eqI) (auto simp: bit_and_iff bit_xor_iff bit_not_iff pageoffmask_mask bit_mask_iff)
    with False e show ?thesis by simp
  qed
qed

abbreviation pti :: "u64 \<Rightarrow> u64 \<Rightarrow> nat \<Rightarrow> u64 \<Rightarrow> ptiter" where
  "pti tb a l va \<equiv> \<lparr>pti_pt = tb, pti_pep = a, pti_level = l, pti_va = va\<rparr>"

lemma pti_step:
  assumes "skip \<or> read64 m a AND (PTE_P OR PTE_PS) \<noteq> PTE_P" and "l = 1 \<or> l = 2 \<or> l = 3" and "unat va div 2 ^ (12 + 9 * l) = i" and "i < 511"
  shows "pti_down m q skip (pti tb a l va) = pti_down m q False (pti tb (a + 8) l (entry_va l (Suc i)))"
proof -
  have "i < 512" using assms(4) by simp
  note n = next_entry_va [OF assms(2,3) this]
  show ?thesis using n assms(1,4) by (cases skip) (subst pti_down.simps, simp add: Let_def)+
qed

lemma pti_over:
  assumes "skip \<or> read64 m a AND (PTE_P OR PTE_PS) \<noteq> PTE_P" and "l = 1 \<or> l = 2 \<or> l = 3" and "unat va div 2 ^ (12 + 9 * l) = 511"
  shows "pti_down m q skip (pti tb a l va) =
    (if l = 3 then Some (pti tb a l (VA_NONCANONMAX + 1)) else pti_down m (l + 1) False (pti tb (tb + 8 * pageindex va 3) 3 va))"
proof -
  note n = next_entry_va [OF assms(2,3), simplified]
  show ?thesis using n assms(1) by (cases skip) (subst pti_down.simps, auto simp: Let_def)+
qed

text \<open>Entries that are not tables are passed over, up to the end of the table.\<close>

lemma pti_scan:
  assumes "l = 1 \<or> l = 2 \<or> l = 3" and "i < 512"
    and "\<And>j. i \<le> j \<Longrightarrow> j < 512 \<Longrightarrow> read64 m (t + 8 * word_of_nat j) AND (PTE_P OR PTE_PS) \<noteq> PTE_P"
  shows "\<exists>a. pti_down m q False (pti tb (t + 8 * word_of_nat i) l (entry_va l i)) =
    (if l = 3 then Some (pti tb a 3 (VA_NONCANONMAX + 1))
     else pti_down m (l + 1) False (pti tb (tb + 8 * pageindex (entry_va l 511) 3) 3 (entry_va l 511)))"
  using assms(2,3)
proof (induction "511 - i" arbitrary: i)
  case 0
  then have i: "i = 511" by simp
  have d: "unat (entry_va l 511) div 2 ^ (12 + 9 * l) = 511" using entry_va_unat [OF assms(1), of 511] by simp
  have "read64 m (t + 8 * word_of_nat i) AND (PTE_P OR PTE_PS) \<noteq> PTE_P" using 0 by simp
  from pti_over [OF disjI2 [OF this] assms(1) d] show ?case unfolding i by auto
next
  case (Suc d)
  then have i: "i < 511" by simp
  have d: "unat (entry_va l i) div 2 ^ (12 + 9 * l) = i" using entry_va_unat [OF assms(1), of i] i by simp
  have "read64 m (t + 8 * word_of_nat i) AND (PTE_P OR PTE_PS) \<noteq> PTE_P" using Suc.prems i by simp
  from pti_step [OF disjI2 [OF this] assms(1) d i]
  have "pti_down m q False (pti tb (t + 8 * word_of_nat i) l (entry_va l i)) =
      pti_down m q False (pti tb (t + 8 * word_of_nat (Suc i)) l (entry_va l (Suc i)))" by (simp add: algebra_simps)
  with Suc.hyps(1) [of "Suc i"] Suc.hyps(2) Suc.prems i show ?case by simp
qed

text \<open>
  The iterator visits the two entries of the third table, then on the way back the entries of the second and the
  first, and ends.
\<close>

lemma pti_tour:
  assumes m: "kernel_map tb m"
  shows "pti_go m tb 0 = Some (pti tb (tb + 0x2000) 1 0)"
    "pti_next m (pti tb (tb + 0x2000) 1 0) = Some (pti tb (tb + 0x2008) 1 0x200000)"
    "pti_next m (pti tb (tb + 0x2008) 1 0x200000) = Some (pti tb (tb + 0x1000) 2 0x3FE00000)"
    "pti_next m (pti tb (tb + 0x1000) 2 0x3FE00000) = Some (pti tb tb 3 0x7FC0000000)"
    "\<exists>a. pti_next m (pti tb tb 3 0x7FC0000000) = Some (pti tb a 3 (VA_NONCANONMAX + 1))"
proof -
  have k: "kpt_ok tb" using m by (simp add: kernel_map_def)
  have e: "read64 m tb = (tb + 0x1000) OR 7" "read64 m (tb + 0x1000) = (tb + 0x2000) OR 7" "read64 m (tb + 0x2000) = (tb + 0x3000) OR 7"
      "read64 m (tb + 0x2008) = (tb + 0x4000) OR 7" using m by (simp_all add: kernel_map_def kernel_tables_def)
  have t: "((tb + c) OR 7) AND (PTE_P OR PTE_PS) = PTE_P" "((tb + c) OR 7) AND PTE_PAMASK = tb + c" if "c \<in> {0x1000, 0x2000, 0x3000, 0x4000}" for c
    using table_entry(1,2) [OF k, of c] that by auto
  have z: "(0 :: u64) AND (PTE_P OR PTE_PS) \<noteq> PTE_P" by (simp add: pte_consts)
  have l: "(push_bit 30 i OR 0x83) AND (PTE_P OR PTE_PS) \<noteq> PTE_P" for i
  proof -
    have "bit ((push_bit 30 i OR 0x83) AND (PTE_P OR PTE_PS)) 7" by (simp add: bit_and_iff bit_or_iff pte_consts bit_numeral_rec)
    moreover have "\<not> bit PTE_P 7" by (simp add: pte_consts)
    ultimately show ?thesis by metis
  qed
  have w: "unat (word_of_nat j :: u64) = j" if "j < 512" for j using that by (intro unat_of_nat_small) simp
  have nz: "(word_of_nat j :: u64) \<noteq> 0" if "0 < j" "j < 512" for j using w [OF that(2)] that(1) by auto
  have no: "(word_of_nat j :: u64) \<noteq> 1" if "1 < j" "j < 512" for j using w [OF that(2)] that(1) by auto
  have n3: "read64 m (tb + 8 * word_of_nat j) AND (PTE_P OR PTE_PS) \<noteq> PTE_P" if "1 \<le> j" "j < 512" for j
    using map_entries(1) [OF m, of "word_of_nat j"] nz [of j] that w z by simp
  have n2: "read64 m (tb + 0x1000 + 8 * word_of_nat j) AND (PTE_P OR PTE_PS) \<noteq> PTE_P" if "1 \<le> j" "j < 512" for j
    using map_entries(2) [OF m, of "word_of_nat j"] nz [of j] that w z l by simp
  have n1: "read64 m (tb + 0x2000 + 8 * word_of_nat j) AND (PTE_P OR PTE_PS) \<noteq> PTE_P" if "2 \<le> j" "j < 512" for j
    using map_entries(3) [OF m, of "word_of_nat j"] nz [of j] no [of j] that w z by simp
  have dn: "pti_down m q False (pti tb a lv va) =
      (if lv = q then Some (pti tb a lv va) else pti_down m q False (pti tb ((tb + c) + 8 * pageindex va (lv - 1)) (lv - 1) va))"
    if "read64 m a = (tb + c) OR 7" "c \<in> {0x1000, 0x2000, 0x3000, 0x4000}" for a c lv va q
    using that t [OF that(2)] by (subst pti_down.simps) (simp add: Let_def)
  have px: "pageindex 0 n = 0" for n by (simp add: pageindex_def)
  have p2: "pageindex 0x3FE00000 3 = 0" "pageindex 0x3FE00000 2 = 0" "pageindex 0x7FC0000000 3 = 0"
    by (simp_all add: pageindex_def page_consts)
  have va: "entry_va 1 1 = 0x200000" "entry_va 1 2 = 0x400000" "entry_va 1 511 = 0x3FE00000" "entry_va 2 1 = 0x40000000" "entry_va 2 511 = 0x7FC0000000"
    "entry_va 3 1 = 0x8000000000" by (simp_all add: entry_va_def)
  show "pti_go m tb 0 = Some (pti tb (tb + 0x2000) 1 0)"
    using dn [OF e(1), where lv = 3 and va = 0 and q = 1] dn [OF e(2), where lv = 2 and va = 0 and q = 1] dn [OF e(3), where lv = 1 and va = 0 and q = 1] by (simp add: pti_go_def px)
  show "pti_next m (pti tb (tb + 0x2000) 1 0) = Some (pti tb (tb + 0x2008) 1 0x200000)"
    using pti_step [of True m "tb + 0x2000" 1 0 0 1 tb] dn [OF e(4), where lv = 1 and va = "0x200000" and q = 1] va(1) by (simp add: pti_next_def add.assoc)
  show "pti_next m (pti tb (tb + 0x2008) 1 0x200000) = Some (pti tb (tb + 0x1000) 2 0x3FE00000)"
    using pti_step [of True m "tb + 0x2008" 1 "0x200000" 1 1 tb] pti_scan [of 1 2 m "tb + 0x2000" 1 tb, OF _ _ n1]
      dn [OF e(1), where lv = 3 and va = "0x3FE00000" and q = 2] dn [OF e(2), where lv = 2 and va = "0x3FE00000" and q = 2] va(2,3) p2
    by (simp add: pti_next_def add.assoc flip: numeral_2_eq_2)
  show "pti_next m (pti tb (tb + 0x1000) 2 0x3FE00000) = Some (pti tb tb 3 0x7FC0000000)"
    using pti_step [of True m "tb + 0x1000" 2 "0x3FE00000" 0 1 tb] pti_scan [of 2 1 m "tb + 0x1000" 1 tb, OF _ _ n2]
      dn [OF e(1), where lv = 3 and va = "0x7FC0000000" and q = 3] va(4,5) p2 by (simp add: pti_next_def add.assoc)
  show "\<exists>a. pti_next m (pti tb tb 3 0x7FC0000000) = Some (pti tb a 3 (VA_NONCANONMAX + 1))"
    using pti_step [of True m tb 3 "0x7FC0000000" 0 1 tb] pti_scan [of 3 1 m tb 1 tb, OF _ _ n3] va(6) by (simp add: pti_next_def)
qed

lemma mark_tables_ends:
  assumes "kernel_map tb m"
  shows "\<exists>it v'. pti_go m tb 0 = Some it \<and> mark_tables m flags it v = Some v'"
proof -
  note p = pti_tour [OF assms]
  have a: "pti_active (pti tb a l va)" if "va \<le> VA_NONCANONMAX" for a l va using that by (simp add: pti_active_def)
  have i: "\<not> pti_active (pti tb a l (VA_NONCANONMAX + 1))" for a l by (simp add: pti_active_def VA_NONCANONMAX_def)
  from p(5) obtain x where x: "pti_next m (pti tb tb 3 0x7FC0000000) = Some (pti tb x 3 (VA_NONCANONMAX + 1))" by blast
  have "\<exists>v'. mark_tables m flags (pti tb x 3 (VA_NONCANONMAX + 1)) v = Some v'" for v
    by (subst mark_tables.simps) (simp add: i)
  then have "\<exists>v'. mark_tables m flags (pti tb tb 3 0x7FC0000000) v = Some v'" for v
    by (subst mark_tables.simps) (simp add: x a VA_NONCANONMAX_def)
  then have "\<exists>v'. mark_tables m flags (pti tb (tb + 0x1000) 2 0x3FE00000) v = Some v'" for v
    by (subst mark_tables.simps) (simp add: p(4) a VA_NONCANONMAX_def)
  then have "\<exists>v'. mark_tables m flags (pti tb (tb + 0x2008) 1 0x200000) v = Some v'" for v
    by (subst mark_tables.simps) (simp add: p(3) [simplified] a VA_NONCANONMAX_def)
  then have "\<exists>v'. mark_tables m flags (pti tb (tb + 0x2000) 1 0) v = Some v'" for v
    by (subst mark_tables.simps) (simp add: p(2) [simplified] a VA_NONCANONMAX_def)
  with p(1) show ?thesis by blast
qed

section \<open>The messages of the viewer print\<close>

lemma directive_06X: "\<exists>out. directive color (48 # 54 # 88 # fs) (AInt w # args) = Some (out, color, fs, args)"
proof -
  obtain p buf where "fill_numbuf NUMBUFSIZ (ucast w) 16 (replicate NUMBUFSIZ 0) = Some (p, buf)" using fill_numbuf_some by blast
  then show ?thesis
    by (simp add: directive_def flag_chars_def parse_width_def parse_precision_def parse_length_def convert_def)
qed

lemma directive_lx: "\<exists>out. directive color (108 # 120 # fs) (ALong w # args) = Some (out, color, fs, args)"
proof -
  obtain p buf where "fill_numbuf NUMBUFSIZ w (- 16) (replicate NUMBUFSIZ 0) = Some (p, buf)" using fill_numbuf_some by blast
  then show ?thesis
    by (simp add: directive_def flag_chars_def parse_width_def parse_precision_def parse_length_def convert_def)
qed

lemma formatted_end: "\<exists>out. formatted color [] args = Some out"
  by simp

lemma title_prints: "\<exists>out. formatted color (ascii ''PHYSICAL MEMORY'' @ [10]) [] = Some out"
  unfolding ascii_def by (simp del: formatted.simps) (intro formatted_char formatted_end, simp_all)

lemma virtual_title_prints: "\<exists>out. formatted color (ascii ''VIRTUAL ADDRESS SPACE FOR %d'' @ [10]) [AInt w] = Some out"
  unfolding ascii_def by (simp del: formatted.simps) (intro formatted_char formatted_directive [OF directive_d] formatted_end, simp_all)

lemma blank_lines_print: "\<exists>out. formatted color (replicate n 10) [] = Some out"
  by (induction n) (auto simp del: formatted.simps(2) intro: formatted_char)

lemma label_prints: "\<exists>out. formatted color (ascii ''0x%06X '') [AInt w] = Some out"
  unfolding ascii_def by (simp del: formatted.simps) (intro formatted_char formatted_directive [OF directive_06X] formatted_end, simp_all)

lemma page_error_prints:
  assumes "int (length desc) \<le> INT_MAX"
  shows "\<exists>out. formatted color (ascii ''PAGE TABLE ERROR: %lx: %s (pid %d)'' @ [10]) [ALong pa, AStr desc, AInt i] = Some out"
  unfolding ascii_def
  by (simp del: formatted.simps)
    (intro formatted_char formatted_directive [OF directive_lx] formatted_directive [OF directive_s [OF assms]] formatted_directive [OF directive_d]
      formatted_end, simp_all)

section \<open>The viewer returns\<close>

text \<open>An operation returns, with the memory, the processes and the process shown as they were.\<close>

definition fine :: "kernel \<Rightarrow> 'a result \<Rightarrow> bool" where
  "fine s r = (\<exists>x t. r = return x t \<and> mem t = mem s \<and> ptable t = ptable s \<and> showing t = showing s)"

lemma fine_return: "mem t = mem s \<Longrightarrow> ptable t = ptable s \<Longrightarrow> showing t = showing s \<Longrightarrow> fine s (return x t)"
  by (simp add: fine_def)

lemma fine_andthen:
  assumes "fine s r" and "\<And>x t. r = return x t \<Longrightarrow> mem t = mem s \<Longrightarrow> ptable t = ptable s \<Longrightarrow> fine t (f x t)"
  shows "fine s (andthen r f)"
  using assms unfolding fine_def by fastforce

lemma k_print_fine: "\<exists>out. formatted color fmt args = Some out \<Longrightarrow> fine s (k_print cpos color fmt args s)"
  unfolding k_print_def console_printf_def console_vprintf_def vprintf_eq
  by (auto simp: fine_def finish_printer_def Let_def split: prod.split)

lemma k_log_fine: "\<exists>out. formatted 0 fmt args = Some out \<Longrightarrow> fine s (k_log fmt args s)"
  unfolding k_log_def log_printf_def log_vprintf_def vprintf_eq by (auto simp: fine_def)

lemma k_error_fine: "\<exists>out. formatted 0 fmt args = Some out \<Longrightarrow> \<exists>out. formatted color fmt args = Some out \<Longrightarrow> fine s (k_error cpos color fmt args s)"
  unfolding k_error_def error_printf_def error_vprintf_def log_vprintf_def console_vprintf_def vprintf_eq
  by (auto simp: fine_def finish_printer_def Let_def split: prod.split)

lemma page_error_fine: "int (length desc) \<le> INT_MAX \<Longrightarrow> fine s (page_error pa desc (int n) s)"
  unfolding page_error_def Let_def
  using page_error_prints [of "ascii desc"] by (auto intro!: fine_andthen k_error_fine k_log_fine simp: ascii_def)

lemma symbol_for_desc: "symbol_for L mu pa = (ch, Some desc) \<Longrightarrow> int (length desc) \<le> INT_MAX"
  by (auto simp: symbol_for_def Let_def split: if_splits)

lemma symbol_at_fine: "fine s (symbol_at M pa s)"
  using symbol_for_desc [of "lay M" "mu_map s" pa]
  by (auto simp: symbol_at_def intro!: fine_andthen page_error_fine fine_return split: prod.split option.split)

lemma row_label_fine: "fine s (row_label row pn a s)"
  using label_prints by (auto simp: row_label_def intro!: k_print_fine fine_return)

lemma set_cell_fine: "0 \<le> c \<Longrightarrow> c < 2000 \<Longrightarrow> fine s (set_cell c ch s)"
  by (simp add: set_cell_def fine_return)

lemma physical_cell: "pn < 512 \<Longrightarrow> 0 \<le> CPOS (1 + int (pn div 64)) (12 + int (pn mod 64)) \<and> CPOS (1 + int (pn div 64)) (12 + int (pn mod 64)) < 2000"
proof -
  assume "pn < 512"
  then have "pn div 64 \<le> 7" "pn mod 64 < 64" by simp_all
  then show ?thesis by (simp add: CPOS_def)
qed

lemma draw_physical_fine: "(\<And>pn. pn \<in> set pns \<Longrightarrow> pn < 512) \<Longrightarrow> fine s (draw_physical M pns s)"
proof (induction pns arbitrary: s)
  case (Cons pn pns)
  from physical_cell [of pn] Cons.prems have c: "0 \<le> CPOS (1 + int (pn div 64)) (12 + int (pn mod 64))" "CPOS (1 + int (pn div 64)) (12 + int (pn mod 64)) < 2000"
    by simp_all
  show ?case unfolding draw_physical.simps
    by (intro fine_andthen [OF row_label_fine] fine_andthen [OF symbol_at_fine] fine_andthen [OF set_cell_fine [OF c]] Cons.IH Cons.prems) simp
qed (simp add: fine_return)

section \<open>Drawing virtual memory\<close>

lemma virtual_cell:
  assumes "va < max_view_va"
  shows "0 \<le> CPOS (11 + int (unat (va div PAGESIZE) div 64)) (12 + int (unat (va div PAGESIZE) mod 64))"
    "CPOS (11 + int (unat (va div PAGESIZE) div 64)) (12 + int (unat (va div PAGESIZE) mod 64)) < 2000"
proof -
  have "unat va < 768 * 4096" using assms by (simp add: max_view_va_def page_consts word_less_nat_alt)
  then have "unat (va div PAGESIZE) < 768" by (simp add: unat_div page_consts less_mult_imp_div_less)
  then have "unat (va div PAGESIZE) div 64 \<le> 11" "unat (va div PAGESIZE) mod 64 < 64" by simp_all
  then show "0 \<le> CPOS (11 + int (unat (va div PAGESIZE) div 64)) (12 + int (unat (va div PAGESIZE) mod 64))"
    "CPOS (11 + int (unat (va div PAGESIZE) div 64)) (12 + int (unat (va div PAGESIZE) mod 64)) < 2000" by (simp_all add: CPOS_def)
qed

lemma draw_virtual_fine:
  assumes "kernel_map tb (mem s)" and "mk_vmiter (mem s) tb va = Inr it" and "unat va \<le> unat max_view_va + 4096"
  shows "fine s (draw_virtual M it s)"
  using assms
proof (induction "unat max_view_va + 4096 - unat va" arbitrary: va it s rule: less_induct)
  case less
  note f = mk_vmiter_fields [OF less.prems(2)]
  show ?case
  proof (cases "va < max_view_va")
    case False
    with f show ?thesis by (subst draw_virtual.simps) (simp add: fine_return)
  next
    case True
    have u: "unat (va + PAGESIZE) = unat va + 4096"
      using True by (simp add: max_view_va_def page_consts word_less_nat_alt unat_add_64)
    have adv: "fine t (case advance (mem s) PAGESIZE it of Inl e \<Rightarrow> stop (vm_stop e) t | Inr it' \<Rightarrow> draw_virtual M it' t)"
      if "mem t = mem s" for t
    proof -
      have m: "kernel_map tb (mem t)" using less.prems(1) that by simp
      from walks_succeed [OF m, of "va + PAGESIZE"] obtain it' where it': "mk_vmiter (mem t) tb (va + PAGESIZE) = Inr it'" by blast
      have "advance (mem s) PAGESIZE it = Inr it'"
        using real_find_eq [of "mem s" it "va + PAGESIZE"] f it' that by (simp add: advance_def vm_find_def)
      moreover have "fine t (draw_virtual M it' t)"
        using u True by (intro less.hyps [OF _ m it']) (simp_all add: word_less_nat_alt)
      ultimately show ?thesis by simp
    qed
    have sym: "fine t (if \<not> vm_present (mem t) it then return (0x20 :: u16) t
        else andthen (symbol_at M (vm_pa (mem t) it) t) (\<lambda>ch s. return (if vm_user (mem s) it then swap_colors ch else ch) s))" for t
      by (auto intro!: fine_andthen symbol_at_fine fine_return)
    have c: "cur_va it < max_view_va" using True f by simp
    show ?thesis
    proof (subst draw_virtual.simps, unfold if_P [OF c] Let_def, intro fine_andthen [OF row_label_fine] fine_andthen [OF sym]
        fine_andthen [OF set_cell_fine])
      show "0 \<le> CPOS (11 + int (unat (cur_va it div PAGESIZE) div 64)) (12 + int (unat (cur_va it div PAGESIZE) mod 64))"
        "CPOS (11 + int (unat (cur_va it div PAGESIZE) div 64)) (12 + int (unat (cur_va it div PAGESIZE) mod 64)) < 2000"
        by (rule virtual_cell [OF c])+
    qed (simp add: adv)
  qed
qed

lemma console_memviewer_virtual_fine: "kernel_map (pagetable p) (mem s) \<Longrightarrow> fine s (console_memviewer_virtual M p s)"
proof -
  assume m: "kernel_map (pagetable p) (mem s)"
  have "fine t (case mk_vmiter (mem t) (pagetable p) 0 of Inl e \<Rightarrow> stop (vm_stop e) t | Inr it \<Rightarrow> draw_virtual M it t)" if "mem t = mem s" for t
  proof -
    have "kernel_map (pagetable p) (mem t)" using m that by simp
    with walks_succeed [OF this, of 0] draw_virtual_fine [OF this] show ?thesis by fastforce
  qed
  then show ?thesis unfolding console_memviewer_virtual_def by (intro fine_andthen [OF k_print_fine [OF virtual_title_prints]])
qed

section \<open>\<open>memshow\<close> returns\<close>

text \<open>
  What the viewer relies on: the kernel's page table as built at boot, a free process 0, and no process with a page table of its
  own; the page it takes is below the page table. \<open>showing\<close> is the number of a process.
\<close>

definition viewable :: "machine \<Rightarrow> kernel \<Rightarrow> bool" where
  "viewable M s =
     (kernel_map (kpt M) (mem s) \<and> 0x2000 \<le> unat (kpt M) \<and> length (ptable s) = NPROC \<and> pstate (ptable s ! 0) = P_FREE \<and>
      (\<forall>p \<in> set (ptable s). pagetable p = 0 \<or> pagetable p = kpt M) \<and> viewer_ready s \<and> showing s < NPROC)"

lemma viewable_map: "viewable M s \<Longrightarrow> kernel_map (kpt M) (mem s)"
  by (simp add: viewable_def)

lemma no_own_tables: "viewable M s \<Longrightarrow> \<not> any_own_table M s"
proof -
  assume v: "viewable M s"
  have "p \<in> set (ptable s)" if "p \<in> set (tl (ptable s))" for p using that by (metis list.set_sel(2) tl_Nil list.set(1) empty_iff)
  with v show ?thesis by (auto simp: any_own_table_def has_own_table_def viewable_def)
qed

lemma mark_processes_none: "(\<And>p. p \<in> set (map snd ps) \<Longrightarrow> \<not> has_own_table M p) \<Longrightarrow> mark_processes M m ps v = Some (Inr v)"
  by (induction M m ps v rule: mark_processes.induct) auto

lemma compute_marks_ends: "viewable M s \<Longrightarrow> \<exists>v. compute_marks M s = Some (Inr v)"
proof -
  assume v: "viewable M s"
  note m = viewable_map [OF v] and n = no_own_tables [OF v]
  from mark_tables_ends [OF m] obtain it w where t: "pti_go (mem s) (kpt M) 0 = Some it" "mark_tables (mem s) f_kernel it (replicate 1024 0) = Some w" by blast
  have "mark_processes M (mem s) (enumerate 1 (tl (ptable s))) (mark (kpt M) f_kernel w) = Some (Inr (mark (kpt M) f_kernel w))"
    using n by (intro mark_processes_none) (auto simp: any_own_table_def)
  with t n mark_accessible_ends [OF m] show ?thesis by (auto simp: compute_marks_def Let_def)
qed

lemma kernel_map_page_1:
  assumes "kernel_map tb m" and "0x2000 \<le> unat tb"
  shows "kernel_map tb (snd (memset 0x1000 c PAGESIZE m))"
proof -
  have k: "kpt_ok tb" using assms(1) by (simp add: kernel_map_def)
  have r: "read64 (snd (memset 0x1000 c PAGESIZE m)) a = read64 m a" if "unat tb \<le> unat a" "unat a + 8 \<le> 0x100000000" for a
  proof (rule read64_cong)
    fix j :: nat assume "j < 8"
    then have "unat (a + word_of_nat j) = unat a + j" using that(2) by (simp add: unat_add_64 unat_of_nat_small)
    then have "\<not> unat (a + word_of_nat j - 0x1000) < 4096" using that(1) assms(2) by (simp add: unat_sub word_le_nat_alt)
    then show "snd (memset 0x1000 c PAGESIZE m) (a + word_of_nat j) = m (a + word_of_nat j)" by (simp add: memset_def page_consts fill_up_eq)
  qed
  have e: "read64 (snd (memset 0x1000 c PAGESIZE m)) (tb + d + 8 * word_of_nat i) = read64 m (tb + d + 8 * word_of_nat i)"
    if "i < 512" "d \<in> {0, 0x1000, 0x2000, 0x3000, 0x4000}" for d i
  proof -
    have "unat (tb + d + 8 * word_of_nat i) = unat tb + (unat d + 8 * i)" using table_entry_unat [OF k that(1), of d] that(2) by auto
    with k that show ?thesis by (intro r) (auto simp: kpt_ok_def)
  qed
  have "kernel_tables tb 512 (snd (memset 0x1000 c PAGESIZE m))"
    using assms(1) e [of 0 0] e [of 0 "0x1000"] e [of 0 "0x2000"] e [of 1 "0x2000"] e [of 0 "0x4000"] e [of _ "0x3000"]
    by (simp add: kernel_map_def kernel_tables_def add.assoc)
  moreover have "upper_tables tb (snd (memset 0x1000 c PAGESIZE m))"
    using assms(1) e [of _ 0] e [of _ "0x1000"] e [of _ "0x2000"] e [of _ "0x4000"] by (simp add: kernel_map_def upper_tables_def)
  ultimately show ?thesis using k by (simp add: kernel_map_def)
qed

text \<open>The viewer either has its page or takes page 1.\<close>

lemma refresh_returns:
  assumes v: "viewable M s"
  shows "\<exists>t. refresh M s = return () t \<and> viewable M t \<and> ptable t = ptable s"
proof -
  define s1 where "s1 = (if mu_page s = 0 then s\<lparr>frames := fst (snd (kalloc (lay M) PAGESIZE (frames s) (mem s))),
    mem := snd (snd (kalloc (lay M) PAGESIZE (frames s) (mem s))), mu_page := 0x1000\<rparr> else s)"
  have f: "(if mu_page s = 0 then let (pa, f, m) = kalloc (lay M) PAGESIZE (frames s) (mem s); s = s\<lparr>frames := f, mem := m, mu_page := pa\<rparr>
      in k_assert M ''k-memviewer.cc'' 72 ''v_ != nullptr'' (pa \<noteq> 0) s else return () s) = return () s1 \<and> viewable M s1 \<and> ptable s1 = ptable s"
  proof (cases "mu_page s = 0")
    case True
    with v have "next_alloc_pa (frames s) = 0 \<or> next_alloc_pa (frames s) = PAGESIZE" "pages (frames s) ! 1 = 0" "length (pages (frames s)) = 512"
      by (auto simp: viewable_def viewer_ready_def)
    with kalloc_low [OF this(1,2), of "lay M" "mem s"] True v kernel_map_page_1 [OF viewable_map [OF v]]
    show ?thesis by (simp add: s1_def k_assert_def viewable_def viewer_ready_def)
  next
    case False
    with v show ?thesis by (simp add: s1_def)
  qed
  from f compute_marks_ends [of M s1] obtain w where w: "compute_marks M s1 = Some (Inr w)" by blast
  have "viewable M s1" using f by blast
  then have "viewable M (s1\<lparr>mu_map := x\<rparr>)" for x by (simp add: viewable_def viewer_ready_def)
  then show ?thesis using f w by (auto simp: refresh_def)
qed

lemma fine_frames:
  assumes "fine s r" and "plain s r" and "leaves s r" and "viewable M s"
  shows "\<exists>x t. r = return x t \<and> viewable M t \<and> ptable t = ptable s \<and> current t = current s \<and> undisturbed s t"
proof -
  from assms(1) obtain x t where t: "r = return x t" "mem t = mem s" "ptable t = ptable s" "showing t = showing s" by (auto simp: fine_def)
  have u: "undisturbed s t" using assms(3) t(1) by (simp add: leaves_def)
  have c: "current t = current s" using assms(2) t(1) by (simp add: plain_def final_state_def)
  have "viewable M t" using assms(4) t u by (simp add: viewable_def undisturbed_def)
  with t u c show ?thesis by blast
qed

lemma memviewer_returns:
  assumes "viewable M s" and "case p of None \<Rightarrow> True | Some i \<Rightarrow> i < NPROC"
  shows "\<exists>t. console_memviewer M p s = return () t \<and> viewable M t"
proof -
  from refresh_returns [OF assms(1)] obtain t where t: "refresh M s = return () t" "viewable M t" "ptable t = ptable s" by blast
  have m: "kernel_map (kpt M) (mem t)" by (rule viewable_map [OF t(2)])
  define rest where "rest u =
     (case p of Some i \<Rightarrow> if pagetable (ptable u ! i) \<noteq> 0 then console_memviewer_virtual M (ptable u ! i) u
                       else k_print (CPOS 10 0) 0x0F00 (replicate 13 10) [] u
      | None \<Rightarrow> k_print (CPOS 10 0) 0x0F00 (replicate 13 10) [] u)" for u
  let ?body = "andthen (k_print (CPOS 0 32) 0x0F00 (ascii ''PHYSICAL MEMORY'' @ [10]) [] t) (\<lambda>_ u. andthen (draw_physical M [0..<512] u) (\<lambda>_ u. rest u))"
  have r: "fine u (rest u)" if "mem u = mem t" "ptable u = ptable t" for u
  proof (cases p)
    case (Some i)
    have "pagetable (ptable u ! i) = 0 \<or> pagetable (ptable u ! i) = kpt M"
      using assms(2) Some t(2) that(2) by (simp add: viewable_def)
    then show ?thesis using m that(1) Some console_memviewer_virtual_fine k_print_fine [OF blank_lines_print]
      by (auto simp: rest_def)
  qed (simp add: rest_def k_print_fine [OF blank_lines_print])
  have f: "fine t ?body"
    by (intro fine_andthen [OF k_print_fine [OF title_prints]] fine_andthen [OF draw_physical_fine] r) auto
  have e: "console_memviewer M p s = ?body" using assms(1) t(1) by (simp add: console_memviewer_def k_assert_def viewable_def rest_def [abs_def])
  have "fine t (console_memviewer M p s)" using f e by simp
  moreover have "leaves t ?body"
    unfolding rest_def
    by (intro leaves_andthen k_print_leaves draw_physical_leaves)
      (auto intro!: respectful simp: console_memviewer_virtual_def split: option.split sum.split)
  ultimately obtain u where "console_memviewer M p s = return () u" "mem u = mem t" "ptable u = ptable t" "showing u = showing t" "undisturbed t u"
    unfolding e by (auto simp: fine_def leaves_def)
  moreover from this t(2) have "viewable M u" by (simp add: viewable_def undisturbed_def)
  ultimately show ?thesis by blast
qed

lemma find_shown_index: "find_shown ok n i = (p, k) \<Longrightarrow> i < NPROC \<Longrightarrow> k < NPROC \<and> (p = None \<or> p = Some k)"
  by (induction ok n i rule: find_shown.induct) (auto simp: NPROC_def split: if_splits)

lemma memshow_ends:
  assumes "viewable M s"
  shows "\<exists>t. memshow M s = return () t \<and> viewable M t \<and> ptable t = ptable s \<and> current t = current s \<and> undisturbed s t"
proof -
  let ?s = "switch_shown s" and ?ok = "\<lambda>i. pstate (ptable (switch_shown s) ! i) \<noteq> P_FREE \<and> pagetable (ptable (switch_shown s) ! i) \<noteq> 0"
  obtain p i where p: "find_shown ?ok NPROC (showing ?s) = (p, i)" by (rule prod.exhaust)
  have w: "ptable ?s = ptable s" "frames ?s = frames s" "mem ?s = mem s" "mu_page ?s = mu_page s" by (simp_all add: switch_shown_def)
  have "0 < NPROC" by (simp add: NPROC_def)
  then have "showing ?s < NPROC" using assms by (simp add: switch_shown_def viewable_def)
  note i = find_shown_index [OF p this]
  have s: "viewable M (?s\<lparr>showing := i\<rparr>)" using assms w i by (simp add: viewable_def viewer_ready_def)
  have "case p of None \<Rightarrow> True | Some i \<Rightarrow> i < NPROC" using i by (auto split: option.split)
  from memviewer_returns [OF s this] obtain t where "console_memviewer M p (?s\<lparr>showing := i\<rparr>) = return () t" "viewable M t" by blast
  moreover have "memshow M s = console_memviewer M p (?s\<lparr>showing := i\<rparr>)" by (simp only: memshow_def Let_def p prod.case)
  ultimately have t: "memshow M s = return () t" "viewable M t" by simp_all
  have "ptable t = ptable s" "current t = current s" using memshow_plain [of s M] t(1) by (simp_all add: plain_def final_state_def)
  moreover have "undisturbed s t" using memshow_leaves [of s M] t(1) by (simp add: leaves_def)
  ultimately show ?thesis using t by blast
qed

section \<open>The kernel's own memory\<close>

text \<open>Memory below the processes is the same; the page table is there.\<close>

definition same_low :: "memory \<Rightarrow> memory \<Rightarrow> bool" where
  "same_low m m' = (\<forall>a. a < 0x100000 \<longrightarrow> m' a = m a)"

lemma same_low_trans: "same_low m m' \<Longrightarrow> same_low m' m'' \<Longrightarrow> same_low m m''"
  by (simp add: same_low_def)

lemma read64_low:
  assumes "same_low m m'" and "unat a + 8 \<le> 0x100000"
  shows "read64 m' a = read64 m a"
proof (rule read64_cong)
  fix j :: nat assume j: "j < 8"
  then have "unat (a + word_of_nat j) = unat a + j" using assms(2) by (simp add: unat_add_64 unat_of_nat_small)
  then show "m' (a + word_of_nat j) = m (a + word_of_nat j)" using assms j by (simp add: same_low_def word_less_nat_alt)
qed

definition kpt_low :: "u64 \<Rightarrow> bool" where
  "kpt_low tb = (4096 dvd unat tb \<and> 0x2000 \<le> unat tb \<and> unat tb + 0x5000 \<le> 0x100000)"

lemma kpt_low_ok: "kpt_low tb \<Longrightarrow> kpt_ok tb"
  by (simp add: kpt_low_def kpt_ok_def)

lemma table_low: "kpt_low tb \<Longrightarrow> same_low m m' \<Longrightarrow> unat c + 8 \<le> 0x5000 \<Longrightarrow> read64 m' (tb + c) = read64 m (tb + c)"
  using read64_low [of m m' "tb + c"] kpt_unat [OF kpt_low_ok, of tb c] by (simp add: kpt_low_def word_less_nat_alt)

lemma kernel_tables_low:
  assumes "kpt_low tb" and "kernel_tables tb n m" and "same_low m m'"
  shows "kernel_tables tb n m'"
proof -
  have "read64 m' (tb + 0x3000 + 8 * word_of_nat i) = read64 m (tb + 0x3000 + 8 * word_of_nat i)" if "i < 512" for i
  proof -
    have "unat (0x3000 + 8 * word_of_nat i :: u64) = 0x3000 + 8 * i" using that by (simp add: unat_word_ariths unat_of_nat_small)
    then show ?thesis using table_low [OF assms(1,3), of "0x3000 + 8 * word_of_nat i"] that by (simp add: add.assoc)
  qed
  moreover note table_low [OF assms(1,3), of 0] table_low [OF assms(1,3), of "0x1000"] table_low [OF assms(1,3), of "0x2000"]
    table_low [OF assms(1,3), of "0x2008"] table_low [OF assms(1,3), of "0x4000"]
  ultimately show ?thesis using assms(2) by (simp add: kernel_tables_def)
qed

lemma kernel_map_low:
  assumes "kpt_low tb" and "kernel_map tb m" and "same_low m m'"
  shows "kernel_map tb m'"
proof -
  have e: "read64 m' (tb + d + 8 * word_of_nat i) = read64 m (tb + d + 8 * word_of_nat i)"
    if "i < 512" "d \<in> {0, 0x1000, 0x2000, 0x4000}" for d i
  proof -
    have "unat (8 * word_of_nat i :: u64) = 8 * i" using that(1) by (simp add: unat_word_ariths unat_of_nat_small)
    then have "unat (d + 8 * word_of_nat i) = unat d + 8 * i" using that by (auto simp: unat_add_64)
    then show ?thesis using table_low [OF assms(1,3), of "d + 8 * word_of_nat i"] that by (auto simp: add.assoc)
  qed
  have "upper_tables tb m'"
    using assms(2) e [of _ 0] e [of _ "0x1000"] e [of _ "0x2000"] e [of _ "0x4000"] by (simp add: kernel_map_def upper_tables_def)
  then show ?thesis using assms(2) kernel_tables_low [OF assms(1) _ assms(3)] by (simp add: kernel_map_def)
qed

section \<open>Progress of the kernel\<close>

text \<open>A machine whose page table and exception entry are where the kernel is, and on which no key is pressed.\<close>

definition machine_ok :: "machine \<Rightarrow> bool" where
  "machine_ok M = (kpt_low (kpt M) \<and> PAGESIZE \<le> exc_entry M \<and> exc_entry M < MEMSIZE_PHYSICAL \<and> keyboard_quiet M)"

text \<open>The state between two entries to the kernel: a runnable process is running.\<close>

definition live :: "machine \<Rightarrow> kernel \<Rightarrow> bool" where
  "live M s =
     (viewable M s \<and> table_ok s \<and> pstate (ptable s ! current s) = P_RUNNABLE \<and>
      (\<forall>i < NPROC. pstate (ptable s ! i) = P_RUNNABLE \<longrightarrow> pagetable (ptable s ! i) = kpt M))"

lemma live_same:
  assumes "live M s" and "viewable M t" and "ptable t = ptable s" and "current t = current s"
  shows "live M t"
  using assms by (simp add: live_def table_ok_def)

lemma live_regs:
  assumes "live M s" and "\<And>p. pstate (f p) = pstate p \<and> pid (f p) = pid p \<and> pagetable (f p) = pagetable p"
  shows "live M (update_proc i f s)"
proof (cases "i < length (ptable s)")
  case True
  have n: "ptable (update_proc i f s) ! j = (if j = i then f (ptable s ! i) else ptable s ! j)" for j using True by simp
  have "\<forall>p \<in> set (ptable (update_proc i f s)). pagetable p = 0 \<or> pagetable p = kpt M"
    using assms True by (auto simp: live_def viewable_def update_proc_def dest!: set_update_subset_insert [THEN subsetD])
  moreover have "pstate (ptable (update_proc i f s) ! j) = pstate (ptable s ! j)" "pid (ptable (update_proc i f s) ! j) = pid (ptable s ! j)"
    "pagetable (ptable (update_proc i f s) ! j) = pagetable (ptable s ! j)" for j using n assms(2) by auto
  moreover have "mu_page (update_proc i f s) = mu_page s" "showing (update_proc i f s) = showing s" "current (update_proc i f s) = current s"
    by (simp_all add: update_proc_def)
  ultimately show ?thesis using assms(1)
    by (simp add: live_def viewable_def viewer_ready_def table_ok_def del: update_proc_simps(4))
next
  case False
  then show ?thesis using assms(1) by (simp add: update_proc_def list_update_beyond)
qed

lemma live_check: "machine_ok M \<Longrightarrow> live M s \<Longrightarrow> check_pagetable (exc_entry M) (kpt M) (mem s) (kpt M) = Inr ()"
proof (rule identity_check)
  assume m: "machine_ok M" and l: "live M s"
  then have k: "kpt_low (kpt M)" by (simp add: machine_ok_def)
  show "kpt_ok (kpt M)" by (rule kpt_low_ok [OF k])
  show "identity_mapped (kpt M) (mem s)" using tables_identity [OF kpt_low_ok [OF k]] l by (simp add: live_def viewable_def kernel_map_def)
  show "PAGESIZE \<le> kpt M" "kpt M < MEMSIZE_PHYSICAL" using k by (simp_all add: kpt_low_def page_consts addr_consts word_le_nat_alt word_less_nat_alt)
  show "PAGESIZE \<le> exc_entry M" "exc_entry M < MEMSIZE_PHYSICAL" using m by (simp_all add: machine_ok_def)
qed

lemma schedule_live:
  assumes "machine_ok M" and "live M s"
  shows "\<exists>j t. schedule M s = stop (Resumed j) t \<and> live M t"
proof -
  have t: "table_ok s" and c: "current s < 16" using assms(2) by (auto simp: live_def table_ok_def NPROC_def)
  have "(current s + 1 + 15) mod NPROC = current s" using c by (simp add: NPROC_def)
  then have "pstate (ptable s ! ((current s + 1 + 15) mod NPROC)) = P_RUNNABLE" using assms(2) by (simp add: live_def)
  then obtain k where k: "k \<le> 15" "pstate (ptable s ! ((current s + 1 + k) mod NPROC)) = P_RUNNABLE"
    "\<And>d. d < k \<Longrightarrow> pstate (ptable s ! ((current s + 1 + d) mod NPROC)) \<noteq> P_RUNNABLE"
    using exists_least_iff [of "\<lambda>k. pstate (ptable s ! ((current s + 1 + k) mod NPROC)) = P_RUNNABLE"]
    by (metis not_le)
  let ?j = "(current s + 1 + k) mod NPROC"
  have j: "?j < NPROC" by (simp add: NPROC_def)
  with k(2) assms(2) have p: "pagetable (ptable s ! ?j) = kpt M" by (simp add: live_def)
  have "schedule M s = stop (Resumed ?j) (s\<lparr>current := ?j, reads := reads s + k\<rparr>)"
    using assms(1) k live_check [OF assms] p by (intro schedule_finds [OF t]) (simp_all add: machine_ok_def NPROC_def)
  moreover have "live M (s\<lparr>current := ?j, reads := reads s + k\<rparr>)"
    using assms(2) k(2) j by (simp add: live_def viewable_def viewer_ready_def table_ok_def)
  ultimately show ?thesis by blast
qed

lemma show_cursor_live: "live M s \<Longrightarrow> live M (show_cursor s)"
  by (rule live_same) (auto simp: show_cursor_def live_def viewable_def viewer_ready_def)

text \<open>Showing memory and polling the keyboard.\<close>

lemma show_and_poll:
  assumes "machine_ok M" and "live M s"
  shows "\<exists>k t. andthen (memshow M s) (\<lambda>_ s. k_check_keyboard M s) = return k t \<and> live M t"
    and "\<exists>k t. andthen (if b then memshow M s else return () s) (\<lambda>_ s. k_check_keyboard M s) = return k t \<and> live M t"
proof -
  have v: "viewable M s" using assms(2) by (simp add: live_def)
  have p: "\<exists>k u. k_check_keyboard M t = return k u \<and> live M u" if "live M t" for t
  proof -
    have "live M (t\<lparr>reads := reads t + 1\<rparr>)"
      using that by (rule live_same) (use that in \<open>simp_all add: live_def viewable_def viewer_ready_def\<close>)
    then show ?thesis using quiet_check [of M t] assms(1) by (simp add: machine_ok_def)
  qed
  from memshow_ends [OF v] obtain t where t: "memshow M s = return () t" "viewable M t" "ptable t = ptable s" "current t = current s" by blast
  with live_same [OF assms(2) t(2-4)] p show a: "\<exists>k t. andthen (memshow M s) (\<lambda>_ s. k_check_keyboard M s) = return k t \<and> live M t" by simp
  show "\<exists>k t. andthen (if b then memshow M s else return () s) (\<lambda>_ s. k_check_keyboard M s) = return k t \<and> live M t"
    using a p [OF assms(2)] by (cases b) simp_all
qed

lemma entry_live:
  assumes "machine_ok M" and "live M s"
  shows "\<exists>k t. syscall_entry M r s = return k t \<and> live M t"
  unfolding syscall_entry_def Let_def
  by (rule show_and_poll(1) [OF assms(1) show_cursor_live [OF live_regs [OF assms(2)]]]) simp

lemma timer_live:
  assumes "machine_ok M" and "live M s" and "reg_intno r = INT_IRQ + IRQ_TIMER"
  shows "\<exists>j t. exception M addr r s = stop (Resumed j) t \<and> live M t"
proof -
  let ?s = "show_cursor (update_proc (current s) (\<lambda>p. p\<lparr>regs := r\<rparr>) s)"
  have "live M ?s" by (rule show_cursor_live [OF live_regs [OF assms(2)]]) simp
  from show_and_poll(2) [OF assms(1) this, of "reg_intno r \<noteq> INT_PF \<or> reg_errcode r AND PFERR_USER \<noteq> 0"] obtain k t
    where t: "andthen (if reg_intno r \<noteq> INT_PF \<or> reg_errcode r AND PFERR_USER \<noteq> 0 then memshow M ?s else return () ?s) (\<lambda>_ s. k_check_keyboard M s) = return k t"
      "live M t" by blast
  have "live M (t\<lparr>ticks := ticks t + 1, eois := eois t + 1\<rparr>)"
    using t(2) by (rule live_same) (use t(2) in \<open>simp_all add: live_def viewable_def viewer_ready_def\<close>)
  from schedule_live [OF assms(1) this] obtain j u where "schedule M (t\<lparr>ticks := ticks t + 1, eois := eois t + 1\<rparr>) = stop (Resumed j) u" "live M u" by blast
  then have d: "dispatch M addr r t = stop (Resumed j) u" "live M u" by (simp_all add: dispatch_def assms(3))
  have "exception M addr r s = andthen (andthen (if reg_intno r \<noteq> INT_PF \<or> reg_errcode r AND PFERR_USER \<noteq> 0 then memshow M ?s else return () ?s)
      (\<lambda>_ s. k_check_keyboard M s)) (\<lambda>_ s. dispatch M addr r s)"
    by (simp only: exception_def Let_def andthen_assoc)
  with t(1) d show ?thesis by simp
qed

text \<open>
  C37. The memory viewer always returns: when the kernel's page table is as built at boot, no process has a page table of its own
  and process 0 is free, \<open>memshow\<close> ends for every content of memory and of the page array: neither its loops over page
  tables, pages and addresses nor its assertions nor its messages stop it.
\<close>

theorem memshow_returns:
  assumes "viewable M s"
  shows "\<exists>t. memshow M s = Some (Inr ((), t)) \<and> viewable M t \<and> ptable t = ptable s \<and> current t = current s"
  using memshow_ends [OF assms] by blast

lemma viewable_at_boot: "\<exists>m. viewable quiet_machine (empty_kernel\<lparr>mem := m\<rparr>)"
proof -
  have k: "kpt_ok 0x52000" by (simp add: kpt_ok_def)
  from init_kernel_tables [OF k, of "lay quiet_machine" boot_pages "\<lambda>_. 0"] obtain m where "kernel_map 0x52000 m"
    using k by (auto simp: kernel_map_def)
  then have "viewable quiet_machine (empty_kernel\<lparr>mem := m\<rparr>)"
    by (auto simp: viewable_def quiet_machine_def empty_kernel_def viewer_ready_def boot_pages_def free_proc_def NPROC_def)
  then show ?thesis by blast
qed

theorem memshow_returns_witness:
  "\<exists>m t. memshow quiet_machine (empty_kernel\<lparr>mem := m\<rparr>) = Some (Inr ((), t)) \<and> viewable quiet_machine t \<and> current t = 0"
proof -
  from viewable_at_boot obtain m where m: "viewable quiet_machine (empty_kernel\<lparr>mem := m\<rparr>)" by blast
  from memshow_returns [OF m] obtain t where "memshow quiet_machine (empty_kernel\<lparr>mem := m\<rparr>) = Some (Inr ((), t))" "viewable quiet_machine t"
    "current t = current (empty_kernel\<lparr>mem := m\<rparr>)" by blast
  then show ?thesis by (auto simp: empty_kernel_def)
qed

end
