(* ===== verification/Allocators.thy ===== *)
theory Allocators
  imports KernelFrame
begin

text \<open>
  The user program \<open>weensyos/p-allocator.cc\<close> and the system calls of \<open>u-lib.hh\<close>, run by the kernel: four processes
  that grow their heaps page by page, interleaved by \<open>sys_yield\<close> and by timer interrupts. A process is its global
  variables, its random number generator and the point of the program it has reached; the code between two system calls
  is one turn. The kernel's page table maps every address to itself, so a process's writes are writes to \<open>mem\<close>.
\<close>

section \<open>The program\<close>

definition ALLOC_SLOWDOWN :: int where "ALLOC_SLOWDOWN = 100"

text \<open>
  \<open>Start\<close>: before \<open>sys_getpid\<close>; \<open>Allocating\<close>: at the head of the loop; \<open>Grown\<close>: after a successful
  \<open>sys_page_alloc\<close>; \<open>Idle\<close>: in the last loop.
\<close>

datatype point = Start | Allocating | Grown | Idle

record uproc =
  at :: point
  p_pid :: int
  heap_top :: u64
  stack_bottom :: u64
  rng :: rand_state

text \<open>The wrappers of \<open>u-lib.hh\<close> and the registers they enter the kernel with.\<close>

datatype call = sys_getpid | sys_yield | sys_page_alloc u64

fun make_syscall :: "call \<Rightarrow> regstate \<Rightarrow> regstate" where
  "make_syscall sys_getpid r = r\<lparr>reg_rax := SYSCALL_GETPID\<rparr>"
| "make_syscall sys_yield r = r\<lparr>reg_rax := SYSCALL_YIELD\<rparr>"
| "make_syscall (sys_page_alloc addr) r = r\<lparr>reg_rax := SYSCALL_PAGE_ALLOC, reg_rdi := addr\<rparr>"

text \<open>An \<open>int\<close> result: the low half of \<open>rax\<close>.\<close>

definition int_of_rax :: "u64 \<Rightarrow> int" where
  "int_of_rax v = sint (ucast v :: u32)"

text \<open>The writes to the new page and to the console.\<close>

definition check_writes :: "uproc \<Rightarrow> kernel \<Rightarrow> kernel" where
  "check_writes u s =
     s\<lparr>mem := (mem s)(heap_top u := word_of_int (p_pid u)),
       con := (con s)\<lparr>console := (console (con s))[nat (CPOS 24 79) := word_of_int (p_pid u)]\<rparr>\<rparr>"

text \<open>From a point of the program to the next system call; \<open>None\<close>: undefined behaviour of \<open>rand\<close>.\<close>

definition turn :: "uproc \<Rightarrow> kernel \<Rightarrow> (uproc \<times> kernel \<times> call) option" where
  "turn u s =
     (case at u of
        Start \<Rightarrow> Some (u, s, sys_getpid)
      | Allocating \<Rightarrow>
          (case rand_range 0 (ALLOC_SLOWDOWN - 1) (rng u) of
             Inl _ \<Rightarrow> None
           | Inr (x, g) \<Rightarrow>
               let u = u\<lparr>rng := g\<rparr>
               in if x < p_pid u then
                    if heap_top u = stack_bottom u then Some (u\<lparr>at := Idle\<rparr>, s, sys_yield)
                    else Some (u, s, sys_page_alloc (heap_top u))
                  else Some (u, s, sys_yield))
      | Grown \<Rightarrow> Some (u\<lparr>heap_top := heap_top u + PAGESIZE, at := Allocating\<rparr>, check_writes u s, sys_yield)
      | Idle \<Rightarrow> Some (u, s, sys_yield))"

text \<open>
  What the program does with the result of its call. \<open>e\<close> is the address of the linker's symbol \<open>end\<close>, \<open>rsp\<close> the stack
  pointer in \<open>process_main\<close>.
\<close>

definition after_call :: "u64 \<Rightarrow> u64 \<Rightarrow> call \<Rightarrow> u64 \<Rightarrow> uproc \<Rightarrow> uproc" where
  "after_call e rsp c v u =
     (case c of
        sys_getpid \<Rightarrow>
          u\<lparr>p_pid := int_of_rax v, rng := srand (ucast v) (rng u), heap_top := round_up e (ucast PAGESIZE),
            stack_bottom := round_down (rsp - 1) (ucast PAGESIZE), at := Allocating\<rparr>
      | sys_yield \<Rightarrow> u
      | sys_page_alloc _ \<Rightarrow> if int_of_rax v < 0 then u\<lparr>at := Idle\<rparr> else u\<lparr>at := Grown\<rparr>)"

section \<open>The processes and the kernel\<close>

record world =
  kern :: kernel
  user :: "nat \<Rightarrow> uproc"

text \<open>
  The current process runs to its next system call, which returns to it or switches to another process; or a timer
  interrupt switches away. \<open>ends\<close> and \<open>rsps\<close> give \<open>end\<close> and the stack pointer of each process; the other registers are
  arbitrary.
\<close>

inductive world_step :: "machine \<Rightarrow> (nat \<Rightarrow> u64) \<Rightarrow> (nat \<Rightarrow> u64) \<Rightarrow> world \<Rightarrow> world \<Rightarrow> bool" for M ends rsps where
  answered: "turn (user w (current (kern w))) (kern w) = Some (u, s, c) \<Longrightarrow> syscall M (make_syscall c r) s = return v t \<Longrightarrow>
    world_step M ends rsps w
      \<lparr>kern = t, user = (user w)(current (kern w) := after_call (ends (current (kern w))) (rsps (current (kern w))) c v u)\<rparr>"
| switched: "turn (user w (current (kern w))) (kern w) = Some (u, s, c) \<Longrightarrow> syscall M (make_syscall c r) s = stop (Resumed j) t \<Longrightarrow>
    world_step M ends rsps w \<lparr>kern = t, user = (user w)(current (kern w) := u)\<rparr>"
| interrupted: "reg_intno r = INT_IRQ + IRQ_TIMER \<Longrightarrow> exception M addr r (kern w) = stop (Resumed j) t \<Longrightarrow>
    world_step M ends rsps w \<lparr>kern = t, user = user w\<rparr>"

inductive_cases world_stepE: "world_step M ends rsps w w'"

section \<open>Heaps\<close>

text \<open>Page numbers: the first page of process \<open>i\<close>, its stack page and the start of its heap.\<close>

definition first_page :: "nat \<Rightarrow> nat" where "first_page i = 192 + 64 * i"
definition stack_page :: "nat \<Rightarrow> nat" where "stack_page i = 255 + 64 * i"
definition heap_start :: "u64 \<Rightarrow> nat" where "heap_start e = (unat e + 4095) div 4096"

lemmas page_numbers = first_page_def stack_page_def

text \<open>What the linker and the compiler have to provide.\<close>

definition program_fits :: "(nat \<Rightarrow> u64) \<Rightarrow> (nat \<Rightarrow> u64) \<Rightarrow> bool" where
  "program_fits ends rsps =
     (\<forall>i \<in> {1..4}. 4096 * first_page i \<le> unat (ends i) \<and> unat (ends i) \<le> 4096 * stack_page i \<and>
        4096 * stack_page i < unat (rsps i) \<and> unat (rsps i) \<le> 4096 * stack_page i + 4096)"

definition page_addr :: "nat \<Rightarrow> u64" where "page_addr k = word_of_nat (4096 * k)"

text \<open>
  The heap of process \<open>i\<close>: below \<open>heap_top\<close> all pages are in use and begin with the process's number, from there to the
  stack all are free, except for a page just allocated.
\<close>

definition heap_ok :: "u64 \<Rightarrow> nat \<Rightarrow> uproc \<Rightarrow> kernel \<Rightarrow> bool" where
  "heap_ok e i u s =
     (if at u = Start then \<forall>k. heap_start e \<le> k \<and> k < stack_page i \<longrightarrow> pages (frames s) ! k = 0
      else \<exists>h. heap_top u = page_addr h \<and> stack_bottom u = page_addr (stack_page i) \<and> p_pid u = int i \<and>
        heap_start e \<le> h \<and> h \<le> stack_page i \<and>
        (\<forall>k. heap_start e \<le> k \<and> k < h \<longrightarrow> pages (frames s) ! k \<noteq> 0 \<and> mem s (page_addr k) = word_of_nat i) \<and>
        (\<forall>k. h \<le> k \<and> k < stack_page i \<longrightarrow> pages (frames s) ! k = 0 \<or> at u = Grown \<and> k = h) \<and>
        (at u = Grown \<longrightarrow> h < stack_page i \<and> pages (frames s) ! h \<noteq> 0) \<and> (at u = Idle \<longrightarrow> h = stack_page i))"

definition four_procs :: "kernel \<Rightarrow> bool" where
  "four_procs s =
     (length (ptable s) = NPROC \<and> (\<forall>i < NPROC. pid (ptable s ! i) = int i \<and> (pstate (ptable s ! i) = P_RUNNABLE \<longrightarrow> i \<in> {1..4})) \<and>
      current s \<in> {1..4} \<and> viewer_ready s)"

definition world_ok :: "(nat \<Rightarrow> u64) \<Rightarrow> world \<Rightarrow> bool" where
  "world_ok ends w = (four_procs (kern w) \<and> (\<forall>i \<in> {1..4}. heap_ok (ends i) i (user w i) (kern w)))"

section \<open>Pages of different processes\<close>

lemma page_addr_unat: "k < 1024 \<Longrightarrow> unat (page_addr k) = 4096 * k"
  unfolding page_addr_def by (intro unat_of_nat_small) simp

lemma page_of_page_addr [simp]: "k < 1024 \<Longrightarrow> page_of (page_addr k) = k"
  by (simp add: page_of_round page_addr_unat)

lemma page_addr_inj: "j < 1024 \<Longrightarrow> k < 1024 \<Longrightarrow> page_addr j = page_addr k \<longleftrightarrow> j = k"
  using page_of_page_addr by metis

lemma page_addr_high: "256 \<le> k \<Longrightarrow> k < 1024 \<Longrightarrow> 0x100000 \<le> page_addr k"
  by (simp add: word_le_nat_alt page_addr_unat)

lemma page_addr_next: "page_addr k + PAGESIZE = page_addr (Suc k)"
  by (simp add: page_addr_def page_consts)

lemma other_page: "j < 1024 \<Longrightarrow> k < 1024 \<Longrightarrow> j \<noteq> k \<Longrightarrow> \<not> unat (page_addr k - page_addr j) < 4096"
proof (cases "j < k")
  case True
  assume "j < 1024" "k < 1024"
  with True show ?thesis by (simp add: unat_sub word_le_nat_alt page_addr_unat)
next
  case False
  assume a: "j < 1024" "k < 1024" "j \<noteq> k"
  with False have "k < j" by simp
  with a show ?thesis by (simp add: unat_sub_if_size word_size page_addr_unat)
qed

lemma memset_page:
  assumes "j < 1024" and "k < 1024"
  shows "snd (memset (page_addr j) c PAGESIZE m) (page_addr k) = (if j = k then word_of_int c else m (page_addr k))"
  using other_page [OF assms] by (simp add: memset_def page_consts fill_up_eq)

lemma heap_bounds:
  assumes "program_fits ends rsps" and "i \<in> {1..4}"
  shows "first_page i \<le> heap_start (ends i)" "heap_start (ends i) \<le> stack_page i" "256 \<le> first_page i" "stack_page i < 512"
proof -
  have e: "4096 * first_page i \<le> unat (ends i)" "unat (ends i) \<le> 4096 * stack_page i" using assms by (auto simp: program_fits_def)
  show "first_page i \<le> heap_start (ends i)" "heap_start (ends i) \<le> stack_page i" using e unfolding heap_start_def by linarith+
  show "256 \<le> first_page i" "stack_page i < 512" using assms(2) by (simp_all add: page_numbers)
qed

text \<open>A heap is kept when its pages and their first bytes are; the areas of two processes are apart.\<close>

definition agree_on :: "nat \<Rightarrow> kernel \<Rightarrow> kernel \<Rightarrow> bool" where
  "agree_on i s t =
     (\<forall>k. first_page i \<le> k \<and> k < stack_page i \<longrightarrow> pages (frames t) ! k = pages (frames s) ! k \<and> mem t (page_addr k) = mem s (page_addr k))"

lemma heap_ok_agree:
  assumes "heap_ok (ends i) i u s" and "agree_on i s t" and "program_fits ends rsps" and "i \<in> {1..4}"
  shows "heap_ok (ends i) i u t"
proof -
  note b = heap_bounds [OF assms(3,4)]
  have a: "pages (frames t) ! k = pages (frames s) ! k" "mem t (page_addr k) = mem s (page_addr k)"
    if "heap_start (ends i) \<le> k" "k < stack_page i" for k
    using assms(2) that b(1) by (simp_all add: agree_on_def)
  show ?thesis
  proof (cases "at u = Start")
    case True
    with assms(1) a show ?thesis by (simp add: heap_ok_def)
  next
    case False
    with assms(1) obtain h where h: "heap_top u = page_addr h" "stack_bottom u = page_addr (stack_page i)" "p_pid u = int i"
        "heap_start (ends i) \<le> h" "h \<le> stack_page i"
        "\<forall>k. heap_start (ends i) \<le> k \<and> k < h \<longrightarrow> pages (frames s) ! k \<noteq> 0 \<and> mem s (page_addr k) = word_of_nat i"
        "\<forall>k. h \<le> k \<and> k < stack_page i \<longrightarrow> pages (frames s) ! k = 0 \<or> at u = Grown \<and> k = h"
        "at u = Grown \<longrightarrow> h < stack_page i \<and> pages (frames s) ! h \<noteq> 0" "at u = Idle \<longrightarrow> h = stack_page i"
      unfolding heap_ok_def by auto
    have "\<forall>k. heap_start (ends i) \<le> k \<and> k < h \<longrightarrow> pages (frames t) ! k \<noteq> 0 \<and> mem t (page_addr k) = word_of_nat i" using a h(5,6) by simp
    moreover have "\<forall>k. h \<le> k \<and> k < stack_page i \<longrightarrow> pages (frames t) ! k = 0 \<or> at u = Grown \<and> k = h" using a h(4,7) by auto
    moreover have "at u = Grown \<longrightarrow> h < stack_page i \<and> pages (frames t) ! h \<noteq> 0" using a h(4,8) by simp
    ultimately show ?thesis using False h by (auto simp: heap_ok_def)
  qed
qed

lemma same_area_agree:
  assumes "same_area s t" and "i \<in> {1..4}"
  shows "agree_on i s t"
  unfolding agree_on_def
proof (intro allI impI)
  fix k assume "first_page i \<le> k \<and> k < stack_page i"
  with assms(2) have "256 \<le> k" "k < 1024" by (auto simp: page_numbers)
  with assms(1) page_addr_high [OF this]
  show "pages (frames t) ! k = pages (frames s) ! k \<and> mem t (page_addr k) = mem s (page_addr k)" by (simp add: same_area_def)
qed

lemma agree_on_trans: "agree_on i s t \<Longrightarrow> agree_on i t u \<Longrightarrow> agree_on i s u"
  by (simp add: agree_on_def)

lemma areas_apart: "first_page i \<le> j \<Longrightarrow> j < stack_page i \<Longrightarrow> first_page k \<le> j \<Longrightarrow> j < stack_page k \<Longrightarrow> i = k"
  by (auto simp: page_numbers)

text \<open>Undisturbed kernels keep the whole invariant.\<close>

lemma four_procs_undisturbed:
  assumes "four_procs s" and "undisturbed s t"
  shows "four_procs t" "same_area s t"
proof -
  from assms have v: "viewer_ready t" "same_procs s t" "same_area s t" by (simp_all add: undisturbed_def four_procs_def)
  have l: "length (ptable t) = NPROC" using same_procs_length [OF v(2)] assms(1) by (simp add: four_procs_def)
  have p: "pstate (ptable t ! i) = pstate (ptable s ! i)" "pid (ptable t ! i) = pid (ptable s ! i)" if "i < NPROC" for i
    using same_procs_nth [OF v(2)] that assms(1) by (simp_all add: four_procs_def)
  have c: "current t = current s \<or> current t < NPROC \<and> pstate (ptable s ! current t) = P_RUNNABLE"
    using v(2) assms(1) by (auto simp: same_procs_def four_procs_def)
  have "current t \<in> {1..4}" using c assms(1) unfolding four_procs_def by metis
  then show "four_procs t" using l p v(1) assms(1) by (simp add: four_procs_def)
  show "same_area s t" by (rule v(3))
qed

lemma heap_ok_undisturbed:
  assumes "four_procs s" and "undisturbed s t" and "heap_ok (ends i) i u s" and "program_fits ends rsps" and "i \<in> {1..4}"
  shows "heap_ok (ends i) i u t"
  by (rule heap_ok_agree [OF assms(3) same_area_agree [OF four_procs_undisturbed(2) [OF assms(1,2)] assms(5)] assms(4,5)])

section \<open>System calls\<close>

lemmas syscall_switch = syscall_after_entry syscall_numbers andthen_cases andthen_return

lemma entry_rax: "reg_rax (make_syscall c r) =
    (case c of sys_getpid \<Rightarrow> SYSCALL_GETPID | sys_yield \<Rightarrow> SYSCALL_YIELD | sys_page_alloc a \<Rightarrow> SYSCALL_PAGE_ALLOC)"
  by (cases c) simp_all

lemma entry_undisturbs: "syscall_entry M r s = return k u \<Longrightarrow> undisturbed s u"
  using entry_leaves [of s M r] by (simp add: leaves_def goes_on_def)

lemma entry_never_resumes: "syscall_entry M r s \<noteq> stop (Resumed j) t"
proof -
  have "plain (show_cursor (update_proc (current s) (\<lambda>p. p\<lparr>regs := r\<rparr>) s)) (syscall_entry M r s)"
    unfolding syscall_entry_def Let_def by (intro plain_andthen memshow_plain k_check_keyboard_plain)
  then show ?thesis by (auto simp: plain_def)
qed

lemma getpid_call:
  assumes "four_procs s"
  shows "syscall M (make_syscall sys_getpid r) s = return v t \<Longrightarrow> undisturbed s t \<and> current t = current s \<and> v = word_of_nat (current s)"
    and "syscall M (make_syscall sys_getpid r) s \<noteq> stop (Resumed j) t"
proof -
  assume "syscall M (make_syscall sys_getpid r) s = return v t"
  then obtain k where k: "syscall_entry M (make_syscall sys_getpid r) s = return k t" and v: "v = word_of_int (pid (ptable t ! current t))"
    by (auto simp: syscall_switch)
  have c: "current s < length (ptable s)" "current s < NPROC" "pid (ptable s ! current s) = int (current s)"
    using assms by (auto simp: four_procs_def NPROC_def)
  then show "undisturbed s t \<and> current t = current s \<and> v = word_of_nat (current s)"
    using entry_undisturbs [OF k] entry_keeps_procs [OF k] v by simp
next
  show "syscall M (make_syscall sys_getpid r) s \<noteq> stop (Resumed j) t"
    by (auto simp: syscall_switch entry_never_resumes)
qed

lemma yield_call:
  assumes "length (ptable s) = NPROC"
  shows "syscall M (make_syscall sys_yield r) s = stop (Resumed j) t \<Longrightarrow> undisturbed s t"
    and "syscall M (make_syscall sys_yield r) s \<noteq> return v t"
proof -
  let ?f = "\<lambda>u. update_proc (current u) (\<lambda>p. p\<lparr>regs := (regs p)\<lparr>reg_rax := 0\<rparr>\<rparr>) u"
  assume "syscall M (make_syscall sys_yield r) s = stop (Resumed j) t"
  then obtain k u where k: "syscall_entry M (make_syscall sys_yield r) s = return k u" and y: "schedule M (?f u) = stop (Resumed j) t"
    by (auto simp: syscall_switch entry_never_resumes)
  have "length (ptable (?f u)) = NPROC" using entry_keeps_procs [OF k] assms by simp
  from schedule_leaves [OF this] y have "undisturbed (?f u) t" by (auto simp: leaves_def goes_on_def)
  moreover have "undisturbed u (?f u)" by (rule update_regs_undisturbed) simp
  ultimately show "undisturbed s t" using entry_undisturbs [OF k] undisturbed_trans by blast
next
  show "syscall M (make_syscall sys_yield r) s \<noteq> return v t"
    by (auto simp: syscall_switch schedule_never_returns)
qed

lemma alloc_call:
  assumes "current s < length (ptable s)"
  shows "syscall M (make_syscall (sys_page_alloc a) r) s = return v t \<Longrightarrow>
      \<exists>k u. syscall_entry M (make_syscall (sys_page_alloc a) r) s = return k u \<and> syscall_page_alloc M a u = return v t"
    and "syscall M (make_syscall (sys_page_alloc a) r) s \<noteq> stop (Resumed j) t"
proof -
  assume "syscall M (make_syscall (sys_page_alloc a) r) s = return v t"
  then obtain k u where k: "syscall_entry M (make_syscall (sys_page_alloc a) r) s = return k u"
      and p: "syscall_page_alloc M (reg_rdi (regs (ptable u ! current u))) u = return v t"
    by (auto simp: syscall_switch)
  have "reg_rdi (regs (ptable u ! current u)) = a" using entry_keeps_procs [OF k] assms by simp
  with k p show "\<exists>k u. syscall_entry M (make_syscall (sys_page_alloc a) r) s = return k u \<and> syscall_page_alloc M a u = return v t" by auto
next
  have "plain u (syscall_page_alloc M a u)" for a u
    by (auto simp: syscall_page_alloc_def claim_result_def intro!: plain_intros plain_andthen split: sum.split claim_error.split)
  then have "syscall_page_alloc M b u \<noteq> stop (Resumed j) t" for b u by (fastforce simp: plain_def)
  then show "syscall M (make_syscall (sys_page_alloc a) r) s \<noteq> stop (Resumed j) t"
    by (auto simp: syscall_switch entry_never_resumes)
qed

text \<open>The page a process asks for is free in its area: the call succeeds.\<close>

lemma page_alloc_free:
  assumes "k < 512" and "length (pages (frames s)) = 512" and "pages (frames s) ! k = 0"
  shows "syscall_page_alloc M (page_addr k) s =
    return 0 (s\<lparr>frames := (frames s)\<lparr>pages := (pages (frames s))[k := 1]\<rparr>, mem := snd (memset (page_addr k) 0 PAGESIZE (mem s))\<rparr>)"
  using assms by (simp add: syscall_page_alloc_def claim_page_def claim_result_def used_def)

section \<open>Every step keeps the heaps\<close>

lemma heap_ok_rng [simp]: "heap_ok e i (u\<lparr>rng := g\<rparr>) s = heap_ok e i u s"
  by (simp add: heap_ok_def)

lemma not_start: "at u \<noteq> Start \<Longrightarrow> heap_ok e i u s \<longleftrightarrow> (\<exists>h. heap_top u = page_addr h \<and> stack_bottom u = page_addr (stack_page i) \<and> p_pid u = int i \<and>
        heap_start e \<le> h \<and> h \<le> stack_page i \<and>
        (\<forall>k. heap_start e \<le> k \<and> k < h \<longrightarrow> pages (frames s) ! k \<noteq> 0 \<and> mem s (page_addr k) = word_of_nat i) \<and>
        (\<forall>k. h \<le> k \<and> k < stack_page i \<longrightarrow> pages (frames s) ! k = 0 \<or> at u = Grown \<and> k = h) \<and>
        (at u = Grown \<longrightarrow> h < stack_page i \<and> pages (frames s) ! h \<noteq> 0) \<and> (at u = Idle \<longrightarrow> h = stack_page i))"
  by (simp add: heap_ok_def)

text \<open>The first turn: the heap is empty.\<close>

lemma first_turn:
  assumes "heap_ok (ends i) i u s" and "at u = Start" and "program_fits ends rsps" and "i \<in> {1..4}"
  shows "heap_ok (ends i) i (after_call (ends i) (rsps i) sys_getpid (word_of_nat i) u) s"
proof -
  note b = heap_bounds [OF assms(3,4)]
  have e: "unat (ends i) \<le> 4096 * stack_page i" and r: "4096 * stack_page i < unat (rsps i)" "unat (rsps i) \<le> 4096 * stack_page i + 4096"
    using assms(3,4) by (auto simp: program_fits_def)
  have p: "unat (ucast (PAGESIZE :: u64) :: u32) = 4096" "(ucast (PAGESIZE :: u64) :: u32) \<noteq> 0" by (simp_all add: page_consts)
  have "unat (round_up (ends i) (ucast PAGESIZE)) = 4096 * heap_start (ends i)"
    using e b(4) unat_round_up [of "ucast PAGESIZE" "ends i"] by (simp add: p heap_start_def)
  then have h: "round_up (ends i) (ucast PAGESIZE) = page_addr (heap_start (ends i))"
    using b(2,4) by (intro word_unat_eq_iff [THEN iffD2]) (simp add: page_addr_unat)
  have "rsps i \<noteq> 0" using r(1) by auto
  then have "unat (rsps i - 1) = unat (rsps i) - 1" by (rule unat_minus_one)
  then have "unat (round_down (rsps i - 1) (ucast PAGESIZE)) = 4096 * stack_page i"
    using r by (simp add: unat_round_down p)
  then have s: "round_down (rsps i - 1) (ucast PAGESIZE) = page_addr (stack_page i)"
    using b(4) by (intro word_unat_eq_iff [THEN iffD2]) (simp add: page_addr_unat)
  have "i = 1 \<or> i = 2 \<or> i = 3 \<or> i = 4" using assms(4) by auto
  then have i: "int_of_rax (word_of_nat i) = int i" by (auto simp: int_of_rax_def)
  show ?thesis using assms(1,2) b(2) i by (auto simp: heap_ok_def after_call_def h s)
qed

text \<open>A page is claimed and zeroed: the heap of the caller is one page longer, the others are as before.\<close>

definition claimed :: "nat \<Rightarrow> kernel \<Rightarrow> kernel" where
  "claimed h s = s\<lparr>frames := (frames s)\<lparr>pages := (pages (frames s))[h := 1]\<rparr>, mem := snd (memset (page_addr h) 0 PAGESIZE (mem s))\<rparr>"

lemma claimed_others:
  assumes "first_page i \<le> h" and "h < stack_page i" and "i \<in> {1..4}" and "j \<in> {1..4}" and "j \<noteq> i"
  shows "agree_on j s (claimed h s)"
  unfolding agree_on_def
proof (intro allI impI)
  fix k assume k: "first_page j \<le> k \<and> k < stack_page j"
  with areas_apart [of j k i] assms have "h \<noteq> k" "h < 1024" "k < 1024" by (auto simp: page_numbers)
  then show "pages (frames (claimed h s)) ! k = pages (frames s) ! k \<and> mem (claimed h s) (page_addr k) = mem s (page_addr k)"
    by (simp add: claimed_def memset_page)
qed

lemma heap_grows:
  assumes ok: "heap_ok (ends i) i u s" and at: "at u = Allocating" and top: "heap_top u \<noteq> stack_bottom u"
    and s: "four_procs s" and fit: "program_fits ends rsps" and i: "i \<in> {1..4}"
  shows "\<exists>h. heap_top u = page_addr h \<and> syscall_page_alloc M (page_addr h) s = return 0 (claimed h s) \<and> first_page i \<le> h \<and> h < stack_page i \<and>
    heap_ok (ends i) i (u\<lparr>at := Grown\<rparr>) (claimed h s)"
proof -
  note b = heap_bounds [OF fit i]
  have l: "length (pages (frames s)) = 512" using s by (simp add: four_procs_def viewer_ready_def)
  from ok at obtain h where h: "heap_top u = page_addr h" "stack_bottom u = page_addr (stack_page i)" "p_pid u = int i"
      "heap_start (ends i) \<le> h" "h \<le> stack_page i"
      "\<forall>k. heap_start (ends i) \<le> k \<and> k < h \<longrightarrow> pages (frames s) ! k \<noteq> 0 \<and> mem s (page_addr k) = word_of_nat i"
      "\<forall>k. h \<le> k \<and> k < stack_page i \<longrightarrow> pages (frames s) ! k = 0"
    by (auto simp: heap_ok_def)
  from top h(1,2,5) have lt: "h < stack_page i" by (metis le_neq_implies_less)
  with h(7) b(4) l have "syscall_page_alloc M (page_addr h) s = return 0 (claimed h s)" unfolding claimed_def by (intro page_alloc_free) auto
  moreover have "heap_ok (ends i) i (u\<lparr>at := Grown\<rparr>) (claimed h s)"
  proof -
    have "\<forall>k. heap_start (ends i) \<le> k \<and> k < h \<longrightarrow> pages (frames (claimed h s)) ! k \<noteq> 0 \<and> mem (claimed h s) (page_addr k) = word_of_nat i"
      using h(6) lt b(4) by (simp add: claimed_def memset_page)
    moreover have "\<forall>k. h \<le> k \<and> k < stack_page i \<longrightarrow> pages (frames (claimed h s)) ! k = 0 \<or> k = h"
      using h(7) by (simp add: claimed_def) (metis nth_list_update_neq)
    moreover have "pages (frames (claimed h s)) ! h \<noteq> 0" using l lt b(4) by (simp add: claimed_def)
    ultimately show ?thesis using h lt by (auto simp: heap_ok_def)
  qed
  ultimately show ?thesis using h(1,4) lt b(1) by auto
qed

text \<open>The write to the new page.\<close>

lemma check_writes_others:
  assumes "heap_top u = page_addr h" and "first_page i \<le> h" and "h < stack_page i" and "i \<in> {1..4}" and "j \<in> {1..4}" and "j \<noteq> i"
  shows "agree_on j s (check_writes u s)"
  unfolding agree_on_def
proof (intro allI impI)
  fix k assume k: "first_page j \<le> k \<and> k < stack_page j"
  with areas_apart [of j k i] assms have "h \<noteq> k" "h < 1024" "k < 1024" by (auto simp: page_numbers)
  then show "pages (frames (check_writes u s)) ! k = pages (frames s) ! k \<and> mem (check_writes u s) (page_addr k) = mem s (page_addr k)"
    using assms(1) by (simp add: check_writes_def page_addr_inj)
qed

lemma heap_written:
  assumes ok: "heap_ok (ends i) i u s" and at: "at u = Grown" and fit: "program_fits ends rsps" and i: "i \<in> {1..4}"
  shows "\<exists>h. heap_top u = page_addr h \<and> first_page i \<le> h \<and> h < stack_page i \<and>
    heap_ok (ends i) i (u\<lparr>heap_top := heap_top u + PAGESIZE, at := Allocating\<rparr>) (check_writes u s)"
proof -
  note b = heap_bounds [OF fit i]
  from ok at obtain h where h: "heap_top u = page_addr h" "stack_bottom u = page_addr (stack_page i)" "p_pid u = int i"
      "heap_start (ends i) \<le> h" "h < stack_page i"
      "\<forall>k. heap_start (ends i) \<le> k \<and> k < h \<longrightarrow> pages (frames s) ! k \<noteq> 0 \<and> mem s (page_addr k) = word_of_nat i"
      "\<forall>k. h \<le> k \<and> k < stack_page i \<longrightarrow> pages (frames s) ! k = 0 \<or> k = h" "pages (frames s) ! h \<noteq> 0"
    by (auto simp: heap_ok_def)
  have "\<forall>k. heap_start (ends i) \<le> k \<and> k < Suc h \<longrightarrow>
      pages (frames (check_writes u s)) ! k \<noteq> 0 \<and> mem (check_writes u s) (page_addr k) = word_of_nat i"
    using h(1,3,5,6,8) b(4) by (auto simp: check_writes_def page_addr_inj less_Suc_eq)
  moreover have "\<forall>k. Suc h \<le> k \<and> k < stack_page i \<longrightarrow> pages (frames (check_writes u s)) ! k = 0"
    using h(7) by (simp add: check_writes_def) (metis Suc_leD Suc_n_not_le_n)
  ultimately have "heap_ok (ends i) i (u\<lparr>heap_top := heap_top u + PAGESIZE, at := Allocating\<rparr>) (check_writes u s)"
    using h by (auto simp: heap_ok_def page_addr_next intro!: exI [of _ "Suc h"])
  with h(1,4,5) b(1) show ?thesis by auto
qed

lemma world_okI:
  assumes "world_ok ends w" and "i \<in> {1..4}" and "four_procs t" and "heap_ok (ends i) i u t"
    and "\<And>j. j \<in> {1..4} \<Longrightarrow> j \<noteq> i \<Longrightarrow> agree_on j (kern w) t" and "program_fits ends rsps"
  shows "world_ok ends \<lparr>kern = t, user = (user w)(i := u)\<rparr>"
  using assms heap_ok_agree [OF _ assms(5) assms(6)] by (auto simp: world_ok_def)

text \<open>A turn that yields.\<close>

lemma yielding_turn:
  assumes w: "world_ok ends w" and i: "i = current (kern w)" and t: "turn (user w i) (kern w) = Some (u, s, sys_yield)"
    and fit: "program_fits ends rsps"
  shows "four_procs s \<and> heap_ok (ends i) i u s \<and> (\<forall>j \<in> {1..4}. j \<noteq> i \<longrightarrow> agree_on j (kern w) s)"
proof -
  from w i have f: "four_procs (kern w)" and c: "i \<in> {1..4}" and ok: "heap_ok (ends i) i (user w i) (kern w)"
    by (auto simp: world_ok_def four_procs_def)
  show ?thesis
  proof (cases "at (user w i)")
    case Start
    with t show ?thesis by (simp add: turn_def)
  next
    case Allocating
    obtain x g where g: "rand_range 0 (ALLOC_SLOWDOWN - 1) (rng (user w i)) = Inr (x, g)"
      using t Allocating by (auto simp: turn_def split: sum.splits)
    from t g Allocating have "s = kern w \<and> (u = (user w i)\<lparr>rng := g\<rparr> \<or>
        heap_top (user w i) = stack_bottom (user w i) \<and> u = (user w i)\<lparr>rng := g, at := Idle\<rparr>)"
      by (auto simp: turn_def Let_def split: if_splits)
    moreover have "heap_ok (ends i) i ((user w i)\<lparr>rng := g, at := Idle\<rparr>) (kern w)" if "heap_top (user w i) = stack_bottom (user w i)"
    proof -
      from ok Allocating obtain h where h: "heap_top (user w i) = page_addr h" "stack_bottom (user w i) = page_addr (stack_page i)" "h \<le> stack_page i"
        "p_pid (user w i) = int i" "heap_start (ends i) \<le> h"
        "\<forall>k. heap_start (ends i) \<le> k \<and> k < h \<longrightarrow> pages (frames (kern w)) ! k \<noteq> 0 \<and> mem (kern w) (page_addr k) = word_of_nat i"
        by (auto simp: heap_ok_def)
      with that heap_bounds(4) [OF fit c] page_addr_inj [of h "stack_page i"] have "h = stack_page i" by simp
      with h show ?thesis by (auto simp: heap_ok_def)
    qed
    ultimately show ?thesis using f ok by (auto simp: agree_on_def)
  next
    case Grown
    with t have u: "u = (user w i)\<lparr>heap_top := heap_top (user w i) + PAGESIZE, at := Allocating\<rparr>" and s: "s = check_writes (user w i) (kern w)"
      by (simp_all add: turn_def)
    from heap_written [OF ok Grown fit c] obtain h where h: "heap_top (user w i) = page_addr h" "first_page i \<le> h" "h < stack_page i"
      "heap_ok (ends i) i u s" unfolding u s by blast
    moreover have "four_procs s" using f by (simp add: s check_writes_def four_procs_def viewer_ready_def)
    moreover have "\<forall>j \<in> {1..4}. j \<noteq> i \<longrightarrow> agree_on j (kern w) s" using check_writes_others [OF h(1-3) c] by (simp add: s)
    ultimately show ?thesis by blast
  next
    case Idle
    with t f ok show ?thesis by (simp add: turn_def agree_on_def)
  qed
qed

lemma answered_step:
  assumes w: "world_ok ends w" and i: "i = current (kern w)" and t: "turn (user w i) (kern w) = Some (u, s, c)"
    and a: "syscall M (make_syscall c r) s = return v t" and fit: "program_fits ends rsps"
  shows "world_ok ends \<lparr>kern = t, user = (user w)(i := after_call (ends i) (rsps i) c v u)\<rparr>"
proof -
  from w i have f: "four_procs (kern w)" and ci: "i \<in> {1..4}" and ok: "heap_ok (ends i) i (user w i) (kern w)"
    by (auto simp: world_ok_def four_procs_def)
  have y: "length (ptable s) = NPROC" if "c = sys_yield" using yielding_turn [OF w i _ fit] t that by (auto simp: four_procs_def)
  have "c \<noteq> sys_yield" using yield_call(2) [OF y] a by blast
  then have "at (user w i) = Start \<and> c = sys_getpid \<and> u = user w i \<and> s = kern w \<or>
      at (user w i) = Allocating \<and> s = kern w \<and> heap_top (user w i) \<noteq> stack_bottom (user w i) \<and>
      (\<exists>g. u = (user w i)\<lparr>rng := g\<rparr> \<and> c = sys_page_alloc (heap_top u))"
    using t by (auto simp: turn_def Let_def split: point.splits sum.splits if_splits)
  then show ?thesis
  proof (elim disjE conjE exE)
    assume st: "at (user w i) = Start" and c: "c = sys_getpid" and u: "u = user w i" and s: "s = kern w"
    from getpid_call(1) [OF f a [unfolded c s]] i have d: "undisturbed (kern w) t" and v: "v = word_of_nat i" by simp_all
    have "heap_ok (ends i) i (after_call (ends i) (rsps i) c v u) t"
      unfolding c v u by (rule heap_ok_undisturbed [OF f d first_turn [OF ok st fit ci] fit ci])
    with w ci fit four_procs_undisturbed [OF f d] same_area_agree show ?thesis by (intro world_okI) auto
  next
    fix g
    assume al: "at (user w i) = Allocating" and s: "s = kern w" and ne: "heap_top (user w i) \<noteq> stack_bottom (user w i)"
      and u: "u = (user w i)\<lparr>rng := g\<rparr>" and c: "c = sys_page_alloc (heap_top u)"
    have "current (kern w) < length (ptable (kern w))" using f by (auto simp: four_procs_def NPROC_def)
    from alloc_call(1) [OF this a [unfolded c s]] obtain k z where k: "syscall_entry M (make_syscall c r) (kern w) = return k z"
      and p: "syscall_page_alloc M (heap_top u) z = return v t" unfolding c by blast
    note d = entry_undisturbs [OF k] and fz = four_procs_undisturbed [OF f entry_undisturbs [OF k]]
    have oku: "heap_ok (ends i) i u z" using heap_ok_undisturbed [OF f d ok fit ci] by (simp add: u)
    from heap_grows [OF oku _ _ fz(1) fit ci] al ne obtain h where h: "heap_top u = page_addr h"
        "syscall_page_alloc M (page_addr h) z = return 0 (claimed h z)" "first_page i \<le> h" "h < stack_page i"
        "heap_ok (ends i) i (u\<lparr>at := Grown\<rparr>) (claimed h z)" by (auto simp: u)
    from p h(1,2) have v: "v = 0" "t = claimed h z" by simp_all
    have "four_procs t" using fz(1) h(3) ci unfolding v by (auto simp: claimed_def four_procs_def viewer_ready_def page_numbers nth_list_update)
    moreover have "agree_on j (kern w) t" if "j \<in> {1..4}" "j \<noteq> i" for j
      using agree_on_trans [OF same_area_agree [OF fz(2) that(1)]] claimed_others [OF h(3,4) ci that] v by simp
    moreover have "after_call (ends i) (rsps i) c v u = u\<lparr>at := Grown\<rparr>" by (simp add: after_call_def c v int_of_rax_def)
    ultimately show ?thesis using w ci fit h(5) v(2) by (intro world_okI) auto
  qed
qed

lemma switched_step:
  assumes w: "world_ok ends w" and i: "i = current (kern w)" and t: "turn (user w i) (kern w) = Some (u, s, c)"
    and a: "syscall M (make_syscall c r) s = stop (Resumed j) t" and fit: "program_fits ends rsps"
  shows "world_ok ends \<lparr>kern = t, user = (user w)(i := u)\<rparr>"
proof -
  from w i have f: "four_procs (kern w)" and ci: "i \<in> {1..4}" by (auto simp: world_ok_def four_procs_def)
  have "current (kern w) < length (ptable (kern w))" using f by (auto simp: four_procs_def NPROC_def)
  then have "c = sys_yield"
    using t a getpid_call(2) [OF f] alloc_call(2) [of "kern w"]
    by (cases c) (auto simp: turn_def Let_def split: point.splits sum.splits if_splits)
  with yielding_turn [OF w i _ fit] t have s: "four_procs s" "heap_ok (ends i) i u s" "\<forall>j \<in> {1..4}. j \<noteq> i \<longrightarrow> agree_on j (kern w) s" by auto
  have d: "undisturbed s t" using yield_call(1) a s(1) \<open>c = sys_yield\<close> by (auto simp: four_procs_def)
  note ft = four_procs_undisturbed [OF s(1) d]
  have "agree_on j (kern w) t" if "j \<in> {1..4}" "j \<noteq> i" for j
    using s(3) that same_area_agree [OF ft(2) that(1)] agree_on_trans by blast
  with w ci fit ft(1) heap_ok_undisturbed [OF s(1) d s(2) fit ci] show ?thesis by (intro world_okI) auto
qed

lemma world_step_ok:
  assumes "world_step M ends rsps w w'" and "world_ok ends w" and "program_fits ends rsps"
  shows "world_ok ends w'"
  using assms(1)
proof (cases rule: world_step.cases)
  case (interrupted r addr j t)
  have f: "four_procs (kern w)" using assms(2) by (simp add: world_ok_def)
  with timer_leaves [OF _ interrupted(2), of "kern w" M addr] interrupted(3) have d: "undisturbed (kern w) t"
    by (auto simp: four_procs_def leaves_def goes_on_def)
  show ?thesis
    unfolding interrupted(1) using assms(2) four_procs_undisturbed(1) [OF f d] heap_ok_undisturbed [OF f d _ assms(3)] by (simp add: world_ok_def)
qed (use assms(2,3) answered_step switched_step in auto)

end
