(* ===== verification/Startup.thy ===== *)
theory Startup
  imports Allocators Viewing
begin

text \<open>
  From boot to the allocators: \<open>kernel_start\<close> sets up the four processes of \<open>p-allocator.cc\<close> and resumes the first.
  From there on their heaps stay apart.
\<close>

section \<open>Setting up the four processes\<close>

text \<open>The segments of the four programs lie between the start of their area and their symbol \<open>end\<close>.\<close>

definition images_fit :: "machine \<Rightarrow> (nat \<Rightarrow> u64) \<Rightarrow> bool" where
  "images_fit M ends =
     (\<forall>(i, name) \<in> set default_programs. \<exists>loader. mk_loader_named (images M) name = Some loader \<and> elf loader \<noteq> None \<and>
        (\<forall>p \<in> set (visited loader). 4096 * first_page i \<le> unat (p_va p) \<and> unat (p_va p) + unat (p_memsz p) \<le> unat (ends i) \<and>
           p_filesz p \<le> p_memsz p))"

lemma image_pages:
  assumes "4096 * first_page i \<le> unat (p_va p)" and "unat (p_va p) + unat (p_memsz p) \<le> unat e"
  shows "segment_pages p \<subseteq> {first_page i..<heap_start e}"
proof
  fix k assume "k \<in> segment_pages p"
  then have k: "unat (p_va p) div 4096 \<le> k" "4096 * k < unat (p_va p + p_memsz p)" by (simp_all add: segment_pages_def)
  have "unat (p_va p + p_memsz p) \<le> unat (p_va p) + unat (p_memsz p)" by (simp add: unat_word_ariths)
  with k(2) assms(2) have "4096 * k < unat e" by linarith
  then have "k < heap_start e" unfolding heap_start_def by linarith
  moreover have "first_page i \<le> k" using k(1) assms(1) by linarith
  ultimately show "k \<in> {first_page i..<heap_start e}" by simp
qed

lemma claim_pages_next: "claim_pages a lim f = Inr f' \<Longrightarrow> next_alloc_pa f' = next_alloc_pa f"
proof (induction a lim f rule: claim_pages.induct)
  case (1 a lim f)
  show ?case
  proof (cases "a < lim \<and> length (pages f) = NPAGES")
    case True
    then obtain g where g: "claim_page a f = Inr g" "claim_pages (a + PAGESIZE) lim g = Inr f'"
      using "1.prems" by (auto simp: claim_pages.simps [of a lim f] split: sum.splits)
    have "next_alloc_pa f' = next_alloc_pa g" using "1.IH" True g by simp
    then show ?thesis using claim_page_result [OF g(1)] by simp
  next
    case False
    then show ?thesis using "1.prems" by (auto simp: claim_pages.simps [of a lim f] split: if_splits)
  qed
qed

lemma claim_segments_next: "claim_segments ps f = Inr f' \<Longrightarrow> next_alloc_pa f' = next_alloc_pa f"
  by (induction ps arbitrary: f) (auto split: sum.splits dest: claim_pages_next)

lemma process_setup_keeps:
  assumes "process_setup M i name s = return () t" and "i < length (ptable s)"
    and "mk_loader_named (images M) name = Some loader" and "elf loader = Some e" and "length (pages (frames s)) = 512"
  shows "next_alloc_pa (frames t) = next_alloc_pa (frames s)" "mu_page t = mu_page s" "showing t = showing s"
    "length (ptable t) = length (ptable s)" "pid (ptable t ! k) = pid (ptable s ! k)" "length (pages (frames t)) = 512"
proof -
  define s1 where "s1 = update_proc i (\<lambda>p. p\<lparr>pagetable := kpt M\<rparr>) (update_proc i (init_process 0) s)"
  from assms(1,3,4) obtain f f' where f: "claim_segments (visited loader) (frames s) = Inr f" "claim_page (stack_addr (int i)) f = Inr f'"
    and t: "t = update_proc i (\<lambda>p. p\<lparr>pstate := P_RUNNABLE\<rparr>) (update_proc i (\<lambda>p. p\<lparr>regs := (regs p)\<lparr>reg_rsp := stack_addr (int i) + PAGESIZE\<rparr>\<rparr>)
      (update_proc i (\<lambda>p. p\<lparr>regs := (regs p)\<lparr>reg_rip := e_entry e\<rparr>\<rparr>) (s1\<lparr>frames := f, mem := load_segments e (visited loader) (mem s1)\<rparr>)\<lparr>frames := f'\<rparr>))"
    by (auto simp: process_setup_def Let_def loader_entry_def andthen_return simp flip: s1_def dest!: claim_result_ok)
  from claim_segments_next [OF f(1)] claim_page_result [OF f(2)] claim_segments_result [OF f(1) assms(5)]
  show "next_alloc_pa (frames t) = next_alloc_pa (frames s)" "length (pages (frames t)) = 512" by (simp_all add: t)
  show "mu_page t = mu_page s" "showing t = showing s" "length (ptable t) = length (ptable s)" by (simp_all add: t s1_def update_proc_def)
  show "pid (ptable t ! k) = pid (ptable s ! k)" using assms(2) by (simp add: t s1_def update_proc_def nth_list_update init_process_def Let_def)
qed

lemma process_setup_never_resumes: "process_setup M i name s \<noteq> stop (Resumed j) t"
proof -
  have a: "assert_fail M fname line msg u \<noteq> (stop (Resumed j) t :: 'b result)" for fname line msg u and t
    using assert_fail_plain [OF refl refl, of u M fname line msg] by (auto simp: plain_def)
  have c: "claim_result M line msg r u \<noteq> stop (Resumed j) t" for line msg r u
    by (auto simp: claim_result_def a split: sum.splits claim_error.splits)
  show ?thesis by (auto simp: process_setup_def Let_def a c andthen_cases split: option.splits)
qed

text \<open>Loading a program leaves the memory below it alone.\<close>

lemma load_segment_low:
  assumes "0x100000 \<le> unat (p_va p)" and "unat (p_va p) + unat (p_memsz p) \<le> 2 ^ 63" and "p_filesz p \<le> p_memsz p"
  shows "same_low m (load_segment e p m)"
  unfolding same_low_def
proof (intro allI impI)
  fix a :: u64 assume a: "a < 0x100000"
  then have "unat a < unat (p_va p)" using assms(1) by (simp add: word_less_nat_alt)
  then have "unat (a - p_va p) = 2 ^ 64 + unat a - unat (p_va p)" using unat_sub_if_size [of a "p_va p"] by (simp add: word_size)
  then have "\<not> unat (a - p_va p) < unat (p_memsz p)" using assms(1,2) by simp
  moreover have "unat (p_filesz p) \<le> unat (p_memsz p)" using assms(3) by (simp add: word_le_nat_alt)
  moreover have "unat (p_memsz p) < 2 ^ 64" using unsigned_less [of "p_memsz p"] by simp
  ultimately show "load_segment e p m a = m a" by (simp add: load_segment_def Let_def memset_def fill_up_eq)
qed

lemma load_segments_low:
  assumes "\<And>p. p \<in> set ps \<Longrightarrow> 0x100000 \<le> unat (p_va p) \<and> unat (p_va p) + unat (p_memsz p) \<le> 2 ^ 63 \<and> p_filesz p \<le> p_memsz p"
  shows "same_low m (load_segments e ps m)"
  using assms
proof (induction ps arbitrary: m)
  case (Cons p ps)
  have "same_low m (load_segment e p m)" using Cons.prems [of p] by (intro load_segment_low) auto
  moreover have "same_low (load_segment e p m) (load_segments e ps (load_segment e p m))" using Cons by simp
  ultimately show ?case using same_low_trans by (simp add: load_segments_def)
qed (simp add: load_segments_def same_low_def)

text \<open>While the processes are set up: what is in use belongs to a program or is a stack page.\<close>

definition setting_up :: "machine \<Rightarrow> (nat \<Rightarrow> u64) \<Rightarrow> kernel \<Rightarrow> bool" where
  "setting_up M ends s =
     (length (ptable s) = NPROC \<and> (\<forall>i < NPROC. pid (ptable s ! i) = int i \<and> (pstate (ptable s ! i) \<noteq> P_FREE \<longrightarrow> i \<in> {1..4}) \<and>
         (pagetable (ptable s ! i) = 0 \<or> pagetable (ptable s ! i) = kpt M) \<and>
         (pstate (ptable s ! i) = P_RUNNABLE \<longrightarrow> pagetable (ptable s ! i) = kpt M)) \<and>
      length (pages (frames s)) = 512 \<and> next_alloc_pa (frames s) = 0 \<and> mu_page s = 0 \<and> showing s < NPROC \<and> kernel_map (kpt M) (mem s) \<and>
      (\<forall>k < 512. pages (frames s) ! k \<noteq> 0 \<longrightarrow> (\<exists>i \<in> {1..4}. first_page i \<le> k \<and> k < heap_start (ends i) \<or> k = stack_page i)))"

lemma setting_up_used: "setting_up M ends s \<Longrightarrow> k < 512 \<Longrightarrow> pages (frames s) ! k \<noteq> 0 \<Longrightarrow>
    \<exists>i \<in> {1..4}. first_page i \<le> k \<and> k < heap_start (ends i) \<or> k = stack_page i"
  unfolding setting_up_def by blast

lemma programs_1_to_4: "(i, name) \<in> set default_programs \<Longrightarrow> i = 1 \<or> i = 2 \<or> i = 3 \<or> i = 4"
  by (auto simp: default_programs_def)

lemma stack_addr_page: "i = 1 \<or> i = 2 \<or> i = 3 \<or> i = 4 \<Longrightarrow> page_of (stack_addr (int i)) = stack_page i"
  by (elim disjE) (simp_all add: stack_addr_def PROC_SIZE_def addr_consts page_consts page_of_def stack_page_def)

lemma process_setup_low:
  assumes "process_setup M i name s = return () t" and "(i, name) \<in> set default_programs" and "images_fit M ends"
    and "program_fits ends rsps" and "setting_up M ends s"
  shows "same_low (mem s) (mem t)" "pagetable (ptable t ! i) = kpt M" "pstate (ptable t ! i) = P_RUNNABLE" "\<And>j. j \<noteq> i \<Longrightarrow> ptable t ! j = ptable s ! j"
proof -
  from assms(2,3) obtain loader e where l: "mk_loader_named (images M) name = Some loader" "elf loader = Some e"
    and seg: "\<forall>p \<in> set (visited loader). 4096 * first_page i \<le> unat (p_va p) \<and> unat (p_va p) + unat (p_memsz p) \<le> unat (ends i) \<and> p_filesz p \<le> p_memsz p"
    by (fastforce simp: images_fit_def)
  note i = programs_1_to_4 [OF assms(2)]
  have n: "i < length (ptable s)" "length (pages (frames s)) = 512" using i assms(5) by (auto simp: setting_up_def NPROC_def)
  note r = process_setup_result [OF assms(1) n l, unfolded Let_def]
  have i4: "i \<in> {1..4}" using i by auto
  have "unat (ends i) \<le> 4096 * stack_page i" using assms(4) i4 by (auto simp: program_fits_def)
  with i have e: "unat (ends i) \<le> 0x200000" by (auto simp: page_numbers)
  have "same_low (mem s) (load_segments e (visited loader) (mem s))"
  proof (rule load_segments_low)
    fix p assume "p \<in> set (visited loader)"
    with seg have "4096 * first_page i \<le> unat (p_va p)" "unat (p_va p) + unat (p_memsz p) \<le> unat (ends i)" "p_filesz p \<le> p_memsz p" by auto
    with e i4 show "0x100000 \<le> unat (p_va p) \<and> unat (p_va p) + unat (p_memsz p) \<le> 2 ^ 63 \<and> p_filesz p \<le> p_memsz p" by (auto simp: page_numbers)
  qed
  with r show "same_low (mem s) (mem t)" by metis
  from r show "pagetable (ptable t ! i) = kpt M" "pstate (ptable t ! i) = P_RUNNABLE" "\<And>j. j \<noteq> i \<Longrightarrow> ptable t ! j = ptable s ! j" by blast+
qed

lemma process_setup_setting_up:
  assumes "setting_up M ends s" and "process_setup M i name s = return () t" and "(i, name) \<in> set default_programs" and "images_fit M ends"
    and "program_fits ends rsps" and "kpt_low (kpt M)"
  shows "setting_up M ends t"
proof -
  from assms(3,4) obtain loader e where l: "mk_loader_named (images M) name = Some loader" "elf loader = Some e"
    and "\<forall>p \<in> set (visited loader). 4096 * first_page i \<le> unat (p_va p) \<and> unat (p_va p) + unat (p_memsz p) \<le> unat (ends i)"
    by (fastforce simp: images_fit_def)
  then have seg: "\<forall>p \<in> set (visited loader). segment_pages p \<subseteq> {first_page i..<heap_start (ends i)}" using image_pages by blast
  note i = programs_1_to_4 [OF assms(3)]
  have n: "i < length (ptable s)" "length (pages (frames s)) = 512" using i assms(1) by (auto simp: setting_up_def NPROC_def)
  note k = process_setup_keeps [OF assms(2) n(1) l n(2)] and r = process_setup_result [OF assms(2) n l, unfolded Let_def]
    and low = process_setup_low [OF assms(2,3,4,5,1)]
  have "\<Union> (segment_pages ` set (visited loader)) \<subseteq> {first_page i..<heap_start (ends i)}" using seg by blast
  then have u: "first_page i \<le> q \<and> q < heap_start (ends i) \<or> q = stack_page i"
    if "q \<in> \<Union> (segment_pages ` set (visited loader)) \<union> {page_of (stack_addr (int i))}" for q
    using that stack_addr_page [OF i] by auto
  have i4: "i \<in> {1..4}" using i by auto
  have "\<exists>j \<in> {1..4}. first_page j \<le> q \<and> q < heap_start (ends j) \<or> q = stack_page j" if "q < 512" "pages (frames t) ! q \<noteq> 0" for q
  proof -
    let ?U = "\<Union> (segment_pages ` set (visited loader)) \<union> {page_of (stack_addr (int i))}"
    have pq: "pages (frames t) ! q = (if q \<in> ?U then 1 else pages (frames s) ! q)" using r that(1) by blast
    show ?thesis
    proof (cases "q \<in> ?U")
      case True
      with u i4 show ?thesis by blast
    next
      case False
      then have "pages (frames t) ! q = pages (frames s) ! q" by (simp only: pq if_False)
      with that setting_up_used [OF assms(1) that(1)] show ?thesis by simp
    qed
  qed
  moreover have "(pstate (ptable t ! j) \<noteq> P_FREE \<longrightarrow> j \<in> {1..4}) \<and> (pagetable (ptable t ! j) = 0 \<or> pagetable (ptable t ! j) = kpt M) \<and>
      (pstate (ptable t ! j) = P_RUNNABLE \<longrightarrow> pagetable (ptable t ! j) = kpt M)" if "j < NPROC" for j
  proof (cases "j = i")
    case True
    then show ?thesis using low(2,3) i4 by simp
  next
    case False
    with low(4) that assms(1) show ?thesis unfolding setting_up_def by metis
  qed
  moreover have "pid (ptable t ! j) = int j" if "j < NPROC" for j using k(5) that assms(1) by (simp add: setting_up_def)
  moreover have "length (ptable t) = NPROC" "next_alloc_pa (frames t) = 0" "mu_page t = 0" "showing t < NPROC"
    using k(1-4) assms(1) by (simp_all add: setting_up_def)
  moreover have "kernel_map (kpt M) (mem t)" using kernel_map_low [OF assms(6) _ low(1)] assms(1) by (simp add: setting_up_def)
  ultimately show ?thesis using k(6) unfolding setting_up_def by blast
qed

lemma setup_all_setting_up:
  assumes "images_fit M ends" and "program_fits ends rsps" and "kpt_low (kpt M)"
  shows "setting_up M ends s \<Longrightarrow> setup_all M ps s = return () t \<Longrightarrow> set ps \<subseteq> set default_programs \<Longrightarrow> setting_up M ends t"
proof (induction ps arbitrary: s)
  case (Cons p ps)
  obtain i name where p: "p = (i, name)" by (cases p)
  from Cons.prems(2) p obtain u where u: "process_setup M i name s = return () u" "setup_all M ps u = return () t" by (auto simp: andthen_return)
  have "setting_up M ends u" using process_setup_setting_up [OF Cons.prems(1) u(1) _ assms] Cons.prems(3) p by simp
  with Cons.IH u(2) Cons.prems(3) show ?case by simp
qed simp

lemma setup_all_never_resumes: "setup_all M ps s \<noteq> stop (Resumed j) t"
  by (induction M ps s arbitrary: t rule: setup_all.induct) (auto simp: andthen_cases process_setup_never_resumes)

lemma setting_up_heaps:
  assumes "setting_up M ends s" and "program_fits ends rsps" and "i \<in> {1..4}" and "heap_start (ends i) \<le> k" and "k < stack_page i"
  shows "pages (frames s) ! k = 0"
proof (rule ccontr)
  assume n: "pages (frames s) ! k \<noteq> 0"
  note b = heap_bounds [OF assms(2,3)]
  have "k < 512" using assms(5) b(4) by simp
  with n assms(1) obtain j where j: "j \<in> {1..4}" "first_page j \<le> k \<and> k < heap_start (ends j) \<or> k = stack_page j" by (auto simp: setting_up_def)
  with heap_bounds(2) [OF assms(2) j(1)] b(1) assms(4,5) have "j = i" by (auto simp: page_numbers)
  with j assms(4,5) show False by simp
qed

section \<open>Boot\<close>

text \<open>The state the kernel finds: its variables are zero, no page is in use.\<close>

definition fresh_kernel :: "kernel \<Rightarrow> bool" where
  "fresh_kernel s =
     (frames s = boot_pages \<and> mu_page s = 0 \<and> showing s = 0 \<and> length (ptable s) = NPROC \<and> (\<forall>p \<in> set (ptable s). pagetable p = 0))"

lemma init_ptable_nth:
  assumes "i < length (ptable s)"
  shows "pid (ptable (init_ptable s) ! i) = int i" "pstate (ptable (init_ptable s) ! i) = P_FREE" "pagetable (ptable (init_ptable s) ! i) = pagetable (ptable s ! i)"
  using assms by (simp_all add: init_ptable_def nth_enumerate_eq)

lemma init_ptable_frame [simp]:
  "length (ptable (init_ptable s)) = length (ptable s)" "frames (init_ptable s) = frames s" "mu_page (init_ptable s) = mu_page s" "mem (init_ptable s) = mem s" "showing (init_ptable s) = showing s"
  by (simp_all add: init_ptable_def)

lemma k_log_never_resumes: "k_log fmt args s \<noteq> stop (Resumed j) t"
  using k_log_plain [OF refl refl, of s fmt args] by (auto simp: plain_def)

lemma k_log_return: "k_log fmt args s = return y t \<Longrightarrow> \<exists>l. t = s\<lparr>klog := l\<rparr>"
  by (auto simp: k_log_def split: option.splits)

lemma greeting_prints: "\<exists>out. formatted color (ascii ''Starting WeensyOS'' @ [10]) [] = Some out"
  unfolding ascii_def by (simp del: formatted.simps) (intro formatted_char formatted_end, simp_all)

text \<open>\<open>kernel\<close> always gets as far as setting up processes.\<close>

lemma boot_stages:
  assumes "kpt_low (kpt M)" and "fresh_kernel s"
  shows "\<exists>u. setting_up M ends u \<and> frames u = boot_pages \<and>
    kernel_start M None s = andthen (setup_all M default_programs u) (\<lambda>_ s. run M 1 s)"
proof -
  note k = kpt_low_ok [OF assms(1)]
  from init_kernel_tables [OF k, of "lay M" "frames s" "mem s"] obtain m1
    where m1: "init_kernel_memory (lay M) (kpt M) (frames s) (mem s) = Some (Inr (frames s, m1))" "kernel_tables (kpt M) 512 m1" "upper_tables (kpt M) m1" by blast
  define s1 where "s1 = set_cursor (3 * CONSOLE_COLUMNS) (s\<lparr>frames := frames s, mem := m1\<rparr>)"
  have h: "init_hardware M s = return () s1" by (simp add: init_hardware_def m1(1) s1_def)
  from k_log_fine [OF greeting_prints, of s1] obtain l where l: "k_log (ascii ''Starting WeensyOS'' @ [10]) [] s1 = return () (s1\<lparr>klog := l\<rparr>)"
    by (auto simp: fine_def dest: k_log_return)
  define s2 where "s2 = s1\<lparr>klog := l, ticks := 1, con := console_clear (con s1)\<rparr>"
  have f1: "frames s1 = frames s" "mem s1 = m1" by (simp_all add: s1_def set_cursor_def)
  have f2: "frames s2 = frames s" "mem s2 = m1" "mu_page s2 = 0" "length (ptable s2) = NPROC" "ptable s2 = ptable s" "showing s2 = 0"
    using assms(2) by (simp_all add: s2_def s1_def set_cursor_def fresh_kernel_def)
  from remap_kernel_tables [OF k m1(2), of "lay M" True "frames s"] obtain m2
    where m2: "map_identity (lay M) True (kpt M) (frames s) m1 = Some (Inr (frames s, m2))" "kernel_tables (kpt M) 512 m2" "keeps_upper (kpt M) m1 m2" by blast
  have km: "kernel_map (kpt M) m2" using k m2(2) upper_tables_kept [OF k m1(3) m2(3)] by (simp add: kernel_map_def)
  define s3 where "s3 = init_ptable (s2\<lparr>frames := frames s, mem := m2\<rparr>)"
  have r: "kernel_start M None s = andthen (setup_all M default_programs s3) (\<lambda>_ s. run M 1 s)"
    using f1 f2 m2(1) by (simp add: kernel_start_def h l Let_def s2_def [symmetric] s3_def)
  have p: "pid (ptable s3 ! i) = int i" "pstate (ptable s3 ! i) = P_FREE" "pagetable (ptable s3 ! i) = 0" if "i < NPROC" for i
    using init_ptable_nth [of i "s2\<lparr>frames := frames s, mem := m2\<rparr>"] that f2 assms(2) nth_mem [of i "ptable s"] by (auto simp: s3_def fresh_kernel_def)
  have "length (ptable s3) = NPROC" "mu_page s3 = 0" "showing s3 < NPROC" "mem s3 = m2" "frames s3 = boot_pages"
    using f2 assms(2) by (simp_all add: s3_def fresh_kernel_def NPROC_def)
  moreover from this have "setting_up M ends s3" using p km by (simp add: setting_up_def boot_pages_def)
  ultimately show ?thesis using r by blast
qed

lemma boot_setting_up:
  assumes "kernel_start M None s = stop (Resumed j) t" and "kpt_low (kpt M)" and "fresh_kernel s" and "images_fit M ends"
    and "program_fits ends rsps"
  shows "\<exists>u. setting_up M ends u \<and> run M 1 u = (stop (Resumed j) t :: unit result)"
proof -
  from boot_stages [OF assms(2,3), of ends] obtain s3 where s3: "setting_up M ends s3"
    "kernel_start M None s = andthen (setup_all M default_programs s3) (\<lambda>_ s. run M 1 s)" by blast
  with assms(1) obtain u where "setup_all M default_programs s3 = return () u" "run M 1 u = (stop (Resumed j) t :: unit result)"
    by (auto simp: andthen_cases setup_all_never_resumes)
  then show ?thesis using setup_all_setting_up [OF assms(4,5,2) s3(1) _ order_refl] by blast
qed

lemma setup_all_runnable:
  assumes "images_fit M ends" and "program_fits ends rsps" and "kpt_low (kpt M)"
  shows "setting_up M ends s \<Longrightarrow> setup_all M ps s = return () t \<Longrightarrow> set ps \<subseteq> set default_programs \<Longrightarrow>
    pstate (ptable s ! i) = P_RUNNABLE \<or> i \<in> fst ` set ps \<Longrightarrow> pstate (ptable t ! i) = P_RUNNABLE"
proof (induction ps arbitrary: s)
  case (Cons p ps)
  obtain j name where p: "p = (j, name)" by (cases p)
  from Cons.prems(2) p obtain u where u: "process_setup M j name s = return () u" "setup_all M ps u = return () t" by (auto simp: andthen_return)
  have m: "(j, name) \<in> set default_programs" using Cons.prems(3) p by simp
  have su: "setting_up M ends u" by (rule process_setup_setting_up [OF Cons.prems(1) u(1) m assms])
  note low = process_setup_low [OF u(1) m assms(1,2) Cons.prems(1)]
  have "pstate (ptable u ! i) = P_RUNNABLE \<or> i \<in> fst ` set ps" using Cons.prems(4) low(3,4) p by (cases "i = j") auto
  with Cons.IH [OF su u(2)] Cons.prems(3) show ?case by simp
qed simp

text \<open>Once the processes are set up, the first is resumed.\<close>

lemma setting_up_runs:
  assumes "setting_up M ends u" and "pstate (ptable u ! 1) = P_RUNNABLE" and "kpt_low (kpt M)"
    and "PAGESIZE \<le> exc_entry M" and "exc_entry M < MEMSIZE_PHYSICAL"
  shows "run M 1 u = stop (Resumed 1) (u\<lparr>current := 1\<rparr>)"
proof -
  have k: "PAGESIZE \<le> kpt M" "kpt M < MEMSIZE_PHYSICAL"
    using assms(3) by (simp_all add: kpt_low_def page_consts addr_consts word_le_nat_alt word_less_nat_alt)
  have "identity_mapped (kpt M) (mem u)"
    using tables_identity [OF kpt_low_ok [OF assms(3)]] assms(1) by (simp add: setting_up_def kernel_map_def)
  from identity_check [OF kpt_low_ok [OF assms(3)] this k assms(4,5)]
  have c: "check_pagetable (exc_entry M) (kpt M) (mem u) (kpt M) = Inr ()" .
  have "\<forall>i < NPROC. pstate (ptable u ! i) = P_RUNNABLE \<longrightarrow> pagetable (ptable u ! i) = kpt M"
    using assms(1) unfolding setting_up_def by blast
  from this [rule_format, OF _ assms(2)] have "pagetable (ptable u ! 1) = kpt M" by (simp add: NPROC_def)
  with c assms(2) show ?thesis by (simp add: run_def k_assert_def k_check_pagetable_def)
qed

lemma run_resumes: "run M i s = stop (Resumed j) t \<Longrightarrow> j = i \<and> t = s\<lparr>current := i\<rparr> \<and> pstate (ptable s ! i) = P_RUNNABLE"
proof -
  assume r: "run M i s = stop (Resumed j) t"
  have a: "assert_fail M fname line msg u \<noteq> (stop (Resumed j) v :: unit result)" for fname line msg u v
    using assert_fail_plain [OF refl refl, of u M fname line msg] by (auto simp: plain_def)
  have b: "assert_fail M fname line msg u \<noteq> (return y v :: unit result)" for fname line msg u v y
    by (simp add: assert_fail_def Let_def andthen_return)
  from r show ?thesis
    by (auto simp: run_def Let_def k_assert_def k_check_pagetable_def andthen_cases andthen_return a b split: if_splits sum.splits)
qed

text \<open>After boot all four heaps are empty, and process 1 is running.\<close>

lemma boot_world_ok:
  assumes "kernel_start M None s = stop (Resumed j) t" and "kpt_low (kpt M)" and "fresh_kernel s" and "images_fit M ends"
    and "program_fits ends rsps" and "\<And>i. at (us i) = Start"
  shows "world_ok ends \<lparr>kern = t, user = us\<rparr>" "live M t"
proof -
  from boot_setting_up [OF assms(1-5)] obtain u where u: "setting_up M ends u" "run M 1 u = (stop (Resumed j) t :: unit result)" by blast
  note t = run_resumes [OF u(2)]
  have p1: "pages (frames u) ! 1 = 0"
  proof (rule ccontr)
    assume "pages (frames u) ! 1 \<noteq> 0"
    from setting_up_used [OF u(1) _ this] show False by (auto simp: page_numbers)
  qed
  have r4: "pstate (ptable u ! i) = P_RUNNABLE \<longrightarrow> i \<in> {1..4}" if "i < NPROC" for i
    using u(1) that unfolding setting_up_def by (metis proc_state.distinct(1))
  have v: "viewer_ready t" using u(1) t p1 by (simp add: viewer_ready_def setting_up_def)
  have "four_procs t" using u(1) t v r4 by (simp add: four_procs_def setting_up_def)
  moreover have "heap_ok (ends i) i (us i) t" if "i \<in> {1..4}" for i
    using setting_up_heaps [OF u(1) assms(5) that] t assms(6) by (simp add: heap_ok_def)
  ultimately show "world_ok ends \<lparr>kern = t, user = us\<rparr>" by (simp add: world_ok_def)
  have f: "pstate (ptable t ! 0) = P_FREE"
  proof (rule ccontr)
    assume "pstate (ptable t ! 0) \<noteq> P_FREE"
    then have n: "pstate (ptable u ! 0) \<noteq> P_FREE" using t by simp
    have "\<forall>i < NPROC. pstate (ptable u ! i) \<noteq> P_FREE \<longrightarrow> i \<in> {1..4}" using u(1) unfolding setting_up_def by blast
    from this [rule_format, OF _ n] have "(0 :: nat) \<in> {1..4}" by (simp add: NPROC_def)
    then show False by simp
  qed
  have "viewable M t"
    using u(1) t v f assms(2) by (auto simp: viewable_def setting_up_def kpt_low_def in_set_conv_nth)
  then show "live M t" using u(1) t by (simp add: live_def setting_up_def table_ok_def NPROC_def)
qed

lemma reachable_world_ok:
  assumes "(world_step M ends rsps)\<^sup>*\<^sup>* w0 w" and "world_ok ends w0" and "program_fits ends rsps"
  shows "world_ok ends w"
  using assms(1) by (induction rule: rtranclp_induct) (use assms(2,3) world_step_ok in auto)

section \<open>A machine with four one-page programs\<close>

definition one_page_image :: "nat \<Rightarrow> elf_image" where
  "one_page_image n = \<lparr>e_magic = ELF_MAGIC, e_entry = page_addr (256 + 64 * n),
     e_programs = [\<lparr>p_type = ELF_PTYPE_LOAD, p_flags = 5, p_offset = 0x1000, p_va = page_addr (256 + 64 * n), p_pa = 0, p_filesz = 4, p_memsz = 8, p_align = 0\<rparr>],
     e_bytes = (\<lambda>_. 0x90)\<rparr>"

definition four_machine :: machine where
  "four_machine = quiet_machine\<lparr>images := one_page_image\<rparr>"

definition four_ends :: "nat \<Rightarrow> u64" where "four_ends i = page_addr (first_page i) + 8"
definition four_rsps :: "nat \<Rightarrow> u64" where "four_rsps i = page_addr (stack_page i) + 0xF00"

lemma program_numbers: "program_number ''allocator'' = 0" "program_number ''allocator2'' = 1" "program_number ''allocator3'' = 2" "program_number ''allocator4'' = 3"
  by (simp_all add: program_number_def ramimage_names_def)

lemma one_page_loader: "loader_reset \<lparr>elf = Some (one_page_image n), ph = 0, endph = 0\<rparr> = Some \<lparr>elf = Some (one_page_image n), ph = 0, endph = 1\<rparr>"
  by (simp add: loader_reset_def one_page_image_def loader_fix.simps [of "\<lparr>elf = x, ph = 0, endph = y\<rparr>" for x y] header_at_def ELF_PTYPE_LOAD_def)

lemma four_loader:
  assumes "(i, name) \<in> set default_programs"
  shows "mk_loader_named (images four_machine) name = Some \<lparr>elf = Some (one_page_image (i - 1)), ph = 0, endph = 1\<rparr>"
proof -
  have l: "mk_loader (images four_machine) (int n) = Some \<lparr>elf = Some (one_page_image n), ph = 0, endph = 1\<rparr>" if "n < 6" for n
    using that by (simp add: mk_loader_def ramimage_names_def four_machine_def one_page_loader)
  have "program_number name = int (i - 1)" "i - 1 < 6" using assms program_numbers by (auto simp: default_programs_def)
  then show ?thesis by (simp add: mk_loader_named_def l)
qed

lemma four_visited: "visited \<lparr>elf = Some (one_page_image n), ph = 0, endph = 1\<rparr> = e_programs (one_page_image n)"
  by (simp add: visited.simps loader_next_def loader_fix.simps header_at_def one_page_image_def)

lemma claim_one_page:
  assumes "q < 512" and "length (pages f) = 512" and "pages f ! q = 0"
  shows "claim_pages (round_down (page_addr q) (ucast PAGESIZE)) (page_addr q + 8) f = Inr (f\<lparr>pages := (pages f)[q := 1]\<rparr>)"
proof -
  have u: "unat (page_addr q) = 4096 * q" using assms(1) by (intro page_addr_unat) simp
  have r: "round_down (page_addr q) (ucast PAGESIZE) = page_addr q"
    using round_page [of "page_addr q"] u by (simp add: word_unat_eq_iff)
  have n: "unat (page_addr q + PAGESIZE) = 4096 * q + 4096" "unat (page_addr q + 8) = 4096 * q + 8"
    using u assms(1) by (simp_all add: unat_add_64 page_consts)
  have c: "claim_page (page_addr q) f = Inr (f\<lparr>pages := (pages f)[q := 1]\<rparr>)"
    using assms by (simp add: claim_page_def used_def)
  have lt: "page_addr q < page_addr q + 8" "\<not> page_addr q + PAGESIZE < page_addr q + 8" using u n by (simp_all add: word_less_nat_alt)
  have l: "length (pages f) = NPAGES" using assms(2) by simp
  have "claim_pages (page_addr q + PAGESIZE) (page_addr q + 8) g = Inr g" for g
    by (subst claim_pages.simps) (simp only: lt(2) if_False)
  then show ?thesis unfolding r by (subst claim_pages.simps) (simp only: lt(1) l c if_True sum.case refl)
qed

lemma four_fit: "program_fits four_ends four_rsps" "images_fit four_machine four_ends"
proof -
  have e: "unat (four_ends i) = 4096 * first_page i + 8" "unat (four_rsps i) = 4096 * stack_page i + 0xF00" if "i = 1 \<or> i = 2 \<or> i = 3 \<or> i = 4" for i
    using that by (elim disjE; simp add: four_ends_def four_rsps_def page_numbers page_addr_def)+
  have i: "i \<in> {1..4} \<Longrightarrow> i = 1 \<or> i = 2 \<or> i = 3 \<or> i = 4" for i :: nat by auto
  show "program_fits four_ends four_rsps" using e i by (auto simp: program_fits_def page_numbers)
  have a: "4096 * first_page i \<le> unat (p_va p) \<and> unat (p_va p) + unat (p_memsz p) \<le> unat (four_ends i) \<and> p_filesz p \<le> p_memsz p"
    if "i = 1 \<or> i = 2 \<or> i = 3 \<or> i = 4" "p \<in> set (e_programs (one_page_image (i - 1)))" for i p
  proof -
    have q: "256 + 64 * (i - 1) = first_page i" using that(1) by (auto simp: page_numbers)
    have a: "unat (page_addr (first_page i)) = 4096 * first_page i" using that(1) by (intro page_addr_unat) (auto simp: page_numbers)
    show ?thesis using that(2) a q e(1) [OF that(1)] by (simp add: one_page_image_def)
  qed
  show "images_fit four_machine four_ends"
    unfolding images_fit_def
  proof clarify
    fix i name assume m: "(i, name) \<in> set default_programs"
    show "\<exists>loader. mk_loader_named (images four_machine) name = Some loader \<and> elf loader \<noteq> None \<and>
        (\<forall>p \<in> set (visited loader). 4096 * first_page i \<le> unat (p_va p) \<and> unat (p_va p) + unat (p_memsz p) \<le> unat (four_ends i) \<and>
           p_filesz p \<le> p_memsz p)"
    proof (intro exI conjI ballI)
      show "mk_loader_named (images four_machine) name = Some \<lparr>elf = Some (one_page_image (i - 1)), ph = 0, endph = 1\<rparr>" by (rule four_loader [OF m])
      fix p assume "p \<in> set (visited \<lparr>elf = Some (one_page_image (i - 1)), ph = 0, endph = 1\<rparr>)"
      with a [OF programs_1_to_4 [OF m]] show "4096 * first_page i \<le> unat (p_va p)" "unat (p_va p) + unat (p_memsz p) \<le> unat (four_ends i)"
        "p_filesz p \<le> p_memsz p" by (simp_all only: four_visited)
    qed simp
  qed
qed

text \<open>Every program of this machine can be set up as long as its two pages are free.\<close>

lemma four_setup:
  assumes m: "(i, name) \<in> set default_programs" and l: "length (pages (frames s)) = 512" "i < length (ptable s)"
    and f: "pages (frames s) ! first_page i = 0" "pages (frames s) ! stack_page i = 0"
  shows "\<exists>t. process_setup four_machine i name s = return () t \<and>
    (\<forall>k < 512. k \<noteq> first_page i \<longrightarrow> k \<noteq> stack_page i \<longrightarrow> pages (frames t) ! k = pages (frames s) ! k)"
proof -
  note i = programs_1_to_4 [OF m]
  let ?l = "\<lparr>elf = Some (one_page_image (i - 1)), ph = 0, endph = 1\<rparr>"
  have q: "256 + 64 * (i - 1) = first_page i" "first_page i < 512" "stack_page i < 512" "first_page i \<noteq> stack_page i"
    using i by (auto simp: page_numbers)
  from claim_one_page [OF q(2) l(1) f(1)]
  have c: "claim_segments (visited ?l) (frames s) = Inr (frames s\<lparr>pages := (pages (frames s))[first_page i := 1]\<rparr>)"
    by (simp only: four_visited) (simp add: one_page_image_def q(1) [simplified])
  have p: "page_of (stack_addr (int i)) = stack_page i" by (rule stack_addr_page [OF i])
  have "\<exists>f'. claim_page (stack_addr (int i)) (frames s\<lparr>pages := (pages (frames s))[first_page i := 1]\<rparr>) = Inr f'"
    using q(3,4) l(1) f(2) by (simp add: claim_page_def p used_def)
  with process_setup_succeeds [OF four_loader [OF m] c] obtain t where t: "process_setup four_machine i name s = return () t" by blast
  have u: "\<Union> (segment_pages ` set (visited ?l)) \<subseteq> {first_page i}"
  proof -
    have "segment_pages p \<subseteq> {first_page i..<heap_start (four_ends i)}" if "p \<in> set (visited ?l)" for p
    proof (rule image_pages)
      from four_fit(2) m four_loader [OF m] that
      show "4096 * first_page i \<le> unat (p_va p)" "unat (p_va p) + unat (p_memsz p) \<le> unat (four_ends i)" by (fastforce simp: images_fit_def)+
    qed
    moreover have "heap_start (four_ends i) = Suc (first_page i)"
      using i by (elim disjE; simp add: four_ends_def page_numbers page_addr_def heap_start_def)
    ultimately show ?thesis by force
  qed
  from process_setup_result [OF t l(2,1) four_loader [OF m], of "one_page_image (i - 1)"] u p
  have "\<forall>k < 512. k \<noteq> first_page i \<longrightarrow> k \<noteq> stack_page i \<longrightarrow> pages (frames t) ! k = pages (frames s) ! k" by (auto simp: Let_def)
  with t show ?thesis by blast
qed

lemma four_machine_ok: "machine_ok four_machine"
proof -
  have "keyboard_quiet four_machine" using quiet_keyboard by (simp add: keyboard_quiet_def four_machine_def)
  then show ?thesis by (simp add: machine_ok_def kpt_low_def four_machine_def quiet_machine_def page_consts addr_consts)
qed

lemma four_fresh: "fresh_kernel empty_kernel"
  by (auto simp: fresh_kernel_def empty_kernel_def NPROC_def free_proc_def)

lemma four_setup_all:
  assumes "length (pages (frames s)) = 512" and "length (ptable s) = NPROC" and "set ps \<subseteq> set default_programs" and "distinct (map fst ps)"
    and "\<And>i. i \<in> fst ` set ps \<Longrightarrow> pages (frames s) ! first_page i = 0 \<and> pages (frames s) ! stack_page i = 0"
  shows "\<exists>t. setup_all four_machine ps s = return () t"
  using assms
proof (induction ps arbitrary: s)
  case (Cons p ps)
  obtain i name where p: "p = (i, name)" by (cases p)
  have m: "(i, name) \<in> set default_programs" using Cons.prems(3) p by simp
  note i = programs_1_to_4 [OF m]
  have n: "i < length (ptable s)" using Cons.prems(2) i by (auto simp: NPROC_def)
  from four_setup [OF m Cons.prems(1) n] Cons.prems(5) [of i] p obtain u where u: "process_setup four_machine i name s = return () u"
    "\<forall>k < 512. k \<noteq> first_page i \<longrightarrow> k \<noteq> stack_page i \<longrightarrow> pages (frames u) ! k = pages (frames s) ! k" by auto
  note k = process_setup_keeps [OF u(1) n four_loader [OF m] _ Cons.prems(1), of "one_page_image (i - 1)"]
  have "pages (frames u) ! first_page j = 0 \<and> pages (frames u) ! stack_page j = 0" if j: "j \<in> fst ` set ps" for j
  proof -
    have "j \<noteq> i" using j Cons.prems(4) p by auto
    moreover have "j = 1 \<or> j = 2 \<or> j = 3 \<or> j = 4" using j Cons.prems(3) programs_1_to_4 by fastforce
    ultimately have "first_page j \<noteq> first_page i" "first_page j \<noteq> stack_page i" "stack_page j \<noteq> first_page i" "stack_page j \<noteq> stack_page i"
      "first_page j < 512" "stack_page j < 512" using i by (auto simp: page_numbers)
    with u(2) Cons.prems(5) [of j] j show ?thesis by simp
  qed
  with Cons.IH [of u] k Cons.prems(2-4) p u(1) show ?case by simp
qed simp

lemma four_boots: "\<exists>t. kernel_start four_machine None empty_kernel = stop (Resumed 1) t"
proof -
  have k: "kpt_low (kpt four_machine)" "PAGESIZE \<le> exc_entry four_machine" "exc_entry four_machine < MEMSIZE_PHYSICAL"
    using four_machine_ok by (simp_all add: machine_ok_def)
  from boot_stages [OF k(1) four_fresh, of four_ends] obtain u where u: "setting_up four_machine four_ends u" "frames u = boot_pages"
    "kernel_start four_machine None empty_kernel = andthen (setup_all four_machine default_programs u) (\<lambda>_ s. run four_machine 1 s)" by blast
  have "\<exists>t. setup_all four_machine default_programs u = return () t"
    using u(1,2) by (intro four_setup_all) (auto simp: setting_up_def boot_pages_def default_programs_def page_numbers)
  then obtain t where t: "setup_all four_machine default_programs u = return () t" by blast
  have st: "setting_up four_machine four_ends t" by (rule setup_all_setting_up [OF four_fit(2,1) k(1) u(1) t order_refl])
  have "pstate (ptable t ! 1) = P_RUNNABLE"
    using setup_all_runnable [OF four_fit(2,1) k(1) u(1) t order_refl, of 1] by (simp add: default_programs_def)
  note r = setting_up_runs [OF st this k]
  have "kernel_start four_machine None empty_kernel = run four_machine 1 t" using t u(3) by simp
  then show ?thesis unfolding r by (rule exI)
qed

end
