(* ===== verification/Running.thy ===== *)
theory Running
  imports Startup
begin

text \<open>
  The allocators run forever: after boot every system call they make and every timer interrupt is served, and their heaps
  stay apart, whatever the interleaving.
\<close>

section \<open>The kernel's memory is out of reach\<close>

lemma live_memory:
  assumes "live M s" and "machine_ok M" and "same_low (mem s) (mem t)" and "ptable t = ptable s" and "current t = current s"
    and "mu_page t = mu_page s" and "showing t = showing s" and "viewer_ready t"
  shows "live M t"
proof (rule live_same [OF assms(1)])
  have "kernel_map (kpt M) (mem t)"
    using assms(1,2) by (intro kernel_map_low [OF _ _ assms(3)]) (simp_all add: machine_ok_def live_def viewable_def)
  then show "viewable M t" using assms by (simp add: live_def viewable_def)
qed (use assms in simp_all)

lemma high_page_low: "256 \<le> h \<Longrightarrow> h < 1024 \<Longrightarrow> same_low m (m(page_addr h := v))"
  using page_addr_high [of h] by (auto simp: same_low_def)

lemma memset_high_low:
  assumes "256 \<le> h" and "h < 512"
  shows "same_low m (snd (memset (page_addr h) c PAGESIZE m))"
  unfolding same_low_def
proof (intro allI impI)
  fix a :: u64 assume a: "a < 0x100000"
  have h: "unat (page_addr h) = 4096 * h" using assms(2) by (intro page_addr_unat) simp
  then have "unat a < unat (page_addr h)" using a assms(1) by (simp add: word_less_nat_alt)
  then have "unat (a - page_addr h) = 2 ^ 64 + unat a - unat (page_addr h)" using unat_sub_if_size [of a "page_addr h"] by (simp add: word_size)
  then have "\<not> unat (a - page_addr h) < 4096" using h assms(2) by simp
  then show "snd (memset (page_addr h) c PAGESIZE m) a = m a" by (simp add: memset_def page_consts fill_up_eq)
qed

lemma claimed_live:
  assumes "live M s" and "machine_ok M" and "256 \<le> h" and "h < 512"
  shows "live M (claimed h s)"
proof (rule live_memory [OF assms(1,2)])
  show "same_low (mem s) (mem (claimed h s))" using memset_high_low [OF assms(3,4)] by (simp add: claimed_def)
  show "viewer_ready (claimed h s)" using assms(1,3) by (simp add: claimed_def viewer_ready_def live_def viewable_def)
qed (simp_all add: claimed_def)

section \<open>Every call is served\<close>

lemma turn_defined: "\<exists>u s c. turn v k = Some (u, s, c)"
proof (cases "at v")
  case Allocating
  obtain x g where "rand_range 0 (ALLOC_SLOWDOWN - 1) (rng v) = Inr (x, g)"
    using rand_range_bounds [of 0 "ALLOC_SLOWDOWN - 1" "rng v"] by (auto simp: ALLOC_SLOWDOWN_def RAND_MAX_def)
  with Allocating show ?thesis by (simp add: turn_def Let_def)
qed (simp_all add: turn_def)

lemma turn_live:
  assumes w: "world_ok ends w" and l: "live M (kern w)" and m: "machine_ok M" and fit: "program_fits ends rsps"
    and i: "i = current (kern w)" and t: "turn (user w i) (kern w) = Some (u, s, c)"
  shows "live M s \<and> four_procs s"
proof (cases "at (user w i)")
  case Grown
  from w i have ci: "i \<in> {1..4}" and f: "four_procs (kern w)" and ok: "heap_ok (ends i) i (user w i) (kern w)" by (auto simp: world_ok_def four_procs_def)
  from heap_written [OF ok Grown fit ci] obtain h where h: "heap_top (user w i) = page_addr h" "first_page i \<le> h" "h < stack_page i" by blast
  have s: "s = check_writes (user w i) (kern w)" using t Grown by (simp add: turn_def)
  have b: "256 \<le> h" "h < 1024" using h(2,3) ci by (auto simp: page_numbers)
  have fs: "four_procs s" using f by (simp add: s check_writes_def four_procs_def viewer_ready_def)
  have "live M s"
  proof (rule live_memory [OF l m])
    show "same_low (mem (kern w)) (mem s)" using high_page_low [OF b] by (simp add: s check_writes_def h(1))
    show "viewer_ready s" using fs by (simp add: four_procs_def)
  qed (simp_all add: s check_writes_def)
  with fs show ?thesis by blast
next
  case Allocating
  with t l w show ?thesis by (auto simp: turn_def Let_def world_ok_def split: sum.splits if_splits)
qed (use t l w in \<open>auto simp: turn_def world_ok_def\<close>)

lemma call_served:
  assumes w: "world_ok ends w" and l: "live M (kern w)" and m: "machine_ok M" and fit: "program_fits ends rsps"
    and i: "i = current (kern w)" and t: "turn (user w i) (kern w) = Some (u, s, c)"
  shows "(\<exists>v t. syscall M (make_syscall c r) s = return v t \<and> live M t) \<or> (\<exists>j t. syscall M (make_syscall c r) s = stop (Resumed j) t \<and> live M t)"
proof -
  note s = turn_live [OF w l m fit i t]
  from entry_live [OF m, of s "make_syscall c r"] s obtain k z where z: "syscall_entry M (make_syscall c r) s = return k z" "live M z" by blast
  show ?thesis
  proof (cases c)
    case sys_getpid
    with z show ?thesis by (simp add: syscall_after_entry syscall_numbers)
  next
    case sys_yield
    have "live M (update_proc (current z) (\<lambda>p. p\<lparr>regs := (regs p)\<lparr>reg_rax := 0\<rparr>\<rparr>) z)" by (rule live_regs [OF z(2)]) simp
    from schedule_live [OF m this] obtain j y where
      "schedule M (update_proc (current z) (\<lambda>p. p\<lparr>regs := (regs p)\<lparr>reg_rax := 0\<rparr>\<rparr>) z) = stop (Resumed j) y" "live M y" by blast
    with z sys_yield show ?thesis by (simp add: syscall_after_entry syscall_numbers)
  next
    case (sys_page_alloc a)
    from w i have f: "four_procs (kern w)" and ci: "i \<in> {1..4}" and ok: "heap_ok (ends i) i (user w i) (kern w)"
      by (auto simp: world_ok_def four_procs_def)
    from t sys_page_alloc obtain g where al: "at (user w i) = Allocating" "s = kern w" "heap_top (user w i) \<noteq> stack_bottom (user w i)"
        "u = (user w i)\<lparr>rng := g\<rparr>" "a = heap_top u"
      by (auto simp: turn_def Let_def split: point.splits sum.splits if_splits)
    note d = entry_undisturbs [OF z(1)]
    have fz: "four_procs z" using four_procs_undisturbed(1) [OF _ d] s by blast
    have "heap_ok (ends i) i u z" using heap_ok_undisturbed [OF f d [unfolded al(2)] ok fit ci] al(4) by simp
    from heap_grows [OF this _ _ fz fit ci] al obtain h where h: "heap_top u = page_addr h"
        "syscall_page_alloc M (page_addr h) z = return 0 (claimed h z)" "first_page i \<le> h" "h < stack_page i" by auto
    have "current s < length (ptable s)" using s by (auto simp: four_procs_def NPROC_def)
    with entry_keeps_procs [OF z(1)] sys_page_alloc have "reg_rdi (regs (ptable z ! current z)) = a" by simp
    then have "syscall M (make_syscall c r) s = return 0 (claimed h z)"
      using z(1) h(1,2) al(5) sys_page_alloc by (simp add: syscall_after_entry syscall_numbers)
    moreover have "256 \<le> h" "h < 512" using h(3,4) ci by (auto simp: page_numbers)
    ultimately show ?thesis using claimed_live [OF z(2) m] by blast
  qed
qed

lemma world_step_live:
  assumes "world_step M ends rsps w w'" and "world_ok ends w" and "live M (kern w)" and "machine_ok M" and "program_fits ends rsps"
  shows "live M (kern w')"
  using assms(1)
proof (cases rule: world_step.cases)
  case (answered u s c r v t)
  with call_served [OF assms(2-5) refl answered(2), of r] answered show ?thesis by auto
next
  case (switched u s c r j t)
  with call_served [OF assms(2-5) refl switched(2), of r] switched show ?thesis by auto
next
  case (interrupted r addr j t)
  with timer_live [OF assms(4,3) interrupted(2), of addr] interrupted show ?thesis by auto
qed

lemma reachable_live:
  assumes "(world_step M ends rsps)\<^sup>*\<^sup>* w0 w" and "world_ok ends w0" and "live M (kern w0)" and "machine_ok M" and "program_fits ends rsps"
  shows "world_ok ends w \<and> live M (kern w)"
  using assms(1)
  by (induction rule: rtranclp_induct) (use assms(2-5) world_step_ok world_step_live in blast)+

section \<open>From power on\<close>

text \<open>
  C22. The four allocators' heaps stay apart. Boot the kernel with four program images that fit their areas and let the
  processes and the timer interrupt take any number of steps in any order: each process has filled the pages from its own
  \<open>end\<close> up to its \<open>heap_top\<close>, all of them in use and beginning with its own number (which no other process has
  overwritten); \<open>heap_top\<close> never passes the stack page, and every page between the two is free.
\<close>

theorem allocators_stay_apart:
  assumes "kernel_start M None s = stop (Resumed j) t" and "kpt_low (kpt M)" and "fresh_kernel s" and "images_fit M ends"
    and "program_fits ends rsps" and "\<And>i. at (us i) = Start"
    and "(world_step M ends rsps)\<^sup>*\<^sup>* \<lparr>kern = t, user = us\<rparr> w" and "i \<in> {1..4}"
  shows "heap_ok (ends i) i (user w i) (kern w)"
  using reachable_world_ok [OF assms(7) boot_world_ok(1) [OF assms(1-6)] assms(5)] assms(8) by (simp add: world_ok_def)

text \<open>
  C23. The kernel never fails its processes. At every point reached after boot the current process reaches its next system
  call without undefined behaviour, the kernel answers that call or resumes a process, and a timer interrupt resumes a
  process: no assertion fails, no loop of the kernel runs forever and the processor is never given up.
\<close>

theorem kernel_never_fails:
  assumes "kernel_start M None s = stop (Resumed j) t" and "kpt_low (kpt M)" and "fresh_kernel s" and "images_fit M ends"
    and "program_fits ends rsps" and "\<And>i. at (us i) = Start" and "machine_ok M"
    and "(world_step M ends rsps)\<^sup>*\<^sup>* \<lparr>kern = t, user = us\<rparr> w"
  shows "(\<exists>u s' c. turn (user w (current (kern w))) (kern w) = Some (u, s', c) \<and>
      (\<forall>r. (\<exists>v t'. syscall M (make_syscall c r) s' = return v t') \<or> (\<exists>k t'. syscall M (make_syscall c r) s' = stop (Resumed k) t'))) \<and>
    (\<forall>r addr. reg_intno r = INT_IRQ + IRQ_TIMER \<longrightarrow> (\<exists>k t'. exception M addr r (kern w) = stop (Resumed k) t'))"
proof -
  note b = boot_world_ok [OF assms(1-6)]
  from reachable_live [OF assms(8)] b assms(5,7) have w: "world_ok ends w" "live M (kern w)" by simp_all
  obtain u s' c where t: "turn (user w (current (kern w))) (kern w) = Some (u, s', c)"
    using turn_defined [of "user w (current (kern w))" "kern w"] by blast
  from t call_served [OF w assms(7,5) refl t] timer_live [OF assms(7) w(2)] show ?thesis by meson
qed

definition starting :: "nat \<Rightarrow> uproc" where
  "starting _ = \<lparr>at = Start, p_pid = 0, heap_top = 0, stack_bottom = 0, rng = \<lparr>rand_seed_set = False, rand_seed = 0\<rparr>\<rparr>"

text \<open>The first step of process 1 on the four-program machine: it learns its number and finds its heap.\<close>

lemma four_first_step:
  assumes "kernel_start four_machine None empty_kernel = stop (Resumed 1) t"
  shows "\<exists>w. (world_step four_machine four_ends four_rsps)\<^sup>*\<^sup>* \<lparr>kern = t, user = starting\<rparr> w \<and> at (user w 1) = Allocating \<and> current (kern w) = 1"
proof -
  have k: "kpt_low (kpt four_machine)" using four_machine_ok by (simp add: machine_ok_def)
  have us: "at (starting i) = Start" for i by (simp add: starting_def)
  note b = boot_world_ok [OF assms k four_fresh four_fit(2,1) us]
  from boot_setting_up [OF assms k four_fresh four_fit(2,1)] run_resumes have c: "current t = 1" by force
  have tn: "turn (user \<lparr>kern = t, user = starting\<rparr> (current t)) (kern \<lparr>kern = t, user = starting\<rparr>) = Some (starting 1, t, sys_getpid)"
    by (simp add: turn_def us c)
  have f: "four_procs t" using b(1) by (simp add: world_ok_def)
  from call_served [OF b(1) _ four_machine_ok four_fit(1) _ tn, of zero_regs] b(2) getpid_call(2) [OF f]
  obtain v t' where y: "syscall four_machine (make_syscall sys_getpid zero_regs) t = return v t'" by auto
  have "world_step four_machine four_ends four_rsps \<lparr>kern = t, user = starting\<rparr>
      \<lparr>kern = t', user = starting(1 := after_call (four_ends 1) (four_rsps 1) sys_getpid v (starting 1))\<rparr>"
    using world_step.answered [of "\<lparr>kern = t, user = starting\<rparr>" "starting 1" t sys_getpid four_machine zero_regs v t' four_ends four_rsps] tn y
    by (simp add: c)
  moreover have "current t' = 1" using getpid_call(1) [OF f y] c by simp
  ultimately show ?thesis by (auto simp: after_call_def intro!: exI r_into_rtranclp)
qed

theorem allocators_stay_apart_witness:
  "\<exists>t w. kernel_start four_machine None empty_kernel = stop (Resumed 1) t \<and>
     (world_step four_machine four_ends four_rsps)\<^sup>*\<^sup>* \<lparr>kern = t, user = starting\<rparr> w \<and> at (user w 1) = Allocating \<and>
     heap_ok (four_ends 1) 1 (user w 1) (kern w)"
proof -
  obtain t where t: "kernel_start four_machine None empty_kernel = stop (Resumed 1) t" using four_boots by blast
  from four_first_step [OF t] obtain w where w: "(world_step four_machine four_ends four_rsps)\<^sup>*\<^sup>* \<lparr>kern = t, user = starting\<rparr> w"
    "at (user w 1) = Allocating" by blast
  have k: "kpt_low (kpt four_machine)" using four_machine_ok by (simp add: machine_ok_def)
  have "heap_ok (four_ends 1) 1 (user w 1) (kern w)"
    by (rule allocators_stay_apart [OF t k four_fresh four_fit(2,1) _ w(1)]) (simp_all add: starting_def)
  with t w show ?thesis by blast
qed

theorem kernel_never_fails_witness:
  "\<exists>t w u s c. kernel_start four_machine None empty_kernel = stop (Resumed 1) t \<and>
     (world_step four_machine four_ends four_rsps)\<^sup>*\<^sup>* \<lparr>kern = t, user = starting\<rparr> w \<and> at (user w 1) = Allocating \<and>
     turn (user w 1) (kern w) = Some (u, s, c)"
proof -
  obtain t where t: "kernel_start four_machine None empty_kernel = stop (Resumed 1) t" using four_boots by blast
  from four_first_step [OF t] obtain w where w: "(world_step four_machine four_ends four_rsps)\<^sup>*\<^sup>* \<lparr>kern = t, user = starting\<rparr> w"
    "at (user w 1) = Allocating" "current (kern w) = 1" by blast
  have k: "kpt_low (kpt four_machine)" using four_machine_ok by (simp add: machine_ok_def)
  have us: "at (starting i) = Start" for i by (simp add: starting_def)
  from kernel_never_fails [OF t k four_fresh four_fit(2,1) us four_machine_ok w(1)] t w show ?thesis by auto
qed

end
