(* ===== verification/UserPanic.thy ===== *)
theory UserPanic
  imports Allocators
begin

text \<open>
  The failures of user programs, \<open>weensyos/u-lib.cc\<close>: \<open>panic\<close> builds its message in a buffer of 160 bytes on the stack,
  \<open>assert_fail\<close> prints it at once; both end in \<open>sys_panic(nullptr)\<close> of \<open>u-lib.hh\<close>. \<open>buf\<close> is the address of the buffer.
\<close>

section \<open>The code\<close>

text \<open>The bytes of a literal, copied to \<open>a\<close>.\<close>

definition put_bytes :: "u64 \<Rightarrow> u8 list \<Rightarrow> memory \<Rightarrow> memory" where
  "put_bytes a xs m = (\<lambda>c. if unat (c - a) < length xs then xs ! unat (c - a) else m c)"

text \<open>
  Undefined behaviour of \<open>panic\<close>: a format with the wrong arguments, or an access to \<open>buf\<close> beyond its 160 bytes. The read of
  \<open>buf[len - 1]\<close> and the two bytes \<open>strcpy\<close> stores are checked where the code does them.
\<close>

datatype panic_error = BadFormat | BufferOverrun

definition panic_message :: "u64 \<Rightarrow> u8 list \<Rightarrow> va_arg list \<Rightarrow> memory \<Rightarrow> panic_error + memory" where
  "panic_message buf fmt args m =
     (case vsnprintf (buf + 7) (160 - 7) fmt args (put_bytes buf (ascii ''PANIC: '') m) of
        None \<Rightarrow> Inl BadFormat
      | Some (n, m) \<Rightarrow>
          let len = sint (word_of_int (n + 7) :: u32)
          in if len > 0 then
               if len - 1 \<ge> 160 then Inl BufferOverrun
               else if m (buf + word_of_int (len - 1)) \<noteq> 10 then
                 let p = len - (if len = 160 - 1 then 1 else 0)
                 in if p + 1 \<ge> 160 then Inl BufferOverrun else Inr (put_bytes (buf + word_of_int p) [10, 0] m)
               else Inr m
             else Inr m)"

definition string_at :: "u64 \<Rightarrow> memory \<Rightarrow> u8 list option" where
  "string_at a m = map_option (\<lambda>n. map (\<lambda>i. m (a + word_of_nat i)) [0..<unat n]) (strlen a m)"

definition sys_panic :: "machine \<Rightarrow> u64 \<Rightarrow> regstate \<Rightarrow> kernel \<Rightarrow> u64 result" where
  "sys_panic M msg r s = syscall M (r\<lparr>reg_rax := SYSCALL_PANIC, reg_rdi := msg\<rparr>) s"

text \<open>\<open>sys_fork\<close> and \<open>sys_exit\<close>; \<open>msg\<close> is the address of the message for an exit that comes back.\<close>

definition sys_fork :: "machine \<Rightarrow> regstate \<Rightarrow> kernel \<Rightarrow> u64 result" where
  "sys_fork M r s = syscall M (r\<lparr>reg_rax := SYSCALL_FORK\<rparr>) s"

definition sys_exit :: "machine \<Rightarrow> u64 \<Rightarrow> regstate \<Rightarrow> kernel \<Rightarrow> u64 result" where
  "sys_exit M msg r s = andthen (syscall M (r\<lparr>reg_rax := SYSCALL_EXIT\<rparr>) s) (\<lambda>_ s. sys_panic M msg r s)"

definition user_panic :: "machine \<Rightarrow> u64 \<Rightarrow> u8 list \<Rightarrow> va_arg list \<Rightarrow> regstate \<Rightarrow> kernel \<Rightarrow> u64 result" where
  "user_panic M buf fmt args r s =
     (case panic_message buf fmt args (mem s) of
        Inl _ \<Rightarrow> stop Faulted s
      | Inr m \<Rightarrow>
          (case string_at buf m of
             None \<Rightarrow> stop Faulted s
           | Some t \<Rightarrow>
               andthen (k_print (CPOS 23 0) 0xC000 (ascii ''%s'') [AStr t] (s\<lparr>mem := m\<rparr>)) (\<lambda>_ s. sys_panic M 0 r s)))"

definition user_assert_fail :: "machine \<Rightarrow> u8 list \<Rightarrow> u32 \<Rightarrow> u8 list \<Rightarrow> regstate \<Rightarrow> kernel \<Rightarrow> u64 result" where
  "user_assert_fail M fname line msg r s =
     andthen (k_print (CPOS 23 0) 0xC000 (ascii ''PANIC: %s:%d: assertion '' @ [39] @ ascii ''%s'' @ [39] @ ascii '' failed'' @ [10])
       [AStr fname, AInt line, AStr msg] s) (\<lambda>_ s. sys_panic M 0 r s)"

section \<open>The buffer\<close>

lemma offset_unat: "j < 2 ^ 64 \<Longrightarrow> unat ((a + word_of_nat j) - a :: u64) = j"
  by (simp add: unat_of_nat_small)

lemma put_bytes_at: "j < length xs \<Longrightarrow> length xs < 2 ^ 64 \<Longrightarrow> put_bytes a xs m (a + word_of_nat j) = xs ! j"
  by (simp add: put_bytes_def unat_of_nat_small)

lemma put_bytes_other: "length xs \<le> unat (c - a) \<Longrightarrow> put_bytes a xs m c = m c"
  by (simp add: put_bytes_def)

lemma put_bytes_two: "put_bytes a [x, y] m = m(a := x, a + 1 := y)"
proof
  fix c
  have "unat (c - a) < 2 \<longleftrightarrow> c - a = 0 \<or> c - a = 1" unfolding word_unat_eq_iff by auto
  moreover have "c - a = 1 \<longleftrightarrow> c = a + 1" by (simp add: diff_eq_eq add.commute)
  ultimately show "put_bytes a [x, y] m c = (m(a := x, a + 1 := y)) c" by (auto simp: put_bytes_def)
qed

text \<open>Offsets from the buffer are compared as numbers.\<close>

lemma offset_eq: "i < 2 ^ 64 \<Longrightarrow> j < 2 ^ 64 \<Longrightarrow> (a :: u64) + word_of_nat i = a + word_of_nat j \<longleftrightarrow> i = j"
  by (metis offset_unat)

definition panic_prefix :: "u8 list" where
  "panic_prefix = ascii ''PANIC: ''"

lemma panic_prefix_length: "length panic_prefix = 7"
  by (simp add: panic_prefix_def ascii_def)

lemma panic_prefix_bytes: "i < 7 \<Longrightarrow> panic_prefix ! i \<noteq> 0 \<and> panic_prefix ! i \<noteq> 10"
proof -
  have "\<forall>c \<in> set panic_prefix. c \<noteq> 0 \<and> c \<noteq> 10" by (simp add: panic_prefix_def ascii_def)
  then show "i < 7 \<Longrightarrow> panic_prefix ! i \<noteq> 0 \<and> panic_prefix ! i \<noteq> 10" using panic_prefix_length nth_mem by metis
qed

text \<open>The buffer after \<open>vsnprintf\<close>.\<close>

lemma message_formatted:
  assumes "formatted 0 fmt args = Some out" and "length out < 2 ^ 31 - 7" and "unat buf + 160 < 2 ^ 64"
  shows "\<exists>m1. vsnprintf (buf + 7) (160 - 7) fmt args (put_bytes buf (ascii ''PANIC: '') m) = Some (int (length out), m1) \<and>
    (\<forall>j < 7. m1 (buf + word_of_nat j) = panic_prefix ! j) \<and>
    (\<forall>j < min (length out) 152. m1 (buf + word_of_nat (j + 7)) = fst (out ! j)) \<and> m1 (buf + word_of_nat (min (length out) 152 + 7)) = 0 \<and>
    (\<forall>a. 160 \<le> unat (a - buf) \<longrightarrow> m1 a = m a)"
proof -
  let ?m0 = "put_bytes buf panic_prefix m"
  have s: "unat (buf + 7) = unat buf + 7" using assms(3) by (simp add: unat_word_ariths)
  then have "unat (buf + 7) + unat (160 - 7 :: u64) < 2 ^ 64" using assms(3) by simp
  from vsnprintf_result [OF assms(1) _ this, of ?m0] obtain m1 where m1:
      "vsnprintf (buf + 7) (160 - 7) fmt args ?m0 = Some (sint (word_of_nat (length out) :: u64), m1)"
      "\<forall>i < min (length out) 152. m1 (buf + 7 + word_of_nat i) = fst (out ! i)" "m1 (buf + 7 + word_of_nat (min (length out) 152)) = 0"
      "\<forall>a. 153 \<le> unat (a - (buf + 7)) \<longrightarrow> m1 a = ?m0 a"
    by (auto simp: Let_def)
  have n: "sint (word_of_nat (length out) :: u64) = int (length out)"
    using assms(2) by (simp add: signed_of_nat signed_take_bit_int_eq_self)
  have sh: "buf + 7 + word_of_nat i = buf + word_of_nat (i + 7)" for i by simp
  have far: "153 \<le> unat (a - (buf + 7)) \<longleftrightarrow> unat (a - buf) < 7 \<or> 160 \<le> unat (a - buf)" for a
  proof -
    have "unat (a - (buf + 7)) = unat ((a - buf) - 7)" by (simp add: algebra_simps)
    moreover have "unat ((a - buf) - 7) = (if 7 \<le> unat (a - buf) then unat (a - buf) - 7 else 2 ^ 64 + unat (a - buf) - 7)"
      by (simp add: unat_sub_if_size word_size)
    ultimately show ?thesis using unat_lt_64 [of "a - buf"] by (simp split: if_splits) linarith+
  qed
  have "m1 (buf + word_of_nat j) = panic_prefix ! j" if "j < 7" for j
    using m1(4) far [of "buf + word_of_nat j"] that offset_unat [of j buf] put_bytes_at [of j panic_prefix buf m] panic_prefix_length by auto
  moreover have "m1 a = m a" if "160 \<le> unat (a - buf)" for a
    using m1(4) far [of a] that put_bytes_other [of panic_prefix a buf m] panic_prefix_length by auto
  ultimately show ?thesis using m1(1-3) n unfolding sh by (auto simp: panic_prefix_def)
qed

text \<open>
  The line \<open>panic\<close> shows for a message that fits: it ends in a newline, for which a message of 152 characters gives up its last
  one.
\<close>

definition panic_line :: "u8 list \<Rightarrow> u8 list" where
  "panic_line t = (if t \<noteq> [] \<and> last t = 10 then t else if length t = 152 then butlast t @ [10] else t @ [10])"

lemma panic_message_result:
  assumes "vsnprintf (buf + 7) (160 - 7) fmt args (put_bytes buf (ascii ''PANIC: '') m) = Some (int n, m1)" and "n < 2 ^ 31 - 7"
  shows "panic_message buf fmt args m =
    (if 154 \<le> n then Inl BufferOverrun
     else if m1 (buf + word_of_nat (n + 6)) = 10 then Inr m1
     else if n = 153 then Inl BufferOverrun
     else let q = n + 7 - (if n = 152 then 1 else 0) in Inr (m1(buf + word_of_nat q := 10, buf + word_of_nat (q + 1) := 0)))"
proof -
  have "sint (word_of_int (int (n + 7)) :: u32) = int (n + 7)"
    using assms(2) by (simp only: signed_of_int) (simp add: signed_take_bit_int_eq_self)
  then have len: "sint (word_of_int (int n + 7) :: u32) = int n + 7" by simp
  have k: "word_of_int (int n + 7 - 1) = (word_of_nat (n + 6) :: u64)" by simp
  have q: "int n + 7 - (if int n + 7 = 160 - 1 then 1 else 0) = int (n + 7 - (if n = 152 then 1 else 0))" by simp
  have s: "buf + word_of_int (int q) + 1 = buf + word_of_nat (q + 1)" "buf + word_of_int (int q) = buf + word_of_nat q" for q
    by (simp_all add: add.assoc)
  have "int n + 7 > 0" "int n + 7 - 1 \<ge> 160 \<longleftrightarrow> 154 \<le> n" by auto
  moreover have "int (n + 7 - (if n = 152 then 1 else 0)) + 1 \<ge> 160 \<longleftrightarrow> 153 \<le> n" by auto
  ultimately show ?thesis using assms(1)
    by (simp only: panic_message_def option.case prod.case Let_def len k q put_bytes_two s if_True) auto
qed

text \<open>The bytes of the buffer, by offset.\<close>

lemma message_cstr:
  assumes "\<forall>j < 7. m (buf + word_of_nat j) = panic_prefix ! j" and "\<forall>j < length t. m (buf + word_of_nat (j + 7)) = t ! j"
    and "m (buf + word_of_nat (length t + 7)) = 0" and "0 \<notin> set t"
  shows "cstr m buf (panic_prefix @ t)"
proof -
  have "m (buf + word_of_nat i) = (panic_prefix @ t) ! i \<and> (panic_prefix @ t) ! i \<noteq> 0" if "i < length (panic_prefix @ t)" for i
  proof (cases "i < 7")
    case True
    then show ?thesis using assms(1) panic_prefix_bytes by (simp add: nth_append panic_prefix_length)
  next
    case False
    then have i: "i - 7 < length t" "(panic_prefix @ t) ! i = t ! (i - 7)" using that by (auto simp: nth_append panic_prefix_length)
    have "m (buf + word_of_nat (i - 7 + 7)) = t ! (i - 7)" using assms(2) i(1) by blast
    moreover have "t ! (i - 7) \<noteq> 0" using i(1) assms(4) nth_mem by metis
    ultimately show ?thesis using False i(2) by simp
  qed
  then show ?thesis using assms(3) by (simp add: cstr_iff panic_prefix_length add.commute)
qed

text \<open>A message that fits: the newline is put at its end, or over its last byte.\<close>

lemma message_ended:
  assumes "\<forall>j < 7. m (buf + word_of_nat j) = panic_prefix ! j" and "\<forall>j < length t. m (buf + word_of_nat (j + 7)) = t ! j"
    and "0 \<notin> set t" and "length t \<le> 152" and "t = [] \<or> last t \<noteq> 10" and q: "q = length t + 7 - (if length t = 152 then 1 else 0)"
  shows "cstr (m(buf + word_of_nat q := 10, buf + word_of_nat (q + 1) := 0)) buf (panic_prefix @ panic_line t)"
proof -
  let ?t = "if length t = 152 then butlast t else t"
  have l: "panic_line t = ?t @ [10]" using assms(5) by (auto simp: panic_line_def)
  have n: "length ?t + 7 = q" using assms(4) q by auto
  have e: "buf + word_of_nat i \<noteq> buf + word_of_nat j" if "i < 200" "j < 200" "i \<noteq> j" for i j
    using that offset_eq [of i j buf] by simp
  have small: "q < 160" using q assms(4) by (auto split: if_splits)
  show ?thesis unfolding l
  proof (rule message_cstr)
    show "\<forall>j < 7. (m(buf + word_of_nat q := 10, buf + word_of_nat (q + 1) := 0)) (buf + word_of_nat j) = panic_prefix ! j"
    proof (intro allI impI)
      fix j :: nat assume j: "j < 7"
      with e [of j q] e [of j "q + 1"] n small assms(1) 
      show "(m(buf + word_of_nat q := 10, buf + word_of_nat (q + 1) := 0)) (buf + word_of_nat j) = panic_prefix ! j"
        by (simp only: fun_upd_apply) simp
    qed
    show "\<forall>j < length (?t @ [10]). (m(buf + word_of_nat q := 10, buf + word_of_nat (q + 1) := 0)) (buf + word_of_nat (j + 7)) = (?t @ [10]) ! j"
    proof (intro allI impI)
      fix j assume j: "j < length (?t @ [10])"
      have u: "buf + word_of_nat (j + 7) \<noteq> buf + word_of_nat (q + 1)" using j n small by (intro e) auto
      show "(m(buf + word_of_nat q := 10, buf + word_of_nat (q + 1) := 0)) (buf + word_of_nat (j + 7)) = (?t @ [10]) ! j"
      proof (cases "j < length ?t")
        case True
        then have "buf + word_of_nat (j + 7) \<noteq> buf + word_of_nat q" using n small by (intro e) auto
        moreover have "m (buf + word_of_nat (j + 7)) = ?t ! j" using True assms(2) by (auto simp: nth_butlast)
        ultimately show ?thesis using u True by (simp only: fun_upd_apply nth_append) simp
      next
        case False
        then have "j = length ?t" using j by simp
        then show ?thesis using u n by (simp only: fun_upd_apply nth_append) simp
      qed
    qed
    have "length (?t @ [10]) + 7 = q + 1" using n by simp
    then show "(m(buf + word_of_nat q := 10, buf + word_of_nat (q + 1) := 0)) (buf + word_of_nat (length (?t @ [10]) + 7)) = 0" by (simp only: fun_upd_same)
    show "0 \<notin> set (?t @ [10])" using assms(3) by (auto dest: in_set_butlastD)
  qed
qed

text \<open>The byte \<open>panic\<close> looks at is the message's last, or the space of the prefix.\<close>

lemma message_last:
  assumes "\<forall>j < 7. m (buf + word_of_nat j) = panic_prefix ! j" and "\<forall>j < length t. m (buf + word_of_nat (j + 7)) = t ! j"
  shows "m (buf + word_of_nat (length t + 6)) = 10 \<longleftrightarrow> t \<noteq> [] \<and> last t = 10"
proof (cases "t = []")
  case True
  then show ?thesis using assms(1) [rule_format, of 6] panic_prefix_bytes [of 6] by simp
next
  case False
  then have "m (buf + word_of_nat (length t - 1 + 7)) = t ! (length t - 1)" using assms(2) by simp
  moreover from False have "length t - 1 + 7 = length t + 6" "t ! (length t - 1) = last t" by (auto simp: last_conv_nth Suc_leI)
  ultimately show ?thesis using False by (simp add: add.commute)
qed

text \<open>
  C38. What a user program's \<open>panic\<close> writes, for any message of defined length. With more than 152 characters it reads or
  writes beyond the 160 bytes of its buffer, and only then: \<open>len\<close> is the length the whole message would have had, not what
  was stored. Otherwise it changes no byte outside the buffer, which then holds the string \<open>PANIC:\<close> and the message,
  ended by a newline; a message of exactly 152 characters without a final newline loses its last character to it.
\<close>

theorem user_panic_buffer:
  assumes fmt: "formatted 0 fmt args = Some out" and n: "length out < 2 ^ 31 - 7" and buf: "unat buf + 160 < 2 ^ 64"
  shows "case panic_message buf fmt args m of
      Inl e \<Rightarrow> e = BufferOverrun \<and> 152 < length out
    | Inr m' \<Rightarrow> length out \<le> 152 \<and> (\<forall>a. 160 \<le> unat (a - buf) \<longrightarrow> m' a = m a) \<and>
        (0 \<notin> set (map fst out) \<longrightarrow> cstr m' buf (panic_prefix @ panic_line (map fst out)))"
proof -
  let ?n = "length out" and ?t = "map fst out"
  from message_formatted [OF fmt n buf, of m] obtain m1 where
      m1: "vsnprintf (buf + 7) (160 - 7) fmt args (put_bytes buf (ascii ''PANIC: '') m) = Some (int ?n, m1)"
      "\<forall>j < 7. m1 (buf + word_of_nat j) = panic_prefix ! j" "\<forall>j < min ?n 152. m1 (buf + word_of_nat (j + 7)) = fst (out ! j)"
      "m1 (buf + word_of_nat (min ?n 152 + 7)) = 0" "\<forall>a. 160 \<le> unat (a - buf) \<longrightarrow> m1 a = m a" by blast
  define q where "q = ?n + 7 - (if ?n = 152 then 1 else 0)"
  note r = panic_message_result [OF m1(1) n, folded q_def, unfolded Let_def]
  show ?thesis
  proof (cases "?n \<le> 152")
    case True
    have shown: "\<forall>j < length ?t. m1 (buf + word_of_nat (j + 7)) = ?t ! j" using m1(3) True by simp
    have nul: "m1 (buf + word_of_nat (length ?t + 7)) = 0" using m1(4) True by simp
    have l: "m1 (buf + word_of_nat (?n + 6)) = 10 \<longleftrightarrow> ?t \<noteq> [] \<and> last ?t = 10" using message_last [OF m1(2) shown] by simp
    show ?thesis
    proof (cases "m1 (buf + word_of_nat (?n + 6)) = 10")
      case ends: True
      have "0 \<notin> set ?t \<longrightarrow> cstr m1 buf (panic_prefix @ panic_line ?t)"
        using message_cstr [OF m1(2) shown nul] l ends by (simp add: panic_line_def)
      with r ends m1(5) True show ?thesis by simp
    next
      case False
      have "?t = [] \<or> last ?t \<noteq> 10" using l False by blast
      from message_ended [OF m1(2) shown _ _ this, of q] True
      have "0 \<notin> set ?t \<longrightarrow> cstr (m1(buf + word_of_nat q := 10, buf + word_of_nat (q + 1) := 0)) buf (panic_prefix @ panic_line ?t)"
        by (simp add: q_def)
      moreover have "(m1(buf + word_of_nat q := 10, buf + word_of_nat (q + 1) := 0)) a = m a" if a: "160 \<le> unat (a - buf)" for a
      proof -
        have "q + 1 < 160" using True by (simp add: q_def)
        then have "a \<noteq> buf + word_of_nat q" "a \<noteq> buf + word_of_nat (q + 1)" using a offset_unat [of q buf] offset_unat [of "q + 1" buf] by auto
        with m1(5) a show ?thesis by simp
      qed
      ultimately show ?thesis using r False True by simp
    qed
  next
    case False
    have "m1 (buf + word_of_nat (?n + 6)) \<noteq> 10" if "?n = 153" using m1(4) that by simp
    then have "panic_message buf fmt args m = Inl BufferOverrun" unfolding r using False by (cases "?n = 153") auto
    with False show ?thesis by simp
  qed
qed

text \<open>Messages of 152 and 153 letters.\<close>

theorem user_panic_buffer_witness:
  "(\<exists>m'. panic_message 0x1000 (replicate 152 65) [] (\<lambda>_. 7) = Inr m' \<and> m' 0x10A0 = 7 \<and>
      cstr m' 0x1000 (panic_prefix @ replicate 151 65 @ [10])) \<and>
   panic_message 0x1000 (replicate 153 65) [] (\<lambda>_. 7) = Inl BufferOverrun"
proof -
  have f: "formatted 0 (replicate k 65) [] = Some (replicate k (65, 0))" for k by (induction k) simp_all
  note u = user_panic_buffer [OF f, where buf = "0x1000" and m = "\<lambda>_. 7"]
  have "last (replicate 152 (65 :: u8)) = 65" by (rule last_replicate) simp
  then have "panic_line (replicate 152 65) = replicate 151 65 @ [10]" by (simp add: panic_line_def butlast_conv_take)
  with u [of 152] u [of 153] show ?thesis by (auto split: sum.splits)
qed

section \<open>The end\<close>

text \<open>
  \<open>sys_panic\<close>, and with it a failed user program, does not come back, and no other process runs. The same holds for the calls
  the kernel does not implement.
\<close>

lemma panic_ends: "panic msg u \<noteq> return y x" "panic msg u \<noteq> stop (Resumed j) x"
  using panic_plain [OF refl refl, of u msg] by (auto simp: panic_def Let_def andthen_return plain_def)

lemma sys_panic_ends: "sys_panic M msg r s \<noteq> return v t" "sys_panic M msg r s \<noteq> stop (Resumed j) t"
  by (auto simp: sys_panic_def syscall_switch entry_never_resumes panic_ends)

lemma user_panic_ends: "user_panic M buf fmt args r s \<noteq> return v t" "user_panic M buf fmt args r s \<noteq> stop (Resumed j) t"
  by (auto simp: user_panic_def k_print_def andthen_return andthen_cases sys_panic_ends split: option.splits sum.splits)

lemma sys_fork_ends: "sys_fork M r s \<noteq> return v t" "sys_fork M r s \<noteq> stop (Resumed j) t"
  by (auto simp: sys_fork_def syscall_switch syscall_fork_def unexpected_syscall_def entry_never_resumes panic_ends)

lemma sys_exit_ends: "sys_exit M msg r s \<noteq> return v t" "sys_exit M msg r s \<noteq> stop (Resumed j) t"
  by (auto simp: sys_exit_def syscall_switch syscall_exit_def unexpected_syscall_def entry_never_resumes panic_ends sys_panic_ends)

end
